(* ===== verification/Pb_Prelude.thy ===== *)
theory Pb_Prelude
  imports Main "HOL-Library.Word" "HOL-Library.Monad_Syntax" "HOL-Library.Code_Target_Nat"
begin

text \<open>
  Shared vocabulary of the development: the byte and word types of the C sources, the collections
  of facts the component proofs use, little-endian byte sequences, and the generic lemmas on
  options, lists and words.

  A C function is modelled as a function into \<open>option\<close>. \<open>None\<close> means that the C execution has no
  defined result: an access to memory that is not allocated, an index outside a constant table, a
  call through a null function pointer, or a call depth (or loop count) beyond the fuel given.
  A theorem that states \<open>f x = Some y\<close> therefore states memory safety and termination as well.
\<close>

unbundle bit_operations_syntax

named_theorems pb_defs \<open>definitions of the straight-line operations\<close>
named_theorems pb_mem \<open>facts on loads and stores\<close>
named_theorems pb_stream \<open>facts on streams\<close>

type_synonym byte = "8 word"
type_synonym u32 = "32 word"
type_synonym u64 = "64 word"
type_synonym addr = nat

subsection \<open>The option monad\<close>

lemma bind_Some_conv [simp]:
  "(Option.bind x f = Some y) \<longleftrightarrow> (\<exists>z. x = Some z \<and> f z = Some y)"
  by (cases x) auto

lemma bind_eq_SomeI: "x = Some z \<Longrightarrow> f z = Some y \<Longrightarrow> Option.bind x f = Some y"
  by simp

text \<open>\<open>ole x y\<close>: wherever \<open>x\<close> has a result, \<open>y\<close> has the same one. The rules follow the shape of a
  definition, so that monotonicity of an operation is proved by applying them.\<close>

definition ole :: "'a option \<Rightarrow> 'a option \<Rightarrow> bool" where
  "ole x y \<longleftrightarrow> (\<forall>v. x = Some v \<longrightarrow> y = Some v)"

lemma oleI: "(\<And>v. x = Some v \<Longrightarrow> y = Some v) \<Longrightarrow> ole x y"
  by (simp add: ole_def)

lemma oleD: "ole x y \<Longrightarrow> x = Some v \<Longrightarrow> y = Some v"
  by (simp add: ole_def)

lemma ole_refl [intro]: "ole x x"
  by (simp add: ole_def)

lemma ole_None [intro]: "ole None x"
  by (simp add: ole_def)

lemma ole_if: "ole x x' \<Longrightarrow> ole y y' \<Longrightarrow> ole (if c then x else y) (if c then x' else y')"
  by simp

lemma ole_bind: "ole x y \<Longrightarrow> (\<And>v. ole (f v) (g v)) \<Longrightarrow> ole (Option.bind x f) (Option.bind y g)"
  by (auto simp: ole_def)

lemma ole_map: "ole x y \<Longrightarrow> ole (map_option f x) (map_option f y)"
  by (auto simp: ole_def)

lemma ole_prod: "(\<And>a b. ole (f a b) (g a b)) \<Longrightarrow> ole (case p of (a, b) \<Rightarrow> f a b) (case p of (a, b) \<Rightarrow> g a b)"
  by (cases p) simp

lemmas ole_intros = ole_refl ole_if ole_bind ole_map ole_prod

subsection \<open>Little-endian byte sequences\<close>

text \<open>The platform is little-endian: the first byte in memory is the least significant one.\<close>

primrec le_bytes :: "nat \<Rightarrow> nat \<Rightarrow> byte list" where
  "le_bytes 0 v = []"
| "le_bytes (Suc n) v = word_of_nat v # le_bytes n (v div 256)"

primrec le_nat :: "byte list \<Rightarrow> nat" where
  "le_nat [] = 0"
| "le_nat (b # bs) = unat b + 256 * le_nat bs"

lemma length_le_bytes [simp]: "length (le_bytes n v) = n"
  by (induction n arbitrary: v) auto

lemma unat_byte_of_nat: "unat (word_of_nat v :: byte) = v mod 256"
  by (simp add: unat_of_nat)

lemma le_nat_le_bytes [simp]: "le_nat (le_bytes n v) = v mod 256 ^ n"
proof (induction n arbitrary: v)
  case 0
  show ?case by simp
next
  case (Suc n)
  show ?case
    by (simp add: Suc.IH unat_byte_of_nat mod_mult2_eq)
qed

lemma le_bytes_4:
  "le_bytes 4 v = [word_of_nat v, word_of_nat (v div 2 ^ 8), word_of_nat (v div 2 ^ 16),
     word_of_nat (v div 2 ^ 24)]"
proof -
  have "(4 :: nat) = Suc (Suc (Suc (Suc 0)))" by simp
  then have "le_bytes 4 v = le_bytes (Suc (Suc (Suc (Suc 0)))) v" by (rule arg_cong)
  then show ?thesis by (simp only: le_bytes.simps) (simp add: div_mult2_eq [symmetric])
qed

lemma le_bytes_8:
  "le_bytes 8 v = [word_of_nat v, word_of_nat (v div 2 ^ 8), word_of_nat (v div 2 ^ 16),
     word_of_nat (v div 2 ^ 24), word_of_nat (v div 2 ^ 32), word_of_nat (v div 2 ^ 40),
     word_of_nat (v div 2 ^ 48), word_of_nat (v div 2 ^ 56)]"
proof -
  have "(8 :: nat) = Suc (Suc (Suc (Suc (Suc (Suc (Suc (Suc 0)))))))" by simp
  then have "le_bytes 8 v = le_bytes (Suc (Suc (Suc (Suc (Suc (Suc (Suc (Suc 0)))))))) v"
    by (rule arg_cong)
  then show ?thesis by (simp only: le_bytes.simps) (simp add: div_mult2_eq [symmetric])
qed

lemma le_nat_less: "le_nat bs < 256 ^ length bs"
proof (induction bs)
  case Nil
  show ?case by simp
next
  case (Cons b bs)
  have "unat b < 256" using unsigned_less [of b] by simp
  with Cons.IH show ?case by simp
qed

lemma le_bytes_le_nat: "length bs = n \<Longrightarrow> le_bytes n (le_nat bs) = bs"
proof (induction n arbitrary: bs)
  case 0
  then show ?case by simp
next
  case (Suc n)
  then obtain b cs where bs: "bs = b # cs" and l: "length cs = n"
    by (cases bs) auto
  have b: "unat b < 256" using unsigned_less [of b] by simp
  have "(word_of_nat (unat b + 256 * le_nat cs) :: byte) = word_of_nat (unat b)"
    unfolding word_of_nat_eq_iff by (simp add: take_bit_eq_mod)
  moreover have "(unat b + 256 * le_nat cs) div 256 = le_nat cs" using b by simp
  ultimately show ?case using Suc.IH [OF l] by (simp add: bs)
qed

lemma le_bytes_inj: "v < 256 ^ n \<Longrightarrow> w < 256 ^ n \<Longrightarrow> le_bytes n v = le_bytes n w \<longleftrightarrow> v = w"
  by (metis le_nat_le_bytes mod_less)

lemma le_bytes_nth: "i < n \<Longrightarrow> le_bytes n v ! i = word_of_nat (v div 256 ^ i)"
proof (induction n arbitrary: i v)
  case 0
  then show ?case by simp
next
  case (Suc n)
  then show ?case by (cases i) (simp_all add: div_mult2_eq)
qed

subsection \<open>Words\<close>

lemma unat_ucast_le [simp]:
  "LENGTH('a::len) \<le> LENGTH('b::len) \<Longrightarrow> unat (ucast (x :: 'a word) :: 'b word) = unat x"
  by (simp add: unsigned_ucast_eq take_bit_nat_eq_self_iff less_le_trans [OF unsigned_less])

lemma unat_u64_less: "unat (x :: u64) < 18446744073709551616"
  using unsigned_less [of x] by simp

lemma unat_u32_less: "unat (x :: u32) < 4294967296"
  using unsigned_less [of x] by simp

lemma unat_byte_less: "unat (x :: byte) < 256"
  using unsigned_less [of x] by simp

lemma unat_of_nat_small: "n < 2 ^ LENGTH('a::len) \<Longrightarrow> unat (word_of_nat n :: 'a word) = n"
  by (simp add: unat_of_nat)

lemma word_eq_of_nat: "unat (x :: 'a::len word) = n \<Longrightarrow> x = word_of_nat n"
  by auto

lemma unat_max_u64: "unat (- 1 :: u64) = 18446744073709551615"
  by (simp add: unsigned_minus_1_eq_mask mask_eq_exp_minus_1)

lemma unat_max_u32: "unat (- 1 :: u32) = 4294967295"
  by (simp add: unsigned_minus_1_eq_mask mask_eq_exp_minus_1)

lemma unat_minus_le: "(b :: 'a::len word) \<le> a \<Longrightarrow> unat (a - b) = unat a - unat b"
  by (rule unat_sub)

lemma and_127_eq_mod: "(x :: 'a::len word) AND 127 = x mod 128"
proof -
  have "x AND 127 = take_bit 7 x"
    by (simp add: take_bit_eq_mask mask_eq_exp_minus_1)
  then show ?thesis by (simp add: take_bit_eq_mod)
qed

lemma unat_byte_and_127: "unat ((x :: byte) AND 127) = unat x mod 128"
  by (simp add: and_127_eq_mod unat_mod_distrib)

lemma unat_u64_and_127: "unat ((x :: u64) AND 127) = unat x mod 128"
  by (simp add: and_127_eq_mod unat_mod_distrib)

lemma and_128_zero_iff: "((b :: byte) AND 128 = 0) \<longleftrightarrow> unat b < 128"
proof -
  have "(b AND 128 = 0) \<longleftrightarrow> \<not> bit b 7"
    by (simp add: bit_iff_and_push_bit_not_eq_0 push_bit_eq_mult)
  also have "\<dots> \<longleftrightarrow> \<not> bit (unat b) 7" by (simp add: bit_unsigned_iff)
  also have "\<dots> \<longleftrightarrow> even (unat b div 2 ^ 7)" by (simp only: bit_iff_odd not_not)
  also have "\<dots> \<longleftrightarrow> unat b < 128"
  proof -
    have "n < 256 \<Longrightarrow> even (n div 2 ^ 7) \<longleftrightarrow> n < 128" for n :: nat
      by (cases "n < 128") (simp_all add: div_nat_eqI [where q = 1])
    then show ?thesis using unat_byte_less [of b] by blast
  qed
  finally show ?thesis .
qed

lemma byte_low_bits:
  "(ucast (b AND 127 :: byte) :: 'a::len word) = word_of_nat (unat b mod 128)"
  by (simp flip: unat_byte_and_127)

lemma word_varint_step:
  "(word_of_nat (unat (b :: byte) mod 128 + 128 * v) :: 'a::len word) =
     ucast (b AND 127) OR push_bit 7 (word_of_nat v)"
proof -
  have "ucast (b AND 127) = (take_bit 7 (ucast b) :: 'a word)"
    by (auto simp: take_bit_eq_mask mask_eq_exp_minus_1 bit_eq_iff bit_simps dest: bit_imp_le_length)
  then have "ucast (b AND 127) AND push_bit 7 (word_of_nat v :: 'a word) = 0"
    by (simp add: bit_eq_iff bit_simps)
  then have "ucast (b AND 127) OR push_bit 7 (word_of_nat v) =
     (ucast (b AND 127) + push_bit 7 (word_of_nat v) :: 'a word)"
    by (simp add: disjunctive_add_eq_or)
  then show ?thesis by (simp add: byte_low_bits push_bit_eq_mult mult.commute)
qed

lemma push_bit_or: "push_bit n (x OR y) = push_bit n x OR push_bit n (y :: 'a::len word)"
  by (simp add: bit_eq_iff bit_simps)

lemma byte_overflow_bits: "unat b < 128 \<Longrightarrow> (b AND 0x70 = 0) \<longleftrightarrow> unat (b :: byte) < 16"
proof -
  assume b: "unat b < 128"
  have "list_all (\<lambda>n. ((word_of_nat n :: byte) AND 0x70 = 0) = (n < 16)) [0 ..< 128]"
    by code_simp
  then have "\<forall>n \<in> {0 ..< 128}. ((word_of_nat n :: byte) AND 0x70 = 0) = (n < 16)"
    by (simp only: list_all_iff set_upt)
  from bspec [OF this, of "unat b"] b show ?thesis by simp
qed

end
