(* ===== verification/Pb_Memory.thy ===== *)
theory Pb_Memory
  imports Pb_Prelude
begin

text \<open>
  The memory the C code runs in: a partial map from addresses to bytes (an address outside its
  domain is not allocated), the live blocks of the C heap, and the outcome of each allocation
  request still to come. The operations are the loads and stores of the C expressions in the
  sources (\<open>*(pb_size_t*)p\<close>, \<open>*(void**)p\<close>, \<open>dest[i] = b\<close>) and the library functions \<open>memset\<close>,
  \<open>memcpy\<close>, \<open>realloc\<close> and \<open>free\<close>, for a little-endian platform with 64-bit pointers and
  \<open>size_t\<close>. Address 0 is the null pointer.
\<close>

record cmem =
  mem_bytes :: "addr \<Rightarrow> byte option"
  mem_blocks :: "addr \<Rightarrow> nat option"
  mem_brk :: addr
  mem_fill :: "addr \<Rightarrow> byte"
  mem_grants :: "bool list"

subsection \<open>Loads and stores\<close>

definition load8 :: "cmem \<Rightarrow> addr \<Rightarrow> byte option" where
  "load8 m a = mem_bytes m a"

definition store8 :: "cmem \<Rightarrow> addr \<Rightarrow> byte \<Rightarrow> cmem option" where
  "store8 m a b = (case mem_bytes m a of
     None \<Rightarrow> None
   | Some _ \<Rightarrow> Some (m\<lparr>mem_bytes := (mem_bytes m)(a \<mapsto> b)\<rparr>))"

primrec load_bytes :: "cmem \<Rightarrow> addr \<Rightarrow> nat \<Rightarrow> byte list option" where
  "load_bytes m a 0 = Some []"
| "load_bytes m a (Suc n) = do {
     b \<leftarrow> load8 m a;
     bs \<leftarrow> load_bytes m (Suc a) n;
     Some (b # bs) }"

primrec store_bytes :: "cmem \<Rightarrow> addr \<Rightarrow> byte list \<Rightarrow> cmem option" where
  "store_bytes m a [] = Some m"
| "store_bytes m a (b # bs) = do {
     m' \<leftarrow> store8 m a b;
     store_bytes m' (Suc a) bs }"

definition load_nat :: "cmem \<Rightarrow> addr \<Rightarrow> nat \<Rightarrow> nat option" where
  "load_nat m a n = map_option le_nat (load_bytes m a n)"

definition store_nat :: "cmem \<Rightarrow> addr \<Rightarrow> nat \<Rightarrow> nat \<Rightarrow> cmem option" where
  "store_nat m a n v = store_bytes m a (le_bytes n v)"

definition load_u32 :: "cmem \<Rightarrow> addr \<Rightarrow> u32 option" where
  "load_u32 m a = map_option word_of_nat (load_nat m a 4)"

definition store_u32 :: "cmem \<Rightarrow> addr \<Rightarrow> u32 \<Rightarrow> cmem option" where
  "store_u32 m a v = store_nat m a 4 (unat v)"

definition load_ptr :: "cmem \<Rightarrow> addr \<Rightarrow> addr option" where
  "load_ptr m a = load_nat m a 8"

definition store_ptr :: "cmem \<Rightarrow> addr \<Rightarrow> addr \<Rightarrow> cmem option" where
  "store_ptr m a p = store_nat m a 8 p"

definition load_bool :: "cmem \<Rightarrow> addr \<Rightarrow> bool option" where
  "load_bool m a = map_option (\<lambda>b. b \<noteq> 0) (load8 m a)"

definition store_bool :: "cmem \<Rightarrow> addr \<Rightarrow> bool \<Rightarrow> cmem option" where
  "store_bool m a v = store8 m a (if v then 1 else 0)"

text \<open>Pointer arithmetic with a signed offset.\<close>

definition ptr_add :: "addr \<Rightarrow> int \<Rightarrow> addr" where
  "ptr_add p off = nat (int p + off)"

subsection \<open>Library functions\<close>

definition memset0 :: "cmem \<Rightarrow> addr \<Rightarrow> nat \<Rightarrow> cmem option" where
  "memset0 m a n = store_bytes m a (replicate n 0)"

definition memcpy :: "cmem \<Rightarrow> addr \<Rightarrow> addr \<Rightarrow> nat \<Rightarrow> cmem option" where
  "memcpy m dst src n = do { bs \<leftarrow> load_bytes m src n; store_bytes m dst bs }"

text \<open>
  \<open>free\<close> accepts the null pointer and the start of a live block; anything else is undefined. The
  bytes of a freed block are no longer allocated.
\<close>

definition c_free :: "cmem \<Rightarrow> addr \<Rightarrow> cmem option" where
  "c_free m p = (if p = 0 then Some m else
     case mem_blocks m p of
       None \<Rightarrow> None
     | Some n \<Rightarrow> Some (m\<lparr>mem_blocks := (mem_blocks m)(p := None),
         mem_bytes := (\<lambda>a. if p \<le> a \<and> a < p + n then None else mem_bytes m a)\<rparr>))"

text \<open>
  \<open>realloc(p, n)\<close> consumes one element of \<open>mem_grants\<close> to decide whether the request succeeds (no
  element left means it does), so every pattern of allocation failures is covered. A granted
  block is placed at \<open>mem_brk\<close>, above every address used so far, with arbitrary contents
  \<open>mem_fill\<close>; the contents of the old block are copied and the old block is freed. On failure the
  result is the null pointer and the old block stays.
\<close>

definition c_malloc :: "cmem \<Rightarrow> nat \<Rightarrow> addr \<times> cmem" where
  "c_malloc m n =
     (let ok = (case mem_grants m of [] \<Rightarrow> True | g # _ \<Rightarrow> g);
          m' = m\<lparr>mem_grants := tl (mem_grants m)\<rparr>
      in if \<not> ok \<or> mem_brk m = 0 \<or> 2 ^ 64 \<le> mem_brk m + n then (0, m')
         else (mem_brk m,
           m'\<lparr>mem_blocks := (mem_blocks m)(mem_brk m \<mapsto> n),
              mem_bytes := (\<lambda>a. if mem_brk m \<le> a \<and> a < mem_brk m + n
                                 then Some (mem_fill m a) else mem_bytes m a),
              mem_brk := mem_brk m + max 1 n\<rparr>))"

definition c_realloc :: "cmem \<Rightarrow> addr \<Rightarrow> nat \<Rightarrow> (addr \<times> cmem) option" where
  "c_realloc m p n =
     (if p = 0 then Some (c_malloc m n) else
      case mem_blocks m p of
        None \<Rightarrow> None
      | Some old \<Rightarrow>
          (let (q, m1) = c_malloc m n in
           if q = 0 then Some (0, m1)
           else do {
             m2 \<leftarrow> memcpy m1 q p (min old n);
             m3 \<leftarrow> c_free m2 p;
             Some (q, m3) }))"

subsection \<open>Facts on loads and stores\<close>

definition valid :: "cmem \<Rightarrow> addr \<Rightarrow> nat \<Rightarrow> bool" where
  "valid m a n \<longleftrightarrow> (\<forall>x \<in> {a ..< a + n}. mem_bytes m x \<noteq> None)"

lemma valid_0 [simp]: "valid m a 0"
  by (simp add: valid_def)

lemma valid_Suc: "valid m a (Suc n) \<longleftrightarrow> mem_bytes m a \<noteq> None \<and> valid m (Suc a) n"
proof -
  have "{a ..< a + Suc n} = insert a {Suc a ..< Suc a + n}" by auto
  then show ?thesis by (simp add: valid_def)
qed

lemma valid_sub: "valid m a n \<Longrightarrow> a \<le> b \<Longrightarrow> b + k \<le> a + n \<Longrightarrow> valid m b k"
  by (auto simp: valid_def)

lemma valid_split: "valid m a (n + k) \<longleftrightarrow> valid m a n \<and> valid m (a + n) k"
proof -
  have "{a ..< a + (n + k)} = {a ..< a + n} \<union> {a + n ..< a + n + k}" by auto
  then show ?thesis by (auto simp: valid_def)
qed

lemma valid_cong: "dom (mem_bytes m) = dom (mem_bytes m') \<Longrightarrow> valid m a n = valid m' a n"
  by (auto simp: valid_def dom_def set_eq_iff)

lemma load_bytes_None_iff: "load_bytes m a n = None \<longleftrightarrow> \<not> valid m a n"
  by (induction n arbitrary: a) (auto simp: valid_Suc load8_def bind_eq_None_conv)

lemma valid_load_bytes: "valid m a n \<Longrightarrow> \<exists>bs. load_bytes m a n = Some bs \<and> length bs = n"
proof (induction n arbitrary: a)
  case 0
  show ?case by simp
next
  case (Suc n)
  then show ?case by (force simp: valid_Suc load8_def)
qed

lemma load_bytes_length: "load_bytes m a n = Some bs \<Longrightarrow> length bs = n"
  by (induction n arbitrary: a bs) auto

lemma load_bytes_nth:
  "load_bytes m a n = Some bs \<Longrightarrow> i < n \<Longrightarrow> mem_bytes m (a + i) = Some (bs ! i)"
proof (induction n arbitrary: a bs i)
  case 0
  then show ?case by simp
next
  case (Suc n)
  from Suc.prems obtain b cs where "mem_bytes m a = Some b" "load_bytes m (Suc a) n = Some cs"
    and "bs = b # cs" by (auto simp: load8_def)
  then show ?case using Suc.IH [of "Suc a" cs "i - 1"] Suc.prems(2) by (cases i) auto
qed

lemma load_bytes_cong:
  "(\<And>x. a \<le> x \<Longrightarrow> x < a + n \<Longrightarrow> mem_bytes m x = mem_bytes m' x) \<Longrightarrow>
   load_bytes m a n = load_bytes m' a n"
proof (induction n arbitrary: a)
  case 0
  show ?case by simp
next
  case (Suc n)
  have "load_bytes m (Suc a) n = load_bytes m' (Suc a) n"
    by (rule Suc.IH) (simp add: Suc.prems)
  moreover have "load8 m a = load8 m' a" by (simp add: load8_def Suc.prems)
  ultimately show ?case by simp
qed

lemma load_bytes_eqI:
  assumes "length bs = n" "\<And>i. i < n \<Longrightarrow> mem_bytes m (a + i) = Some (bs ! i)"
  shows "load_bytes m a n = Some bs"
proof -
  have "valid m a n"
    unfolding valid_def
  proof
    fix x assume "x \<in> {a ..< a + n}"
    then have "a + (x - a) = x" "x - a < n" by auto
    then show "mem_bytes m x \<noteq> None" using assms(2) [of "x - a"] by simp
  qed
  then obtain cs where cs: "load_bytes m a n = Some cs" "length cs = n"
    using valid_load_bytes by blast
  have "cs = bs"
    using cs assms by (intro nth_equalityI) (auto dest: load_bytes_nth)
  with cs show ?thesis by simp
qed

lemma load_bytes_append:
  "load_bytes m a (n + k) = do {
     bs \<leftarrow> load_bytes m a n; cs \<leftarrow> load_bytes m (a + n) k; Some (bs @ cs) }"
  by (induction n arbitrary: a) (auto simp: Option.bind_assoc split: bind_splits)

lemma load_bytes_drop:
  assumes "load_bytes m a n = Some bs" and "k \<le> n"
  shows "load_bytes m (a + k) (n - k) = Some (drop k bs)"
    and "load_bytes m a k = Some (take k bs)"
proof -
  have len: "length bs = n" using assms(1) by (rule load_bytes_length)
  have "load_bytes m a (k + (n - k)) = Some bs" using assms by simp
  then obtain cs ds where "load_bytes m a k = Some cs" "load_bytes m (a + k) (n - k) = Some ds"
    and "bs = cs @ ds"
    unfolding load_bytes_append by auto
  moreover from this have "length cs = k" by (intro load_bytes_length)
  ultimately show "load_bytes m (a + k) (n - k) = Some (drop k bs)"
    "load_bytes m a k = Some (take k bs)" by simp_all
qed

text \<open>The memory after a store, in closed form.\<close>

definition upd_bytes :: "cmem \<Rightarrow> addr \<Rightarrow> byte list \<Rightarrow> cmem" where
  "upd_bytes m a bs = m\<lparr>mem_bytes :=
     (\<lambda>x. if a \<le> x \<and> x < a + length bs then Some (bs ! (x - a)) else mem_bytes m x)\<rparr>"

lemma upd_bytes_Nil [simp]: "upd_bytes m a [] = m"
  by (auto simp: upd_bytes_def fun_eq_iff intro!: cmem.equality)

lemma upd_bytes_Cons:
  "upd_bytes m a (b # bs) = upd_bytes (m\<lparr>mem_bytes := (mem_bytes m)(a \<mapsto> b)\<rparr>) (Suc a) bs"
  by (auto simp: upd_bytes_def fun_eq_iff nth_Cons' intro!: cmem.equality)

lemma store_bytes_eq:
  "store_bytes m a bs = (if valid m a (length bs) then Some (upd_bytes m a bs) else None)"
proof (induction bs arbitrary: m a)
  case Nil
  show ?case by simp
next
  case (Cons b bs)
  let ?m = "m\<lparr>mem_bytes := (mem_bytes m)(a \<mapsto> b)\<rparr>"
  show ?case
  proof (cases "mem_bytes m a")
    case None
    then show ?thesis by (simp add: store8_def valid_Suc)
  next
    case (Some c)
    have "valid ?m (Suc a) (length bs) = valid m (Suc a) (length bs)"
      by (rule valid_cong) (use Some in \<open>auto\<close>)
    with Some show ?thesis
      by (simp add: store8_def valid_Suc Cons.IH upd_bytes_Cons)
  qed
qed

lemma store_bytes_Some_iff:
  "store_bytes m a bs = Some m' \<longleftrightarrow> valid m a (length bs) \<and> m' = upd_bytes m a bs"
  by (auto simp: store_bytes_eq)

lemma mem_bytes_upd_bytes:
  "mem_bytes (upd_bytes m a bs) x =
     (if a \<le> x \<and> x < a + length bs then Some (bs ! (x - a)) else mem_bytes m x)"
  by (simp add: upd_bytes_def)

lemma upd_bytes_frame [simp]:
  "mem_blocks (upd_bytes m a bs) = mem_blocks m"
  "mem_brk (upd_bytes m a bs) = mem_brk m"
  "mem_fill (upd_bytes m a bs) = mem_fill m"
  "mem_grants (upd_bytes m a bs) = mem_grants m"
  by (simp_all add: upd_bytes_def)

lemma dom_upd_bytes:
  "valid m a (length bs) \<Longrightarrow> dom (mem_bytes (upd_bytes m a bs)) = dom (mem_bytes m)"
  by (auto simp: dom_def mem_bytes_upd_bytes valid_def)

lemma valid_upd_bytes [simp]:
  "valid m a (length bs) \<Longrightarrow> valid (upd_bytes m a bs) p n = valid m p n"
  by (rule valid_cong) (rule dom_upd_bytes)

lemma load_upd_same [simp]:
  "length bs = n \<Longrightarrow> load_bytes (upd_bytes m a bs) a n = Some bs"
  by (rule load_bytes_eqI) (simp_all add: mem_bytes_upd_bytes)

lemma load_upd_other:
  "p + n \<le> a \<or> a + length bs \<le> p \<Longrightarrow> load_bytes (upd_bytes m a bs) p n = load_bytes m p n"
  by (rule load_bytes_cong) (auto simp: mem_bytes_upd_bytes)

lemma upd_bytes_append:
  "upd_bytes (upd_bytes m a bs) (a + length bs) cs = upd_bytes m a (bs @ cs)"
  by (auto simp: upd_bytes_def fun_eq_iff nth_append intro!: cmem.equality)

text \<open>A range of addresses apart from a set.\<close>

lemma apart_sub:
  assumes "{a ..< a + n} \<inter> F = {}" and "a \<le> b" and "b + k \<le> a + (n :: nat)"
  shows "{b ..< b + k} \<inter> F = {}"
proof -
  have "{b ..< b + k} \<subseteq> {a ..< a + n}" using assms(2,3) by auto
  with assms(1) show ?thesis by blast
qed

lemma apart_notin: "{a ..< a + n} \<inter> F = {} \<Longrightarrow> x \<in> F \<Longrightarrow> a \<le> x \<Longrightarrow> \<not> x < a + (n :: nat)"
  by force

subsection \<open>Inclusion of memories\<close>

text \<open>\<open>mem_le src m\<close>: every byte allocated in \<open>src\<close> is allocated in \<open>m\<close> with the same contents. A
  load that succeeds in \<open>src\<close> gives the same value in \<open>m\<close>.\<close>

definition mem_le :: "cmem \<Rightarrow> cmem \<Rightarrow> bool" where
  "mem_le src m \<longleftrightarrow> mem_bytes src \<subseteq>\<^sub>m mem_bytes m"

lemma mem_le_refl [simp]: "mem_le m m"
  by (simp add: mem_le_def)

lemma load8_mono: "mem_le src m \<Longrightarrow> load8 src a = Some b \<Longrightarrow> load8 m a = Some b"
  by (auto simp: mem_le_def map_le_def load8_def dom_def)

lemma load_bytes_mono: "mem_le src m \<Longrightarrow> load_bytes src a n = Some bs \<Longrightarrow> load_bytes m a n = Some bs"
  by (induction n arbitrary: a bs) (auto dest: load8_mono)

lemma load_nat_mono: "mem_le src m \<Longrightarrow> load_nat src a n = Some v \<Longrightarrow> load_nat m a n = Some v"
  by (auto simp: load_nat_def dest: load_bytes_mono)

lemma load_u32_mono: "mem_le src m \<Longrightarrow> load_u32 src a = Some v \<Longrightarrow> load_u32 m a = Some v"
  by (auto simp: load_u32_def dest: load_nat_mono)

lemma load_ptr_mono: "mem_le src m \<Longrightarrow> load_ptr src a = Some v \<Longrightarrow> load_ptr m a = Some v"
  by (auto simp: load_ptr_def dest: load_nat_mono)

lemma load_bool_mono: "mem_le src m \<Longrightarrow> load_bool src a = Some v \<Longrightarrow> load_bool m a = Some v"
  by (auto simp: load_bool_def dest: load8_mono)

lemmas load_mono = load8_mono load_bytes_mono load_nat_mono load_u32_mono load_ptr_mono
  load_bool_mono

lemma mem_le_upd:
  "mem_le src m \<Longrightarrow> (\<And>x. a \<le> x \<Longrightarrow> x < a + length bs \<Longrightarrow> mem_bytes src x = None) \<Longrightarrow>
   mem_le src (upd_bytes m a bs)"
  by (auto simp: mem_le_def map_le_def mem_bytes_upd_bytes)

subsection \<open>Concrete memories\<close>

text \<open>The memory that holds the bytes \<open>bs\<close> at \<open>a\<close> and nothing else.\<close>

definition mem_at :: "addr \<Rightarrow> byte list \<Rightarrow> cmem" where
  "mem_at a bs = \<lparr>mem_bytes = (\<lambda>x. if a \<le> x \<and> x < a + length bs then Some (bs ! (x - a)) else None),
     mem_blocks = (\<lambda>_. None), mem_brk = 0, mem_fill = (\<lambda>_. 0), mem_grants = []\<rparr>"

lemma mem_le_mem_at: "mem_le (mem_at a bs) (mem_at a (bs @ cs))"
  by (auto simp: mem_le_def map_le_def mem_at_def nth_append split: if_splits)

lemma valid_mem_at: "a \<le> p \<Longrightarrow> p + n \<le> a + length bs \<Longrightarrow> valid (mem_at a bs) p n"
  by (auto simp: valid_def mem_at_def)

lemma mem_bytes_mem_at_None: "x < a \<or> a + length bs \<le> x \<Longrightarrow> mem_bytes (mem_at a bs) x = None"
  by (auto simp: mem_at_def)

end
