(* ===== verification/Pb_Types.thy ===== *)
theory Pb_Types
  imports Pb_Memory
begin

text \<open>
  The declarations of \<^verbatim>\<open>nanopb/pb.h\<close>, \<^verbatim>\<open>pb_common.h\<close>, \<^verbatim>\<open>pb_encode.h\<close> and \<^verbatim>\<open>pb_decode.h\<close>: the
  type byte of a field and its three parts, field descriptors and the macros that build them, the
  two stream structures, the field iterator and the extension type. The configuration is the one
  of the build (\<^verbatim>\<open>nanopb.xcconfig\<close>): \<open>PB_FIELD_32BIT\<close>, \<open>PB_NO_PACKED_STRUCTS\<close> and
  \<open>PB_ENABLE_MALLOC\<close> are defined, error messages and custom streams are enabled.

  Code and constant data that the library only calls or reads through pointers (stream callbacks,
  field callbacks, extension handlers, descriptor arrays) are the environment \<open>pb_env\<close>, a
  parameter of every operation that uses it.
\<close>

subsection \<open>The type byte of a field\<close>

type_synonym pb_type_t = byte
type_synonym pb_size_t = u32
type_synonym pb_wire_type_t = u32

definition PB_LTYPE_VARINT :: pb_type_t where [simp]: "PB_LTYPE_VARINT = 0x00"
definition PB_LTYPE_UVARINT :: pb_type_t where [simp]: "PB_LTYPE_UVARINT = 0x01"
definition PB_LTYPE_SVARINT :: pb_type_t where [simp]: "PB_LTYPE_SVARINT = 0x02"
definition PB_LTYPE_FIXED32 :: pb_type_t where [simp]: "PB_LTYPE_FIXED32 = 0x03"
definition PB_LTYPE_FIXED64 :: pb_type_t where [simp]: "PB_LTYPE_FIXED64 = 0x04"
definition PB_LTYPE_LAST_PACKABLE :: pb_type_t where [simp]: "PB_LTYPE_LAST_PACKABLE = 0x04"
definition PB_LTYPE_BYTES :: pb_type_t where [simp]: "PB_LTYPE_BYTES = 0x05"
definition PB_LTYPE_STRING :: pb_type_t where [simp]: "PB_LTYPE_STRING = 0x06"
definition PB_LTYPE_SUBMESSAGE :: pb_type_t where [simp]: "PB_LTYPE_SUBMESSAGE = 0x07"
definition PB_LTYPE_EXTENSION :: pb_type_t where [simp]: "PB_LTYPE_EXTENSION = 0x08"
definition PB_LTYPE_FIXED_LENGTH_BYTES :: pb_type_t where
  [simp]: "PB_LTYPE_FIXED_LENGTH_BYTES = 0x09"
definition PB_LTYPE_MASK :: pb_type_t where [simp]: "PB_LTYPE_MASK = 0x0F"

definition PB_HTYPE_REQUIRED :: pb_type_t where [simp]: "PB_HTYPE_REQUIRED = 0x00"
definition PB_HTYPE_OPTIONAL :: pb_type_t where [simp]: "PB_HTYPE_OPTIONAL = 0x10"
definition PB_HTYPE_REPEATED :: pb_type_t where [simp]: "PB_HTYPE_REPEATED = 0x20"
definition PB_HTYPE_ONEOF :: pb_type_t where [simp]: "PB_HTYPE_ONEOF = 0x30"
definition PB_HTYPE_MASK :: pb_type_t where [simp]: "PB_HTYPE_MASK = 0x30"

definition PB_ATYPE_STATIC :: pb_type_t where [simp]: "PB_ATYPE_STATIC = 0x00"
definition PB_ATYPE_POINTER :: pb_type_t where [simp]: "PB_ATYPE_POINTER = 0x80"
definition PB_ATYPE_CALLBACK :: pb_type_t where [simp]: "PB_ATYPE_CALLBACK = 0x40"
definition PB_ATYPE_MASK :: pb_type_t where [simp]: "PB_ATYPE_MASK = 0xC0"

definition PB_ATYPE :: "pb_type_t \<Rightarrow> pb_type_t" where "PB_ATYPE x = x AND PB_ATYPE_MASK"
definition PB_HTYPE :: "pb_type_t \<Rightarrow> pb_type_t" where "PB_HTYPE x = x AND PB_HTYPE_MASK"
definition PB_LTYPE :: "pb_type_t \<Rightarrow> pb_type_t" where "PB_LTYPE x = x AND PB_LTYPE_MASK"

definition PB_SIZE_MAX :: pb_size_t where [simp]: "PB_SIZE_MAX = - 1"
definition PB_MAX_REQUIRED_FIELDS :: nat where [simp]: "PB_MAX_REQUIRED_FIELDS = 64"

definition PB_WT_VARINT :: pb_wire_type_t where [simp]: "PB_WT_VARINT = 0"
definition PB_WT_64BIT :: pb_wire_type_t where [simp]: "PB_WT_64BIT = 1"
definition PB_WT_STRING :: pb_wire_type_t where [simp]: "PB_WT_STRING = 2"
definition PB_WT_32BIT :: pb_wire_type_t where [simp]: "PB_WT_32BIT = 5"

subsection \<open>Field descriptors\<close>

text \<open>\<open>fld_size_offset\<close> is the signed \<open>pb_ssize_t\<close>, read with \<open>sint\<close>; \<open>fld_ptr\<close> is the address of
  a descriptor array or of a default value, 0 when null.\<close>

record pb_field_t =
  fld_tag :: pb_size_t
  fld_type :: pb_type_t
  fld_data_offset :: pb_size_t
  fld_size_offset :: "32 word"
  fld_data_size :: pb_size_t
  fld_array_size :: pb_size_t
  fld_ptr :: addr

definition PB_LAST_FIELD :: pb_field_t where
  "PB_LAST_FIELD = \<lparr>fld_tag = 0, fld_type = 0, fld_data_offset = 0, fld_size_offset = 0,
     fld_data_size = 0, fld_array_size = 0, fld_ptr = 0\<rparr>"

text \<open>What the descriptor macros know of a struct member from \<open>offsetof\<close> and \<open>sizeof\<close>: its offset
  and size, the size of its element \<open>m[0]\<close> (or of \<open>*m\<close>), and the offset of its companion
  (\<open>has_m\<close>, \<open>m_count\<close> or \<open>which_u\<close>).\<close>

record pb_member =
  mb_offset :: nat
  mb_size :: nat
  mb_elem :: nat
  mb_companion :: nat

definition pb_membersize :: "pb_member \<Rightarrow> pb_size_t" where
  "pb_membersize m = word_of_nat (mb_size m)"

definition pb_elemsize :: "pb_member \<Rightarrow> pb_size_t" where
  "pb_elemsize m = word_of_nat (mb_elem m)"

definition pb_arraysize :: "pb_member \<Rightarrow> pb_size_t" where
  "pb_arraysize m = word_of_nat (mb_size m div mb_elem m)"

definition pb_delta :: "pb_member \<Rightarrow> 32 word" where
  "pb_delta m = word_of_int (int (mb_companion m) - int (mb_offset m))"

definition PB_DATAOFFSET_FIRST :: "pb_member \<Rightarrow> pb_member \<Rightarrow> pb_size_t" where
  "PB_DATAOFFSET_FIRST m1 m2 = word_of_nat (mb_offset m1)"

definition PB_DATAOFFSET_OTHER :: "pb_member \<Rightarrow> pb_member \<Rightarrow> pb_size_t" where
  "PB_DATAOFFSET_OTHER m1 m2 =
     word_of_nat (mb_offset m1) - word_of_nat (mb_offset m2) - word_of_nat (mb_size m2)"

definition PB_DATAOFFSET_UNION :: "pb_member \<Rightarrow> pb_member \<Rightarrow> pb_size_t" where
  "PB_DATAOFFSET_UNION m1 m2 = PB_SIZE_MAX"

definition PB_DATAOFFSET_CHOOSE :: "pb_member \<Rightarrow> pb_member \<Rightarrow> pb_size_t" where
  "PB_DATAOFFSET_CHOOSE m1 m2 = (if mb_offset m1 = mb_offset m2
     then PB_DATAOFFSET_FIRST m1 m2 else PB_DATAOFFSET_OTHER m1 m2)"

definition mk_field ::
  "u32 \<Rightarrow> pb_type_t \<Rightarrow> pb_size_t \<Rightarrow> 32 word \<Rightarrow> pb_size_t \<Rightarrow> pb_size_t \<Rightarrow> addr \<Rightarrow> pb_field_t" where
  "mk_field tg ty fd so ds as p = \<lparr>fld_tag = tg, fld_type = ty, fld_data_offset = fd,
     fld_size_offset = so, fld_data_size = ds, fld_array_size = as, fld_ptr = p\<rparr>"

type_synonym field_macro =
  "u32 \<Rightarrow> pb_member \<Rightarrow> pb_size_t \<Rightarrow> pb_type_t \<Rightarrow> addr \<Rightarrow> pb_field_t"

definition PB_REQUIRED_STATIC :: field_macro where
  "PB_REQUIRED_STATIC tg m fd lt p =
     mk_field tg (PB_ATYPE_STATIC OR PB_HTYPE_REQUIRED OR lt) fd 0 (pb_membersize m) 0 p"

definition PB_OPTIONAL_STATIC :: field_macro where
  "PB_OPTIONAL_STATIC tg m fd lt p =
     mk_field tg (PB_ATYPE_STATIC OR PB_HTYPE_OPTIONAL OR lt) fd (pb_delta m) (pb_membersize m) 0 p"

definition PB_SINGULAR_STATIC :: field_macro where
  "PB_SINGULAR_STATIC tg m fd lt p =
     mk_field tg (PB_ATYPE_STATIC OR PB_HTYPE_OPTIONAL OR lt) fd 0 (pb_membersize m) 0 p"

definition PB_REPEATED_STATIC :: field_macro where
  "PB_REPEATED_STATIC tg m fd lt p =
     mk_field tg (PB_ATYPE_STATIC OR PB_HTYPE_REPEATED OR lt) fd (pb_delta m)
       (pb_elemsize m) (pb_arraysize m) p"

definition PB_REQUIRED_POINTER :: field_macro where
  "PB_REQUIRED_POINTER tg m fd lt p =
     mk_field tg (PB_ATYPE_POINTER OR PB_HTYPE_REQUIRED OR lt) fd 0 (pb_elemsize m) 0 p"

definition PB_OPTIONAL_POINTER :: field_macro where
  "PB_OPTIONAL_POINTER tg m fd lt p =
     mk_field tg (PB_ATYPE_POINTER OR PB_HTYPE_OPTIONAL OR lt) fd 0 (pb_elemsize m) 0 p"

definition PB_SINGULAR_POINTER :: field_macro where
  "PB_SINGULAR_POINTER tg m fd lt p =
     mk_field tg (PB_ATYPE_POINTER OR PB_HTYPE_OPTIONAL OR lt) fd 0 (pb_elemsize m) 0 p"

definition PB_REPEATED_POINTER :: field_macro where
  "PB_REPEATED_POINTER tg m fd lt p =
     mk_field tg (PB_ATYPE_POINTER OR PB_HTYPE_REPEATED OR lt) fd (pb_delta m) (pb_elemsize m) 0 p"

definition PB_REQUIRED_CALLBACK :: field_macro where
  "PB_REQUIRED_CALLBACK tg m fd lt p =
     mk_field tg (PB_ATYPE_CALLBACK OR PB_HTYPE_REQUIRED OR lt) fd 0 (pb_membersize m) 0 p"

definition PB_OPTIONAL_CALLBACK :: field_macro where
  "PB_OPTIONAL_CALLBACK tg m fd lt p =
     mk_field tg (PB_ATYPE_CALLBACK OR PB_HTYPE_OPTIONAL OR lt) fd 0 (pb_membersize m) 0 p"

definition PB_SINGULAR_CALLBACK :: field_macro where
  "PB_SINGULAR_CALLBACK tg m fd lt p =
     mk_field tg (PB_ATYPE_CALLBACK OR PB_HTYPE_OPTIONAL OR lt) fd 0 (pb_membersize m) 0 p"

definition PB_REPEATED_CALLBACK :: field_macro where
  "PB_REPEATED_CALLBACK tg m fd lt p =
     mk_field tg (PB_ATYPE_CALLBACK OR PB_HTYPE_REPEATED OR lt) fd 0 (pb_membersize m) 0 p"

definition PB_OPTEXT_STATIC :: field_macro where
  "PB_OPTEXT_STATIC tg m fd lt p =
     mk_field tg (PB_ATYPE_STATIC OR PB_HTYPE_REQUIRED OR lt) 0 0 (pb_membersize m) 0 p"

definition PB_OPTEXT_POINTER :: field_macro where
  "PB_OPTEXT_POINTER tg m fd lt p = PB_OPTIONAL_POINTER tg m fd lt p"

definition PB_OPTEXT_CALLBACK :: field_macro where
  "PB_OPTEXT_CALLBACK tg m fd lt p = PB_OPTIONAL_CALLBACK tg m fd lt p"

definition PB_REPEATED_FIXED_COUNT :: field_macro where
  "PB_REPEATED_FIXED_COUNT tg m fd lt p =
     mk_field tg (PB_ATYPE_STATIC OR PB_HTYPE_REPEATED OR lt) fd 0 (pb_elemsize m) (pb_arraysize m) p"

definition PB_ONEOF_STATIC :: field_macro where
  "PB_ONEOF_STATIC tg m fd lt p =
     mk_field tg (PB_ATYPE_STATIC OR PB_HTYPE_ONEOF OR lt) fd (pb_delta m) (pb_membersize m) 0 p"

definition PB_ONEOF_POINTER :: field_macro where
  "PB_ONEOF_POINTER tg m fd lt p =
     mk_field tg (PB_ATYPE_POINTER OR PB_HTYPE_ONEOF OR lt) fd (pb_delta m) (pb_elemsize m) 0 p"

datatype proto_type = BOOL | BYTES | DOUBLE | ENUM | UENUM | FIXED32 | FIXED64 | FLOAT | INT32
  | INT64 | MESSAGE | SFIXED32 | SFIXED64 | SINT32 | SINT64 | STRING | UINT32 | UINT64
  | EXTENSION | FIXED_LENGTH_BYTES

fun PB_LTYPE_MAP :: "proto_type \<Rightarrow> pb_type_t" where
  "PB_LTYPE_MAP BOOL = PB_LTYPE_VARINT"
| "PB_LTYPE_MAP BYTES = PB_LTYPE_BYTES"
| "PB_LTYPE_MAP DOUBLE = PB_LTYPE_FIXED64"
| "PB_LTYPE_MAP ENUM = PB_LTYPE_VARINT"
| "PB_LTYPE_MAP UENUM = PB_LTYPE_UVARINT"
| "PB_LTYPE_MAP FIXED32 = PB_LTYPE_FIXED32"
| "PB_LTYPE_MAP FIXED64 = PB_LTYPE_FIXED64"
| "PB_LTYPE_MAP FLOAT = PB_LTYPE_FIXED32"
| "PB_LTYPE_MAP INT32 = PB_LTYPE_VARINT"
| "PB_LTYPE_MAP INT64 = PB_LTYPE_VARINT"
| "PB_LTYPE_MAP MESSAGE = PB_LTYPE_SUBMESSAGE"
| "PB_LTYPE_MAP SFIXED32 = PB_LTYPE_FIXED32"
| "PB_LTYPE_MAP SFIXED64 = PB_LTYPE_FIXED64"
| "PB_LTYPE_MAP SINT32 = PB_LTYPE_SVARINT"
| "PB_LTYPE_MAP SINT64 = PB_LTYPE_SVARINT"
| "PB_LTYPE_MAP STRING = PB_LTYPE_STRING"
| "PB_LTYPE_MAP UINT32 = PB_LTYPE_UVARINT"
| "PB_LTYPE_MAP UINT64 = PB_LTYPE_UVARINT"
| "PB_LTYPE_MAP EXTENSION = PB_LTYPE_EXTENSION"
| "PB_LTYPE_MAP FIXED_LENGTH_BYTES = PB_LTYPE_FIXED_LENGTH_BYTES"

datatype pb_rules = REQUIRED | OPTIONAL | SINGULAR | REPEATED | OPTEXT
datatype pb_alloc = STATIC | POINTER | CALLBACK
datatype pb_placement = FIRST | OTHER | UNION | CHOOSE

fun PB_DATAOFFSET :: "pb_placement \<Rightarrow> pb_member \<Rightarrow> pb_member \<Rightarrow> pb_size_t" where
  "PB_DATAOFFSET FIRST m1 m2 = PB_DATAOFFSET_FIRST m1 m2"
| "PB_DATAOFFSET OTHER m1 m2 = PB_DATAOFFSET_OTHER m1 m2"
| "PB_DATAOFFSET UNION m1 m2 = PB_DATAOFFSET_UNION m1 m2"
| "PB_DATAOFFSET CHOOSE m1 m2 = PB_DATAOFFSET_CHOOSE m1 m2"

fun pb_rule_macro :: "pb_rules \<Rightarrow> pb_alloc \<Rightarrow> field_macro" where
  "pb_rule_macro REQUIRED STATIC = PB_REQUIRED_STATIC"
| "pb_rule_macro OPTIONAL STATIC = PB_OPTIONAL_STATIC"
| "pb_rule_macro SINGULAR STATIC = PB_SINGULAR_STATIC"
| "pb_rule_macro REPEATED STATIC = PB_REPEATED_STATIC"
| "pb_rule_macro OPTEXT STATIC = PB_OPTEXT_STATIC"
| "pb_rule_macro REQUIRED POINTER = PB_REQUIRED_POINTER"
| "pb_rule_macro OPTIONAL POINTER = PB_OPTIONAL_POINTER"
| "pb_rule_macro SINGULAR POINTER = PB_SINGULAR_POINTER"
| "pb_rule_macro REPEATED POINTER = PB_REPEATED_POINTER"
| "pb_rule_macro OPTEXT POINTER = PB_OPTEXT_POINTER"
| "pb_rule_macro REQUIRED CALLBACK = PB_REQUIRED_CALLBACK"
| "pb_rule_macro OPTIONAL CALLBACK = PB_OPTIONAL_CALLBACK"
| "pb_rule_macro SINGULAR CALLBACK = PB_SINGULAR_CALLBACK"
| "pb_rule_macro REPEATED CALLBACK = PB_REPEATED_CALLBACK"
| "pb_rule_macro OPTEXT CALLBACK = PB_OPTEXT_CALLBACK"

definition PB_FIELD :: "u32 \<Rightarrow> proto_type \<Rightarrow> pb_rules \<Rightarrow> pb_alloc \<Rightarrow> pb_placement \<Rightarrow>
    pb_member \<Rightarrow> pb_member \<Rightarrow> addr \<Rightarrow> pb_field_t" where
  "PB_FIELD tg ty rl al pl field prevfield p =
     pb_rule_macro rl al tg field (PB_DATAOFFSET pl field prevfield) (PB_LTYPE_MAP ty) p"

definition PB_ONEOF_FIELD :: "u32 \<Rightarrow> proto_type \<Rightarrow> pb_alloc \<Rightarrow> pb_placement \<Rightarrow>
    pb_member \<Rightarrow> pb_member \<Rightarrow> addr \<Rightarrow> pb_field_t option" where
  "PB_ONEOF_FIELD tg ty al pl field prevfield p = (case al of
     STATIC \<Rightarrow> Some (PB_ONEOF_STATIC tg field (PB_DATAOFFSET pl field prevfield) (PB_LTYPE_MAP ty) p)
   | POINTER \<Rightarrow> Some (PB_ONEOF_POINTER tg field (PB_DATAOFFSET pl field prevfield) (PB_LTYPE_MAP ty) p)
   | CALLBACK \<Rightarrow> None)"

subsection \<open>Streams\<close>

text \<open>The callback of an input stream is \<open>buf_read\<close> or a function of the application; that of an
  output stream may also be null, which marks a sizing stream. The buffer argument of a read is
  null (skip the bytes), a local array of the caller (the bytes are returned) or an address; the
  buffer of a write is null, a local array or an address.\<close>

datatype istream_cb = IS_buf_read | IS_user addr
datatype ostream_cb = OS_null | OS_buf_write | OS_user addr

datatype rbuf = RNull | RLocal | RAddr addr
datatype wbuf = WNull | WLocal "byte list" | WAddr addr

record pb_istream_t =
  is_callback :: istream_cb
  is_state :: addr
  is_bytes_left :: u64
  is_errmsg :: "string option"

record pb_ostream_t =
  os_callback :: ostream_cb
  os_state :: addr
  os_max_size :: u64
  os_bytes_written :: u64
  os_errmsg :: "string option"

definition PB_OSTREAM_SIZING :: pb_ostream_t where
  "PB_OSTREAM_SIZING = \<lparr>os_callback = OS_null, os_state = 0, os_max_size = 0,
     os_bytes_written = 0, os_errmsg = None\<rparr>"

text \<open>\<open>PB_SET_ERROR\<close> keeps the first message; \<open>PB_RETURN_ERROR\<close> sets it and returns false.\<close>

definition is_set_error :: "pb_istream_t \<Rightarrow> string \<Rightarrow> pb_istream_t" where
  "is_set_error s msg =
     s\<lparr>is_errmsg := (case is_errmsg s of Some e \<Rightarrow> Some e | None \<Rightarrow> Some msg)\<rparr>"

definition os_set_error :: "pb_ostream_t \<Rightarrow> string \<Rightarrow> pb_ostream_t" where
  "os_set_error s msg =
     s\<lparr>os_errmsg := (case os_errmsg s of Some e \<Rightarrow> Some e | None \<Rightarrow> Some msg)\<rparr>"

definition is_get_error :: "pb_istream_t \<Rightarrow> string" where
  "is_get_error s = (case is_errmsg s of Some e \<Rightarrow> e | None \<Rightarrow> ''(none)'')"

definition os_get_error :: "pb_ostream_t \<Rightarrow> string" where
  "os_get_error s = (case os_errmsg s of Some e \<Rightarrow> e | None \<Rightarrow> ''(none)'')"

definition is_return_error ::
  "pb_istream_t \<Rightarrow> string \<Rightarrow> cmem \<Rightarrow> (bool \<times> pb_istream_t \<times> cmem) option" where
  "is_return_error s msg m = Some (False, is_set_error s msg, m)"

definition os_return_error ::
  "pb_ostream_t \<Rightarrow> string \<Rightarrow> cmem \<Rightarrow> (bool \<times> pb_ostream_t \<times> cmem) option" where
  "os_return_error s msg m = Some (False, os_set_error s msg, m)"

lemma is_set_error_frame [simp]:
  "is_callback (is_set_error s e) = is_callback s"
  "is_state (is_set_error s e) = is_state s"
  "is_bytes_left (is_set_error s e) = is_bytes_left s"
  by (simp_all add: is_set_error_def)

lemma os_set_error_frame [simp]:
  "os_callback (os_set_error s e) = os_callback s"
  "os_state (os_set_error s e) = os_state s"
  "os_max_size (os_set_error s e) = os_max_size s"
  "os_bytes_written (os_set_error s e) = os_bytes_written s"
  by (simp_all add: os_set_error_def)

subsection \<open>The field iterator, callbacks and extensions\<close>

text \<open>\<open>it_start\<close> is the address of the descriptor array and \<open>it_pos\<close> the index of the current
  descriptor in it.\<close>

record pb_field_iter_t =
  it_start :: addr
  it_pos :: nat
  it_required_field_index :: u32
  it_dest_struct :: addr
  it_pData :: addr
  it_pSize :: addr

record pb_extension_type_t =
  et_decode :: addr
  et_encode :: addr
  et_arg :: addr

text \<open>Layout in memory of \<open>pb_callback_t\<close> (function pointer, argument), \<open>pb_extension_t\<close> (type,
  dest, next, found) and \<open>pb_bytes_array_t\<close> (size, bytes).\<close>

definition cb_funcs :: "addr \<Rightarrow> addr" where "cb_funcs p = p"
definition cb_arg :: "addr \<Rightarrow> addr" where "cb_arg p = p + 8"
definition ext_type :: "addr \<Rightarrow> addr" where "ext_type p = p"
definition ext_dest :: "addr \<Rightarrow> addr" where "ext_dest p = p + 8"
definition ext_next :: "addr \<Rightarrow> addr" where "ext_next p = p + 16"
definition ext_found :: "addr \<Rightarrow> addr" where "ext_found p = p + 24"
definition bytes_data :: "addr \<Rightarrow> addr" where "bytes_data p = p + 4"

definition PB_BYTES_ARRAY_T_ALLOCSIZE :: "u32 \<Rightarrow> u64" where
  "PB_BYTES_ARRAY_T_ALLOCSIZE n = ucast n + 4"

text \<open>The application's code and constant data: descriptor arrays by address, stream callbacks,
  field callbacks and extension types and handlers by the value of the pointer to them.\<close>

type_synonym istream_res = "(bool \<times> pb_istream_t \<times> cmem) option"
type_synonym ostream_res = "(bool \<times> pb_ostream_t \<times> cmem) option"

record pb_env =
  env_fields :: "addr \<Rightarrow> pb_field_t list"
  env_read :: "addr \<Rightarrow> pb_istream_t \<Rightarrow> rbuf \<Rightarrow> u64 \<Rightarrow> cmem \<Rightarrow>
     (bool \<times> byte list \<times> pb_istream_t \<times> cmem) option"
  env_write :: "addr \<Rightarrow> pb_ostream_t \<Rightarrow> wbuf \<Rightarrow> u64 \<Rightarrow> cmem \<Rightarrow> ostream_res"
  env_decode_cb :: "addr \<Rightarrow> pb_istream_t \<Rightarrow> pb_field_t \<Rightarrow> addr \<Rightarrow> cmem \<Rightarrow> istream_res"
  env_encode_cb :: "addr \<Rightarrow> pb_ostream_t \<Rightarrow> pb_field_t \<Rightarrow> addr \<Rightarrow> cmem \<Rightarrow> ostream_res"
  env_ext_type :: "addr \<Rightarrow> pb_extension_type_t option"
  env_ext_decode :: "addr \<Rightarrow> pb_istream_t \<Rightarrow> addr \<Rightarrow> u32 \<Rightarrow> pb_wire_type_t \<Rightarrow> cmem \<Rightarrow> istream_res"
  env_ext_encode :: "addr \<Rightarrow> pb_ostream_t \<Rightarrow> addr \<Rightarrow> cmem \<Rightarrow> ostream_res"

end
