(* ===== verification/Pb_Wire.thy ===== *)
theory Pb_Wire
  imports Pb_Prelude
begin

text \<open>
  The wire format as a specification, independent of streams and of the code: the base-128 varint
  of a number, the parser of a varint at the front of a byte sequence, and the facts that relate
  them. The encoder and the decoder are proved against these definitions.
\<close>

subsection \<open>Varints\<close>

fun varint_spec :: "nat \<Rightarrow> byte list" where
  "varint_spec v = (if v < 128 then [word_of_nat v]
     else word_of_nat (v mod 128 + 128) # varint_spec (v div 128))"

declare varint_spec.simps [simp del]

text \<open>The value of the first varint of a byte sequence and the number of bytes it takes.\<close>

fun varint_parse :: "byte list \<Rightarrow> (nat \<times> nat) option" where
  "varint_parse [] = None"
| "varint_parse (b # bs) = (if unat b < 128 then Some (unat b, 1)
     else case varint_parse bs of
       None \<Rightarrow> None
     | Some (v, k) \<Rightarrow> Some (unat b mod 128 + 128 * v, Suc k))"

lemma varint_spec_small [simp]: "v < 128 \<Longrightarrow> varint_spec v = [word_of_nat v]"
  by (subst varint_spec.simps) simp

lemma varint_spec_big:
  "128 \<le> v \<Longrightarrow> varint_spec v = word_of_nat (v mod 128 + 128) # varint_spec (v div 128)"
  by (subst varint_spec.simps) simp

lemma varint_spec_not_Nil [simp]: "varint_spec v \<noteq> []"
  by (subst varint_spec.simps) simp

text \<open>Reading back what the specification writes, whatever follows it.\<close>

lemma varint_parse_spec:
  "varint_parse (varint_spec v @ rest) = Some (v, length (varint_spec v))"
proof (induction v rule: varint_spec.induct)
  case (1 v)
  show ?case
  proof (cases "v < 128")
    case True
    then have "unat (word_of_nat v :: byte) = v" by (simp add: unat_of_nat)
    with True show ?thesis by simp
  next
    case False
    have "unat (word_of_nat (v mod 128 + 128) :: byte) = v mod 128 + 128"
      by (rule unat_of_nat_small) simp
    with False 1 show ?thesis by (simp add: varint_spec_big)
  qed
qed

lemma length_varint_spec: "v < 128 ^ k \<Longrightarrow> 0 < k \<Longrightarrow> length (varint_spec v) \<le> k"
proof (induction k arbitrary: v)
  case 0
  then show ?case by simp
next
  case (Suc k)
  show ?case
  proof (cases "v < 128")
    case True
    then show ?thesis by simp
  next
    case False
    then have "k \<noteq> 0" using Suc.prems(1) by (cases k) auto
    moreover have "v div 128 < 128 ^ k" using Suc.prems(1) by (simp add: less_mult_imp_div_less mult.commute)
    ultimately show ?thesis using Suc.IH [of "v div 128"] False by (simp add: varint_spec_big)
  qed
qed

lemma varint_parse_take:
  "varint_parse bs = Some (v, k) \<Longrightarrow> 0 < k \<and> k \<le> length bs \<and> v < 128 ^ k"
proof (induction bs arbitrary: v k rule: varint_parse.induct)
  case 1
  then show ?case by simp
next
  case (2 b bs)
  show ?case
  proof (cases "unat b < 128")
    case True
    with 2 show ?thesis by auto
  next
    case False
    with 2 obtain v' k' where vk: "varint_parse bs = Some (v', k')"
      and v: "v = unat b mod 128 + 128 * v'" and k: "k = Suc k'"
      by (auto split: option.splits)
    from 2(1) [OF False vk] have "k' \<le> length bs" "v' < 128 ^ k'" by auto
    moreover have "unat b mod 128 < 128" by simp
    ultimately show ?thesis by (simp add: v k)
  qed
qed

lemma varint_parse_append:
  "varint_parse bs = Some (v, k) \<Longrightarrow> varint_parse (bs @ cs) = Some (v, k)"
  by (induction bs arbitrary: v k rule: varint_parse.induct) (auto split: if_splits option.splits)

text \<open>The minimal encoding is the only one the specification produces: distinct numbers have
  distinct encodings.\<close>

lemma varint_spec_inject: "varint_spec v = varint_spec w \<longleftrightarrow> v = w"
  by (metis append_Nil2 varint_parse_spec option.inject prod.inject)

lemma varint_parse_last:
  "varint_parse bs = Some (v, k) \<Longrightarrow>
   v div 128 ^ (k - 1) = unat (bs ! (k - 1)) \<and> unat (bs ! (k - 1)) < 128"
proof (induction bs arbitrary: v k rule: varint_parse.induct)
  case 1
  then show ?case by simp
next
  case (2 b bs)
  show ?case
  proof (cases "unat b < 128")
    case True
    with 2 show ?thesis by auto
  next
    case False
    with 2 obtain v' k' where p: "varint_parse bs = Some (v', k')"
      and v: "v = unat b mod 128 + 128 * v'" and k: "k = Suc k'"
      by (auto split: option.splits)
    have k': "0 < k'" using varint_parse_take [OF p] by simp
    then obtain j where j: "k' = Suc j" by (cases k') auto
    have "v div 128 ^ Suc j = v div 128 div 128 ^ j" by (simp add: div_mult2_eq)
    also have "v div 128 = v'" by (simp add: v)
    finally show ?thesis using 2(1) [OF False p] by (simp add: k j)
  qed
qed

lemma varint_parse_overflow:
  assumes "varint_parse bs = Some (v, 5)"
  shows "(bs ! 4 AND 0x70 = 0) \<longleftrightarrow> v < 2 ^ 32"
proof -
  have "v div 128 ^ 4 = unat (bs ! 4)" "unat (bs ! 4) < 128"
    using varint_parse_last [OF assms] by simp_all
  then have "(bs ! 4 AND 0x70 = 0) \<longleftrightarrow> v div 2 ^ 28 < 16" by (simp add: byte_overflow_bits)
  also have "\<dots> \<longleftrightarrow> v < 2 ^ 32" by (simp add: div_less_iff_less_mult)
  finally show ?thesis .
qed

subsection \<open>Tags\<close>

definition tag_spec :: "nat \<Rightarrow> nat \<Rightarrow> byte list" where
  "tag_spec tag wt = varint_spec (8 * tag + wt)"

end
