(* ===== verification/Pb_Ostream.thy ===== *)
theory Pb_Ostream
  imports Pb_Types Pb_Wire
begin

text \<open>
  The output side of \<^verbatim>\<open>nanopb/pb_encode.c\<close> below the field level: \<open>pb_write\<close> and the buffer callback,
  and the encoders of single values (varint, zig-zag varint, fixed-width, tag, string). Each
  operation takes the stream and the memory and returns the C return value with both updated.
\<close>

subsection \<open>Writing bytes\<close>

definition wbuf_byte :: "cmem \<Rightarrow> wbuf \<Rightarrow> nat \<Rightarrow> byte option" where
  "wbuf_byte m buf i = (case buf of
     WNull \<Rightarrow> None
   | WLocal bs \<Rightarrow> if i < length bs then Some (bs ! i) else None
   | WAddr a \<Rightarrow> load8 m (a + i))"

text \<open>The loop \<open>dest[i] = buf[i]\<close> of \<open>buf_write\<close>, \<open>n\<close> iterations from index \<open>i\<close>.\<close>

primrec buf_write_loop :: "nat \<Rightarrow> nat \<Rightarrow> addr \<Rightarrow> wbuf \<Rightarrow> cmem \<Rightarrow> cmem option" where
  "buf_write_loop 0 i dest buf m = Some m"
| "buf_write_loop (Suc n) i dest buf m = do {
     b \<leftarrow> wbuf_byte m buf i;
     m' \<leftarrow> store8 m (dest + i) b;
     buf_write_loop n (Suc i) dest buf m' }"

definition buf_write :: "pb_ostream_t \<Rightarrow> wbuf \<Rightarrow> u64 \<Rightarrow> cmem \<Rightarrow> ostream_res" where
  "buf_write s buf count m = do {
     let dest = os_state s;
     let s' = s\<lparr>os_state := dest + unat count\<rparr>;
     m' \<leftarrow> buf_write_loop (unat count) 0 dest buf m;
     Some (True, s', m') }"

definition pb_ostream_from_buffer :: "addr \<Rightarrow> u64 \<Rightarrow> pb_ostream_t" where
  "pb_ostream_from_buffer buf bufsize = \<lparr>os_callback = OS_buf_write, os_state = buf,
     os_max_size = bufsize, os_bytes_written = 0, os_errmsg = None\<rparr>"

text \<open>The call \<open>stream->callback(stream, buf, count)\<close>; a call through the null pointer is
  undefined.\<close>

definition os_call :: "pb_env \<Rightarrow> pb_ostream_t \<Rightarrow> wbuf \<Rightarrow> u64 \<Rightarrow> cmem \<Rightarrow> ostream_res" where
  "os_call env s buf count m = (case os_callback s of
     OS_null \<Rightarrow> None
   | OS_buf_write \<Rightarrow> buf_write s buf count m
   | OS_user f \<Rightarrow> env_write env f s buf count m)"

definition pb_write :: "pb_env \<Rightarrow> pb_ostream_t \<Rightarrow> wbuf \<Rightarrow> u64 \<Rightarrow> cmem \<Rightarrow> ostream_res" where
  "pb_write env s buf count m =
     (if os_callback s \<noteq> OS_null then
        if os_bytes_written s + count > os_max_size s then os_return_error s ''stream full'' m
        else do {
          (ok, s', m') \<leftarrow> os_call env s buf count m;
          if \<not> ok then os_return_error s' ''io error'' m'
          else Some (True, s'\<lparr>os_bytes_written := os_bytes_written s' + count\<rparr>, m') }
      else Some (True, s\<lparr>os_bytes_written := os_bytes_written s + count\<rparr>, m))"

subsection \<open>Encoding single values\<close>

text \<open>The loop that fills the local buffer of \<open>pb_encode_varint\<close>, and the buffer it leaves (the
  last byte has its top bit cleared). The buffer has room for 10 bytes; filling more is
  undefined.\<close>

function varint_loop :: "u64 \<Rightarrow> byte list" where
  "varint_loop value =
     (if value = 0 then [] else ucast ((value AND 0x7F) OR 0x80) # varint_loop (drop_bit 7 value))"
  by pat_completeness auto
termination
proof (relation "measure unat")
  show "wf (measure unat)" by simp
next
  fix v :: u64
  assume "v \<noteq> 0"
  then have "0 < unat v" by (simp add: unat_gt_0)
  then have "unat v div 2 ^ 7 < unat v" by simp
  then show "(drop_bit 7 v, v) \<in> measure unat"
    by (simp add: drop_bit_eq_div unat_div_distrib)
qed

definition varint_buffer :: "u64 \<Rightarrow> byte list option" where
  "varint_buffer value = (let buffer = varint_loop value; i = length buffer
     in if i = 0 \<or> 10 < i then None else Some (buffer[i - 1 := (buffer ! (i - 1)) AND 0x7F]))"

definition pb_encode_varint :: "pb_env \<Rightarrow> pb_ostream_t \<Rightarrow> u64 \<Rightarrow> cmem \<Rightarrow> ostream_res" where
  "pb_encode_varint env s value m =
     (if value \<le> 0x7F then pb_write env s (WLocal [ucast value]) 1 m
      else do {
        buffer \<leftarrow> varint_buffer value;
        pb_write env s (WLocal buffer) (word_of_nat (length buffer)) m })"

text \<open>\<open>(pb_uint64_t)value << 1\<close>, complemented when the \<open>int64_t\<close> value is negative.\<close>

definition zigzag :: "u64 \<Rightarrow> u64" where
  "zigzag value = (if sint value < 0 then NOT (push_bit 1 value) else push_bit 1 value)"

definition pb_encode_svarint :: "pb_env \<Rightarrow> pb_ostream_t \<Rightarrow> u64 \<Rightarrow> cmem \<Rightarrow> ostream_res" where
  "pb_encode_svarint env s value m = pb_encode_varint env s (zigzag value) m"

definition fixed32_buffer :: "u32 \<Rightarrow> byte list" where
  "fixed32_buffer val = [ucast (val AND 0xFF), ucast (drop_bit 8 val AND 0xFF),
     ucast (drop_bit 16 val AND 0xFF), ucast (drop_bit 24 val AND 0xFF)]"

definition fixed64_buffer :: "u64 \<Rightarrow> byte list" where
  "fixed64_buffer val = [ucast (val AND 0xFF), ucast (drop_bit 8 val AND 0xFF),
     ucast (drop_bit 16 val AND 0xFF), ucast (drop_bit 24 val AND 0xFF),
     ucast (drop_bit 32 val AND 0xFF), ucast (drop_bit 40 val AND 0xFF),
     ucast (drop_bit 48 val AND 0xFF), ucast (drop_bit 56 val AND 0xFF)]"

definition load_u64 :: "cmem \<Rightarrow> addr \<Rightarrow> u64 option" where
  "load_u64 m a = map_option word_of_nat (load_nat m a 8)"

definition pb_encode_fixed32 :: "pb_env \<Rightarrow> pb_ostream_t \<Rightarrow> addr \<Rightarrow> cmem \<Rightarrow> ostream_res" where
  "pb_encode_fixed32 env s p m = do {
     val \<leftarrow> load_u32 m p;
     pb_write env s (WLocal (fixed32_buffer val)) 4 m }"

definition pb_encode_fixed64 :: "pb_env \<Rightarrow> pb_ostream_t \<Rightarrow> addr \<Rightarrow> cmem \<Rightarrow> ostream_res" where
  "pb_encode_fixed64 env s p m = do {
     val \<leftarrow> load_u64 m p;
     pb_write env s (WLocal (fixed64_buffer val)) 8 m }"

definition pb_encode_tag ::
  "pb_env \<Rightarrow> pb_ostream_t \<Rightarrow> pb_wire_type_t \<Rightarrow> u32 \<Rightarrow> cmem \<Rightarrow> ostream_res" where
  "pb_encode_tag env s wiretype field_number m =
     pb_encode_varint env s (push_bit 3 (ucast field_number) OR ucast wiretype) m"

definition fld_wire_type :: "pb_field_t \<Rightarrow> pb_wire_type_t option" where
  "fld_wire_type f = (let lt = PB_LTYPE (fld_type f) in
     if lt = PB_LTYPE_VARINT \<or> lt = PB_LTYPE_UVARINT \<or> lt = PB_LTYPE_SVARINT then Some PB_WT_VARINT
     else if lt = PB_LTYPE_FIXED32 then Some PB_WT_32BIT
     else if lt = PB_LTYPE_FIXED64 then Some PB_WT_64BIT
     else if lt = PB_LTYPE_BYTES \<or> lt = PB_LTYPE_STRING \<or> lt = PB_LTYPE_SUBMESSAGE \<or>
             lt = PB_LTYPE_FIXED_LENGTH_BYTES then Some PB_WT_STRING
     else None)"

definition pb_encode_tag_for_field ::
  "pb_env \<Rightarrow> pb_ostream_t \<Rightarrow> pb_field_t \<Rightarrow> cmem \<Rightarrow> ostream_res" where
  "pb_encode_tag_for_field env s f m = (case fld_wire_type f of
     Some wiretype \<Rightarrow> pb_encode_tag env s wiretype (fld_tag f) m
   | None \<Rightarrow> os_return_error s ''invalid field type'' m)"

definition pb_encode_string ::
  "pb_env \<Rightarrow> pb_ostream_t \<Rightarrow> wbuf \<Rightarrow> u64 \<Rightarrow> cmem \<Rightarrow> ostream_res" where
  "pb_encode_string env s buf sz m = do {
     (ok, s1, m1) \<leftarrow> pb_encode_varint env s sz m;
     if \<not> ok then Some (False, s1, m1) else pb_write env s1 buf sz m1 }"

subsection \<open>The varint loop computes the specified encoding\<close>

lemma u64_le_127: "(v :: u64) \<le> 0x7F \<longleftrightarrow> unat v < 128"
  by (auto simp: word_le_nat_alt)

lemma u64_or_128: "((v :: u64) AND 0x7F) OR 0x80 = word_of_nat (unat v mod 128 + 128)"
proof -
  have "(v AND 0x7F) AND 0x80 = 0" by (simp add: and.assoc)
  then have "(v AND 0x7F) OR 0x80 = (v AND 0x7F) + 0x80"
    by (simp add: disjunctive_add_eq_or)
  moreover have "v AND 0x7F = word_of_nat (unat v mod 128)"
    by (rule word_eq_of_nat) (rule unat_u64_and_127)
  ultimately show ?thesis by (simp only: of_nat_add of_nat_numeral)
qed

lemma byte_or_128: "(ucast (((v :: u64) AND 0x7F) OR 0x80) :: byte) = word_of_nat (unat v mod 128 + 128)"
proof -
  have "unat (word_of_nat (unat v mod 128 + 128) :: u64) = unat v mod 128 + 128"
    by (rule unat_of_nat_small) (rule less_trans [of _ 256], simp_all)
  then have "ucast (word_of_nat (unat v mod 128 + 128) :: u64) =
      (word_of_nat (unat v mod 128 + 128) :: byte)"
    by (metis of_nat_unat)
  then show ?thesis by (simp only: u64_or_128)
qed

lemma byte_unmark:
  "(ucast (((v :: u64) AND 0x7F) OR 0x80) :: byte) AND 0x7F = word_of_nat (unat v mod 128)"
  unfolding byte_or_128
proof (rule word_eq_of_nat)
  have "unat (word_of_nat (unat v mod 128 + 128) :: byte) = unat v mod 128 + 128"
    by (rule unat_of_nat_small) simp
  then show "unat ((word_of_nat (unat v mod 128 + 128) :: byte) AND 0x7F) = unat v mod 128"
    by (simp add: unat_byte_and_127)
qed

lemma unat_drop_7: "unat (drop_bit 7 (v :: u64)) = unat v div 128"
  by (simp add: drop_bit_eq_div unat_div_distrib)

declare varint_loop.simps [simp del]

lemma varint_loop_0 [simp]: "varint_loop 0 = []"
  by (subst varint_loop.simps) simp

lemma varint_loop_rec:
  "v \<noteq> 0 \<Longrightarrow> varint_loop v = ucast ((v AND 0x7F) OR 0x80) # varint_loop (drop_bit 7 v)"
  by (subst varint_loop.simps) simp

lemma varint_loop_eq:
  assumes "v \<noteq> 0"
  shows "(let b = varint_loop v in b \<noteq> [] \<and>
     b[length b - 1 := (b ! (length b - 1)) AND 0x7F] = varint_spec (unat v))"
  using assms
proof (induction v rule: varint_loop.induct)
  case (1 v)
  show ?case
  proof (cases "unat v < 128")
    case True
    then have "drop_bit 7 v = 0" by (simp add: unat_drop_7 flip: unat_0_iff)
    then have "varint_loop v = [ucast ((v AND 0x7F) OR 0x80)]"
      by (simp add: varint_loop_rec [OF 1(2)])
    with True show ?thesis by (simp add: byte_unmark)
  next
    case False
    then have nz: "drop_bit 7 v \<noteq> 0" by (simp add: unat_drop_7 flip: unat_0_iff)
    let ?b = "varint_loop (drop_bit 7 v)"
    from 1(1) [OF 1(2) nz] have ne: "?b \<noteq> []"
      and eq: "?b[length ?b - 1 := (?b ! (length ?b - 1)) AND 0x7F] = varint_spec (unat v div 128)"
      by (simp_all add: Let_def unat_drop_7)
    from ne obtain k where k: "length ?b = Suc k" by (cases ?b) auto
    with eq False show ?thesis
      by (simp add: varint_loop_rec [OF 1(2)] varint_spec_big byte_or_128)
  qed
qed

lemma length_varint_u64: "length (varint_spec (unat (v :: u64))) \<le> 10"
proof (rule length_varint_spec)
  show "unat v < 128 ^ 10" using unat_u64_less [of v] by simp
qed simp

lemma varint_buffer_eq: "v \<noteq> 0 \<Longrightarrow> varint_buffer v = Some (varint_spec (unat v))"
proof -
  assume "v \<noteq> 0"
  let ?b = "varint_loop v"
  from varint_loop_eq [OF \<open>v \<noteq> 0\<close>] have ne: "?b \<noteq> []"
    and eq: "?b[length ?b - 1 := (?b ! (length ?b - 1)) AND 0x7F] = varint_spec (unat v)"
    by (simp_all add: Let_def)
  have "length ?b = length (varint_spec (unat v))" by (simp flip: eq)
  then have "length ?b \<le> 10" using length_varint_u64 [of v] by simp
  with ne eq show ?thesis by (simp add: varint_buffer_def Let_def)
qed

lemma pb_encode_varint_eq:
  "pb_encode_varint env s v m =
     pb_write env s (WLocal (varint_spec (unat v))) (word_of_nat (length (varint_spec (unat v)))) m"
proof (cases "unat v < 128")
  case True
  have "(ucast v :: byte) = word_of_nat (unat v)" by simp
  with True show ?thesis by (simp add: pb_encode_varint_def u64_le_127)
next
  case False
  then have "v \<noteq> 0" by auto
  with False show ?thesis by (simp add: pb_encode_varint_def u64_le_127 varint_buffer_eq)
qed

subsection \<open>Tags and fixed-width values\<close>

lemma unat_tag_word:
  assumes "unat wt < 8"
  shows "unat (push_bit 3 (ucast (t :: u32)) OR ucast (wt :: u32) :: u64) = 8 * unat t + unat wt"
proof -
  let ?a = "push_bit 3 (ucast t) :: u64" and ?b = "ucast wt :: u64"
  have b: "?b = take_bit 3 ?b"
    using assms by (intro word_unat_eq_iff [THEN iffD2])
      (simp add: take_bit_eq_mod unat_mod_distrib)
  have "?a AND ?b = 0"
    by (subst b) (simp add: bit_eq_iff bit_simps)
  then have "?a OR ?b = ?a + ?b" by (simp add: disjunctive_add_eq_or)
  moreover have "unat ?a = 8 * unat t"
    using unat_u32_less [of t] by (simp add: push_bit_eq_mult unat_word_ariths)
  ultimately show ?thesis
    using unat_u32_less [of t] assms by (simp add: unat_word_ariths)
qed

lemma byte_of_and_255: "(ucast ((v :: 'a::len word) AND 0xFF) :: byte) = ucast v"
proof -
  have "v AND 0xFF = take_bit 8 v" by (simp add: take_bit_eq_mask mask_eq_exp_minus_1)
  then show ?thesis by (auto simp: bit_eq_iff bit_simps dest: bit_imp_le_length)
qed

lemma byte_of_drop_bit:
  "(ucast (drop_bit k (v :: 'a::len word)) :: byte) = word_of_nat (unat v div 2 ^ k)"
  by (metis drop_bit_eq_div of_nat_unat unat_drop_bit_eq)

lemma fixed32_buffer_eq: "fixed32_buffer v = le_bytes 4 (unat v)"
  by (simp only: fixed32_buffer_def byte_of_and_255 byte_of_drop_bit le_bytes_4 of_nat_unat)

lemma fixed64_buffer_eq: "fixed64_buffer v = le_bytes 8 (unat v)"
  by (simp only: fixed64_buffer_def byte_of_and_255 byte_of_drop_bit le_bytes_8 of_nat_unat)

subsection \<open>The bytes a write takes from its source\<close>

definition wbuf_bytes :: "cmem \<Rightarrow> wbuf \<Rightarrow> nat \<Rightarrow> byte list option" where
  "wbuf_bytes m buf n = (case buf of
     WNull \<Rightarrow> if n = 0 then Some [] else None
   | WLocal bs \<Rightarrow> if n \<le> length bs then Some (take n bs) else None
   | WAddr a \<Rightarrow> load_bytes m a n)"

text \<open>A source outside the destination: what the loop reads does not change while it writes.\<close>

definition wbuf_apart :: "wbuf \<Rightarrow> nat \<Rightarrow> addr \<Rightarrow> nat \<Rightarrow> bool" where
  "wbuf_apart buf n dest k \<longleftrightarrow>
     (case buf of WAddr a \<Rightarrow> a + n \<le> dest \<or> dest + k \<le> a | _ \<Rightarrow> True)"

lemma wbuf_bytes_length: "wbuf_bytes m buf n = Some bs \<Longrightarrow> length bs = n"
  by (auto simp: wbuf_bytes_def dest: load_bytes_length split: wbuf.splits if_splits)

lemma wbuf_bytes_byte:
  "wbuf_bytes m buf n = Some bs \<Longrightarrow> i < n \<Longrightarrow> wbuf_byte m buf i = Some (bs ! i)"
  by (auto simp: wbuf_bytes_def wbuf_byte_def load8_def dest: load_bytes_nth
      split: wbuf.splits if_splits)

lemma buf_write_loop_eq:
  assumes "\<And>j. i \<le> j \<Longrightarrow> j < i + n \<Longrightarrow> wbuf_byte m buf j = Some (bs ! j)"
    and "wbuf_apart buf (i + n) (dest + i) n" and "valid m (dest + i) n" and "length bs = i + n"
  shows "buf_write_loop n i dest buf m = Some (upd_bytes m (dest + i) (drop i bs))"
  using assms
proof (induction n arbitrary: i m)
  case 0
  then show ?case by simp
next
  case (Suc n)
  let ?m = "m\<lparr>mem_bytes := (mem_bytes m)(dest + i \<mapsto> bs ! i)\<rparr>"
  have b: "wbuf_byte m buf i = Some (bs ! i)" using Suc.prems(1) [of i] by simp
  have v: "mem_bytes m (dest + i) \<noteq> None" "valid m (Suc (dest + i)) n"
    using Suc.prems(3) by (simp_all add: valid_Suc)
  then have st: "store8 m (dest + i) (bs ! i) = Some ?m" by (auto simp: store8_def)
  have "buf_write_loop n (Suc i) dest buf ?m = Some (upd_bytes ?m (dest + Suc i) (drop (Suc i) bs))"
  proof (rule Suc.IH)
    fix j assume j: "Suc i \<le> j" "j < Suc i + n"
    then have "wbuf_byte m buf j = Some (bs ! j)" using Suc.prems(1) [of j] by simp
    moreover have "wbuf_byte ?m buf j = wbuf_byte m buf j"
      using Suc.prems(2) j by (auto simp: wbuf_byte_def load8_def wbuf_apart_def split: wbuf.splits)
    ultimately show "wbuf_byte ?m buf j = Some (bs ! j)" by simp
  next
    show "wbuf_apart buf (Suc i + n) (dest + Suc i) n"
      using Suc.prems(2) by (auto simp: wbuf_apart_def split: wbuf.splits)
  next
    have "valid ?m (Suc (dest + i)) n = valid m (Suc (dest + i)) n"
      by (rule valid_cong) (use v in \<open>auto\<close>)
    with v show "valid ?m (dest + Suc i) n" by simp
  next
    show "length bs = Suc i + n" using Suc.prems(4) by simp
  qed
  moreover have "drop i bs = bs ! i # drop (Suc i) bs"
    using Suc.prems(4) by (intro Cons_nth_drop_Suc [symmetric]) simp
  ultimately show ?case by (simp add: b st upd_bytes_Cons)
qed

lemma buf_write_eq:
  assumes "wbuf_bytes m buf (unat count) = Some bs"
    and "wbuf_apart buf (unat count) (os_state s) (unat count)"
    and "valid m (os_state s) (unat count)"
  shows "buf_write s buf count m =
    Some (True, s\<lparr>os_state := os_state s + unat count\<rparr>, upd_bytes m (os_state s) bs)"
proof -
  have "buf_write_loop (unat count) 0 (os_state s) buf m = Some (upd_bytes m (os_state s + 0) (drop 0 bs))"
    by (rule buf_write_loop_eq) (use assms in \<open>auto simp: wbuf_bytes_byte wbuf_bytes_length\<close>)
  then show ?thesis by (simp add: buf_write_def Let_def)
qed

subsection \<open>Sinks\<close>

text \<open>
  What an output stream promises to the encoders. \<open>sk s m out\<close> says that the stream \<open>s\<close> in memory
  \<open>m\<close> has taken the bytes \<open>out\<close>, at most \<open>cap\<close> of them in all; \<open>src\<close> is the memory the message is
  read from, which writing to the stream does not change.
\<close>

definition emits :: "(pb_ostream_t \<Rightarrow> cmem \<Rightarrow> byte list \<Rightarrow> bool) \<Rightarrow> nat \<Rightarrow>
    (pb_ostream_t \<Rightarrow> cmem \<Rightarrow> ostream_res) \<Rightarrow> byte list \<Rightarrow> bool" where
  "emits sk cap act bs \<longleftrightarrow> (\<forall>s m out. sk s m out \<longrightarrow> length out + length bs \<le> cap \<longrightarrow>
     (\<exists>s' m'. act s m = Some (True, s', m') \<and> sk s' m' (out @ bs)))"

lemma emitsI:
  "(\<And>s m out. sk s m out \<Longrightarrow> length out + length bs \<le> cap \<Longrightarrow>
     \<exists>s' m'. act s m = Some (True, s', m') \<and> sk s' m' (out @ bs)) \<Longrightarrow> emits sk cap act bs"
  by (simp add: emits_def)

lemma emitsE:
  assumes "emits sk cap act bs" "sk s m out" "length out + length bs \<le> cap"
  obtains s' m' where "act s m = Some (True, s', m')" "sk s' m' (out @ bs)"
  using assms unfolding emits_def by blast

lemma emits_Nil: "emits sk cap (\<lambda>s m. Some (True, s, m)) []"
  by (simp add: emits_def)

lemma emits_cong:
  "(\<And>s m out. sk s m out \<Longrightarrow> act s m = act' s m) \<Longrightarrow> emits sk cap act' bs \<Longrightarrow> emits sk cap act bs"
  by (simp add: emits_def)

text \<open>Two actions in sequence, the second run only when the first succeeded.\<close>

lemma emits_seq:
  assumes a: "emits sk cap act1 bs" and b: "emits sk cap act2 cs"
  shows "emits sk cap (\<lambda>s m. do {
      (ok, s1, m1) \<leftarrow> act1 s m;
      if \<not> ok then Some (False, s1, m1) else act2 s1 m1 }) (bs @ cs)"
proof (rule emitsI)
  fix s m out
  assume sk: "sk s m out" and len: "length out + length (bs @ cs) \<le> cap"
  obtain s1 m1 where 1: "act1 s m = Some (True, s1, m1)" "sk s1 m1 (out @ bs)"
    using emitsE [OF a sk] len by auto
  obtain s2 m2 where 2: "act2 s1 m1 = Some (True, s2, m2)" "sk s2 m2 ((out @ bs) @ cs)"
    using emitsE [OF b 1(2)] len by auto
  show "\<exists>s' m'. (do { (ok, s1, m1) \<leftarrow> act1 s m;
      if \<not> ok then Some (False, s1, m1) else act2 s1 m1 }) = Some (True, s', m') \<and>
      sk s' m' (out @ bs @ cs)"
    using 1 2 by simp
qed

locale byte_sink =
  fixes env :: pb_env
    and sk :: "pb_ostream_t \<Rightarrow> cmem \<Rightarrow> byte list \<Rightarrow> bool"
    and src :: cmem
    and cap :: nat
  assumes sk_src: "sk s m out \<Longrightarrow> mem_le src m"
    and sk_write: "wbuf_bytes src buf (length bs) = Some bs \<Longrightarrow>
      emits sk cap (\<lambda>s m. pb_write env s buf (word_of_nat (length bs)) m) bs"
begin

lemma emits_local: "emits sk cap (\<lambda>s m. pb_write env s (WLocal bs) (word_of_nat (length bs)) m) bs"
  by (rule sk_write) (simp add: wbuf_bytes_def)

lemma emits_varint: "emits sk cap (\<lambda>s m. pb_encode_varint env s v m) (varint_spec (unat v))"
  unfolding pb_encode_varint_eq by (rule emits_local)

lemma emits_svarint:
  "emits sk cap (\<lambda>s m. pb_encode_svarint env s v m) (varint_spec (unat (zigzag v)))"
  unfolding pb_encode_svarint_def by (rule emits_varint)

lemma emits_tag:
  "unat wt < 8 \<Longrightarrow>
   emits sk cap (\<lambda>s m. pb_encode_tag env s wt t m) (tag_spec (unat t) (unat wt))"
  unfolding pb_encode_tag_def tag_spec_def
  using emits_varint [of "push_bit 3 (ucast t) OR ucast wt"] by (simp add: unat_tag_word)

lemma emits_tag_for_field:
  "fld_wire_type f = Some wt \<Longrightarrow>
   emits sk cap (\<lambda>s m. pb_encode_tag_for_field env s f m) (tag_spec (unat (fld_tag f)) (unat wt))"
  using emits_tag [of wt "fld_tag f"]
  by (auto simp: pb_encode_tag_for_field_def fld_wire_type_def Let_def split: if_splits)

lemma emits_fixed32:
  assumes "load_bytes src p 4 = Some bs"
  shows "emits sk cap (\<lambda>s m. pb_encode_fixed32 env s p m) bs"
proof (rule emits_cong)
  have len: "length bs = 4" using assms by (rule load_bytes_length)
  show "emits sk cap (\<lambda>s m. pb_write env s (WLocal bs) (word_of_nat (length bs)) m) bs"
    by (rule emits_local)
  fix s m out assume "sk s m out"
  then have "load_bytes m p 4 = Some bs" using assms by (blast intro: load_bytes_mono sk_src)
  moreover have "unat (word_of_nat (le_nat bs) :: u32) = le_nat bs"
    using le_nat_less [of bs] len by (simp add: unat_of_nat)
  ultimately show "pb_encode_fixed32 env s p m = pb_write env s (WLocal bs) (word_of_nat (length bs)) m"
    using len by (simp add: pb_encode_fixed32_def load_u32_def load_nat_def fixed32_buffer_eq
        le_bytes_le_nat)
qed

lemma emits_fixed64:
  assumes "load_bytes src p 8 = Some bs"
  shows "emits sk cap (\<lambda>s m. pb_encode_fixed64 env s p m) bs"
proof (rule emits_cong)
  have len: "length bs = 8" using assms by (rule load_bytes_length)
  show "emits sk cap (\<lambda>s m. pb_write env s (WLocal bs) (word_of_nat (length bs)) m) bs"
    by (rule emits_local)
  fix s m out assume "sk s m out"
  then have "load_bytes m p 8 = Some bs" using assms by (blast intro: load_bytes_mono sk_src)
  moreover have "unat (word_of_nat (le_nat bs) :: u64) = le_nat bs"
    using le_nat_less [of bs] len by (simp add: unat_of_nat)
  ultimately show "pb_encode_fixed64 env s p m = pb_write env s (WLocal bs) (word_of_nat (length bs)) m"
    using len by (simp add: pb_encode_fixed64_def load_u64_def load_nat_def fixed64_buffer_eq
        le_bytes_le_nat)
qed

lemma emits_string:
  assumes "wbuf_bytes src buf (unat sz) = Some bs"
  shows "emits sk cap (\<lambda>s m. pb_encode_string env s buf sz m) (varint_spec (length bs) @ bs)"
proof -
  have len: "length bs = unat sz" using assms by (rule wbuf_bytes_length)
  have "emits sk cap (\<lambda>s m. pb_write env s buf sz m) bs"
    using sk_write [of buf bs] assms by (simp add: len)
  then show ?thesis
    unfolding pb_encode_string_def len by (rule emits_seq [OF emits_varint])
qed

end

text \<open>
  The two kinds of stream the library itself makes. A sizing stream (\<open>ob = None\<close>) counts the bytes
  and leaves the memory alone; a buffer stream over the \<open>cap\<close> bytes at \<open>b\<close> (\<open>ob = Some b\<close>) has
  written exactly \<open>out\<close> there and nothing else.
\<close>

definition sink :: "cmem \<Rightarrow> cmem \<Rightarrow> addr option \<Rightarrow> nat \<Rightarrow> pb_ostream_t \<Rightarrow> cmem \<Rightarrow> byte list \<Rightarrow> bool" where
  "sink m0 src ob cap s m out \<longleftrightarrow> length out \<le> cap \<and> cap < 2 ^ 64 \<and>
     os_bytes_written s = word_of_nat (length out) \<and> mem_le src m0 \<and>
     (case ob of
        None \<Rightarrow> os_callback s = OS_null \<and> m = m0
      | Some b \<Rightarrow> os_callback s = OS_buf_write \<and> os_state s = b + length out \<and>
          os_max_size s = word_of_nat cap \<and> m = upd_bytes m0 b out \<and> valid m0 b cap \<and>
          (\<forall>x \<in> {b ..< b + cap}. mem_bytes src x = None))"

lemma sink_src: "sink m0 src ob cap s m out \<Longrightarrow> mem_le src m"
  by (auto simp: sink_def intro!: mem_le_upd split: option.splits)

lemma sink_write_buffer:
  assumes sk: "sink m0 src (Some b) cap s m out"
    and bs: "wbuf_bytes src buf (length bs) = Some bs"
    and len: "length out + length bs \<le> cap"
  shows "\<exists>s' m'. pb_write env s buf (word_of_nat (length bs)) m = Some (True, s', m') \<and>
    sink m0 src (Some b) cap s' m' (out @ bs)"
proof -
  from sk have cap: "cap < 2 ^ 64" and m: "m = upd_bytes m0 b out" and v: "valid m0 b cap"
    and st: "os_state s = b + length out" and ap: "\<forall>x \<in> {b ..< b + cap}. mem_bytes src x = None"
    and len0: "length out \<le> cap"
    by (simp_all add: sink_def)
  have u: "unat (word_of_nat (length bs) :: u64) = length bs"
    "unat (word_of_nat cap :: u64) = cap"
    "unat (word_of_nat (length out) + word_of_nat (length bs) :: u64) = length out + length bs"
    using len cap by (simp_all add: unat_of_nat unat_word_ariths)
  have v0: "valid m0 b (length out)" "valid m0 (b + length out) (length bs)"
    using v len by (auto intro: valid_sub)
  have bsm: "wbuf_bytes m buf (length bs) = Some bs"
    using bs load_bytes_mono [OF sink_src [OF sk]]
    by (auto simp: wbuf_bytes_def split: wbuf.splits if_splits)
  have apart: "wbuf_apart buf (length bs) (b + length out) (length bs)"
  proof (cases buf)
    case (WAddr a)
    with bs have ld: "load_bytes src a (length bs) = Some bs" by (simp add: wbuf_bytes_def)
    have "a + length bs \<le> b + length out \<or> b + length out + length bs \<le> a"
    proof (rule ccontr)
      assume "\<not> ?thesis"
      then have c: "a < b + length out + length bs" "b + length out < a + length bs" by auto
      let ?x = "max a (b + length out)"
      have "mem_bytes src (a + (?x - a)) = Some (bs ! (?x - a))"
        by (rule load_bytes_nth [OF ld]) (use c in auto)
      moreover have "?x \<in> {b ..< b + cap}" using c len by auto
      ultimately show False using ap by auto
    qed
    with WAddr show ?thesis by (simp add: wbuf_apart_def)
  qed (auto simp: wbuf_apart_def)
  have "buf_write s buf (word_of_nat (length bs)) m =
      Some (True, s\<lparr>os_state := b + length out + length bs\<rparr>, upd_bytes m (b + length out) bs)"
    using buf_write_eq [of m buf "word_of_nat (length bs)" bs s] bsm apart v0 u st m
    by (simp add: valid_upd_bytes)
  moreover have "\<not> word_of_nat (length out) + word_of_nat (length bs) > (word_of_nat cap :: u64)"
    using len u by (simp add: word_less_nat_alt)
  ultimately show ?thesis
    using sk len by (auto simp: pb_write_def os_call_def sink_def m upd_bytes_append)
qed

lemma sink_write_sizing:
  assumes "sink m0 src None cap s m out" and "length out + length bs \<le> cap"
  shows "\<exists>s' m'. pb_write env s buf (word_of_nat (length bs)) m = Some (True, s', m') \<and>
    sink m0 src None cap s' m' (out @ bs)"
  using assms by (auto simp: pb_write_def sink_def)

interpretation snk: byte_sink env "sink m0 src ob cap" src cap for env m0 src ob cap
proof
  fix s m out assume "sink m0 src ob cap s m out"
  then show "mem_le src m" by (rule sink_src)
next
  fix buf and bs :: "byte list"
  assume "wbuf_bytes src buf (length bs) = Some bs"
  then show "emits (sink m0 src ob cap) cap
      (\<lambda>s m. pb_write env s buf (word_of_nat (length bs)) m) bs"
    by (cases ob) (auto intro!: emitsI sink_write_buffer sink_write_sizing)
qed

end
