(* ===== verification/Pb_Common.thy ===== *)
theory Pb_Common
  imports Pb_Types
begin

text \<open>
  \<^verbatim>\<open>nanopb/pb_common.c\<close>: the iterator over a descriptor array. An array ends with the descriptor
  of tag 0; reading a descriptor outside the array is undefined (\<open>None\<close>).
\<close>

definition fld_at :: "pb_env \<Rightarrow> addr \<Rightarrow> nat \<Rightarrow> pb_field_t option" where
  "fld_at env fs i = (if i < length (env_fields env fs) then Some (env_fields env fs ! i) else None)"

definition it_fld :: "pb_env \<Rightarrow> pb_field_iter_t \<Rightarrow> pb_field_t option" where
  "it_fld env it = fld_at env (it_start it) (it_pos it)"

definition pb_field_iter_begin ::
  "pb_env \<Rightarrow> addr \<Rightarrow> addr \<Rightarrow> (bool \<times> pb_field_iter_t) option" where
  "pb_field_iter_begin env fs dest_struct = do {
     f \<leftarrow> fld_at env fs 0;
     let pData = dest_struct + unat (fld_data_offset f);
     Some (fld_tag f \<noteq> 0,
       \<lparr>it_start = fs, it_pos = 0, it_required_field_index = 0,
        it_dest_struct = dest_struct, it_pData = pData,
        it_pSize = ptr_add pData (sint (fld_size_offset f))\<rparr>) }"

text \<open>The space the previous field takes in the structure (\<open>size_t\<close> arithmetic: a product of two
  32-bit values does not wrap).\<close>

definition fld_prev_size :: "pb_field_t \<Rightarrow> nat" where
  "fld_prev_size f =
     (if PB_ATYPE (fld_type f) = PB_ATYPE_STATIC \<and> PB_HTYPE (fld_type f) = PB_HTYPE_REPEATED
      then unat (fld_data_size f) * unat (fld_array_size f)
      else if PB_ATYPE (fld_type f) = PB_ATYPE_POINTER then 8
      else unat (fld_data_size f))"

definition pb_field_iter_next ::
  "pb_env \<Rightarrow> pb_field_iter_t \<Rightarrow> (bool \<times> pb_field_iter_t) option" where
  "pb_field_iter_next env it = do {
     prev \<leftarrow> it_fld env it;
     if fld_tag prev = 0 then Some (False, it)
     else do {
       cur \<leftarrow> fld_at env (it_start it) (Suc (it_pos it));
       if fld_tag cur = 0 then do {
         (_, it') \<leftarrow> pb_field_iter_begin env (it_start it) (it_dest_struct it);
         Some (False, it') }
       else if PB_HTYPE (fld_type prev) = PB_HTYPE_ONEOF \<and>
               PB_HTYPE (fld_type cur) = PB_HTYPE_ONEOF \<and>
               fld_data_offset cur = PB_SIZE_MAX
       then Some (True, it\<lparr>it_pos := Suc (it_pos it)\<rparr>)
       else do {
         let req = (if PB_HTYPE (fld_type prev) = PB_HTYPE_REQUIRED
                    then it_required_field_index it + 1 else it_required_field_index it);
         let pData = it_pData it + fld_prev_size prev + unat (fld_data_offset cur);
         Some (True, it\<lparr>it_pos := Suc (it_pos it), it_required_field_index := req,
           it_pData := pData, it_pSize := ptr_add pData (sint (fld_size_offset cur))\<rparr>) } } }"

text \<open>The do-while loop of the two searches over the array (\<open>pb_field_iter_find\<close> here and
  \<open>find_extension_field\<close> in the decoder), with the test of the body as an argument. The loop stops
  when the iterator is back where it started, after at most one round of the array.\<close>

primrec iter_search :: "pb_env \<Rightarrow> (pb_field_t \<Rightarrow> bool) \<Rightarrow> nat \<Rightarrow> nat \<Rightarrow> pb_field_iter_t \<Rightarrow>
    (bool \<times> pb_field_iter_t) option" where
  "iter_search env P start 0 it = None"
| "iter_search env P start (Suc n) it = do {
     f \<leftarrow> it_fld env it;
     if P f then Some (True, it)
     else do {
       (_, it') \<leftarrow> pb_field_iter_next env it;
       if it_pos it' \<noteq> start then iter_search env P start n it' else Some (False, it') } }"

definition pb_field_iter_find ::
  "pb_env \<Rightarrow> pb_field_iter_t \<Rightarrow> u32 \<Rightarrow> (bool \<times> pb_field_iter_t) option" where
  "pb_field_iter_find env it tag =
     iter_search env (\<lambda>f. fld_tag f = tag \<and> PB_LTYPE (fld_type f) \<noteq> PB_LTYPE_EXTENSION)
       (it_pos it) (length (env_fields env (it_start it))) it"

end
