(* ===== verification/Pb_Encode.thy ===== *)
theory Pb_Encode
  imports Pb_Ostream Pb_Common
begin

text \<open>
  The field level of \<^verbatim>\<open>nanopb/pb_encode.c\<close>: the encoders of the table \<open>PB_ENCODERS\<close>, arrays, basic,
  callback and extension fields, messages and submessages. The recursion through submessages is
  open: the operations below \<open>pb_encode\<close> take the message encoder as an argument \<open>enc\<close>, and
  \<open>pb_encode\<close> closes it with a fuel that bounds the nesting depth (and the length of extension
  lists, which are linked lists in memory).
\<close>

type_synonym msg_encoder = "pb_ostream_t \<Rightarrow> addr \<Rightarrow> addr \<Rightarrow> cmem \<Rightarrow> ostream_res"
type_synonym pb_encoder_t = "pb_ostream_t \<Rightarrow> pb_field_t \<Rightarrow> addr \<Rightarrow> cmem \<Rightarrow> ostream_res"

subsection \<open>Field encoders\<close>

text \<open>The integer at \<open>src\<close> of the size in the descriptor, widened to 64 bits with and without its
  sign. The outer \<open>None\<close> is a size no branch of the code handles.\<close>

definition load_signed :: "cmem \<Rightarrow> addr \<Rightarrow> u32 \<Rightarrow> u64 option option" where
  "load_signed m src sz =
     (if sz = 1 then Some (map_option (\<lambda>v. scast (word_of_nat v :: 8 word)) (load_nat m src 1))
      else if sz = 2 then Some (map_option (\<lambda>v. scast (word_of_nat v :: 16 word)) (load_nat m src 2))
      else if sz = 4 then Some (map_option (\<lambda>v. scast (word_of_nat v :: 32 word)) (load_nat m src 4))
      else if sz = 8 then Some (map_option word_of_nat (load_nat m src 8))
      else None)"

definition load_unsigned :: "cmem \<Rightarrow> addr \<Rightarrow> u32 \<Rightarrow> u64 option option" where
  "load_unsigned m src sz =
     (if sz = 1 then Some (map_option word_of_nat (load_nat m src 1))
      else if sz = 2 then Some (map_option word_of_nat (load_nat m src 2))
      else if sz = 4 then Some (map_option word_of_nat (load_nat m src 4))
      else if sz = 8 then Some (map_option word_of_nat (load_nat m src 8))
      else None)"

definition pb_enc_varint :: "pb_env \<Rightarrow> pb_encoder_t" where
  "pb_enc_varint env s f src m = (case load_signed m src (fld_data_size f) of
     None \<Rightarrow> os_return_error s ''invalid data_size'' m
   | Some ld \<Rightarrow> do { v \<leftarrow> ld; pb_encode_varint env s v m })"

definition pb_enc_uvarint :: "pb_env \<Rightarrow> pb_encoder_t" where
  "pb_enc_uvarint env s f src m = (case load_unsigned m src (fld_data_size f) of
     None \<Rightarrow> os_return_error s ''invalid data_size'' m
   | Some ld \<Rightarrow> do { v \<leftarrow> ld; pb_encode_varint env s v m })"

definition pb_enc_svarint :: "pb_env \<Rightarrow> pb_encoder_t" where
  "pb_enc_svarint env s f src m = (case load_signed m src (fld_data_size f) of
     None \<Rightarrow> os_return_error s ''invalid data_size'' m
   | Some ld \<Rightarrow> do { v \<leftarrow> ld; pb_encode_svarint env s v m })"

definition pb_enc_fixed32 :: "pb_env \<Rightarrow> pb_encoder_t" where
  "pb_enc_fixed32 env s f src m = pb_encode_fixed32 env s src m"

definition pb_enc_fixed64 :: "pb_env \<Rightarrow> pb_encoder_t" where
  "pb_enc_fixed64 env s f src m = pb_encode_fixed64 env s src m"

definition pb_enc_bytes :: "pb_env \<Rightarrow> pb_encoder_t" where
  "pb_enc_bytes env s f src m =
     (if src = 0 then pb_encode_string env s WNull 0 m
      else do {
        sz \<leftarrow> load_u32 m src;
        if PB_ATYPE (fld_type f) = PB_ATYPE_STATIC \<and>
           PB_BYTES_ARRAY_T_ALLOCSIZE sz > ucast (fld_data_size f)
        then os_return_error s ''bytes size exceeded'' m
        else pb_encode_string env s (WAddr (bytes_data src)) (ucast sz) m })"

text \<open>The \<open>strnlen\<close> loop: at most \<open>n\<close> characters from \<open>p\<close>, stopping at a zero byte.\<close>

function str_len :: "cmem \<Rightarrow> nat \<Rightarrow> addr \<Rightarrow> nat \<Rightarrow> nat option" where
  "str_len m mx p sz =
     (if sz < mx then do {
        c \<leftarrow> load8 m (p + sz);
        if c = 0 then Some sz else str_len m mx p (Suc sz) }
      else Some sz)"
  by pat_completeness auto
termination
  by (relation "measure (\<lambda>(m, mx, p, sz). mx - sz)") auto

declare str_len.simps [simp del]

definition pb_enc_string :: "pb_env \<Rightarrow> pb_encoder_t" where
  "pb_enc_string env s f src m = do {
     let max_size = (if PB_ATYPE (fld_type f) = PB_ATYPE_POINTER then - 1
                     else ucast (fld_data_size f) :: u64);
     if src = 0 then pb_encode_string env s WNull 0 m
     else do {
       sz \<leftarrow> str_len m (unat max_size) src 0;
       pb_encode_string env s (WAddr src) (word_of_nat sz) m } }"

definition pb_enc_fixed_length_bytes :: "pb_env \<Rightarrow> pb_encoder_t" where
  "pb_enc_fixed_length_bytes env s f src m =
     pb_encode_string env s (WAddr src) (ucast (fld_data_size f)) m"

definition pb_encode_submessage :: "pb_env \<Rightarrow> msg_encoder \<Rightarrow> msg_encoder" where
  "pb_encode_submessage env enc s fs src m = do {
     (ok, sub, m1) \<leftarrow> enc PB_OSTREAM_SIZING fs src m;
     if \<not> ok then Some (False, s\<lparr>os_errmsg := os_errmsg sub\<rparr>, m1)
     else do {
       let sz = os_bytes_written sub;
       (ok, s2, m2) \<leftarrow> pb_encode_varint env s sz m1;
       if \<not> ok then Some (False, s2, m2)
       else if os_callback s2 = OS_null then pb_write env s2 WNull sz m2
       else if os_bytes_written s2 + sz > os_max_size s2
       then os_return_error s2 ''stream full'' m2
       else do {
         (status, sub3, m3) \<leftarrow> enc \<lparr>os_callback = os_callback s2, os_state = os_state s2,
            os_max_size = sz, os_bytes_written = 0, os_errmsg = None\<rparr> fs src m2;
         let s3 = s2\<lparr>os_bytes_written := os_bytes_written s2 + os_bytes_written sub3,
                     os_state := os_state sub3, os_errmsg := os_errmsg sub3\<rparr>;
         if os_bytes_written sub3 \<noteq> sz then os_return_error s3 ''submsg size changed'' m3
         else Some (status, s3, m3) } } }"

definition pb_enc_submessage :: "pb_env \<Rightarrow> msg_encoder \<Rightarrow> pb_encoder_t" where
  "pb_enc_submessage env enc s f src m =
     (if fld_ptr f = 0 then os_return_error s ''invalid field descriptor'' m
      else pb_encode_submessage env enc s (fld_ptr f) src m)"

text \<open>The function table, indexed by the scalar type; \<open>None\<close> is the null entry of extensions and
  every index outside the table.\<close>

definition PB_ENCODERS :: "pb_env \<Rightarrow> msg_encoder \<Rightarrow> pb_type_t \<Rightarrow> pb_encoder_t option" where
  "PB_ENCODERS env enc lt =
     (if lt = PB_LTYPE_VARINT then Some (pb_enc_varint env)
      else if lt = PB_LTYPE_UVARINT then Some (pb_enc_uvarint env)
      else if lt = PB_LTYPE_SVARINT then Some (pb_enc_svarint env)
      else if lt = PB_LTYPE_FIXED32 then Some (pb_enc_fixed32 env)
      else if lt = PB_LTYPE_FIXED64 then Some (pb_enc_fixed64 env)
      else if lt = PB_LTYPE_BYTES then Some (pb_enc_bytes env)
      else if lt = PB_LTYPE_STRING then Some (pb_enc_string env)
      else if lt = PB_LTYPE_SUBMESSAGE then Some (pb_enc_submessage env enc)
      else if lt = PB_LTYPE_FIXED_LENGTH_BYTES then Some (pb_enc_fixed_length_bytes env)
      else None)"

text \<open>A call through a function pointer of the table.\<close>

definition call_encoder :: "pb_encoder_t option \<Rightarrow> pb_encoder_t" where
  "call_encoder func s f p m = (case func of None \<Rightarrow> None | Some g \<Rightarrow> g s f p m)"

subsection \<open>Arrays\<close>

primrec encode_items :: "pb_encoder_t \<Rightarrow> pb_field_t \<Rightarrow> nat \<Rightarrow> addr \<Rightarrow> pb_ostream_t \<Rightarrow> cmem \<Rightarrow>
    ostream_res" where
  "encode_items func f 0 p s m = Some (True, s, m)"
| "encode_items func f (Suc n) p s m = do {
     (ok, s1, m1) \<leftarrow> func s f p m;
     if \<not> ok then Some (False, s1, m1)
     else encode_items func f n (p + unat (fld_data_size f)) s1 m1 }"

text \<open>The body of the loop for types that are not packed: the tag, then the item, through one more
  pointer for pointer-allocated strings and bytes.\<close>

definition encode_tagged_item :: "pb_env \<Rightarrow> pb_encoder_t option \<Rightarrow> pb_encoder_t" where
  "encode_tagged_item env func s f p m = do {
     (ok, s1, m1) \<leftarrow> pb_encode_tag_for_field env s f m;
     if \<not> ok then Some (False, s1, m1)
     else if PB_ATYPE (fld_type f) = PB_ATYPE_POINTER \<and>
             (PB_LTYPE (fld_type f) = PB_LTYPE_STRING \<or> PB_LTYPE (fld_type f) = PB_LTYPE_BYTES)
     then do { q \<leftarrow> load_ptr m1 p; call_encoder func s1 f q m1 }
     else call_encoder func s1 f p m1 }"

text \<open>The total size of a packed array: computed for the fixed-width types, measured with a sizing
  stream otherwise.\<close>

definition packed_size :: "pb_field_t \<Rightarrow> addr \<Rightarrow> u64 \<Rightarrow> pb_encoder_t option \<Rightarrow> cmem \<Rightarrow>
    (bool \<times> u64 \<times> cmem) option" where
  "packed_size f pData count func m =
     (if PB_LTYPE (fld_type f) = PB_LTYPE_FIXED32 then Some (True, 4 * count, m)
      else if PB_LTYPE (fld_type f) = PB_LTYPE_FIXED64 then Some (True, 8 * count, m)
      else do {
        (ok, sizestream, m1) \<leftarrow>
          encode_items (call_encoder func) f (unat count) pData PB_OSTREAM_SIZING m;
        Some (ok, os_bytes_written sizestream, m1) })"

definition encode_array :: "pb_env \<Rightarrow> pb_ostream_t \<Rightarrow> pb_field_t \<Rightarrow> addr \<Rightarrow> u64 \<Rightarrow>
    pb_encoder_t option \<Rightarrow> cmem \<Rightarrow> ostream_res" where
  "encode_array env s f pData count func m =
     (if count = 0 then Some (True, s, m)
      else if PB_ATYPE (fld_type f) \<noteq> PB_ATYPE_POINTER \<and> count > ucast (fld_array_size f)
      then os_return_error s ''array max size exceeded'' m
      else if PB_LTYPE (fld_type f) \<le> PB_LTYPE_LAST_PACKABLE then do {
        (ok, s1, m1) \<leftarrow> pb_encode_tag env s PB_WT_STRING (fld_tag f) m;
        if \<not> ok then Some (False, s1, m1)
        else do {
          (ok, sz, m2) \<leftarrow> packed_size f pData count func m1;
          if \<not> ok then Some (False, s1, m2)
          else do {
            (ok, s3, m3) \<leftarrow> pb_encode_varint env s1 sz m2;
            if \<not> ok then Some (False, s3, m3)
            else if os_callback s3 = OS_null then pb_write env s3 WNull sz m3
            else encode_items (call_encoder func) f (unat count) pData s3 m3 } } }
      else encode_items (encode_tagged_item env func) f (unat count) pData s m)"

subsection \<open>Default values of proto3 fields\<close>

primrec all_zero :: "cmem \<Rightarrow> nat \<Rightarrow> addr \<Rightarrow> bool option" where
  "all_zero m 0 p = Some True"
| "all_zero m (Suc n) p = do {
     b \<leftarrow> load8 m p;
     if b \<noteq> 0 then Some False else all_zero m n (Suc p) }"

text \<open>The do-while loop over the fields of a submessage.\<close>

primrec iter_all :: "pb_env \<Rightarrow> (pb_field_t \<Rightarrow> addr \<Rightarrow> bool option) \<Rightarrow> nat \<Rightarrow> pb_field_iter_t \<Rightarrow>
    bool option" where
  "iter_all env P 0 it = None"
| "iter_all env P (Suc n) it = do {
     f \<leftarrow> it_fld env it;
     ok \<leftarrow> P f (it_pData it);
     if \<not> ok then Some False
     else do {
       (more, it') \<leftarrow> pb_field_iter_next env it;
       if more then iter_all env P n it' else Some True } }"

definition proto3_default_step :: "pb_env \<Rightarrow> (pb_field_t \<Rightarrow> addr \<Rightarrow> bool option) \<Rightarrow> cmem \<Rightarrow>
    pb_field_t \<Rightarrow> addr \<Rightarrow> bool option" where
  "proto3_default_step env rec m f pData =
     (let ty = fld_type f; pSize = ptr_add pData (sint (fld_size_offset f)) in
      if PB_HTYPE ty = PB_HTYPE_REQUIRED then Some False
      else if PB_HTYPE ty = PB_HTYPE_REPEATED then map_option (\<lambda>n. n = 0) (load_u32 m pSize)
      else if PB_HTYPE ty = PB_HTYPE_ONEOF then map_option (\<lambda>n. n = 0) (load_u32 m pSize)
      else if PB_HTYPE ty = PB_HTYPE_OPTIONAL \<and> fld_size_offset f \<noteq> 0
      then map_option Not (load_bool m pSize)
      else if PB_ATYPE ty = PB_ATYPE_STATIC \<and> PB_LTYPE ty = PB_LTYPE_BYTES
      then map_option (\<lambda>n. n = 0) (load_u32 m pData)
      else if PB_ATYPE ty = PB_ATYPE_STATIC \<and> PB_LTYPE ty = PB_LTYPE_STRING
      then map_option (\<lambda>c. c = 0) (load8 m pData)
      else if PB_ATYPE ty = PB_ATYPE_STATIC \<and> PB_LTYPE ty = PB_LTYPE_FIXED_LENGTH_BYTES
      then Some (fld_data_size f = 0)
      else if PB_ATYPE ty = PB_ATYPE_STATIC \<and> PB_LTYPE ty = PB_LTYPE_SUBMESSAGE
      then do {
        (ok, it) \<leftarrow> pb_field_iter_begin env (fld_ptr f) pData;
        if ok then iter_all env rec (length (env_fields env (fld_ptr f))) it else Some True }
      else all_zero m (unat (fld_data_size f)) pData)"

primrec pb_check_proto3_default_value :: "nat \<Rightarrow> pb_env \<Rightarrow> cmem \<Rightarrow> pb_field_t \<Rightarrow> addr \<Rightarrow>
    bool option" where
  "pb_check_proto3_default_value 0 env m f pData = None"
| "pb_check_proto3_default_value (Suc n) env m f pData =
     proto3_default_step env (pb_check_proto3_default_value n env m) m f pData"

subsection \<open>Fields\<close>

text \<open>\<open>encode_basic_field\<close>: \<open>pSize\<close> is the address of the companion or stands for the local
  \<open>implicit_has\<close>. Reading a count or a \<open>which_\<close> value through the local (a descriptor without a
  companion) is undefined.\<close>

definition basic_has :: "cmem \<Rightarrow> addr option \<Rightarrow> bool \<Rightarrow> bool option" where
  "basic_has m pSize implicit_has = (case pSize of
     Some a \<Rightarrow> load_bool m a | None \<Rightarrow> Some implicit_has)"

definition encode_tag_and_value :: "pb_env \<Rightarrow> pb_encoder_t option \<Rightarrow> pb_encoder_t" where
  "encode_tag_and_value env func s f p m = do {
     (ok, s1, m1) \<leftarrow> pb_encode_tag_for_field env s f m;
     if \<not> ok then Some (False, s1, m1) else call_encoder func s1 f p m1 }"

definition encode_basic_field :: "pb_env \<Rightarrow> nat \<Rightarrow> msg_encoder \<Rightarrow> pb_encoder_t" where
  "encode_basic_field env n enc s f pData0 m = do {
     let func = PB_ENCODERS env enc (PB_LTYPE (fld_type f));
     let pSize = (if fld_size_offset f \<noteq> 0
                  then Some (ptr_add pData0 (sint (fld_size_offset f))) else None);
     has0 \<leftarrow> (if fld_size_offset f \<noteq> 0 then Some False
              else if PB_HTYPE (fld_type f) = PB_HTYPE_OPTIONAL
              then map_option Not (pb_check_proto3_default_value (Suc n) env m f pData0)
              else Some True);
     (pData, has) \<leftarrow> (if PB_ATYPE (fld_type f) = PB_ATYPE_POINTER
              then do { q \<leftarrow> load_ptr m pData0; Some (q, q \<noteq> 0) }
              else Some (pData0, has0));
     if PB_HTYPE (fld_type f) = PB_HTYPE_REQUIRED then
       (if pData = 0 then os_return_error s ''missing required field'' m
        else encode_tag_and_value env func s f pData m)
     else if PB_HTYPE (fld_type f) = PB_HTYPE_OPTIONAL then do {
       present \<leftarrow> basic_has m pSize has;
       if present then encode_tag_and_value env func s f pData m else Some (True, s, m) }
     else if PB_HTYPE (fld_type f) = PB_HTYPE_REPEATED then do {
       count \<leftarrow> (case pSize of Some a \<Rightarrow> load_u32 m a | None \<Rightarrow> Some (fld_array_size f));
       encode_array env s f pData (ucast count) func m }
     else if PB_HTYPE (fld_type f) = PB_HTYPE_ONEOF then do {
       a \<leftarrow> pSize;
       which \<leftarrow> load_u32 m a;
       if which = fld_tag f then encode_tag_and_value env func s f pData m
       else Some (True, s, m) }
     else os_return_error s ''invalid field type'' m }"

definition encode_callback_field :: "pb_env \<Rightarrow> pb_encoder_t" where
  "encode_callback_field env s f pData m = do {
     fp \<leftarrow> load_ptr m (cb_funcs pData);
     if fp \<noteq> 0 then do {
       (ok, s1, m1) \<leftarrow> env_encode_cb env fp s f (cb_arg pData) m;
       if \<not> ok then os_return_error s1 ''callback error'' m1 else Some (True, s1, m1) }
     else Some (True, s, m) }"

definition encode_field :: "pb_env \<Rightarrow> nat \<Rightarrow> msg_encoder \<Rightarrow> pb_encoder_t" where
  "encode_field env n enc s f pData m =
     (if PB_ATYPE (fld_type f) = PB_ATYPE_STATIC \<or> PB_ATYPE (fld_type f) = PB_ATYPE_POINTER
      then encode_basic_field env n enc s f pData m
      else if PB_ATYPE (fld_type f) = PB_ATYPE_CALLBACK then encode_callback_field env s f pData m
      else os_return_error s ''invalid field type'' m)"

definition default_extension_encoder :: "pb_env \<Rightarrow> nat \<Rightarrow> msg_encoder \<Rightarrow> pb_ostream_t \<Rightarrow> addr \<Rightarrow>
    cmem \<Rightarrow> ostream_res" where
  "default_extension_encoder env n enc s ext m = do {
     tp \<leftarrow> load_ptr m (ext_type ext);
     t \<leftarrow> env_ext_type env tp;
     f \<leftarrow> fld_at env (et_arg t) 0;
     if PB_ATYPE (fld_type f) = PB_ATYPE_POINTER
     then encode_field env n enc s f (ext_dest ext) m
     else do { d \<leftarrow> load_ptr m (ext_dest ext); encode_field env n enc s f d m } }"

text \<open>The loop over the linked list of extensions; the second number bounds its length.\<close>

primrec encode_extension_loop :: "pb_env \<Rightarrow> nat \<Rightarrow> msg_encoder \<Rightarrow> nat \<Rightarrow> pb_ostream_t \<Rightarrow> addr \<Rightarrow>
    cmem \<Rightarrow> ostream_res" where
  "encode_extension_loop env n enc 0 s ext m = None"
| "encode_extension_loop env n enc (Suc k) s ext m =
     (if ext = 0 then Some (True, s, m)
      else do {
        tp \<leftarrow> load_ptr m (ext_type ext);
        t \<leftarrow> env_ext_type env tp;
        (status, s1, m1) \<leftarrow> (if et_encode t \<noteq> 0 then env_ext_encode env (et_encode t) s ext m
                             else default_extension_encoder env n enc s ext m);
        if \<not> status then Some (False, s1, m1)
        else do {
          nxt \<leftarrow> load_ptr m1 (ext_next ext);
          encode_extension_loop env n enc k s1 nxt m1 } })"

definition encode_extension_field :: "pb_env \<Rightarrow> nat \<Rightarrow> msg_encoder \<Rightarrow> pb_encoder_t" where
  "encode_extension_field env n enc s f pData m = do {
     ext \<leftarrow> load_ptr m pData;
     encode_extension_loop env n enc (Suc n) s ext m }"

subsection \<open>Messages\<close>

primrec encode_fields_loop :: "pb_env \<Rightarrow> nat \<Rightarrow> msg_encoder \<Rightarrow> nat \<Rightarrow> pb_ostream_t \<Rightarrow>
    pb_field_iter_t \<Rightarrow> cmem \<Rightarrow> ostream_res" where
  "encode_fields_loop env n enc 0 s it m = None"
| "encode_fields_loop env n enc (Suc k) s it m = do {
     f \<leftarrow> it_fld env it;
     (ok, s1, m1) \<leftarrow> (if PB_LTYPE (fld_type f) = PB_LTYPE_EXTENSION
                      then encode_extension_field env n enc s f (it_pData it) m
                      else encode_field env n enc s f (it_pData it) m);
     if \<not> ok then Some (False, s1, m1)
     else do {
       (more, it') \<leftarrow> pb_field_iter_next env it;
       if more then encode_fields_loop env n enc k s1 it' m1 else Some (True, s1, m1) } }"

definition pb_encode_step :: "pb_env \<Rightarrow> nat \<Rightarrow> msg_encoder \<Rightarrow> msg_encoder" where
  "pb_encode_step env n enc s fs src m = do {
     (ok, it) \<leftarrow> pb_field_iter_begin env fs src;
     if \<not> ok then Some (True, s, m)
     else encode_fields_loop env n enc (length (env_fields env fs)) s it m }"

primrec pb_encode :: "nat \<Rightarrow> pb_env \<Rightarrow> msg_encoder" where
  "pb_encode 0 env s fs src m = None"
| "pb_encode (Suc n) env s fs src m = pb_encode_step env n (pb_encode n env) s fs src m"

definition pb_encode_delimited :: "nat \<Rightarrow> pb_env \<Rightarrow> msg_encoder" where
  "pb_encode_delimited n env s fs src m = pb_encode_submessage env (pb_encode n env) s fs src m"

definition pb_encode_nullterminated :: "nat \<Rightarrow> pb_env \<Rightarrow> msg_encoder" where
  "pb_encode_nullterminated n env s fs src m = do {
     (ok, s1, m1) \<leftarrow> pb_encode n env s fs src m;
     if \<not> ok then Some (False, s1, m1) else pb_write env s1 (WLocal [0]) 1 m1 }"

definition pb_get_encoded_size :: "nat \<Rightarrow> pb_env \<Rightarrow> addr \<Rightarrow> addr \<Rightarrow> cmem \<Rightarrow>
    (u64 option \<times> cmem) option" where
  "pb_get_encoded_size n env fs src m = do {
     (ok, s1, m1) \<leftarrow> pb_encode n env PB_OSTREAM_SIZING fs src m;
     Some (if ok then Some (os_bytes_written s1) else None, m1) }"

end
