(* ===== verification/Pb_Demo.thy ===== *)
theory Pb_Demo
  imports Pb_Types
begin

text \<open>
  A concrete message type on which the properties of the development are exercised: its descriptor
  arrays built with the macros of \<^verbatim>\<open>pb.h\<close>, one value of it in memory and its serialisation.

  \<^verbatim>\<open>struct Sub { int32_t x; };\<close>

  \<^verbatim>\<open>struct Msg { uint32_t id; bool has_name; char name[8]; pb_size_t vals_count;
  int32_t vals[3]; Sub sub; };\<close>
\<close>

definition empty_env :: pb_env where
  "empty_env = \<lparr>env_fields = (\<lambda>_. []), env_read = (\<lambda>_ _ _ _ _. None), env_write = (\<lambda>_ _ _ _ _. None),
     env_decode_cb = (\<lambda>_ _ _ _ _. None), env_encode_cb = (\<lambda>_ _ _ _ _. None),
     env_ext_type = (\<lambda>_. None), env_ext_decode = (\<lambda>_ _ _ _ _ _. None),
     env_ext_encode = (\<lambda>_ _ _ _. None)\<rparr>"

definition struct_member :: "nat \<Rightarrow> nat \<Rightarrow> nat \<Rightarrow> nat \<Rightarrow> pb_member" where
  "struct_member off sz el cp = \<lparr>mb_offset = off, mb_size = sz, mb_elem = el, mb_companion = cp\<rparr>"

definition Sub_fields :: "pb_field_t list" where
  "Sub_fields = [PB_FIELD 1 INT32 REQUIRED STATIC FIRST (struct_member 0 4 4 0) (struct_member 0 4 4 0) 0,
     PB_LAST_FIELD]"

definition Msg_fields :: "pb_field_t list" where
  "Msg_fields =
     [PB_FIELD 1 UINT32 REQUIRED STATIC FIRST (struct_member 0 4 4 0) (struct_member 0 4 4 0) 0,
      PB_FIELD 2 STRING OPTIONAL STATIC OTHER (struct_member 5 8 1 4) (struct_member 0 4 4 0) 0,
      PB_FIELD 3 INT32 REPEATED STATIC OTHER (struct_member 20 12 4 16) (struct_member 5 8 1 4) 0,
      PB_FIELD 4 MESSAGE REQUIRED STATIC OTHER (struct_member 32 4 4 0) (struct_member 20 12 4 16) 2000,
      PB_LAST_FIELD]"

definition demo_env :: pb_env where
  "demo_env = empty_env\<lparr>env_fields := (\<lambda>a. if a = 1000 then Msg_fields
     else if a = 2000 then Sub_fields else [])\<rparr>"

definition demo_struct :: "byte list" where
  "demo_struct = [150, 0, 0, 0,  1,  104, 105, 0, 0, 0, 0, 0, 0, 0, 0, 0,  2, 0, 0, 0,
     3, 0, 0, 0,  144, 1, 0, 0,  0, 0, 0, 0,  5, 0, 0, 0]"

definition demo_bytes :: "byte list" where
  "demo_bytes = [8, 150, 1, 18, 2, 104, 105, 26, 3, 3, 144, 3, 34, 2, 8, 5]"

definition demo_input :: cmem where
  "demo_input = mem_at 100 (replicate 36 0 @ demo_bytes)"

end
