(* ===== verification/Pb_Serial.thy ===== *)
theory Pb_Serial
  imports Pb_Encode Pb_Demo
begin

text \<open>
  The serialisation of a message as a function of the memory that holds it, and the proof that the
  encoder writes exactly these bytes. The specification has no streams, no sizing pass and no
  intermediate buffers: a packed array is its tag, its length and its items; a submessage is its
  length and its bytes. It is defined for messages whose callback fields are null and whose
  extension lists are empty; \<open>None\<close> also stands for every message the encoder rejects.

  The encoder reads a message from the memory \<open>src\<close> while it writes to a stream; \<open>sink\<close> of
  \<^verbatim>\<open>Pb_Ostream\<close> keeps the two apart.
\<close>

subsection \<open>Specification\<close>

type_synonym msg_ser = "addr \<Rightarrow> addr \<Rightarrow> byte list option"

definition ser_value :: "cmem \<Rightarrow> msg_ser \<Rightarrow> pb_field_t \<Rightarrow> addr \<Rightarrow> byte list option" where
  "ser_value m rec f p = (let lt = PB_LTYPE (fld_type f); ds = fld_data_size f in
     if lt = PB_LTYPE_VARINT then do {
       ld \<leftarrow> load_signed m p ds; v \<leftarrow> ld; Some (varint_spec (unat v)) }
     else if lt = PB_LTYPE_UVARINT then do {
       ld \<leftarrow> load_unsigned m p ds; v \<leftarrow> ld; Some (varint_spec (unat v)) }
     else if lt = PB_LTYPE_SVARINT then do {
       ld \<leftarrow> load_signed m p ds; v \<leftarrow> ld; Some (varint_spec (unat (zigzag v))) }
     else if lt = PB_LTYPE_FIXED32 then load_bytes m p 4
     else if lt = PB_LTYPE_FIXED64 then load_bytes m p 8
     else if lt = PB_LTYPE_BYTES then
       (if p = 0 then Some (varint_spec 0)
        else do {
          sz \<leftarrow> load_u32 m p;
          if PB_ATYPE (fld_type f) = PB_ATYPE_STATIC \<and> unat sz + 4 > unat ds then None
          else do {
            bs \<leftarrow> load_bytes m (bytes_data p) (unat sz);
            Some (varint_spec (length bs) @ bs) } })
     else if lt = PB_LTYPE_STRING then
       (if p = 0 then Some (varint_spec 0)
        else do {
          len \<leftarrow> str_len m (if PB_ATYPE (fld_type f) = PB_ATYPE_POINTER then 2 ^ 64 - 1
                           else unat ds) p 0;
          bs \<leftarrow> load_bytes m p len;
          Some (varint_spec len @ bs) })
     else if lt = PB_LTYPE_SUBMESSAGE then
       (if fld_ptr f = 0 then None
        else do { bs \<leftarrow> rec (fld_ptr f) p; Some (varint_spec (length bs) @ bs) })
     else if lt = PB_LTYPE_FIXED_LENGTH_BYTES then do {
       bs \<leftarrow> load_bytes m p (unat ds);
       Some (varint_spec (length bs) @ bs) }
     else None)"

definition ser_tagged :: "cmem \<Rightarrow> msg_ser \<Rightarrow> pb_field_t \<Rightarrow> addr \<Rightarrow> byte list option" where
  "ser_tagged m rec f p = do {
     wt \<leftarrow> fld_wire_type f;
     bs \<leftarrow> ser_value m rec f p;
     Some (tag_spec (unat (fld_tag f)) (unat wt) @ bs) }"

primrec ser_items :: "(addr \<Rightarrow> byte list option) \<Rightarrow> nat \<Rightarrow> nat \<Rightarrow> addr \<Rightarrow> byte list option" where
  "ser_items g sz 0 p = Some []"
| "ser_items g sz (Suc n) p = do {
     bs \<leftarrow> g p;
     cs \<leftarrow> ser_items g sz n (p + sz);
     Some (bs @ cs) }"

text \<open>An entry of an array that is not packed; entries of a pointer-allocated array of strings or
  bytes are pointers.\<close>

definition ser_entry :: "cmem \<Rightarrow> msg_ser \<Rightarrow> pb_field_t \<Rightarrow> addr \<Rightarrow> byte list option" where
  "ser_entry m rec f p = do {
     q \<leftarrow> (if PB_ATYPE (fld_type f) = PB_ATYPE_POINTER \<and>
              (PB_LTYPE (fld_type f) = PB_LTYPE_STRING \<or> PB_LTYPE (fld_type f) = PB_LTYPE_BYTES)
           then load_ptr m p else Some p);
     ser_tagged m rec f q }"

definition ser_array :: "cmem \<Rightarrow> msg_ser \<Rightarrow> pb_field_t \<Rightarrow> addr \<Rightarrow> u32 \<Rightarrow> byte list option" where
  "ser_array m rec f p count =
     (if count = 0 then Some []
      else if PB_ATYPE (fld_type f) \<noteq> PB_ATYPE_POINTER \<and> count > fld_array_size f then None
      else if PB_LTYPE (fld_type f) \<le> PB_LTYPE_LAST_PACKABLE then do {
        body \<leftarrow> ser_items (ser_value m rec f) (unat (fld_data_size f)) (unat count) p;
        Some (tag_spec (unat (fld_tag f)) 2 @ varint_spec (length body) @ body) }
      else ser_items (ser_entry m rec f) (unat (fld_data_size f)) (unat count) p)"

text \<open>A static or pointer field. For an optional field without \<open>has_\<close> flag presence is the zero
  test of the value; the encoder makes this test for pointer fields too, before it looks at the
  pointer.\<close>

definition ser_basic :: "nat \<Rightarrow> pb_env \<Rightarrow> cmem \<Rightarrow> msg_ser \<Rightarrow> pb_field_t \<Rightarrow> addr \<Rightarrow> byte list option" where
  "ser_basic n env m rec f p0 = do {
     let pSize = ptr_add p0 (sint (fld_size_offset f));
     implicit \<leftarrow> (if fld_size_offset f = 0 \<and> PB_HTYPE (fld_type f) = PB_HTYPE_OPTIONAL
                  then map_option Not (pb_check_proto3_default_value (Suc n) env m f p0)
                  else Some (fld_size_offset f = 0));
     p \<leftarrow> (if PB_ATYPE (fld_type f) = PB_ATYPE_POINTER then load_ptr m p0 else Some p0);
     if PB_HTYPE (fld_type f) = PB_HTYPE_REQUIRED then
       (if p = 0 then None else ser_tagged m rec f p)
     else if PB_HTYPE (fld_type f) = PB_HTYPE_OPTIONAL then do {
       present \<leftarrow> (if fld_size_offset f \<noteq> 0 then load_bool m pSize
                   else Some (if PB_ATYPE (fld_type f) = PB_ATYPE_POINTER then p \<noteq> 0 else implicit));
       if present then ser_tagged m rec f p else Some [] }
     else if PB_HTYPE (fld_type f) = PB_HTYPE_REPEATED then do {
       count \<leftarrow> (if fld_size_offset f \<noteq> 0 then load_u32 m pSize else Some (fld_array_size f));
       ser_array m rec f p count }
     else if PB_HTYPE (fld_type f) = PB_HTYPE_ONEOF \<and> fld_size_offset f \<noteq> 0 then do {
       which \<leftarrow> load_u32 m pSize;
       if which = fld_tag f then ser_tagged m rec f p else Some [] }
     else None }"

definition ser_field :: "nat \<Rightarrow> pb_env \<Rightarrow> cmem \<Rightarrow> msg_ser \<Rightarrow> pb_field_t \<Rightarrow> addr \<Rightarrow> byte list option" where
  "ser_field n env m rec f p =
     (if PB_LTYPE (fld_type f) = PB_LTYPE_EXTENSION \<or> PB_ATYPE (fld_type f) = PB_ATYPE_CALLBACK
      then do { q \<leftarrow> load_ptr m p; if q = 0 then Some [] else None }
      else if PB_ATYPE (fld_type f) = PB_ATYPE_STATIC \<or> PB_ATYPE (fld_type f) = PB_ATYPE_POINTER
      then ser_basic n env m rec f p
      else None)"

primrec ser_fields :: "pb_env \<Rightarrow> (pb_field_t \<Rightarrow> addr \<Rightarrow> byte list option) \<Rightarrow> nat \<Rightarrow>
    pb_field_iter_t \<Rightarrow> byte list option" where
  "ser_fields env g 0 it = None"
| "ser_fields env g (Suc k) it = do {
     f \<leftarrow> it_fld env it;
     bs \<leftarrow> g f (it_pData it);
     (more, it') \<leftarrow> pb_field_iter_next env it;
     cs \<leftarrow> (if more then ser_fields env g k it' else Some []);
     Some (bs @ cs) }"

primrec ser_msg :: "nat \<Rightarrow> pb_env \<Rightarrow> cmem \<Rightarrow> msg_ser" where
  "ser_msg 0 env m fs p = None"
| "ser_msg (Suc n) env m fs p = do {
     (ok, it) \<leftarrow> pb_field_iter_begin env fs p;
     if \<not> ok then Some []
     else ser_fields env (ser_field n env m (ser_msg n env m)) (length (env_fields env fs)) it }"

subsection \<open>Reading from a larger memory\<close>

lemma load_signed_mono:
  "mem_le src m \<Longrightarrow> load_signed src p ds = Some (Some v) \<Longrightarrow> load_signed m p ds = Some (Some v)"
  by (auto simp: load_signed_def dest: load_mono split: if_splits)

lemma load_unsigned_mono:
  "mem_le src m \<Longrightarrow> load_unsigned src p ds = Some (Some v) \<Longrightarrow> load_unsigned m p ds = Some (Some v)"
  by (auto simp: load_unsigned_def dest: load_mono split: if_splits)

lemma str_len_mono:
  "mem_le src m \<Longrightarrow> str_len src mx p sz = Some n \<Longrightarrow> str_len m mx p sz = Some n"
proof (induction src mx p sz rule: str_len.induct)
  case (1 src mx p sz)
  then show ?case
    by (subst str_len.simps, subst (asm) (3) str_len.simps)
      (auto dest: load_mono split: if_splits)
qed

lemma all_zero_mono: "mem_le src m \<Longrightarrow> all_zero src n p = Some b \<Longrightarrow> all_zero m n p = Some b"
  by (induction n arbitrary: p) (auto dest: load_mono split: if_splits)

lemma iter_all_mono:
  "(\<And>f p b. P f p = Some b \<Longrightarrow> Q f p = Some b) \<Longrightarrow> iter_all env P n it = Some b \<Longrightarrow>
   iter_all env Q n it = Some b"
  by (induction n arbitrary: it) (fastforce split: if_splits)+

lemma ole_load:
  assumes "mem_le src m"
  shows "ole (load8 src a) (load8 m a)" "ole (load_u32 src a) (load_u32 m a)"
    "ole (load_bool src a) (load_bool m a)" "ole (load_ptr src a) (load_ptr m a)"
    "ole (all_zero src n a) (all_zero m n a)"
  using load_mono [OF assms] all_zero_mono [OF assms] by (auto simp: ole_def)

lemma proto3_default_step_mono:
  assumes "mem_le src m" and "\<And>f p. ole (rec f p) (rec' f p)"
  shows "ole (proto3_default_step env rec src f p) (proto3_default_step env rec' m f p)"
proof -
  have "ole (iter_all env rec k it) (iter_all env rec' k it)" for k it
    using iter_all_mono [of rec rec' env k it] assms(2) by (auto simp: ole_def)
  then show ?thesis
    unfolding proto3_default_step_def Let_def
    by (intro ole_if ole_map ole_bind ole_prod ole_refl ole_load [OF assms(1)])
qed

lemma proto3_default_mono:
  "mem_le src m \<Longrightarrow> pb_check_proto3_default_value n env src f p = Some b \<Longrightarrow>
   pb_check_proto3_default_value n env m f p = Some b"
proof (induction n arbitrary: f p b)
  case 0
  then show ?case by simp
next
  case (Suc n)
  then show ?case
    using oleD [OF proto3_default_step_mono [OF Suc.prems(1), of "pb_check_proto3_default_value n env src"
        "pb_check_proto3_default_value n env m" env f p]] by (auto simp: ole_def)
qed

subsection \<open>Values\<close>

text \<open>An action that emits the same bytes on every sink that leaves \<open>src\<close> alone.\<close>

definition emits_all :: "cmem \<Rightarrow> (pb_ostream_t \<Rightarrow> cmem \<Rightarrow> ostream_res) \<Rightarrow> byte list \<Rightarrow> bool" where
  "emits_all src act bs \<longleftrightarrow> (\<forall>m0 ob cap. emits (sink m0 src ob cap) cap act bs)"

lemma emits_allI: "(\<And>m0 ob cap. emits (sink m0 src ob cap) cap act bs) \<Longrightarrow> emits_all src act bs"
  by (simp add: emits_all_def)

lemma emits_allD: "emits_all src act bs \<Longrightarrow> emits (sink m0 src ob cap) cap act bs"
  by (simp add: emits_all_def)

lemma emits_all_cong:
  "(\<And>s m. mem_le src m \<Longrightarrow> act s m = act' s m) \<Longrightarrow> emits_all src act' bs \<Longrightarrow> emits_all src act bs"
  unfolding emits_all_def
proof (intro allI)
  fix m0 ob cap
  assume eq: "\<And>s m. mem_le src m \<Longrightarrow> act s m = act' s m"
    and "\<forall>m0 ob cap. emits (sink m0 src ob cap) cap act' bs"
  then have "emits (sink m0 src ob cap) cap act' bs" by blast
  then show "emits (sink m0 src ob cap) cap act bs"
    by (rule emits_cong [rotated]) (rule eq, rule sink_src)
qed

lemma emits_all_Nil: "emits_all src (\<lambda>s m. Some (True, s, m)) []"
  by (simp add: emits_all_def emits_Nil)

lemma emits_all_seq:
  "emits_all src act1 bs \<Longrightarrow> emits_all src act2 cs \<Longrightarrow>
   emits_all src (\<lambda>s m. do {
      (ok, s1, m1) \<leftarrow> act1 s m;
      if \<not> ok then Some (False, s1, m1) else act2 s1 m1 }) (bs @ cs)"
  unfolding emits_all_def by (blast intro: emits_seq)

lemma emits_all_varint: "emits_all src (\<lambda>s m. pb_encode_varint env s v m) (varint_spec (unat v))"
  by (rule emits_allI) (rule snk.emits_varint)

lemma emits_all_string:
  "wbuf_bytes src buf (unat sz) = Some bs \<Longrightarrow>
   emits_all src (\<lambda>s m. pb_encode_string env s buf sz m) (varint_spec (length bs) @ bs)"
  by (rule emits_allI) (rule snk.emits_string)

lemma emits_all_tag:
  "unat wt < 8 \<Longrightarrow> emits_all src (\<lambda>s m. pb_encode_tag env s wt t m) (tag_spec (unat t) (unat wt))"
  by (rule emits_allI) (rule snk.emits_tag)

lemma emits_all_tag_for_field:
  "fld_wire_type f = Some wt \<Longrightarrow>
   emits_all src (\<lambda>s m. pb_encode_tag_for_field env s f m) (tag_spec (unat (fld_tag f)) (unat wt))"
  by (rule emits_allI) (rule snk.emits_tag_for_field)

lemma emits_enc_varint:
  assumes "load_signed src p (fld_data_size f) = Some (Some v)"
  shows "emits_all src (\<lambda>s m. pb_enc_varint env s f p m) (varint_spec (unat v))"
  by (rule emits_all_cong [OF _ emits_all_varint])
    (simp add: pb_enc_varint_def load_signed_mono [OF _ assms])

lemma emits_enc_uvarint:
  assumes "load_unsigned src p (fld_data_size f) = Some (Some v)"
  shows "emits_all src (\<lambda>s m. pb_enc_uvarint env s f p m) (varint_spec (unat v))"
  by (rule emits_all_cong [OF _ emits_all_varint])
    (simp add: pb_enc_uvarint_def load_unsigned_mono [OF _ assms])

lemma emits_enc_svarint:
  assumes "load_signed src p (fld_data_size f) = Some (Some v)"
  shows "emits_all src (\<lambda>s m. pb_enc_svarint env s f p m) (varint_spec (unat (zigzag v)))"
  by (rule emits_all_cong [OF _ emits_all_varint])
    (simp add: pb_enc_svarint_def pb_encode_svarint_def load_signed_mono [OF _ assms])

lemma emits_enc_null: "emits_all src (\<lambda>s m. pb_encode_string env s WNull 0 m) (varint_spec 0)"
  using emits_all_string [of src WNull 0 "[]" env] by (simp add: wbuf_bytes_def)

lemma unat_allocsize: "unat (PB_BYTES_ARRAY_T_ALLOCSIZE sz) = unat sz + 4"
  using unat_u32_less [of sz] by (simp add: PB_BYTES_ARRAY_T_ALLOCSIZE_def unat_word_ariths)

lemma emits_enc_bytes:
  assumes "p \<noteq> 0" and sz: "load_u32 src p = Some sz"
    and "\<not> (PB_ATYPE (fld_type f) = PB_ATYPE_STATIC \<and> unat sz + 4 > unat (fld_data_size f))"
    and bs: "load_bytes src (bytes_data p) (unat sz) = Some bs"
  shows "emits_all src (\<lambda>s m. pb_enc_bytes env s f p m) (varint_spec (length bs) @ bs)"
proof (rule emits_all_cong)
  show "emits_all src (\<lambda>s m. pb_encode_string env s (WAddr (bytes_data p)) (ucast sz) m)
      (varint_spec (length bs) @ bs)"
    by (rule emits_all_string) (simp add: wbuf_bytes_def bs)
  fix s m assume "mem_le src m"
  then have "load_u32 m p = Some sz" using sz by (rule load_u32_mono)
  moreover have "\<not> (PB_ATYPE (fld_type f) = PB_ATYPE_STATIC \<and>
      PB_BYTES_ARRAY_T_ALLOCSIZE sz > ucast (fld_data_size f))"
    using assms(3) by (simp add: word_less_nat_alt unat_allocsize)
  ultimately show "pb_enc_bytes env s f p m =
      pb_encode_string env s (WAddr (bytes_data p)) (ucast sz) m"
    using \<open>p \<noteq> 0\<close> by (auto simp: pb_enc_bytes_def)
qed

lemma str_len_le: "str_len m mx p sz = Some n \<Longrightarrow> sz \<le> mx \<Longrightarrow> n \<le> mx"
proof (induction m mx p sz rule: str_len.induct)
  case (1 m mx p sz)
  then show ?case
    by (subst (asm) (2) str_len.simps) (auto split: if_splits)
qed

lemma emits_enc_string:
  assumes "p \<noteq> 0"
    and n: "str_len src (if PB_ATYPE (fld_type f) = PB_ATYPE_POINTER then 2 ^ 64 - 1
           else unat (fld_data_size f)) p 0 = Some n"
    and bs: "load_bytes src p n = Some bs"
  shows "emits_all src (\<lambda>s m. pb_enc_string env s f p m) (varint_spec n @ bs)"
proof (rule emits_all_cong)
  have "n \<le> 2 ^ 64 - 1"
    using str_len_le [OF n] unat_u32_less [of "fld_data_size f"] by (auto split: if_splits)
  then have u: "unat (word_of_nat n :: u64) = n" by (intro unat_of_nat_small) simp
  have "length bs = n" using bs by (rule load_bytes_length)
  then show "emits_all src (\<lambda>s m. pb_encode_string env s (WAddr p) (word_of_nat n) m)
      (varint_spec n @ bs)"
    using emits_all_string [of src "WAddr p" "word_of_nat n" bs env] by (simp add: wbuf_bytes_def u bs)
  fix s m assume "mem_le src m"
  from str_len_mono [OF this n]
  show "pb_enc_string env s f p m = pb_encode_string env s (WAddr p) (word_of_nat n) m"
    using \<open>p \<noteq> 0\<close> by (simp add: pb_enc_string_def Let_def unat_max_u64 split: if_splits)
qed

subsection \<open>Submessages\<close>

text \<open>The sizing stream the encoder starts from, in any memory that contains \<open>src\<close>.\<close>

lemma sink_sizing:
  "mem_le src m \<Longrightarrow> cap < 2 ^ 64 \<Longrightarrow> sink m src None cap PB_OSTREAM_SIZING m []"
  by (simp add: sink_def PB_OSTREAM_SIZING_def)

text \<open>The substream of a buffer stream is a buffer stream over the next \<open>n\<close> bytes, and what it
  writes the parent has written.\<close>

lemma sink_substream:
  assumes "sink m0 src (Some b) cap s m out" and "length out + n \<le> cap"
  shows "sink m src (Some (b + length out)) n
    \<lparr>os_callback = os_callback s, os_state = os_state s, os_max_size = word_of_nat n,
     os_bytes_written = 0, os_errmsg = None\<rparr> m []"
proof -
  have "mem_le src m" using assms(1) by (rule sink_src)
  moreover have "valid m0 b (length out)" "valid m0 (b + length out) n"
    using assms by (auto simp: sink_def intro: valid_sub)
  ultimately show ?thesis using assms by (auto simp: sink_def)
qed

lemma sink_superstream:
  assumes "sink m0 src (Some b) cap s m out"
    and "sink m src (Some (b + length out)) n sub m' bs" and "length out + length bs \<le> cap"
  shows "sink m0 src (Some b) cap
    (s\<lparr>os_bytes_written := os_bytes_written s + os_bytes_written sub, os_state := os_state sub,
      os_errmsg := e\<rparr>) m' (out @ bs)"
  using assms by (auto simp: sink_def upd_bytes_append)

lemma emits_submessage:
  assumes enc: "emits_all src (\<lambda>s m. enc s fs p m) bs"
  shows "emits_all src (\<lambda>s m. pb_encode_submessage env enc s fs p m) (varint_spec (length bs) @ bs)"
proof (intro emits_allI emitsI)
  fix m0 ob cap s m out
  assume sk: "sink m0 src ob cap s m out"
    and len: "length out + length (varint_spec (length bs) @ bs) \<le> cap"
  have cap: "cap < 2 ^ 64" using sk by (simp add: sink_def)
  have le: "mem_le src m" using sk by (rule sink_src)
  have bs64: "length bs < 2 ^ 64" using len cap by simp
  have u: "unat (word_of_nat (length bs) :: u64) = length bs"
    by (rule unat_of_nat_small) (use bs64 in simp)
  obtain sub m1 where e1: "enc PB_OSTREAM_SIZING fs p m = Some (True, sub, m1)"
    and sk1: "sink m src None (length bs) sub m1 ([] @ bs)"
    by (rule emitsE [OF emits_allD [OF enc] sink_sizing [OF le bs64]]) simp
  have m1: "m1 = m" and sz: "os_bytes_written sub = word_of_nat (length bs)"
    using sk1 by (simp_all add: sink_def)
  obtain s2 m2 where e2: "pb_encode_varint env s (word_of_nat (length bs)) m = Some (True, s2, m2)"
    and sk2: "sink m0 src ob cap s2 m2 (out @ varint_spec (length bs))"
    using emitsE [OF snk.emits_varint [of m0 src ob cap env "word_of_nat (length bs)"] sk] len u
    by auto
  show "\<exists>s' m'. pb_encode_submessage env enc s fs p m = Some (True, s', m') \<and>
      sink m0 src ob cap s' m' (out @ varint_spec (length bs) @ bs)"
  proof (cases ob)
    case None
    then have "os_callback s2 = OS_null" using sk2 by (simp add: sink_def)
    moreover from sink_write_sizing [of m0 src cap s2 m2 "out @ varint_spec (length bs)" bs env WNull] sk2 len None
    obtain s3 m3 where "pb_write env s2 WNull (word_of_nat (length bs)) m2 = Some (True, s3, m3)"
      and "sink m0 src None cap s3 m3 ((out @ varint_spec (length bs)) @ bs)"
      by (auto simp: add.assoc)
    ultimately show ?thesis
      using None by (simp add: pb_encode_submessage_def e1 e2 m1 sz)
  next
    case (Some b)
    let ?out = "out @ varint_spec (length bs)"
    let ?sub = "\<lparr>os_callback = os_callback s2, os_state = os_state s2,
      os_max_size = word_of_nat (length bs), os_bytes_written = 0, os_errmsg = None\<rparr>"
    from sk2 Some have cb: "os_callback s2 = OS_buf_write"
      and bw: "os_bytes_written s2 = word_of_nat (length ?out)" and mx: "os_max_size s2 = word_of_nat cap"
      by (simp_all add: sink_def)
    have room: "\<not> os_bytes_written s2 + word_of_nat (length bs) > os_max_size s2"
      using len cap by (simp add: bw mx word_less_nat_alt unat_word_ariths unat_of_nat)
    have sks: "sink m2 src (Some (b + length ?out)) (length bs) ?sub m2 []"
      using sink_substream [of m0 src b cap s2 m2 ?out "length bs"] sk2 Some len by simp
    obtain sub3 m3 where e3: "enc ?sub fs p m2 = Some (True, sub3, m3)"
      and sk3: "sink m2 src (Some (b + length ?out)) (length bs) sub3 m3 ([] @ bs)"
      by (rule emitsE [OF emits_allD [OF enc] sks]) simp
    have "os_bytes_written sub3 = word_of_nat (length bs)" using sk3 by (simp add: sink_def)
    moreover have "sink m0 src (Some b) cap
        (s2\<lparr>os_bytes_written := os_bytes_written s2 + os_bytes_written sub3,
          os_state := os_state sub3, os_errmsg := os_errmsg sub3\<rparr>) m3 (?out @ bs)"
      by (rule sink_superstream) (use sk2 sk3 Some len in auto)
    ultimately show ?thesis
      using cb room Some by (simp add: pb_encode_submessage_def Let_def e1 e2 e3 [unfolded cb] m1 sz)
  qed
qed

subsection \<open>One value\<close>

lemma emits_value:
  assumes rec: "\<And>fs p bs. rec fs p = Some bs \<Longrightarrow> emits_all src (\<lambda>s m. enc s fs p m) bs"
    and bs: "ser_value src rec f p = Some bs"
  shows "emits_all src (\<lambda>s m. call_encoder (PB_ENCODERS env enc (PB_LTYPE (fld_type f))) s f p m) bs"
proof -
  have fx: "emits_all src (\<lambda>s m. pb_enc_fixed32 env s f p m) bs" if "load_bytes src p 4 = Some bs"
    unfolding pb_enc_fixed32_def by (rule emits_allI) (rule snk.emits_fixed32 [OF that])
  have fx8: "emits_all src (\<lambda>s m. pb_enc_fixed64 env s f p m) bs" if "load_bytes src p 8 = Some bs"
    unfolding pb_enc_fixed64_def by (rule emits_allI) (rule snk.emits_fixed64 [OF that])
  have fl: "emits_all src (\<lambda>s m. pb_enc_fixed_length_bytes env s f p m) (varint_spec (length cs) @ cs)"
    if "load_bytes src p (unat (fld_data_size f)) = Some cs" for cs
    unfolding pb_enc_fixed_length_bytes_def
    by (rule emits_all_string) (simp add: wbuf_bytes_def that)
  have sub: "emits_all src (\<lambda>s m. pb_enc_submessage env enc s f p m) (varint_spec (length cs) @ cs)"
    if "rec (fld_ptr f) p = Some cs" "fld_ptr f \<noteq> 0" for cs
    unfolding pb_enc_submessage_def using emits_submessage [where enc = enc and fs = "fld_ptr f" and p = p, OF rec [OF that(1)]] that(2)
    by simp
  have b0: "emits_all src (\<lambda>s m. pb_enc_bytes env s f 0 m) (varint_spec 0)"
    unfolding pb_enc_bytes_def using emits_enc_null by simp
  have s0: "emits_all src (\<lambda>s m. pb_enc_string env s f 0 m) (varint_spec 0)"
    unfolding pb_enc_string_def Let_def using emits_enc_null by simp
  note rules = emits_enc_varint emits_enc_uvarint emits_enc_svarint
  from bs show ?thesis
    unfolding ser_value_def Let_def PB_ENCODERS_def call_encoder_def
    by (simp only: bind_Some_conv option.simps split: if_splits)
      (auto intro: rules fx fx8 fl sub b0 s0 emits_enc_bytes emits_enc_string
        simp del: varint_spec_small)
qed

subsection \<open>Arrays\<close>

lemma emits_items:
  assumes "\<And>q bs. g q = Some bs \<Longrightarrow> emits_all src (\<lambda>s m. func s f q m) bs"
    and "ser_items g (unat (fld_data_size f)) n p = Some bs"
  shows "emits_all src (\<lambda>s m. encode_items func f n p s m) bs"
  using assms(2)
proof (induction n arbitrary: p bs)
  case 0
  then show ?case by (simp add: emits_all_Nil)
next
  case (Suc n)
  then obtain b c where "g p = Some b" and c: "ser_items g (unat (fld_data_size f)) n
      (p + unat (fld_data_size f)) = Some c" and bs: "bs = b @ c"
    by auto
  from assms(1) [OF this(1)] Suc.IH [OF c] show ?case
    unfolding bs encode_items.simps by (rule emits_all_seq)
qed

lemma length_ser_items:
  "(\<And>q bs. g q = Some bs \<Longrightarrow> length bs = k) \<Longrightarrow> ser_items g sz n p = Some bs \<Longrightarrow> length bs = n * k"
  by (induction n arbitrary: p bs) fastforce+

lemma packed_size_eq:
  assumes func: "\<And>q bs. ser_value src rec f q = Some bs \<Longrightarrow>
      emits_all src (\<lambda>s m. call_encoder func s f q m) bs"
    and body: "ser_items (ser_value src rec f) (unat (fld_data_size f)) (unat count) p = Some body"
    and le: "mem_le src m" and len: "length body < 2 ^ 64"
  shows "packed_size f p count func m = Some (True, word_of_nat (length body), m)"
proof -
  have fixed: "(word_of_nat k * count :: u64) = word_of_nat (length body)"
    if "\<And>q bs. ser_value src rec f q = Some bs \<Longrightarrow> length bs = k" for k
    using length_ser_items [OF that body] by simp
  have 4: "(4 * count :: u64) = word_of_nat (length body)" if "PB_LTYPE (fld_type f) = 3"
    using fixed [of 4] that by (simp add: ser_value_def load_bytes_length)
  have 8: "(8 * count :: u64) = word_of_nat (length body)" if "PB_LTYPE (fld_type f) = 4"
    using fixed [of 8] that by (simp add: ser_value_def load_bytes_length)
  obtain s1 m1 where "encode_items (call_encoder func) f (unat count) p PB_OSTREAM_SIZING m =
      Some (True, s1, m1)" and "sink m src None (length body) s1 m1 ([] @ body)"
    by (rule emitsE [OF emits_allD [OF emits_items [where func = "call_encoder func" and f = f and g = "ser_value src rec f", OF func body]] sink_sizing [OF le len]]) auto
  then show ?thesis using 4 8 by (auto simp: packed_size_def sink_def)
qed

lemma emits_packed:
  assumes func: "\<And>q bs. ser_value src rec f q = Some bs \<Longrightarrow>
      emits_all src (\<lambda>s m. call_encoder func s f q m) bs"
    and body: "ser_items (ser_value src rec f) (unat (fld_data_size f)) (unat count) p = Some body"
  shows "emits_all src (\<lambda>s1 m1. do {
      (ok, sz, m2) \<leftarrow> packed_size f p count func m1;
      if \<not> ok then Some (False, s1, m2)
      else do {
        (ok, s3, m3) \<leftarrow> pb_encode_varint env s1 sz m2;
        if \<not> ok then Some (False, s3, m3)
        else if os_callback s3 = OS_null then pb_write env s3 WNull sz m3
        else encode_items (call_encoder func) f (unat count) p s3 m3 } })
    (varint_spec (length body) @ body)"
proof (intro emits_allI emitsI)
  fix m0 ob cap s m out
  assume sk: "sink m0 src ob cap s m out"
    and len: "length out + length (varint_spec (length body) @ body) \<le> cap"
  have b64: "length body < 2 ^ 64" using sk len by (simp add: sink_def)
  note ps = packed_size_eq [OF func body sink_src [OF sk] b64]
  have u: "unat (word_of_nat (length body) :: u64) = length body"
    by (rule unat_of_nat_small) (use b64 in simp)
  obtain s2 m2 where e2: "pb_encode_varint env s (word_of_nat (length body)) m = Some (True, s2, m2)"
    and sk2: "sink m0 src ob cap s2 m2 (out @ varint_spec (length body))"
    using emitsE [OF snk.emits_varint [of m0 src ob cap env "word_of_nat (length body)"] sk] len u
    by auto
  show "\<exists>s' m'. (do {
      (ok, sz, m2) \<leftarrow> packed_size f p count func m;
      if \<not> ok then Some (False, s, m2)
      else do {
        (ok, s3, m3) \<leftarrow> pb_encode_varint env s sz m2;
        if \<not> ok then Some (False, s3, m3)
        else if os_callback s3 = OS_null then pb_write env s3 WNull sz m3
        else encode_items (call_encoder func) f (unat count) p s3 m3 } }) = Some (True, s', m') \<and>
    sink m0 src ob cap s' m' (out @ varint_spec (length body) @ body)"
  proof (cases ob)
    case None
    then have "os_callback s2 = OS_null" using sk2 by (simp add: sink_def)
    then show ?thesis
      using None sink_write_sizing [of m0 src cap s2 m2 "out @ varint_spec (length body)" body env WNull]
        sk2 len by (auto simp: ps e2)
  next
    case (Some b)
    then have "os_callback s2 \<noteq> OS_null" using sk2 by (simp add: sink_def)
    moreover obtain s3 m3 where "encode_items (call_encoder func) f (unat count) p s2 m2 =
        Some (True, s3, m3)" "sink m0 src ob cap s3 m3 ((out @ varint_spec (length body)) @ body)"
      by (rule emitsE [OF emits_allD [OF emits_items [where func = "call_encoder func" and f = f and g = "ser_value src rec f", OF func body]] sk2]) (use len in auto)
    ultimately show ?thesis by (auto simp: ps e2)
  qed
qed

lemma emits_tag_and_value:
  assumes func: "\<And>q bs. ser_value src rec f q = Some bs \<Longrightarrow>
      emits_all src (\<lambda>s m. call_encoder func s f q m) bs"
    and "ser_tagged src rec f p = Some bs"
  shows "emits_all src (\<lambda>s m. encode_tag_and_value env func s f p m) bs"
proof -
  from assms(2) obtain wt b where "fld_wire_type f = Some wt" "ser_value src rec f p = Some b"
    and bs: "bs = tag_spec (unat (fld_tag f)) (unat wt) @ b"
    by (auto simp: ser_tagged_def)
  then show ?thesis
    unfolding bs encode_tag_and_value_def
    by (intro emits_all_seq emits_all_tag_for_field func)
qed

lemma emits_tagged_item:
  assumes func: "\<And>q bs. ser_value src rec f q = Some bs \<Longrightarrow>
      emits_all src (\<lambda>s m. call_encoder func s f q m) bs"
    and "ser_entry src rec f p = Some bs"
  shows "emits_all src (\<lambda>s m. encode_tagged_item env func s f p m) bs"
proof -
  let ?ind = "PB_ATYPE (fld_type f) = PB_ATYPE_POINTER \<and>
    (PB_LTYPE (fld_type f) = PB_LTYPE_STRING \<or> PB_LTYPE (fld_type f) = PB_LTYPE_BYTES)"
  from assms(2) obtain q where q: "(if ?ind then load_ptr src p else Some p) = Some q"
    and "ser_tagged src rec f q = Some bs" unfolding ser_entry_def by auto
  then obtain wt b where wt: "fld_wire_type f = Some wt" and b: "ser_value src rec f q = Some b"
    and bs: "bs = tag_spec (unat (fld_tag f)) (unat wt) @ b"
    by (auto simp: ser_tagged_def)
  have "emits_all src (\<lambda>s m. if ?ind then do { q \<leftarrow> load_ptr m p; call_encoder func s f q m }
      else call_encoder func s f p m) b"
  proof (rule emits_all_cong [OF _ func [OF b]])
    fix s m assume "mem_le src m"
    then show "(if ?ind then do { q \<leftarrow> load_ptr m p; call_encoder func s f q m }
      else call_encoder func s f p m) = call_encoder func s f q m"
      using q load_ptr_mono by (fastforce split: if_splits)
  qed
  from emits_all_seq [OF emits_all_tag_for_field [OF wt] this] show ?thesis
    unfolding bs encode_tagged_item_def by simp
qed

lemma emits_array:
  assumes func: "\<And>q bs. ser_value src rec f q = Some bs \<Longrightarrow>
      emits_all src (\<lambda>s m. call_encoder func s f q m) bs"
    and bs: "ser_array src rec f p count = Some bs"
  shows "emits_all src (\<lambda>s m. encode_array env s f p (ucast count) func m) bs"
proof (cases "count = 0")
  case True
  with bs show ?thesis by (simp add: ser_array_def encode_array_def emits_all_Nil)
next
  case False
  have cnt: "unat (ucast count :: u64) = unat count" by simp
  with False have nz: "(ucast count :: u64) \<noteq> 0" by (metis unat_0_iff)
  have fits: "\<not> (PB_ATYPE (fld_type f) \<noteq> PB_ATYPE_POINTER \<and>
      (ucast count :: u64) > ucast (fld_array_size f))"
    using bs False by (auto simp: ser_array_def word_less_nat_alt split: if_splits)
  show ?thesis
  proof (cases "PB_LTYPE (fld_type f) \<le> PB_LTYPE_LAST_PACKABLE")
    case True
    with bs False obtain body where
      body: "ser_items (ser_value src rec f) (unat (fld_data_size f)) (unat (ucast count :: u64)) p = Some body"
      and b: "bs = tag_spec (unat (fld_tag f)) 2 @ varint_spec (length body) @ body"
      by (auto simp: ser_array_def split: if_splits)
    have "emits_all src (\<lambda>s m. pb_encode_tag env s PB_WT_STRING (fld_tag f) m)
        (tag_spec (unat (fld_tag f)) 2)"
      using emits_all_tag [of PB_WT_STRING src env "fld_tag f"] by simp
    from emits_all_seq [OF this emits_packed [OF func body, of env]] show ?thesis
      unfolding b encode_array_def by (simp only: nz fits True if_False if_True)
  next
    case packed: False
    with bs False have items: "ser_items (ser_entry src rec f) (unat (fld_data_size f))
        (unat (ucast count :: u64)) p = Some bs"
      by (auto simp: ser_array_def split: if_splits)
    have "emits_all src (\<lambda>s m. encode_items (encode_tagged_item env func) f
        (unat (ucast count :: u64)) p s m) bs"
    proof (rule emits_items [where g = "ser_entry src rec f", OF _ items])
      fix q b assume "ser_entry src rec f q = Some b"
      with func show "emits_all src (\<lambda>s m. encode_tagged_item env func s f q m) b"
        by (rule emits_tagged_item)
    qed
    then show ?thesis unfolding encode_array_def by (simp only: nz fits packed if_False)
  qed
qed

subsection \<open>Fields and messages\<close>

lemma emits_basic_field:
  assumes rec: "\<And>fs p bs. rec fs p = Some bs \<Longrightarrow> emits_all src (\<lambda>s m. enc s fs p m) bs"
    and bs: "ser_basic n env src rec f p0 = Some bs"
  shows "emits_all src (\<lambda>s m. encode_basic_field env n enc s f p0 m) bs"
proof -
  let ?func = "PB_ENCODERS env enc (PB_LTYPE (fld_type f))"
  let ?so = "fld_size_offset f" and ?H = "PB_HTYPE (fld_type f)"
  let ?pSize = "ptr_add p0 (sint ?so)"
  have func: "emits_all src (\<lambda>s m. call_encoder ?func s f q m) b"
    if "ser_value src rec f q = Some b" for q b
    using that by (intro emits_value [where enc = enc and rec = rec] rec)
  have tv: "emits_all src (\<lambda>s m. encode_tag_and_value env ?func s f q m) b"
    if "ser_tagged src rec f q = Some b" for q b
    by (rule emits_tag_and_value [where rec = rec, OF _ that]) (rule func)
  have arr: "emits_all src (\<lambda>s m. encode_array env s f q (ucast c) ?func m) b"
    if "ser_array src rec f q c = Some b" for q c b
    by (rule emits_array [where rec = rec, OF _ that]) (rule func)
  let ?imp = "\<lambda>m. if ?so = 0 \<and> ?H = PB_HTYPE_OPTIONAL
     then map_option Not (pb_check_proto3_default_value (Suc n) env m f p0) else Some (?so = 0)"
  let ?ptr = "\<lambda>m. if PB_ATYPE (fld_type f) = PB_ATYPE_POINTER then load_ptr m p0 else Some p0"
  from bs obtain imp p where imp: "?imp src = Some imp" and p: "?ptr src = Some p"
    by (auto simp: ser_basic_def Let_def)
  have imp': "?imp m = Some imp" if "mem_le src m" for m
    using imp proto3_default_mono [OF that, of "Suc n" env f p0]
    by (auto simp del: pb_check_proto3_default_value.simps split: if_splits)
  have p': "?ptr m = Some p" if "mem_le src m" for m
    using p load_ptr_mono [OF that, of p0] by (auto split: if_splits)
  consider (req) "?H = PB_HTYPE_REQUIRED" | (opt) "?H = PB_HTYPE_OPTIONAL"
    | (rep) "?H = PB_HTYPE_REPEATED" | (one) "?H = PB_HTYPE_ONEOF" "?so \<noteq> 0"
    using bs by (auto simp: ser_basic_def Let_def split: if_splits)
  then show ?thesis
  proof cases
    case req
    with bs imp p have "p \<noteq> 0" and t: "ser_tagged src rec f p = Some bs"
      by (auto simp: ser_basic_def Let_def split: if_splits)
    show ?thesis
    proof (rule emits_all_cong [OF _ tv [OF t]])
      fix s m assume "mem_le src m"
      from p' [OF this] req \<open>p \<noteq> 0\<close>
      show "encode_basic_field env n enc s f p0 m = encode_tag_and_value env ?func s f p m"
        by (auto simp: encode_basic_field_def Let_def split: if_splits)
    qed
  next
    case opt
    let ?pres = "\<lambda>m. if ?so \<noteq> 0 then load_bool m ?pSize
      else Some (if PB_ATYPE (fld_type f) = PB_ATYPE_POINTER then p \<noteq> 0 else imp)"
    from bs imp p opt obtain pres where pr: "?pres src = Some pres"
      and t: "(if pres then ser_tagged src rec f p else Some []) = Some bs"
      by (auto simp: ser_basic_def Let_def)
    have act: "emits_all src (\<lambda>s m. if pres then encode_tag_and_value env ?func s f p m
        else Some (True, s, m)) bs"
      using t tv [of p bs] by (auto simp: emits_all_Nil split: if_splits)
    show ?thesis
    proof (rule emits_all_cong [OF _ act])
      fix s m assume le: "mem_le src m"
      have "?pres m = Some pres" using pr load_bool_mono [OF le] by (auto split: if_splits)
      with p' [OF le] imp' [OF le] opt
      show "encode_basic_field env n enc s f p0 m =
          (if pres then encode_tag_and_value env ?func s f p m else Some (True, s, m))"
        by (auto simp: encode_basic_field_def Let_def basic_has_def split: if_splits)
    qed
  next
    case rep
    let ?cnt = "\<lambda>m. if ?so \<noteq> 0 then load_u32 m ?pSize else Some (fld_array_size f)"
    from bs imp p rep obtain c where c: "?cnt src = Some c" and t: "ser_array src rec f p c = Some bs"
      by (auto simp: ser_basic_def Let_def)
    show ?thesis
    proof (rule emits_all_cong [OF _ arr [OF t]])
      fix s m assume le: "mem_le src m"
      have "?cnt m = Some c" using c load_u32_mono [OF le] by (auto split: if_splits)
      with p' [OF le] rep show "encode_basic_field env n enc s f p0 m =
          encode_array env s f p (ucast c) ?func m"
        by (auto simp: encode_basic_field_def Let_def split: if_splits)
    qed
  next
    case one
    from bs imp p one obtain w where w: "load_u32 src ?pSize = Some w"
      and t: "(if w = fld_tag f then ser_tagged src rec f p else Some []) = Some bs"
      by (auto simp: ser_basic_def Let_def)
    have act: "emits_all src (\<lambda>s m. if w = fld_tag f then encode_tag_and_value env ?func s f p m
        else Some (True, s, m)) bs"
      using t tv [of p bs] by (auto simp: emits_all_Nil split: if_splits)
    show ?thesis
    proof (rule emits_all_cong [OF _ act])
      fix s m assume le: "mem_le src m"
      from load_u32_mono [OF le w] p' [OF le] one
      show "encode_basic_field env n enc s f p0 m =
          (if w = fld_tag f then encode_tag_and_value env ?func s f p m else Some (True, s, m))"
        by (auto simp: encode_basic_field_def Let_def split: if_splits)
    qed
  qed
qed

lemma emits_field:
  assumes rec: "\<And>fs p bs. rec fs p = Some bs \<Longrightarrow> emits_all src (\<lambda>s m. enc s fs p m) bs"
    and bs: "ser_field n env src rec f p = Some bs"
  shows "emits_all src (\<lambda>s m. if PB_LTYPE (fld_type f) = PB_LTYPE_EXTENSION
      then encode_extension_field env n enc s f p m else encode_field env n enc s f p m) bs"
proof (cases "PB_LTYPE (fld_type f) = PB_LTYPE_EXTENSION \<or> PB_ATYPE (fld_type f) = PB_ATYPE_CALLBACK")
  case True
  with bs have q: "load_ptr src p = Some 0" and "bs = []"
    by (auto simp: ser_field_def split: if_splits)
  show ?thesis unfolding \<open>bs = []\<close>
  proof (rule emits_all_cong [OF _ emits_all_Nil])
    fix s m assume "mem_le src m"
    from load_ptr_mono [OF this q] True
    show "(if PB_LTYPE (fld_type f) = PB_LTYPE_EXTENSION
        then encode_extension_field env n enc s f p m else encode_field env n enc s f p m) =
        Some (True, s, m)"
      by (auto simp: encode_extension_field_def encode_field_def encode_callback_field_def cb_funcs_def)
  qed
next
  case False
  with bs have "PB_ATYPE (fld_type f) = PB_ATYPE_STATIC \<or> PB_ATYPE (fld_type f) = PB_ATYPE_POINTER"
    and b: "ser_basic n env src rec f p = Some bs"
    by (auto simp: ser_field_def split: if_splits)
  with emits_basic_field [where enc = enc and rec = rec, OF rec b] False show ?thesis
    by (simp add: encode_field_def)
qed

lemma emits_fields:
  assumes rec: "\<And>fs p bs. rec fs p = Some bs \<Longrightarrow> emits_all src (\<lambda>s m. enc s fs p m) bs"
    and bs: "ser_fields env (ser_field n env src rec) k it = Some bs"
  shows "emits_all src (\<lambda>s m. encode_fields_loop env n enc k s it m) bs"
  using bs
proof (induction k arbitrary: it bs)
  case 0
  then show ?case by simp
next
  case (Suc k)
  from Suc.prems obtain f b more it' c where f: "it_fld env it = Some f"
    and b: "ser_field n env src rec f (it_pData it) = Some b"
    and nx: "pb_field_iter_next env it = Some (more, it')"
    and c: "(if more then ser_fields env (ser_field n env src rec) k it' else Some []) = Some c"
    and bs: "bs = b @ c" by auto
  have "emits_all src (\<lambda>s m. if more then encode_fields_loop env n enc k s it' m
      else Some (True, s, m)) c"
    using c Suc.IH by (auto simp: emits_all_Nil split: if_splits)
  from emits_all_seq [OF emits_field [where enc = enc and rec = rec, OF rec b] this] show ?case
    unfolding bs encode_fields_loop.simps f nx by (simp cong: if_cong)
qed

text \<open>The encoder implements the specification on every sink.\<close>

lemma emits_message: "ser_msg n env src fs p = Some bs \<Longrightarrow> emits_all src (\<lambda>s m. pb_encode n env s fs p m) bs"
proof (induction n arbitrary: fs p bs)
  case 0
  then show ?case by simp
next
  case (Suc n)
  from Suc.prems obtain ok it where it: "pb_field_iter_begin env fs p = Some (ok, it)"
    and bs: "(if \<not> ok then Some [] else ser_fields env (ser_field n env src (ser_msg n env src))
      (length (env_fields env fs)) it) = Some bs" by auto
  show ?case
  proof (cases ok)
    case True
    with bs have "emits_all src (\<lambda>s m. encode_fields_loop env n (pb_encode n env)
        (length (env_fields env fs)) s it m) bs"
      by (intro emits_fields [where enc = "pb_encode n env" and rec = "ser_msg n env src", OF Suc.IH]) auto
    with True show ?thesis by (simp add: pb_encode_step_def it)
  next
    case False
    with bs show ?thesis by (simp add: pb_encode_step_def it emits_all_Nil)
  qed
qed

subsection \<open>The entry points of the encoder\<close>

lemma sink_from_buffer:
  assumes "mem_le src m" and "valid m b cap" and "cap < 2 ^ 64"
    and "\<forall>x \<in> {b ..< b + cap}. mem_bytes src x = None"
  shows "sink m src (Some b) cap (pb_ostream_from_buffer b (word_of_nat cap)) m []"
  using assms by (simp add: sink_def pb_ostream_from_buffer_def)

lemma demo_serialisation: "ser_msg 3 demo_env (mem_at 100 demo_struct) 1000 100 = Some demo_bytes"
  by code_simp

lemma length_demo: "length demo_struct = 36" "length demo_bytes = 16"
  by (simp_all add: demo_struct_def demo_bytes_def)

text \<open>(C13) Encoding refines the serialisation: when the message that \<open>src\<close> holds has the
  serialisation \<open>bs\<close> and the output buffer is apart from it and large enough, \<open>pb_encode\<close> on a
  stream made by \<open>pb_ostream_from_buffer\<close> returns true, has written exactly \<open>bs\<close> at the start of
  the buffer and no other byte of memory, and reports \<open>length bs\<close> in \<open>bytes_written\<close>.\<close>

theorem pb_encode_writes_serialisation:
  assumes "ser_msg n env src fs p = Some bs" and "mem_le src m"
    and "length bs \<le> cap" and "cap < 2 ^ 64" and "valid m b cap"
    and "\<forall>x \<in> {b ..< b + cap}. mem_bytes src x = None"
  shows "\<exists>s. pb_encode n env (pb_ostream_from_buffer b (word_of_nat cap)) fs p m =
      Some (True, s, upd_bytes m b bs) \<and> unat (os_bytes_written s) = length bs"
proof -
  obtain s m' where "pb_encode n env (pb_ostream_from_buffer b (word_of_nat cap)) fs p m =
      Some (True, s, m')" and sk: "sink m src (Some b) cap s m' ([] @ bs)"
    by (rule emitsE [OF emits_allD [OF emits_message [OF assms(1)]] sink_from_buffer [OF assms(2,5,4,6)]])
      (use assms(3) in simp)
  moreover have "unat (word_of_nat (length bs) :: u64) = length bs"
    by (rule unat_of_nat_small) (use assms in simp)
  ultimately show ?thesis by (simp add: sink_def)
qed

theorem pb_encode_writes_serialisation_witness:
  "\<exists>s. pb_encode 3 demo_env (pb_ostream_from_buffer 136 (word_of_nat 20)) 1000 100
      (mem_at 100 (demo_struct @ replicate 20 0)) =
    Some (True, s, upd_bytes (mem_at 100 (demo_struct @ replicate 20 0)) 136 demo_bytes) \<and>
    unat (os_bytes_written s) = length demo_bytes"
  by (rule pb_encode_writes_serialisation [OF demo_serialisation mem_le_mem_at])
    (auto simp: length_demo intro!: valid_mem_at mem_bytes_mem_at_None)

text \<open>(C15) The sizing pass measures the serialisation: \<open>pb_get_encoded_size\<close> returns true and the
  length of the serialisation, and leaves the memory as it was.\<close>

theorem pb_get_encoded_size_exact:
  assumes "ser_msg n env src fs p = Some bs" and "mem_le src m" and "length bs < 2 ^ 64"
  shows "pb_get_encoded_size n env fs p m = Some (Some (word_of_nat (length bs)), m)"
proof -
  obtain s m' where "pb_encode n env PB_OSTREAM_SIZING fs p m = Some (True, s, m')"
    and "sink m src None (length bs) s m' ([] @ bs)"
    by (rule emitsE [OF emits_allD [OF emits_message [OF assms(1)]] sink_sizing [OF assms(2,3)]]) simp
  then show ?thesis by (simp add: pb_get_encoded_size_def sink_def)
qed

theorem pb_get_encoded_size_exact_witness:
  "pb_get_encoded_size 3 demo_env 1000 100 (mem_at 100 demo_struct) =
    Some (Some (word_of_nat (length demo_bytes)), mem_at 100 demo_struct)"
  by (rule pb_get_encoded_size_exact [OF demo_serialisation mem_le_refl]) (simp add: length_demo)

text \<open>(C16) A delimited message is the varint of its length and its serialisation: the second pass
  of \<open>pb_encode_submessage\<close> writes as many bytes as the sizing pass announced, so the length prefix
  is the true length and the "submsg size changed" error does not occur.\<close>

theorem pb_encode_delimited_writes:
  assumes "ser_msg n env src fs p = Some bs" and "mem_le src m"
    and "length (varint_spec (length bs) @ bs) \<le> cap" and "cap < 2 ^ 64" and "valid m b cap"
    and "\<forall>x \<in> {b ..< b + cap}. mem_bytes src x = None"
  shows "\<exists>s. pb_encode_delimited n env (pb_ostream_from_buffer b (word_of_nat cap)) fs p m =
      Some (True, s, upd_bytes m b (varint_spec (length bs) @ bs))"
proof -
  have "emits_all src (\<lambda>s m. pb_encode_delimited n env s fs p m) (varint_spec (length bs) @ bs)"
    unfolding pb_encode_delimited_def
    by (rule emits_submessage) (rule emits_message [OF assms(1)])
  from emitsE [OF emits_allD [OF this] sink_from_buffer [OF assms(2,5,4,6)]] assms(3)
  show ?thesis by (auto simp: sink_def)
qed

theorem pb_encode_delimited_writes_witness:
  "\<exists>s. pb_encode_delimited 3 demo_env (pb_ostream_from_buffer 136 (word_of_nat 20)) 1000 100
      (mem_at 100 (demo_struct @ replicate 20 0)) =
    Some (True, s, upd_bytes (mem_at 100 (demo_struct @ replicate 20 0)) 136
      (varint_spec (length demo_bytes) @ demo_bytes))"
  by (rule pb_encode_delimited_writes [OF demo_serialisation mem_le_mem_at])
    (auto simp: length_demo intro!: valid_mem_at mem_bytes_mem_at_None)

text \<open>A null-terminated message is its serialisation followed by one zero byte.\<close>

theorem pb_encode_nullterminated_writes:
  assumes "ser_msg n env src fs p = Some bs" and "mem_le src m"
    and "length bs < cap" and "cap < 2 ^ 64" and "valid m b cap"
    and "\<forall>x \<in> {b ..< b + cap}. mem_bytes src x = None"
  shows "\<exists>s. pb_encode_nullterminated n env (pb_ostream_from_buffer b (word_of_nat cap)) fs p m =
      Some (True, s, upd_bytes m b (bs @ [0]))"
proof -
  have "emits_all src (\<lambda>s m. pb_encode_nullterminated n env s fs p m) (bs @ [0])"
    unfolding pb_encode_nullterminated_def
    by (rule emits_all_seq [OF emits_message [OF assms(1)]])
      (use snk.emits_local [of _ src _ _ env "[0]"] in \<open>simp add: emits_allI\<close>)
  from emitsE [OF emits_allD [OF this] sink_from_buffer [OF assms(2,5,4,6)]] assms(3)
  show ?thesis by (auto simp: sink_def)
qed

theorem pb_encode_nullterminated_writes_witness:
  "\<exists>s. pb_encode_nullterminated 3 demo_env (pb_ostream_from_buffer 136 (word_of_nat 20)) 1000 100
      (mem_at 100 (demo_struct @ replicate 20 0)) =
    Some (True, s, upd_bytes (mem_at 100 (demo_struct @ replicate 20 0)) 136 (demo_bytes @ [0]))"
  by (rule pb_encode_nullterminated_writes [OF demo_serialisation mem_le_mem_at])
    (auto simp: length_demo intro!: valid_mem_at mem_bytes_mem_at_None)

end
