(* ===== verification/Pb_Istream.thy ===== *)
theory Pb_Istream
  imports Pb_Types Pb_Wire
begin

text \<open>
  The input side of \<^verbatim>\<open>nanopb/pb_decode.c\<close> below the field level: \<open>pb_read\<close> and the buffer callback,
  the decoders of single values, skipping, and substreams of limited length. A read into a local
  array returns the bytes read; a local that the callback did not fill is undefined to use.

  The loops that run until a byte without continuation bit arrives read one byte per round, and
  every successful read takes one off \<open>bytes_left\<close>; they are bounded by \<open>bytes_left + 1\<close> rounds. A
  stream callback that itself raises \<open>bytes_left\<close>, against the rules in \<^verbatim>\<open>pb_decode.h\<close>, can exceed
  the bound and then has no result.
\<close>

subsection \<open>Reading bytes\<close>

type_synonym read_res = "(bool \<times> byte list \<times> pb_istream_t \<times> cmem) option"

primrec buf_read_loop :: "nat \<Rightarrow> nat \<Rightarrow> addr \<Rightarrow> rbuf \<Rightarrow> cmem \<Rightarrow> (byte list \<times> cmem) option" where
  "buf_read_loop 0 i source buf m = Some ([], m)"
| "buf_read_loop (Suc n) i source buf m = do {
     b \<leftarrow> load8 m (source + i);
     m1 \<leftarrow> (case buf of RAddr a \<Rightarrow> store8 m (a + i) b | _ \<Rightarrow> Some m);
     (bs, m2) \<leftarrow> buf_read_loop n (Suc i) source buf m1;
     Some (b # bs, m2) }"

definition buf_read :: "pb_istream_t \<Rightarrow> rbuf \<Rightarrow> u64 \<Rightarrow> cmem \<Rightarrow> read_res" where
  "buf_read s buf count m = do {
     let source = is_state s;
     let s' = s\<lparr>is_state := is_state s + unat count\<rparr>;
     if buf \<noteq> RNull then do {
       (bs, m') \<leftarrow> buf_read_loop (unat count) 0 source buf m;
       Some (True, bs, s', m') }
     else Some (True, [], s', m) }"

definition is_call :: "pb_env \<Rightarrow> pb_istream_t \<Rightarrow> rbuf \<Rightarrow> u64 \<Rightarrow> cmem \<Rightarrow> read_res" where
  "is_call env s buf count m = (case is_callback s of
     IS_buf_read \<Rightarrow> buf_read s buf count m
   | IS_user f \<Rightarrow> env_read env f s buf count m)"

definition pb_read_buf :: "pb_env \<Rightarrow> pb_istream_t \<Rightarrow> rbuf \<Rightarrow> u64 \<Rightarrow> cmem \<Rightarrow> read_res" where
  "pb_read_buf env s buf count m =
     (if is_bytes_left s < count then Some (False, [], is_set_error s ''end-of-stream'', m)
      else do {
        (ok, bs, s1, m1) \<leftarrow> is_call env s buf count m;
        if \<not> ok then Some (False, bs, is_set_error s1 ''io error'', m1)
        else Some (True, bs, s1\<lparr>is_bytes_left := is_bytes_left s1 - count\<rparr>, m1) })"

text \<open>Skipping on a custom stream: 16 bytes at a time into a local array.\<close>

function pb_read_skip :: "pb_env \<Rightarrow> pb_istream_t \<Rightarrow> u64 \<Rightarrow> cmem \<Rightarrow> read_res" where
  "pb_read_skip env s count m =
     (if count > 16 then do {
        (ok, bs, s1, m1) \<leftarrow> pb_read_buf env s RLocal 16 m;
        if \<not> ok then Some (False, bs, s1, m1) else pb_read_skip env s1 (count - 16) m1 }
      else pb_read_buf env s RLocal count m)"
  by pat_completeness auto
termination
proof (relation "measure (\<lambda>(env, s, count, m). unat count)")
  show "wf (measure (\<lambda>(env :: pb_env, s :: pb_istream_t, count :: u64, m :: cmem). unat count))"
    by simp
next
  fix env s m s1 m1
  fix count :: u64
  assume "16 < count"
  then have "unat (16 :: u64) < unat count" by (rule unat_mono)
  moreover have "unat (count - 16) = unat count - unat (16 :: u64)"
    using \<open>16 < count\<close> by (intro unat_sub) simp
  ultimately show "((env, s1, count - 16, m1), env, s, count, m)
      \<in> measure (\<lambda>(env, s, count, m). unat count)" by simp
qed

declare pb_read_skip.simps [simp del]

definition pb_read :: "pb_env \<Rightarrow> pb_istream_t \<Rightarrow> rbuf \<Rightarrow> u64 \<Rightarrow> cmem \<Rightarrow> read_res" where
  "pb_read env s buf count m =
     (if buf = RNull \<and> is_callback s \<noteq> IS_buf_read then pb_read_skip env s count m
      else pb_read_buf env s buf count m)"

text \<open>A read whose bytes the caller does not look at in its own frame (null or memory buffer).\<close>

definition pb_read_to :: "pb_env \<Rightarrow> pb_istream_t \<Rightarrow> rbuf \<Rightarrow> u64 \<Rightarrow> cmem \<Rightarrow> istream_res" where
  "pb_read_to env s buf count m = do {
     (ok, _, s1, m1) \<leftarrow> pb_read env s buf count m;
     Some (ok, s1, m1) }"

definition pb_readbyte :: "pb_env \<Rightarrow> pb_istream_t \<Rightarrow> cmem \<Rightarrow>
    (bool \<times> byte \<times> pb_istream_t \<times> cmem) option" where
  "pb_readbyte env s m =
     (if is_bytes_left s = 0 then Some (False, 0, is_set_error s ''end-of-stream'', m)
      else do {
        (ok, bs, s1, m1) \<leftarrow> is_call env s RLocal 1 m;
        if \<not> ok then Some (False, 0, is_set_error s1 ''io error'', m1)
        else (case bs of [] \<Rightarrow> None
              | b # _ \<Rightarrow> Some (True, b, s1\<lparr>is_bytes_left := is_bytes_left s1 - 1\<rparr>, m1)) })"

definition pb_istream_from_buffer :: "addr \<Rightarrow> u64 \<Rightarrow> pb_istream_t" where
  "pb_istream_from_buffer buf bufsize = \<lparr>is_callback = IS_buf_read, is_state = buf,
     is_bytes_left = bufsize, is_errmsg = None\<rparr>"

subsection \<open>Decoding single values\<close>

text \<open>The do-while loop of the multibyte case of \<open>pb_decode_varint32_eof\<close>: it returns the value
  and the last \<open>bitpos\<close> (a \<open>uint_fast8_t\<close>, 8 bits wide on the platform) and byte.\<close>

primrec varint32_loop :: "nat \<Rightarrow> pb_env \<Rightarrow> byte \<Rightarrow> u32 \<Rightarrow> pb_istream_t \<Rightarrow> cmem \<Rightarrow>
    (bool \<times> u32 \<times> byte \<times> byte \<times> pb_istream_t \<times> cmem) option" where
  "varint32_loop 0 env bitpos result s m = None"
| "varint32_loop (Suc k) env bitpos result s m = do {
     (ok, b, s1, m1) \<leftarrow> pb_readbyte env s m;
     if \<not> ok then Some (False, result, bitpos, b, s1, m1)
     else if bitpos \<ge> 32 \<and> b AND 0x7F \<noteq> 0 \<and>
             (drop_bit 31 result = 0 \<or> b \<noteq> (if bitpos < 63 then 0xFF else 0x01))
     then Some (False, result, bitpos, b, is_set_error s1 ''varint overflow'', m1)
     else do {
       let result' = (if bitpos \<ge> 32 then result
                      else result OR push_bit (unat bitpos) (ucast (b AND 0x7F)));
       let bitpos' = bitpos + 7;
       if b AND 0x80 \<noteq> 0 then varint32_loop k env bitpos' result' s1 m1
       else Some (True, result', bitpos', b, s1, m1) } }"

text \<open>The result is the return value, \<open>*dest\<close>, whether \<open>*eof\<close> was set, and the stream.\<close>

definition pb_decode_varint32_eof :: "pb_env \<Rightarrow> pb_istream_t \<Rightarrow> cmem \<Rightarrow>
    (bool \<times> u32 \<times> bool \<times> pb_istream_t \<times> cmem) option" where
  "pb_decode_varint32_eof env s m = do {
     (ok, b, s1, m1) \<leftarrow> pb_readbyte env s m;
     if \<not> ok then Some (False, 0, is_bytes_left s1 = 0, s1, m1)
     else if b AND 0x80 = 0 then Some (True, ucast b, False, s1, m1)
     else do {
       (ok, result, bitpos, b', s2, m2) \<leftarrow>
         varint32_loop (Suc (unat (is_bytes_left s1))) env 7 (ucast (b AND 0x7F)) s1 m1;
       if \<not> ok then Some (False, 0, False, s2, m2)
       else if bitpos = 35 \<and> b' AND 0x70 \<noteq> 0
       then Some (False, 0, False, is_set_error s2 ''varint overflow'', m2)
       else Some (True, result, False, s2, m2) } }"

definition pb_decode_varint32 :: "pb_env \<Rightarrow> pb_istream_t \<Rightarrow> cmem \<Rightarrow>
    (bool \<times> u32 \<times> pb_istream_t \<times> cmem) option" where
  "pb_decode_varint32 env s m = do {
     (ok, v, _, s1, m1) \<leftarrow> pb_decode_varint32_eof env s m;
     Some (ok, v, s1, m1) }"

function varint_dec_loop :: "pb_env \<Rightarrow> byte \<Rightarrow> u64 \<Rightarrow> pb_istream_t \<Rightarrow> cmem \<Rightarrow>
    (bool \<times> u64 \<times> pb_istream_t \<times> cmem) option" where
  "varint_dec_loop env bitpos result s m =
     (if bitpos \<ge> 64 then Some (False, 0, is_set_error s ''varint overflow'', m)
      else do {
        (ok, b, s1, m1) \<leftarrow> pb_readbyte env s m;
        if \<not> ok then Some (False, 0, s1, m1)
        else do {
          let result' = result OR push_bit (unat bitpos) (ucast (b AND 0x7F));
          if b AND 0x80 \<noteq> 0 then varint_dec_loop env (bitpos + 7) result' s1 m1
          else Some (True, result', s1, m1) } })"
  by pat_completeness auto
termination
proof (relation "measure (\<lambda>(env, bitpos, result, s, m). 64 - unat bitpos)")
  show "wf (measure (\<lambda>(env :: pb_env, bitpos :: byte, result :: u64, s :: pb_istream_t, m :: cmem).
      64 - unat bitpos))" by simp
next
  fix env s m s1 m1
  fix bitpos :: byte and result r' :: u64
  assume "\<not> 64 \<le> bitpos"
  then have "bitpos < 64" by simp
  then have "unat bitpos < unat (64 :: byte)" by (rule unat_mono)
  then have "unat (bitpos + 7) = unat bitpos + 7"
    by (subst unat_add_lem [THEN iffD1]) simp_all
  with \<open>unat bitpos < unat (64 :: byte)\<close>
  show "((env, bitpos + 7, r', s1, m1), env, bitpos, result, s, m)
      \<in> measure (\<lambda>(env, bitpos, result, s, m). 64 - unat bitpos)" by simp
qed

declare varint_dec_loop.simps [simp del]

definition pb_decode_varint :: "pb_env \<Rightarrow> pb_istream_t \<Rightarrow> cmem \<Rightarrow>
    (bool \<times> u64 \<times> pb_istream_t \<times> cmem) option" where
  "pb_decode_varint env s m = varint_dec_loop env 0 0 s m"

text \<open>The \<open>int64_t\<close> result as its 64 bits.\<close>

definition unzigzag :: "u64 \<Rightarrow> u64" where
  "unzigzag v = (if v AND 1 \<noteq> 0 then NOT (drop_bit 1 v) else drop_bit 1 v)"

definition pb_decode_svarint :: "pb_env \<Rightarrow> pb_istream_t \<Rightarrow> cmem \<Rightarrow>
    (bool \<times> u64 \<times> pb_istream_t \<times> cmem) option" where
  "pb_decode_svarint env s m = do {
     (ok, v, s1, m1) \<leftarrow> pb_decode_varint env s m;
     if \<not> ok then Some (False, 0, s1, m1) else Some (True, unzigzag v, s1, m1) }"

definition fixed32_value :: "byte list \<Rightarrow> u32" where
  "fixed32_value bs = ucast (bs ! 0) OR push_bit 8 (ucast (bs ! 1)) OR
     push_bit 16 (ucast (bs ! 2)) OR push_bit 24 (ucast (bs ! 3))"

definition fixed64_value :: "byte list \<Rightarrow> u64" where
  "fixed64_value bs = ucast (bs ! 0) OR push_bit 8 (ucast (bs ! 1)) OR
     push_bit 16 (ucast (bs ! 2)) OR push_bit 24 (ucast (bs ! 3)) OR
     push_bit 32 (ucast (bs ! 4)) OR push_bit 40 (ucast (bs ! 5)) OR
     push_bit 48 (ucast (bs ! 6)) OR push_bit 56 (ucast (bs ! 7))"

definition pb_decode_fixed32 :: "pb_env \<Rightarrow> pb_istream_t \<Rightarrow> addr \<Rightarrow> cmem \<Rightarrow> istream_res" where
  "pb_decode_fixed32 env s dest m = do {
     (ok, bs, s1, m1) \<leftarrow> pb_read env s RLocal 4 m;
     if \<not> ok then Some (False, s1, m1)
     else if length bs < 4 then None
     else do {
       m2 \<leftarrow> store_u32 m1 dest (fixed32_value bs);
       Some (True, s1, m2) } }"

definition pb_decode_fixed64 :: "pb_env \<Rightarrow> pb_istream_t \<Rightarrow> addr \<Rightarrow> cmem \<Rightarrow> istream_res" where
  "pb_decode_fixed64 env s dest m = do {
     (ok, bs, s1, m1) \<leftarrow> pb_read env s RLocal 8 m;
     if \<not> ok then Some (False, s1, m1)
     else if length bs < 8 then None
     else do {
       m2 \<leftarrow> store_nat m1 dest 8 (unat (fixed64_value bs));
       Some (True, s1, m2) } }"

text \<open>The result of \<open>pb_decode_tag\<close>: return value, wire type, tag, end of message.\<close>

definition pb_decode_tag :: "pb_env \<Rightarrow> pb_istream_t \<Rightarrow> cmem \<Rightarrow>
    (bool \<times> pb_wire_type_t \<times> u32 \<times> bool \<times> pb_istream_t \<times> cmem) option" where
  "pb_decode_tag env s m = do {
     (ok, temp, eof, s1, m1) \<leftarrow> pb_decode_varint32_eof env s m;
     if \<not> ok then Some (False, 0, 0, eof, s1, m1)
     else if temp = 0 then Some (False, 0, 0, True, s1, m1)
     else Some (True, temp AND 7, drop_bit 3 temp, False, s1, m1) }"

subsection \<open>Skipping\<close>

primrec skip_varint_loop :: "nat \<Rightarrow> pb_env \<Rightarrow> pb_istream_t \<Rightarrow> cmem \<Rightarrow> istream_res" where
  "skip_varint_loop 0 env s m = None"
| "skip_varint_loop (Suc k) env s m = do {
     (ok, bs, s1, m1) \<leftarrow> pb_read env s RLocal 1 m;
     if \<not> ok then Some (False, s1, m1)
     else (case bs of [] \<Rightarrow> None
           | b # _ \<Rightarrow> if b AND 0x80 \<noteq> 0 then skip_varint_loop k env s1 m1
                     else Some (True, s1, m1)) }"

definition pb_skip_varint :: "pb_env \<Rightarrow> pb_istream_t \<Rightarrow> cmem \<Rightarrow> istream_res" where
  "pb_skip_varint env s m = skip_varint_loop (Suc (unat (is_bytes_left s))) env s m"

definition pb_skip_string :: "pb_env \<Rightarrow> pb_istream_t \<Rightarrow> cmem \<Rightarrow> istream_res" where
  "pb_skip_string env s m = do {
     (ok, len, s1, m1) \<leftarrow> pb_decode_varint32 env s m;
     if \<not> ok then Some (False, s1, m1) else pb_read_to env s1 RNull (ucast len) m1 }"

definition pb_skip_field :: "pb_env \<Rightarrow> pb_istream_t \<Rightarrow> pb_wire_type_t \<Rightarrow> cmem \<Rightarrow> istream_res" where
  "pb_skip_field env s wire_type m =
     (if wire_type = PB_WT_VARINT then pb_skip_varint env s m
      else if wire_type = PB_WT_64BIT then pb_read_to env s RNull 8 m
      else if wire_type = PB_WT_STRING then pb_skip_string env s m
      else if wire_type = PB_WT_32BIT then pb_read_to env s RNull 4 m
      else is_return_error s ''invalid wire_type'' m)"

text \<open>\<open>read_raw_value\<close> fills a local buffer; the result holds the bytes and their number. \<open>k\<close> is the
  room left in the buffer.\<close>

primrec raw_varint_loop :: "nat \<Rightarrow> pb_env \<Rightarrow> pb_istream_t \<Rightarrow> cmem \<Rightarrow> read_res" where
  "raw_varint_loop 0 env s m = Some (False, [], s, m)"
| "raw_varint_loop (Suc k) env s m = do {
     (ok, bs, s1, m1) \<leftarrow> pb_read env s RLocal 1 m;
     if \<not> ok then Some (False, [], s1, m1)
     else (case bs of [] \<Rightarrow> None
           | b # _ \<Rightarrow> if b AND 0x80 \<noteq> 0 then do {
                 (ok, cs, s2, m2) \<leftarrow> raw_varint_loop k env s1 m1;
                 Some (ok, b # cs, s2, m2) }
               else Some (True, [b], s1, m1)) }"

definition read_raw_value :: "pb_env \<Rightarrow> pb_istream_t \<Rightarrow> pb_wire_type_t \<Rightarrow> nat \<Rightarrow> cmem \<Rightarrow> read_res" where
  "read_raw_value env s wire_type max_size m =
     (if wire_type = PB_WT_VARINT then raw_varint_loop max_size env s m
      else if wire_type = PB_WT_64BIT then pb_read env s RLocal 8 m
      else if wire_type = PB_WT_32BIT then pb_read env s RLocal 4 m
      else Some (False, [], is_set_error s ''invalid wire_type'', m))"

subsection \<open>Substreams\<close>

text \<open>The result is the return value, the parent stream and the substream.\<close>

definition pb_make_string_substream :: "pb_env \<Rightarrow> pb_istream_t \<Rightarrow> cmem \<Rightarrow>
    (bool \<times> pb_istream_t \<times> pb_istream_t \<times> cmem) option" where
  "pb_make_string_substream env s m = do {
     (ok, sz, s1, m1) \<leftarrow> pb_decode_varint32 env s m;
     if \<not> ok then Some (False, s1, s1, m1)
     else if is_bytes_left s1 < ucast sz
     then Some (False, is_set_error s1 ''parent stream too short'', s1, m1)
     else Some (True, s1\<lparr>is_bytes_left := is_bytes_left s1 - ucast sz\<rparr>,
                s1\<lparr>is_bytes_left := ucast sz\<rparr>, m1) }"

definition pb_close_string_substream :: "pb_env \<Rightarrow> pb_istream_t \<Rightarrow> pb_istream_t \<Rightarrow> cmem \<Rightarrow>
    istream_res" where
  "pb_close_string_substream env s sub m = do {
     (ok, sub1, m1) \<leftarrow> (if is_bytes_left sub \<noteq> 0
                         then pb_read_to env sub RNull (is_bytes_left sub) m
                         else Some (True, sub, m));
     if \<not> ok then Some (False, s, m1)
     else Some (True, s\<lparr>is_state := is_state sub1, is_errmsg := is_errmsg sub1\<rparr>, m1) }"

subsection \<open>Sources\<close>

text \<open>
  What an input stream promises to the decoders. \<open>view s m bs\<close> says that the stream \<open>s\<close> in memory
  \<open>m\<close> has exactly the bytes \<open>bs\<close> left; \<open>adv s k\<close> is the stream after \<open>k\<close> bytes have been taken;
  \<open>foot\<close> contains the addresses the bytes are read from.
\<close>

locale byte_source =
  fixes env :: pb_env
    and view :: "pb_istream_t \<Rightarrow> cmem \<Rightarrow> byte list \<Rightarrow> bool"
    and adv :: "pb_istream_t \<Rightarrow> nat \<Rightarrow> pb_istream_t"
    and foot :: "addr set"
  assumes view_left: "view s m bs \<Longrightarrow> unat (is_bytes_left s) = length bs"
    and view_error: "view s m bs \<Longrightarrow> view (s\<lparr>is_errmsg := e\<rparr>) m bs"
    and view_adv: "view s m bs \<Longrightarrow> k \<le> length bs \<Longrightarrow> view (adv s k) m (drop k bs)"
    and view_mem: "view s m bs \<Longrightarrow> (\<And>x. x \<in> foot \<Longrightarrow> mem_bytes m' x = mem_bytes m x) \<Longrightarrow>
      view s m' bs"
    and adv_0: "adv s 0 = s"
    and adv_adv: "adv (adv s j) k = adv s (j + k)"
    and readbyte: "view s m (b # bs) \<Longrightarrow> pb_readbyte env s m = Some (True, b, adv s (Suc 0), m)"
    and read_local: "view s m bs \<Longrightarrow> unat n \<le> length bs \<Longrightarrow>
      pb_read env s RLocal n m = Some (True, take (unat n) bs, adv s (unat n), m)"
    and read_null: "view s m bs \<Longrightarrow> unat n \<le> length bs \<Longrightarrow>
      pb_read_to env s RNull n m = Some (True, adv s (unat n), m)"
    and read_mem: "view s m bs \<Longrightarrow> unat n \<le> length bs \<Longrightarrow> valid m a (unat n) \<Longrightarrow>
      {a ..< a + unat n} \<inter> foot = {} \<Longrightarrow>
      pb_read_to env s (RAddr a) n m =
        Some (True, adv s (unat n), upd_bytes m a (take (unat n) bs))"
    and read_short: "view s m bs \<Longrightarrow> length bs < unat n \<Longrightarrow>
      pb_read env s buf n m = Some (False, [], is_set_error s ''end-of-stream'', m)"
begin

lemma view_set_error: "view s m bs \<Longrightarrow> view (is_set_error s e) m bs"
  by (simp add: is_set_error_def view_error)

lemma readbyte_Nil: "view s m [] \<Longrightarrow>
    pb_readbyte env s m = Some (False, 0, is_set_error s ''end-of-stream'', m)"
  using view_left [of s m "[]"] by (simp add: pb_readbyte_def unat_eq_0)

lemma view_tl: "view s m (b # bs) \<Longrightarrow> view (adv s (Suc 0)) m bs"
  using view_adv [of s m "b # bs" "Suc 0"] by simp

text \<open>The 64-bit loop: \<open>i\<close> bytes are read already and at most ten are.\<close>

lemma varint_dec_loop_view:
  assumes "view s m bs" and "i \<le> 10"
  shows "varint_dec_loop env (word_of_nat (7 * i)) r s m =
    (case varint_parse (take (10 - i) bs) of
       Some (v, k) \<Rightarrow> Some (True, r OR push_bit (7 * i) (word_of_nat v), adv s k, m)
     | None \<Rightarrow> if length bs < 10 - i
         then Some (False, 0, is_set_error (adv s (length bs)) ''end-of-stream'', m)
         else Some (False, 0, is_set_error (adv s (10 - i)) ''varint overflow'', m))"
  using assms
proof (induction "10 - i" arbitrary: i r s bs)
  case 0
  then have "i = 10" by simp
  then show ?case by (subst varint_dec_loop.simps) (simp add: adv_0)
next
  case (Suc n)
  then have i: "i < 10" and n: "n = 10 - Suc i" and ni: "10 - i = Suc n" by auto
  have u: "unat (word_of_nat (7 * i) :: byte) = 7 * i"
    by (rule unat_of_nat_small) (use i in simp)
  have lt: "\<not> 64 \<le> (word_of_nat (7 * i) :: byte)"
    using i u by (simp add: word_le_nat_alt)
  have nx: "word_of_nat (7 * i) + 7 = (word_of_nat (7 * Suc i) :: byte)" by simp
  show ?case
  proof (cases bs)
    case Nil
    with Suc.prems show ?thesis
      by (subst varint_dec_loop.simps) (simp add: lt readbyte_Nil adv_0 ni del: of_nat_mult)
  next
    case (Cons b cs)
    have rb: "pb_readbyte env s m = Some (True, b, adv s (Suc 0), m)"
      by (rule readbyte) (use Suc.prems(1) Cons in simp)
    have IH: "varint_dec_loop env (word_of_nat (7 * Suc i)) r' (adv s (Suc 0)) m =
      (case varint_parse (take (10 - Suc i) cs) of
         Some (v, k) \<Rightarrow> Some (True, r' OR push_bit (7 * Suc i) (word_of_nat v), adv (adv s (Suc 0)) k, m)
       | None \<Rightarrow> if length cs < 10 - Suc i
           then Some (False, 0, is_set_error (adv (adv s (Suc 0)) (length cs)) ''end-of-stream'', m)
           else Some (False, 0, is_set_error (adv (adv s (Suc 0)) (10 - Suc i)) ''varint overflow'', m))"
      for r'
      by (rule Suc.hyps(1)) (use Suc.prems Cons i n in \<open>auto intro: view_tl\<close>)
    have val: "(r OR push_bit (7 * i) (ucast (b AND 127))) OR push_bit (7 * Suc i) (word_of_nat v) =
        r OR push_bit (7 * i) (word_of_nat (unat b mod 128 + 128 * v))" for v
      by (simp only: word_varint_step push_bit_or or.assoc push_bit_push_bit mult_Suc_right
          add.commute [of 7 "7 * i"])
    show ?thesis
    proof (cases "unat b < 128")
      case True
      then have "(ucast (b AND 127) :: u64) = word_of_nat (unat b)"
        by (simp add: byte_low_bits)
      with True show ?thesis
        by (subst varint_dec_loop.simps)
          (simp add: lt rb Cons ni and_128_zero_iff u Let_def del: of_nat_mult of_nat_Suc)
    next
      case False
      have "varint_dec_loop env (word_of_nat (7 * i)) r s m =
          varint_dec_loop env (word_of_nat (7 * Suc i))
            (r OR push_bit (7 * i) (ucast (b AND 127))) (adv s (Suc 0)) m"
        using False by (subst varint_dec_loop.simps)
          (simp add: lt rb and_128_zero_iff u Let_def nx del: of_nat_mult of_nat_Suc)
      also have "\<dots> = (case varint_parse (take (10 - i) bs) of
       Some (v, k) \<Rightarrow> Some (True, r OR push_bit (7 * i) (word_of_nat v), adv s k, m)
     | None \<Rightarrow> if length bs < 10 - i
         then Some (False, 0, is_set_error (adv s (length bs)) ''end-of-stream'', m)
         else Some (False, 0, is_set_error (adv s (10 - i)) ''varint overflow'', m))"
        unfolding IH val using False by (auto simp: Cons ni n adv_adv split: option.splits)
      finally show ?thesis .
    qed
  qed
qed

lemma decode_varint_view:
  assumes "view s m bs"
  shows "pb_decode_varint env s m =
    (case varint_parse (take 10 bs) of
       Some (v, k) \<Rightarrow> Some (True, word_of_nat v, adv s k, m)
     | None \<Rightarrow> if length bs < 10
         then Some (False, 0, is_set_error (adv s (length bs)) ''end-of-stream'', m)
         else Some (False, 0, is_set_error (adv s 10) ''varint overflow'', m))"
  using varint_dec_loop_view [OF assms, of 0 0] by (simp add: pb_decode_varint_def cong: option.case_cong)


text \<open>The 32-bit loop on a varint of at most five bytes, \<open>i\<close> of them read already.\<close>

lemma varint32_loop_short:
  assumes "view s m bs" and "varint_parse bs = Some (v, k)" and "i + k \<le> 5" and "k \<le> fuel"
  shows "varint32_loop fuel env (word_of_nat (7 * i)) r s m =
    Some (True, r OR push_bit (7 * i) (word_of_nat v), word_of_nat (7 * (i + k)), bs ! (k - 1),
      adv s k, m)"
  using assms
proof (induction fuel arbitrary: i r s bs v k)
  case 0
  then show ?case using varint_parse_take [of bs v k] by simp
next
  case (Suc fuel)
  from Suc.prems(2) obtain b cs where bs: "bs = b # cs" by (cases bs) auto
  have k: "0 < k" using varint_parse_take [OF Suc.prems(2)] by simp
  have u: "unat (word_of_nat (7 * i) :: byte) = 7 * i"
    by (rule unat_of_nat_small) (use Suc.prems(3) k in simp)
  have lt: "\<not> 32 \<le> (word_of_nat (7 * i) :: byte)"
    using u Suc.prems(3) k by (simp add: word_le_nat_alt)
  have nx: "word_of_nat (7 * i) + 7 = (word_of_nat (7 * Suc i) :: byte)" by simp
  have rb: "pb_readbyte env s m = Some (True, b, adv s (Suc 0), m)"
    by (rule readbyte) (use Suc.prems(1) bs in simp)
  show ?case
  proof (cases "unat b < 128")
    case True
    then have "(ucast (b AND 127) :: u32) = word_of_nat (unat b)" by (simp add: byte_low_bits)
    moreover from True Suc.prems(2) have "v = unat b" "k = Suc 0" by (auto simp: bs)
    ultimately show ?thesis
      using True by (simp add: lt rb bs and_128_zero_iff u nx Let_def del: of_nat_mult of_nat_Suc)
  next
    case False
    with Suc.prems(2) obtain v' k' where p: "varint_parse cs = Some (v', k')"
      and v: "v = unat b mod 128 + 128 * v'" and kk: "k = Suc k'"
      by (auto simp: bs split: option.splits)
    have k': "0 < k'" using varint_parse_take [OF p] by simp
    have "varint32_loop (Suc fuel) env (word_of_nat (7 * i)) r s m =
        varint32_loop fuel env (word_of_nat (7 * Suc i))
          (r OR push_bit (7 * i) (ucast (b AND 127))) (adv s (Suc 0)) m"
      using False by (simp add: lt rb and_128_zero_iff u Let_def nx del: of_nat_mult of_nat_Suc)
    also have "\<dots> = Some (True, (r OR push_bit (7 * i) (ucast (b AND 127))) OR
          push_bit (7 * Suc i) (word_of_nat v'), word_of_nat (7 * (Suc i + k')), cs ! (k' - 1),
          adv (adv s (Suc 0)) k', m)"
      by (rule Suc.IH [OF _ p]) (use Suc.prems bs kk in \<open>auto intro: view_tl\<close>)
    also have "(r OR push_bit (7 * i) (ucast (b AND 127))) OR push_bit (7 * Suc i) (word_of_nat v') =
        r OR push_bit (7 * i) (word_of_nat v)"
      by (simp only: v word_varint_step push_bit_or or.assoc push_bit_push_bit mult_Suc_right
          add.commute [of 7 "7 * i"])
    finally show ?thesis using k' by (simp add: kk bs adv_adv nth_Cons' del: of_nat_mult)
  qed
qed

end

context byte_source
begin

text \<open>A varint of at most five bytes: its value when it fits 32 bits, an error otherwise.\<close>

lemma decode_varint32_short:
  assumes v: "view s m bs" and p: "varint_parse bs = Some (v, k)" and k: "k \<le> 5"
  shows "pb_decode_varint32_eof env s m =
    (if v < 2 ^ 32 then Some (True, word_of_nat v, False, adv s k, m)
     else Some (False, 0, False, is_set_error (adv s k) ''varint overflow'', m))"
proof -
  from p obtain b cs where bs: "bs = b # cs" by (cases bs) auto
  have rb: "pb_readbyte env s m = Some (True, b, adv s (Suc 0), m)"
    by (rule readbyte) (use v bs in simp)
  show ?thesis
  proof (cases "unat b < 128")
    case True
    with p have "v = unat b" "k = Suc 0" by (auto simp: bs)
    with True show ?thesis
      by (simp add: pb_decode_varint32_eof_def rb and_128_zero_iff)
  next
    case False
    with p obtain v' k' where p': "varint_parse cs = Some (v', k')"
      and vv: "v = unat b mod 128 + 128 * v'" and kk: "k = Suc k'"
      by (auto simp: bs split: option.splits)
    have k': "0 < k'" "k' \<le> length cs" using varint_parse_take [OF p'] by auto
    have view1: "view (adv s (Suc 0)) m cs" using v bs by (auto intro: view_tl)
    have loop: "varint32_loop (Suc (unat (is_bytes_left (adv s (Suc 0))))) env 7 (ucast (b AND 127))
        (adv s (Suc 0)) m = Some (True, word_of_nat v, word_of_nat (7 * k), bs ! (k - 1), adv s k, m)"
      using varint32_loop_short [OF view1 p', of 1 "Suc (length cs)" "ucast (b AND 127)"] k k'
      by (simp add: view_left [OF view1] kk bs adv_adv vv word_varint_step del: of_nat_mult of_nat_add)
    have "unat (word_of_nat (7 * k) :: byte) = 7 * k"
      by (rule unat_of_nat_small) (use k in simp)
    then have "(word_of_nat (7 * k) :: byte) = 35 \<longleftrightarrow> k = 5"
      by (simp add: word_unat_eq_iff del: of_nat_mult)
    moreover have "(k = 5 \<and> bs ! (k - 1) AND 0x70 \<noteq> 0) \<longleftrightarrow> \<not> v < 2 ^ 32"
    proof (cases "k = 5")
      case True
      with p varint_parse_overflow show ?thesis by simp
    next
      case False
      then have "128 ^ k \<le> (128 :: nat) ^ 4" using k by (intro power_increasing) auto
      then show ?thesis using varint_parse_take [OF p] False by simp
    qed
    ultimately have "((word_of_nat (7 * k) :: byte) = 35 \<and> bs ! (k - 1) AND 0x70 \<noteq> 0) \<longleftrightarrow> \<not> v < 2 ^ 32"
      by simp
    moreover have "b AND 128 \<noteq> 0" using False by (simp add: and_128_zero_iff)
    ultimately show ?thesis
      unfolding pb_decode_varint32_eof_def rb by (simp only: bind.bind_lunit prod.case loop) simp
  qed
qed

lemma decode_varint32_spec:
  assumes "view s m (varint_spec v @ rest)" and "v < 2 ^ 32"
  shows "pb_decode_varint32_eof env s m =
    Some (True, word_of_nat v, False, adv s (length (varint_spec v)), m)"
  using decode_varint32_short [OF assms(1) varint_parse_spec] assms(2) length_varint_spec [of v 5]
  by simp

lemma decode_varint_spec:
  assumes "view s m (varint_spec v @ rest)" and "v < 2 ^ 64"
  shows "pb_decode_varint env s m = Some (True, word_of_nat v, adv s (length (varint_spec v)), m)"
proof -
  have "length (varint_spec v) \<le> 10" using assms(2) by (intro length_varint_spec) auto
  then have "take 10 (varint_spec v @ rest) = varint_spec v @ take (10 - length (varint_spec v)) rest"
    by simp
  then show ?thesis
    using decode_varint_view [OF assms(1)] by (simp add: varint_parse_spec del: take_append)
qed

lemma decode_tag_spec:
  assumes "view s m (tag_spec t wt @ rest)" and "wt < 8" and "8 * t + wt < 2 ^ 32" and "0 < t"
  shows "pb_decode_tag env s m =
    Some (True, word_of_nat wt, word_of_nat t, False, adv s (length (tag_spec t wt)), m)"
proof -
  let ?w = "word_of_nat (8 * t + wt) :: u32"
  have u: "unat ?w = 8 * t + wt" by (rule unat_of_nat_small) (use assms(3) in simp)
  have "?w AND 7 = word_of_nat wt"
  proof -
    have "?w AND 7 = take_bit 3 ?w" by (simp add: take_bit_eq_mask mask_eq_exp_minus_1)
    also have "\<dots> = word_of_nat wt"
      using u assms(2) by (simp add: word_unat_eq_iff unat_of_nat take_bit_eq_mod unat_mod_distrib
          del: of_nat_add of_nat_mult)
    finally show ?thesis .
  qed
  moreover have "drop_bit 3 ?w = word_of_nat t"
    using u assms(2,3) by (simp add: word_unat_eq_iff unat_div_distrib drop_bit_eq_div unat_of_nat
        del: of_nat_add of_nat_mult)
  moreover have "?w \<noteq> 0"
    using u assms(4) by (metis add_is_0 mult_is_0 unat_0 zero_neq_numeral less_numeral_extra(3))
  ultimately show ?thesis
    using decode_varint32_spec [of s m "8 * t + wt" rest] assms
    by (simp add: pb_decode_tag_def tag_spec_def del: of_nat_add of_nat_mult)
qed

lemma decode_tag_Nil:
  "view s m [] \<Longrightarrow> pb_decode_tag env s m =
     Some (False, 0, 0, True, is_set_error s ''end-of-stream'', m)"
  using view_left [of s m "[]"]
  by (simp add: pb_decode_tag_def pb_decode_varint32_eof_def readbyte_Nil unat_eq_0)

end

subsection \<open>Buffer streams\<close>

definition is_adv :: "pb_istream_t \<Rightarrow> nat \<Rightarrow> pb_istream_t" where
  "is_adv s k = s\<lparr>is_state := is_state s + k, is_bytes_left := is_bytes_left s - word_of_nat k\<rparr>"

definition is_view :: "addr set \<Rightarrow> pb_istream_t \<Rightarrow> cmem \<Rightarrow> byte list \<Rightarrow> bool" where
  "is_view foot s m bs \<longleftrightarrow> is_callback s = IS_buf_read \<and> unat (is_bytes_left s) = length bs \<and>
     load_bytes m (is_state s) (length bs) = Some bs \<and>
     {is_state s ..< is_state s + length bs} \<subseteq> foot"

lemma is_adv_simps [simp]:
  "is_adv s 0 = s" "is_adv (is_adv s j) k = is_adv s (j + k)"
  "is_callback (is_adv s k) = is_callback s" "is_state (is_adv s k) = is_state s + k"
  "is_errmsg (is_adv s k) = is_errmsg s"
  by (simp_all add: is_adv_def)

lemma is_view_adv:
  assumes "is_view foot s m bs" and "k \<le> length bs"
  shows "is_view foot (is_adv s k) m (drop k bs)"
proof -
  have len: "unat (is_bytes_left s) = length bs" using assms(1) by (simp add: is_view_def)
  then have u: "unat (word_of_nat k :: u64) = k"
    using assms(2) unat_u64_less [of "is_bytes_left s"] by (intro unat_of_nat_small) simp
  then have "unat (is_bytes_left s - word_of_nat k) = length bs - k"
    using len assms(2) by (subst unat_sub) (simp_all add: word_le_nat_alt)
  then show ?thesis
    using assms load_bytes_drop [of m "is_state s" "length bs" bs k]
    by (auto simp: is_view_def is_adv_def)
qed

lemma buf_read_loop_local:
  "load_bytes m (a + i) n = Some bs \<Longrightarrow> buf_read_loop n i a RLocal m = Some (bs, m)"
  by (induction n arbitrary: i bs) auto

lemma buf_read_loop_mem:
  assumes "load_bytes m (a + i) n = Some bs" and "valid m (d + i) n"
    and "a + i + n \<le> d + i \<or> d + i + n \<le> a + i"
  shows "buf_read_loop n i a (RAddr d) m = Some (bs, upd_bytes m (d + i) bs)"
  using assms
proof (induction n arbitrary: i m bs)
  case 0
  then show ?case by simp
next
  case (Suc n)
  from Suc.prems(1) obtain b cs where b: "load8 m (a + i) = Some b"
    and cs: "load_bytes m (a + Suc i) n = Some cs" and bs: "bs = b # cs" by auto
  let ?m = "m\<lparr>mem_bytes := (mem_bytes m)(d + i \<mapsto> b)\<rparr>"
  have v: "mem_bytes m (d + i) \<noteq> None" "valid m (d + Suc i) n"
    using Suc.prems(2) by (simp_all add: valid_Suc)
  have "valid ?m (d + Suc i) n = valid m (d + Suc i) n"
    by (rule valid_cong) (use v in auto)
  moreover have "load_bytes ?m (a + Suc i) n = load_bytes m (a + Suc i) n"
    by (rule load_bytes_cong) (use Suc.prems(3) in auto)
  ultimately have "buf_read_loop n (Suc i) a (RAddr d) ?m = Some (cs, upd_bytes ?m (d + Suc i) cs)"
    using Suc.prems(3) v cs by (intro Suc.IH) auto
  then show ?case using b v by (auto simp: store8_def bs upd_bytes_Cons)
qed

lemma view_apart:
  assumes "is_view foot s m bs" and "n \<le> length bs" and "{a ..< a + n} \<inter> foot = {}"
  shows "is_state s + n \<le> a \<or> a + n \<le> is_state s"
proof (rule ccontr)
  assume "\<not> ?thesis"
  then have "max a (is_state s) \<in> {a ..< a + n}" "max a (is_state s) \<in> {is_state s ..< is_state s + length bs}"
    using assms(2) by auto
  then show False using assms(1,3) unfolding is_view_def by blast
qed

lemma is_view_buf_read:
  assumes "is_view foot s m bs" and "unat n \<le> length bs"
  shows "buf \<noteq> RNull \<Longrightarrow> buf_read s buf n m =
    do { (cs, m') \<leftarrow> buf_read_loop (unat n) 0 (is_state s) buf m;
         Some (True, cs, s\<lparr>is_state := is_state s + unat n\<rparr>, m') }"
  and "s\<lparr>is_state := is_state s + unat n, is_bytes_left := is_bytes_left s - n\<rparr> = is_adv s (unat n)"
  and "\<not> is_bytes_left s < n" and "is_callback s = IS_buf_read"
  and "load_bytes m (is_state s) (unat n) = Some (take (unat n) bs)"
  using assms by (auto simp: buf_read_def is_adv_def is_view_def word_less_nat_alt
      intro: load_bytes_drop(2))

interpretation src: byte_source env "is_view foot" is_adv foot for env foot
proof
  fix s m bs assume v: "is_view foot s m bs"
  show "unat (is_bytes_left s) = length bs" using v by (simp add: is_view_def)
  show "is_view foot (s\<lparr>is_errmsg := e\<rparr>) m bs" for e using v by (simp add: is_view_def)
  show "is_view foot (is_adv s k) m (drop k bs)" if "k \<le> length bs" for k
    using v that by (rule is_view_adv)
  show "is_view foot s m' bs" if "\<And>x. x \<in> foot \<Longrightarrow> mem_bytes m' x = mem_bytes m x" for m'
  proof -
    have "load_bytes m' (is_state s) (length bs) = load_bytes m (is_state s) (length bs)"
      by (rule load_bytes_cong) (use v that in \<open>auto simp: is_view_def\<close>)
    with v show ?thesis by (simp add: is_view_def)
  qed
  show "pb_read env s RLocal n m = Some (True, take (unat n) bs, is_adv s (unat n), m)"
    if "unat n \<le> length bs" for n
    using is_view_buf_read [OF v that] buf_read_loop_local [of m "is_state s" 0 "unat n"]
    by (simp add: pb_read_def pb_read_buf_def is_call_def)
  show "pb_read_to env s RNull n m = Some (True, is_adv s (unat n), m)" if "unat n \<le> length bs" for n
    using is_view_buf_read [OF v that]
    by (simp add: pb_read_to_def pb_read_def pb_read_buf_def is_call_def buf_read_def)
  show "pb_read_to env s (RAddr a) n m =
      Some (True, is_adv s (unat n), upd_bytes m a (take (unat n) bs))"
    if "unat n \<le> length bs" "valid m a (unat n)" "{a ..< a + unat n} \<inter> foot = {}" for n a
    using is_view_buf_read [OF v that(1)] view_apart [OF v that(1,3)] that(2)
      buf_read_loop_mem [of m "is_state s" 0 "unat n" "take (unat n) bs" a]
    by (simp add: pb_read_to_def pb_read_def pb_read_buf_def is_call_def)
  show "pb_read env s buf n m = Some (False, [], is_set_error s ''end-of-stream'', m)"
    if "length bs < unat n" for buf n
    using v that by (simp add: pb_read_def pb_read_buf_def is_view_def word_less_nat_alt)
next
  fix s m b bs assume v: "is_view foot s m (b # bs)"
  then have "is_bytes_left s \<noteq> 0" by (auto simp: is_view_def)
  with is_view_buf_read [OF v, of 1] buf_read_loop_local [of m "is_state s" 0 1 "[b]"]
  show "pb_readbyte env s m = Some (True, b, is_adv s (Suc 0), m)"
    by (auto simp: pb_readbyte_def is_call_def)
qed simp_all

text \<open>A stream made from a buffer sees the buffer.\<close>

lemma is_view_from_buffer:
  "load_bytes m a (unat n) = Some bs \<Longrightarrow> {a ..< a + unat n} \<subseteq> foot \<Longrightarrow>
   is_view foot (pb_istream_from_buffer a n) m bs"
  using load_bytes_length [of m a "unat n" bs] by (simp add: is_view_def pb_istream_from_buffer_def)

end
