(* ===== verification/Pb_Init.thy ===== *)
theory Pb_Init
  imports Pb_Common
begin

text \<open>
  The parts of \<^verbatim>\<open>nanopb/pb_decode.c\<close> that walk a message structure without reading the stream:
  setting all fields to their defaults and releasing everything that was allocated. Both recurse
  through submessages and extensions; the fuel bounds the depth of that recursion and the length
  of an extension list.
\<close>

text \<open>The do-while loop over the fields of a message, with the body as an argument.\<close>

primrec iter_fold :: "pb_env \<Rightarrow> (pb_field_iter_t \<Rightarrow> cmem \<Rightarrow> cmem option) \<Rightarrow> nat \<Rightarrow>
    pb_field_iter_t \<Rightarrow> cmem \<Rightarrow> cmem option" where
  "iter_fold env g 0 it m = None"
| "iter_fold env g (Suc k) it m = do {
     m1 \<leftarrow> g it m;
     (more, it') \<leftarrow> pb_field_iter_next env it;
     if more then iter_fold env g k it' m1 else Some m1 }"

text \<open>The iterator that stands for an extension field: the data is the extension's \<open>dest\<close> (or the
  \<open>dest\<close> member itself for a pointer field) and the companion its \<open>found\<close> flag.\<close>

definition iter_from_extension :: "pb_env \<Rightarrow> addr \<Rightarrow> cmem \<Rightarrow> pb_field_iter_t option" where
  "iter_from_extension env ext m = do {
     tp \<leftarrow> load_ptr m (ext_type ext);
     t \<leftarrow> env_ext_type env tp;
     f \<leftarrow> fld_at env (et_arg t) 0;
     dest \<leftarrow> load_ptr m (ext_dest ext);
     (_, it) \<leftarrow> pb_field_iter_begin env (et_arg t) dest;
     Some (it\<lparr>it_pData := (if PB_ATYPE (fld_type f) = PB_ATYPE_POINTER then ext_dest ext else dest),
              it_pSize := ext_found ext\<rparr>) }"

subsection \<open>Default values\<close>

definition set_defaults_with :: "pb_env \<Rightarrow> (pb_field_iter_t \<Rightarrow> cmem \<Rightarrow> cmem option) \<Rightarrow> addr \<Rightarrow>
    addr \<Rightarrow> cmem \<Rightarrow> cmem option" where
  "set_defaults_with env fsd fs dest_struct m = do {
     (ok, it) \<leftarrow> pb_field_iter_begin env fs dest_struct;
     if \<not> ok then Some m else iter_fold env fsd (length (env_fields env fs)) it m }"

primrec ext_default_loop :: "pb_env \<Rightarrow> (pb_field_iter_t \<Rightarrow> cmem \<Rightarrow> cmem option) \<Rightarrow> nat \<Rightarrow> addr \<Rightarrow>
    cmem \<Rightarrow> cmem option" where
  "ext_default_loop env fsd 0 ext m = None"
| "ext_default_loop env fsd (Suc k) ext m =
     (if ext = 0 then Some m
      else do {
        m1 \<leftarrow> store_bool m (ext_found ext) False;
        it \<leftarrow> iter_from_extension env ext m1;
        m2 \<leftarrow> fsd it m1;
        nxt \<leftarrow> load_ptr m2 (ext_next ext);
        ext_default_loop env fsd k nxt m2 })"

definition field_default_step :: "pb_env \<Rightarrow> nat \<Rightarrow> (pb_field_iter_t \<Rightarrow> cmem \<Rightarrow> cmem option) \<Rightarrow>
    pb_field_iter_t \<Rightarrow> cmem \<Rightarrow> cmem option" where
  "field_default_step env n fsd it m = do {
     f \<leftarrow> it_fld env it;
     let ty = fld_type f;
     if PB_LTYPE ty = PB_LTYPE_EXTENSION then do {
       ext \<leftarrow> load_ptr m (it_pData it);
       ext_default_loop env fsd n ext m }
     else if PB_ATYPE ty = PB_ATYPE_STATIC then do {
       (init_data, m1) \<leftarrow>
         (if PB_HTYPE ty = PB_HTYPE_OPTIONAL \<and> it_pSize it \<noteq> it_pData it
          then map_option (\<lambda>m1. (True, m1)) (store_bool m (it_pSize it) False)
          else if PB_HTYPE ty = PB_HTYPE_REPEATED \<or> PB_HTYPE ty = PB_HTYPE_ONEOF
          then map_option (\<lambda>m1. (False, m1)) (store_u32 m (it_pSize it) 0)
          else Some (True, m));
       if init_data then
         (if PB_LTYPE ty = PB_LTYPE_SUBMESSAGE
          then set_defaults_with env fsd (fld_ptr f) (it_pData it) m1
          else if fld_ptr f \<noteq> 0
          then memcpy m1 (it_pData it) (fld_ptr f) (unat (fld_data_size f))
          else memset0 m1 (it_pData it) (unat (fld_data_size f)))
       else Some m1 }
     else if PB_ATYPE ty = PB_ATYPE_POINTER then do {
       m1 \<leftarrow> store_ptr m (it_pData it) 0;
       if PB_HTYPE ty = PB_HTYPE_REPEATED \<or> PB_HTYPE ty = PB_HTYPE_ONEOF
       then store_u32 m1 (it_pSize it) 0 else Some m1 }
     else Some m }"

primrec pb_field_set_to_default :: "nat \<Rightarrow> pb_env \<Rightarrow> pb_field_iter_t \<Rightarrow> cmem \<Rightarrow> cmem option" where
  "pb_field_set_to_default 0 env it m = None"
| "pb_field_set_to_default (Suc n) env it m =
     field_default_step env n (pb_field_set_to_default n env) it m"

definition pb_message_set_to_defaults :: "nat \<Rightarrow> pb_env \<Rightarrow> addr \<Rightarrow> addr \<Rightarrow> cmem \<Rightarrow> cmem option" where
  "pb_message_set_to_defaults n env fs dest_struct m =
     set_defaults_with env (pb_field_set_to_default n env) fs dest_struct m"

subsection \<open>Release\<close>

definition release_with :: "pb_env \<Rightarrow> (pb_field_iter_t \<Rightarrow> cmem \<Rightarrow> cmem option) \<Rightarrow> addr \<Rightarrow> addr \<Rightarrow>
    cmem \<Rightarrow> cmem option" where
  "release_with env rsf fs dest_struct m =
     (if dest_struct = 0 then Some m
      else do {
        (ok, it) \<leftarrow> pb_field_iter_begin env fs dest_struct;
        if \<not> ok then Some m else iter_fold env rsf (length (env_fields env fs)) it m })"

primrec ext_release_loop :: "pb_env \<Rightarrow> (pb_field_iter_t \<Rightarrow> cmem \<Rightarrow> cmem option) \<Rightarrow> nat \<Rightarrow> addr \<Rightarrow>
    cmem \<Rightarrow> cmem option" where
  "ext_release_loop env rsf 0 ext m = None"
| "ext_release_loop env rsf (Suc k) ext m =
     (if ext = 0 then Some m
      else do {
        it \<leftarrow> iter_from_extension env ext m;
        m1 \<leftarrow> rsf it m;
        nxt \<leftarrow> load_ptr m1 (ext_next ext);
        ext_release_loop env rsf k nxt m1 })"

primrec release_items :: "(addr \<Rightarrow> cmem \<Rightarrow> cmem option) \<Rightarrow> nat \<Rightarrow> nat \<Rightarrow> addr \<Rightarrow> cmem \<Rightarrow>
    cmem option" where
  "release_items rel sz 0 p m = Some m"
| "release_items rel sz (Suc k) p m = do {
     m1 \<leftarrow> rel p m;
     release_items rel sz k (p + sz) m1 }"

text \<open>The body of the loop over a pointer-allocated array of strings or bytes.\<close>

definition free_entry :: "addr \<Rightarrow> cmem \<Rightarrow> cmem option" where
  "free_entry p m = do {
     q \<leftarrow> load_ptr m p;
     m1 \<leftarrow> c_free m q;
     store_ptr m1 p 0 }"

text \<open>What is released inside the field: the fields of every extension in the list, or the fields
  of the submessage or of every submessage of an array.\<close>

definition release_contents :: "pb_env \<Rightarrow> nat \<Rightarrow> (pb_field_iter_t \<Rightarrow> cmem \<Rightarrow> cmem option) \<Rightarrow>
    pb_field_t \<Rightarrow> pb_field_iter_t \<Rightarrow> cmem \<Rightarrow> cmem option" where
  "release_contents env n rsf f it m = (let ty = fld_type f in
     if PB_LTYPE ty = PB_LTYPE_EXTENSION then do {
       ext \<leftarrow> load_ptr m (it_pData it);
       ext_release_loop env rsf n ext m }
     else if PB_LTYPE ty = PB_LTYPE_SUBMESSAGE then do {
       pItem \<leftarrow> (if PB_ATYPE ty = PB_ATYPE_POINTER then load_ptr m (it_pData it)
                 else Some (it_pData it));
       count \<leftarrow> (if PB_HTYPE ty = PB_HTYPE_REPEATED then do {
           c \<leftarrow> (if PB_ATYPE ty = PB_ATYPE_STATIC \<and> it_pSize it = it_pData it
                 then Some (fld_array_size f) else load_u32 m (it_pSize it));
           Some (if PB_ATYPE ty = PB_ATYPE_STATIC \<and> c > fld_array_size f
                 then fld_array_size f else c) }
         else Some 1);
       if pItem \<noteq> 0
       then release_items (release_with env rsf (fld_ptr f)) (unat (fld_data_size f))
              (unat count) pItem m
       else Some m }
     else Some m)"

definition release_step :: "pb_env \<Rightarrow> nat \<Rightarrow> (pb_field_iter_t \<Rightarrow> cmem \<Rightarrow> cmem option) \<Rightarrow>
    pb_field_iter_t \<Rightarrow> cmem \<Rightarrow> cmem option" where
  "release_step env n rsf it m = do {
     f \<leftarrow> it_fld env it;
     let ty = fld_type f;
     other \<leftarrow> (if PB_HTYPE ty = PB_HTYPE_ONEOF
               then map_option (\<lambda>w. w \<noteq> fld_tag f) (load_u32 m (it_pSize it)) else Some False);
     if other then Some m
     else do {
       m1 \<leftarrow> release_contents env n rsf f it m;
       if PB_ATYPE ty = PB_ATYPE_POINTER then do {
         m2 \<leftarrow> (if PB_HTYPE ty = PB_HTYPE_REPEATED \<and>
                  (PB_LTYPE ty = PB_LTYPE_STRING \<or> PB_LTYPE ty = PB_LTYPE_BYTES)
               then do {
                 pItem \<leftarrow> load_ptr m1 (it_pData it);
                 count \<leftarrow> load_u32 m1 (it_pSize it);
                 release_items free_entry 8 (unat count) pItem m1 }
               else Some m1);
         m3 \<leftarrow> (if PB_HTYPE ty = PB_HTYPE_REPEATED then store_u32 m2 (it_pSize it) 0 else Some m2);
         p \<leftarrow> load_ptr m3 (it_pData it);
         m4 \<leftarrow> c_free m3 p;
         store_ptr m4 (it_pData it) 0 }
       else Some m1 } }"

primrec pb_release_single_field :: "nat \<Rightarrow> pb_env \<Rightarrow> pb_field_iter_t \<Rightarrow> cmem \<Rightarrow> cmem option" where
  "pb_release_single_field 0 env it m = None"
| "pb_release_single_field (Suc n) env it m =
     release_step env n (pb_release_single_field n env) it m"

definition pb_release :: "nat \<Rightarrow> pb_env \<Rightarrow> addr \<Rightarrow> addr \<Rightarrow> cmem \<Rightarrow> cmem option" where
  "pb_release n env fs dest_struct m =
     release_with env (pb_release_single_field n env) fs dest_struct m"

end
