(* ===== verification/Pb_Decode.thy ===== *)
theory Pb_Decode
  imports Pb_Istream Pb_Init
begin

text \<open>
  The field and message level of \<^verbatim>\<open>nanopb/pb_decode.c\<close>: the decoders of the table \<open>PB_DECODERS\<close>,
  static, pointer, callback and extension fields, the main loop of \<open>pb_decode_noinit\<close> with its
  bookkeeping, and the entry points. The recursion through submessages is open: the operations
  below \<open>pb_decode_noinit\<close> take the message decoder as an argument \<open>dec\<close>; \<open>pb_decode_noinit\<close> closes
  it with a fuel that bounds the nesting depth, the rounds of its main loop, the calls of a field
  callback for one field and the length of an extension list.
\<close>

type_synonym msg_decoder = "pb_istream_t \<Rightarrow> addr \<Rightarrow> addr \<Rightarrow> cmem \<Rightarrow> istream_res"
type_synonym pb_decoder_t = "pb_istream_t \<Rightarrow> pb_field_t \<Rightarrow> addr \<Rightarrow> cmem \<Rightarrow> istream_res"

subsection \<open>Allocation\<close>

definition allocate_field :: "pb_istream_t \<Rightarrow> addr \<Rightarrow> u64 \<Rightarrow> u64 \<Rightarrow> cmem \<Rightarrow> istream_res" where
  "allocate_field s pData data_size array_size m = do {
     ptr \<leftarrow> load_ptr m pData;
     if data_size = 0 \<or> array_size = 0 then is_return_error s ''invalid size'' m
     else do {
       let check_limit = push_bit 32 1;
       if (data_size \<ge> check_limit \<or> array_size \<ge> check_limit) \<and> (- 1) div array_size < data_size
       then is_return_error s ''size too large'' m
       else do {
         (ptr', m1) \<leftarrow> c_realloc m ptr (unat (array_size * data_size));
         if ptr' = 0 then is_return_error s ''realloc failed'' m1
         else do {
           m2 \<leftarrow> store_ptr m1 pData ptr';
           Some (True, s, m2) } } } }"

definition initialize_pointer_field :: "nat \<Rightarrow> pb_env \<Rightarrow> addr \<Rightarrow> pb_field_t \<Rightarrow> cmem \<Rightarrow> cmem option" where
  "initialize_pointer_field n env pItem f m =
     (if PB_LTYPE (fld_type f) = PB_LTYPE_STRING \<or> PB_LTYPE (fld_type f) = PB_LTYPE_BYTES
      then store_ptr m pItem 0
      else if PB_LTYPE (fld_type f) = PB_LTYPE_SUBMESSAGE
      then do {
        m1 \<leftarrow> memset0 m pItem (unat (fld_data_size f));
        pb_message_set_to_defaults n env (fld_ptr f) pItem m1 }
      else Some m)"

subsection \<open>Field decoders\<close>

text \<open>The casts of the integer decoders: the memory after the assignment to \<open>*dest\<close> and the value
  read back (\<open>clamped\<close>). The outer \<open>None\<close> is a size no branch handles.\<close>

definition store_signed :: "cmem \<Rightarrow> addr \<Rightarrow> u32 \<Rightarrow> u64 \<Rightarrow> (cmem option \<times> u64) option" where
  "store_signed m dest sz v =
     (if sz = 8 then Some (store_nat m dest 8 (unat v), v)
      else if sz = 4 then Some (store_nat m dest 4 (unat (ucast v :: 32 word)),
        scast (ucast v :: 32 word))
      else if sz = 2 then Some (store_nat m dest 2 (unat (ucast v :: 16 word)),
        scast (ucast v :: 16 word))
      else if sz = 1 then Some (store_nat m dest 1 (unat (ucast v :: 8 word)),
        scast (ucast v :: 8 word))
      else None)"

definition store_unsigned :: "cmem \<Rightarrow> addr \<Rightarrow> u32 \<Rightarrow> u64 \<Rightarrow> (cmem option \<times> u64) option" where
  "store_unsigned m dest sz v =
     (if sz = 8 then Some (store_nat m dest 8 (unat v), v)
      else if sz = 4 then Some (store_nat m dest 4 (unat (ucast v :: 32 word)),
        ucast (ucast v :: 32 word))
      else if sz = 2 then Some (store_nat m dest 2 (unat (ucast v :: 16 word)),
        ucast (ucast v :: 16 word))
      else if sz = 1 then Some (store_nat m dest 1 (unat (ucast v :: 8 word)),
        ucast (ucast v :: 8 word))
      else None)"

text \<open>The common end of the three integer decoders.\<close>

definition finish_integer :: "pb_istream_t \<Rightarrow> u64 \<Rightarrow> (cmem option \<times> u64) option \<Rightarrow> cmem \<Rightarrow>
    istream_res" where
  "finish_integer s v st m = (case st of
     None \<Rightarrow> is_return_error s ''invalid data_size'' m
   | Some (mo, clamped) \<Rightarrow> do {
       m1 \<leftarrow> mo;
       if clamped \<noteq> v then is_return_error s ''integer too large'' m1 else Some (True, s, m1) })"

definition pb_dec_varint :: "pb_env \<Rightarrow> pb_decoder_t" where
  "pb_dec_varint env s f dest m = do {
     (ok, v, s1, m1) \<leftarrow> pb_decode_varint env s m;
     if \<not> ok then Some (False, s1, m1)
     else do {
       let svalue = (if fld_data_size f = 8 then v else scast (ucast v :: 32 word));
       finish_integer s1 svalue (store_signed m1 dest (fld_data_size f) svalue) m1 } }"

definition pb_dec_uvarint :: "pb_env \<Rightarrow> pb_decoder_t" where
  "pb_dec_uvarint env s f dest m = do {
     (ok, v, s1, m1) \<leftarrow> pb_decode_varint env s m;
     if \<not> ok then Some (False, s1, m1)
     else finish_integer s1 v (store_unsigned m1 dest (fld_data_size f) v) m1 }"

definition pb_dec_svarint :: "pb_env \<Rightarrow> pb_decoder_t" where
  "pb_dec_svarint env s f dest m = do {
     (ok, v, s1, m1) \<leftarrow> pb_decode_svarint env s m;
     if \<not> ok then Some (False, s1, m1)
     else finish_integer s1 v (store_signed m1 dest (fld_data_size f) v) m1 }"

definition pb_dec_fixed32 :: "pb_env \<Rightarrow> pb_decoder_t" where
  "pb_dec_fixed32 env s f dest m = pb_decode_fixed32 env s dest m"

definition pb_dec_fixed64 :: "pb_env \<Rightarrow> pb_decoder_t" where
  "pb_dec_fixed64 env s f dest m = pb_decode_fixed64 env s dest m"

definition pb_dec_bytes :: "pb_env \<Rightarrow> pb_decoder_t" where
  "pb_dec_bytes env s f dest m = do {
     (ok, sz, s1, m1) \<leftarrow> pb_decode_varint32 env s m;
     if \<not> ok then Some (False, s1, m1)
     else if sz > PB_SIZE_MAX then is_return_error s1 ''bytes overflow'' m1
     else do {
       let alloc_size = PB_BYTES_ARRAY_T_ALLOCSIZE sz;
       if ucast sz > alloc_size then is_return_error s1 ''size too large'' m1
       else if PB_ATYPE (fld_type f) = PB_ATYPE_POINTER then do {
         (ok, s2, m2) \<leftarrow> allocate_field s1 dest alloc_size 1 m1;
         if \<not> ok then Some (False, s2, m2)
         else do {
           bdest \<leftarrow> load_ptr m2 dest;
           m3 \<leftarrow> store_u32 m2 bdest sz;
           pb_read_to env s2 (RAddr (bytes_data bdest)) (ucast sz) m3 } }
       else if alloc_size > ucast (fld_data_size f) then is_return_error s1 ''bytes overflow'' m1
       else do {
         m3 \<leftarrow> store_u32 m1 dest sz;
         pb_read_to env s1 (RAddr (bytes_data dest)) (ucast sz) m3 } } }"

definition dec_string_body :: "pb_env \<Rightarrow> pb_istream_t \<Rightarrow> addr \<Rightarrow> u32 \<Rightarrow> cmem \<Rightarrow> istream_res" where
  "dec_string_body env s dest sz m = do {
     (status, s1, m1) \<leftarrow> pb_read_to env s (RAddr dest) (ucast sz) m;
     m2 \<leftarrow> store8 m1 (dest + unat sz) 0;
     Some (status, s1, m2) }"

text \<open>\<open>size + 1\<close> is computed in 32 bits.\<close>

definition pb_dec_string :: "pb_env \<Rightarrow> pb_decoder_t" where
  "pb_dec_string env s f dest m = do {
     (ok, sz, s1, m1) \<leftarrow> pb_decode_varint32 env s m;
     if \<not> ok then Some (False, s1, m1)
     else do {
       let alloc_size = (ucast (sz + 1) :: u64);
       if alloc_size < ucast sz then is_return_error s1 ''size too large'' m1
       else if PB_ATYPE (fld_type f) = PB_ATYPE_POINTER then do {
         (ok, s2, m2) \<leftarrow> allocate_field s1 dest alloc_size 1 m1;
         if \<not> ok then Some (False, s2, m2)
         else do {
           dest' \<leftarrow> load_ptr m2 dest;
           dec_string_body env s2 dest' sz m2 } }
       else if alloc_size > ucast (fld_data_size f) then is_return_error s1 ''string overflow'' m1
       else dec_string_body env s1 dest sz m1 } }"

definition pb_dec_fixed_length_bytes :: "pb_env \<Rightarrow> pb_decoder_t" where
  "pb_dec_fixed_length_bytes env s f dest m = do {
     (ok, sz, s1, m1) \<leftarrow> pb_decode_varint32 env s m;
     if \<not> ok then Some (False, s1, m1)
     else if sz > PB_SIZE_MAX then is_return_error s1 ''bytes overflow'' m1
     else if sz = 0 then do {
       m2 \<leftarrow> memset0 m1 dest (unat (fld_data_size f));
       Some (True, s1, m2) }
     else if sz \<noteq> fld_data_size f
     then is_return_error s1 ''incorrect fixed length bytes size'' m1
     else pb_read_to env s1 (RAddr dest) (ucast (fld_data_size f)) m1 }"

text \<open>\<open>pb_decode\<close> over a given \<open>pb_decode_noinit\<close>.\<close>

definition decode_with :: "nat \<Rightarrow> pb_env \<Rightarrow> msg_decoder \<Rightarrow> msg_decoder" where
  "decode_with n env dec s fs dest m = do {
     m1 \<leftarrow> pb_message_set_to_defaults n env fs dest m;
     (status, s2, m2) \<leftarrow> dec s fs dest m1;
     if \<not> status then do {
       m3 \<leftarrow> pb_release n env fs dest m2;
       Some (False, s2, m3) }
     else Some (True, s2, m2) }"

definition pb_dec_submessage :: "nat \<Rightarrow> pb_env \<Rightarrow> msg_decoder \<Rightarrow> pb_decoder_t" where
  "pb_dec_submessage n env dec s f dest m = do {
     (ok, s1, sub, m1) \<leftarrow> pb_make_string_substream env s m;
     if \<not> ok then Some (False, s1, m1)
     else if fld_ptr f = 0 then is_return_error s1 ''invalid field descriptor'' m1
     else do {
       (status, sub2, m2) \<leftarrow> (if PB_HTYPE (fld_type f) = PB_HTYPE_REPEATED
                               then decode_with n env dec sub (fld_ptr f) dest m1
                               else dec sub (fld_ptr f) dest m1);
       (ok, s3, m3) \<leftarrow> pb_close_string_substream env s1 sub2 m2;
       if \<not> ok then Some (False, s3, m3) else Some (status, s3, m3) } }"

definition PB_DECODERS :: "nat \<Rightarrow> pb_env \<Rightarrow> msg_decoder \<Rightarrow> pb_type_t \<Rightarrow> pb_decoder_t option" where
  "PB_DECODERS n env dec lt =
     (if lt = PB_LTYPE_VARINT then Some (pb_dec_varint env)
      else if lt = PB_LTYPE_UVARINT then Some (pb_dec_uvarint env)
      else if lt = PB_LTYPE_SVARINT then Some (pb_dec_svarint env)
      else if lt = PB_LTYPE_FIXED32 then Some (pb_dec_fixed32 env)
      else if lt = PB_LTYPE_FIXED64 then Some (pb_dec_fixed64 env)
      else if lt = PB_LTYPE_BYTES then Some (pb_dec_bytes env)
      else if lt = PB_LTYPE_STRING then Some (pb_dec_string env)
      else if lt = PB_LTYPE_SUBMESSAGE then Some (pb_dec_submessage n env dec)
      else if lt = PB_LTYPE_FIXED_LENGTH_BYTES then Some (pb_dec_fixed_length_bytes env)
      else None)"

definition call_decoder :: "pb_decoder_t option \<Rightarrow> pb_decoder_t" where
  "call_decoder func s f p m = (case func of None \<Rightarrow> None | Some g \<Rightarrow> g s f p m)"

subsection \<open>The count of a repeated field\<close>

text \<open>
  For a fixed-count array \<open>pb_decode_noinit\<close> lets \<open>iter.pSize\<close> point to its local variable
  \<open>fixed_count_size\<close>. The address of that local is \<open>FIXED_COUNT_ADDR\<close>, a value no 64-bit pointer
  takes; its contents are passed along as \<open>fc\<close>.
\<close>

definition FIXED_COUNT_ADDR :: addr where "FIXED_COUNT_ADDR = 2 ^ 64"

type_synonym field_res = "(bool \<times> pb_istream_t \<times> u32 \<times> cmem) option"

definition get_count :: "cmem \<Rightarrow> pb_field_iter_t \<Rightarrow> u32 \<Rightarrow> u32 option" where
  "get_count m it fc = (if it_pSize it = FIXED_COUNT_ADDR then Some fc else load_u32 m (it_pSize it))"

definition set_count :: "cmem \<Rightarrow> pb_field_iter_t \<Rightarrow> u32 \<Rightarrow> u32 \<Rightarrow> (u32 \<times> cmem) option" where
  "set_count m it fc v = (if it_pSize it = FIXED_COUNT_ADDR then Some (v, m)
     else map_option (\<lambda>m1. (fc, m1)) (store_u32 m (it_pSize it) v))"

text \<open>The address of item \<open>sz\<close>: the product is computed in 32 bits.\<close>

definition item_addr :: "addr \<Rightarrow> pb_field_t \<Rightarrow> u32 \<Rightarrow> addr" where
  "item_addr base f sz = base + unat (fld_data_size f * sz)"

definition no_count :: "u32 \<Rightarrow> istream_res \<Rightarrow> field_res" where
  "no_count fc r = map_option (\<lambda>(ok, s, m). (ok, s, fc, m)) r"

subsection \<open>Static fields\<close>

text \<open>The loop over a packed array: \<open>status\<close>, the substream, the count and the memory.\<close>

primrec static_packed_loop :: "nat \<Rightarrow> pb_decoder_t \<Rightarrow> pb_field_t \<Rightarrow> pb_field_iter_t \<Rightarrow>
    pb_istream_t \<Rightarrow> u32 \<Rightarrow> cmem \<Rightarrow> field_res" where
  "static_packed_loop 0 func f it sub fc m = None"
| "static_packed_loop (Suc k) func f it sub fc m = do {
     sz \<leftarrow> get_count m it fc;
     if is_bytes_left sub > 0 \<and> sz < fld_array_size f then do {
       (ok, sub1, m1) \<leftarrow> func sub f (item_addr (it_pData it) f sz) m;
       if \<not> ok then Some (False, sub1, fc, m1)
       else do {
         sz1 \<leftarrow> get_count m1 it fc;
         (fc2, m2) \<leftarrow> set_count m1 it fc (sz1 + 1);
         static_packed_loop k func f it sub1 fc2 m2 } }
     else Some (True, sub, fc, m) }"

definition decode_static_field :: "nat \<Rightarrow> pb_env \<Rightarrow> msg_decoder \<Rightarrow> pb_istream_t \<Rightarrow> pb_wire_type_t \<Rightarrow>
    pb_field_iter_t \<Rightarrow> u32 \<Rightarrow> cmem \<Rightarrow> field_res" where
  "decode_static_field n env dec s wire_type it fc m = do {
     f \<leftarrow> it_fld env it;
     let ty = fld_type f;
     let func = call_decoder (PB_DECODERS n env dec (PB_LTYPE ty));
     if PB_HTYPE ty = PB_HTYPE_REQUIRED then no_count fc (func s f (it_pData it) m)
     else if PB_HTYPE ty = PB_HTYPE_OPTIONAL then do {
       m1 \<leftarrow> (if it_pSize it \<noteq> it_pData it then store_bool m (it_pSize it) True else Some m);
       no_count fc (func s f (it_pData it) m1) }
     else if PB_HTYPE ty = PB_HTYPE_REPEATED then
       (if wire_type = PB_WT_STRING \<and> PB_LTYPE ty \<le> PB_LTYPE_LAST_PACKABLE then do {
          (ok, s1, sub, m1) \<leftarrow> pb_make_string_substream env s m;
          if \<not> ok then Some (False, s1, fc, m1)
          else do {
            (status, sub2, fc2, m2) \<leftarrow>
              static_packed_loop (Suc (unat (is_bytes_left sub))) func f it sub fc m1;
            if is_bytes_left sub2 \<noteq> 0
            then no_count fc2 (is_return_error s1 ''array overflow'' m2)
            else do {
              (ok, s3, m3) \<leftarrow> pb_close_string_substream env s1 sub2 m2;
              if \<not> ok then Some (False, s3, fc2, m3) else Some (status, s3, fc2, m3) } } }
        else do {
          sz \<leftarrow> get_count m it fc;
          (fc1, m1) \<leftarrow> set_count m it fc (sz + 1);
          if sz \<ge> fld_array_size f then no_count fc1 (is_return_error s ''array overflow'' m1)
          else no_count fc1 (func s f (item_addr (it_pData it) f sz) m1) })
     else if PB_HTYPE ty = PB_HTYPE_ONEOF then do {
       m1 \<leftarrow> store_u32 m (it_pSize it) (fld_tag f);
       m2 \<leftarrow> (if PB_LTYPE ty = PB_LTYPE_SUBMESSAGE then do {
                m' \<leftarrow> memset0 m1 (it_pData it) (unat (fld_data_size f));
                pb_message_set_to_defaults n env (fld_ptr f) (it_pData it) m' }
              else Some m1);
       no_count fc (func s f (it_pData it) m2) }
     else no_count fc (is_return_error s ''invalid field type'' m) }"

subsection \<open>Pointer fields\<close>

text \<open>The loop over a packed array with reallocation; \<open>allocated\<close> is \<open>allocated_size\<close>. The parent
  stream is threaded because the last check writes its error message.\<close>

primrec pointer_packed_loop :: "nat \<Rightarrow> nat \<Rightarrow> pb_env \<Rightarrow> pb_decoder_t \<Rightarrow> pb_field_t \<Rightarrow>
    pb_field_iter_t \<Rightarrow> u64 \<Rightarrow> pb_istream_t \<Rightarrow> pb_istream_t \<Rightarrow> u32 \<Rightarrow> cmem \<Rightarrow>
    (bool \<times> pb_istream_t \<times> pb_istream_t \<times> u32 \<times> cmem) option" where
  "pointer_packed_loop 0 n env func f it allocated s sub fc m = None"
| "pointer_packed_loop (Suc k) n env func f it allocated s sub fc m =
     (if is_bytes_left sub = 0 then Some (True, s, sub, fc, m)
      else do {
        sz \<leftarrow> get_count m it fc;
        (ok, allocated1, sub1, m1) \<leftarrow>
          (if ucast sz + 1 > allocated then
             (if fld_data_size f = 0 then None
              else do {
                let a = allocated + ((is_bytes_left sub - 1) div ucast (fld_data_size f) + 1);
                (ok, sub1, m1) \<leftarrow> allocate_field sub (it_pData it) (ucast (fld_data_size f)) a m;
                Some (ok, a, sub1, m1) })
           else Some (True, allocated, sub, m));
        if \<not> ok then Some (False, s, sub1, fc, m1)
        else do {
          base \<leftarrow> load_ptr m1 (it_pData it);
          sz1 \<leftarrow> get_count m1 it fc;
          let pItem = item_addr base f sz1;
          m2 \<leftarrow> initialize_pointer_field n env pItem f m1;
          (ok, sub2, m3) \<leftarrow> func sub1 f pItem m2;
          if \<not> ok then Some (False, s, sub2, fc, m3)
          else do {
            sz2 \<leftarrow> get_count m3 it fc;
            if sz2 = PB_SIZE_MAX
            then Some (False, s\<lparr>is_errmsg := Some ''too many array entries''\<rparr>, sub2, fc, m3)
            else do {
              (fc4, m4) \<leftarrow> set_count m3 it fc (sz2 + 1);
              pointer_packed_loop k n env func f it allocated1 s sub2 fc4 m4 } } } })"

definition decode_pointer_field :: "nat \<Rightarrow> pb_env \<Rightarrow> msg_decoder \<Rightarrow> pb_istream_t \<Rightarrow> pb_wire_type_t \<Rightarrow>
    pb_field_iter_t \<Rightarrow> u32 \<Rightarrow> cmem \<Rightarrow> field_res" where
  "decode_pointer_field n env dec s wire_type it fc m = do {
     f \<leftarrow> it_fld env it;
     let ty = fld_type f;
     let func = call_decoder (PB_DECODERS n env dec (PB_LTYPE ty));
     if PB_HTYPE ty = PB_HTYPE_REQUIRED \<or> PB_HTYPE ty = PB_HTYPE_OPTIONAL \<or>
        PB_HTYPE ty = PB_HTYPE_ONEOF then do {
       m1 \<leftarrow> (if PB_LTYPE ty = PB_LTYPE_SUBMESSAGE then do {
                p \<leftarrow> load_ptr m (it_pData it);
                if p \<noteq> 0 then pb_release_single_field n env it m else Some m }
              else Some m);
       m2 \<leftarrow> (if PB_HTYPE ty = PB_HTYPE_ONEOF then store_u32 m1 (it_pSize it) (fld_tag f)
              else Some m1);
       if PB_LTYPE ty = PB_LTYPE_STRING \<or> PB_LTYPE ty = PB_LTYPE_BYTES
       then no_count fc (func s f (it_pData it) m2)
       else do {
         (ok, s3, m3) \<leftarrow> allocate_field s (it_pData it) (ucast (fld_data_size f)) 1 m2;
         if \<not> ok then Some (False, s3, fc, m3)
         else do {
           p \<leftarrow> load_ptr m3 (it_pData it);
           m4 \<leftarrow> initialize_pointer_field n env p f m3;
           p' \<leftarrow> load_ptr m4 (it_pData it);
           no_count fc (func s3 f p' m4) } } }
     else if PB_HTYPE ty = PB_HTYPE_REPEATED then
       (if wire_type = PB_WT_STRING \<and> PB_LTYPE ty \<le> PB_LTYPE_LAST_PACKABLE then do {
          allocated \<leftarrow> get_count m it fc;
          (ok, s1, sub, m1) \<leftarrow> pb_make_string_substream env s m;
          if \<not> ok then Some (False, s1, fc, m1)
          else do {
            (status, s2, sub2, fc2, m2) \<leftarrow>
              pointer_packed_loop (Suc (unat (is_bytes_left sub))) n env func f it
                (ucast allocated) s1 sub fc m1;
            (ok, s3, m3) \<leftarrow> pb_close_string_substream env s2 sub2 m2;
            if \<not> ok then Some (False, s3, fc2, m3) else Some (status, s3, fc2, m3) } }
        else do {
          sz \<leftarrow> get_count m it fc;
          if sz = PB_SIZE_MAX then no_count fc (is_return_error s ''too many array entries'' m)
          else do {
            (fc1, m1) \<leftarrow> set_count m it fc (sz + 1);
            (ok, s2, m2) \<leftarrow> allocate_field s (it_pData it) (ucast (fld_data_size f))
                             (ucast (sz + 1)) m1;
            if \<not> ok then Some (False, s2, fc1, m2)
            else do {
              base \<leftarrow> load_ptr m2 (it_pData it);
              sz2 \<leftarrow> get_count m2 it fc1;
              let pItem = item_addr base f (sz2 - 1);
              m3 \<leftarrow> initialize_pointer_field n env pItem f m2;
              no_count fc1 (func s2 f pItem m3) } } })
     else no_count fc (is_return_error s ''invalid field type'' m) }"

subsection \<open>Callback fields\<close>

primrec decode_callback_loop :: "nat \<Rightarrow> (pb_istream_t \<Rightarrow> cmem \<Rightarrow> istream_res) \<Rightarrow> pb_istream_t \<Rightarrow>
    cmem \<Rightarrow> istream_res" where
  "decode_callback_loop 0 cb sub m = None"
| "decode_callback_loop (Suc k) cb sub m = do {
     (ok, sub1, m1) \<leftarrow> cb sub m;
     if \<not> ok then Some (False, sub1, m1)
     else if is_bytes_left sub1 \<noteq> 0 then decode_callback_loop k cb sub1 m1
     else Some (True, sub1, m1) }"

text \<open>The local buffer a scalar value is copied to lives in memory while the callback runs, at
  addresses not used otherwise, and is gone afterwards.\<close>

definition with_local :: "byte list \<Rightarrow> cmem \<Rightarrow> addr \<times> cmem" where
  "with_local bs m = (mem_brk m, m\<lparr>mem_bytes := (\<lambda>a. if mem_brk m \<le> a \<and> a < mem_brk m + length bs
       then Some (bs ! (a - mem_brk m)) else mem_bytes m a),
     mem_brk := mem_brk m + max 1 (length bs)\<rparr>)"

definition drop_local :: "addr \<Rightarrow> nat \<Rightarrow> cmem \<Rightarrow> cmem" where
  "drop_local p n m = m\<lparr>mem_bytes := (\<lambda>a. if p \<le> a \<and> a < p + n then None else mem_bytes m a)\<rparr>"

definition decode_callback_field :: "nat \<Rightarrow> pb_env \<Rightarrow> pb_istream_t \<Rightarrow> pb_wire_type_t \<Rightarrow>
    pb_field_iter_t \<Rightarrow> cmem \<Rightarrow> istream_res" where
  "decode_callback_field n env s wire_type it m = do {
     f \<leftarrow> it_fld env it;
     let pCallback = it_pData it;
     fp \<leftarrow> (if pCallback = 0 then Some 0 else load_ptr m (cb_funcs pCallback));
     if fp = 0 then pb_skip_field env s wire_type m
     else if wire_type = PB_WT_STRING then do {
       (ok, s1, sub, m1) \<leftarrow> pb_make_string_substream env s m;
       if \<not> ok then Some (False, s1, m1)
       else do {
         (ok, sub2, m2) \<leftarrow>
           decode_callback_loop n (\<lambda>sub m. env_decode_cb env fp sub f (cb_arg pCallback) m) sub m1;
         if \<not> ok then is_return_error s1 ''callback failed'' m2
         else pb_close_string_substream env s1 sub2 m2 } }
     else do {
       (ok, bs, s1, m1) \<leftarrow> read_raw_value env s wire_type 10 m;
       if \<not> ok then Some (False, s1, m1)
       else do {
         let (p, m2) = with_local bs m1;
         let sub = pb_istream_from_buffer p (word_of_nat (length bs));
         (ok, sub3, m3) \<leftarrow> env_decode_cb env fp sub f (cb_arg pCallback) m2;
         Some (ok, s1, drop_local p (length bs) m3) } } }"

subsection \<open>Fields, unions and extensions\<close>

text \<open>\<open>pb_release_union_field\<close> moves the iterator to the old member and back.\<close>

definition pb_release_union_field :: "nat \<Rightarrow> pb_env \<Rightarrow> pb_istream_t \<Rightarrow> pb_field_iter_t \<Rightarrow> cmem \<Rightarrow>
    (bool \<times> pb_istream_t \<times> pb_field_iter_t \<times> cmem) option" where
  "pb_release_union_field n env s it m = do {
     old_tag \<leftarrow> load_u32 m (it_pSize it);
     f \<leftarrow> it_fld env it;
     let new_tag = fld_tag f;
     if old_tag = 0 then Some (True, s, it, m)
     else if old_tag = new_tag then Some (True, s, it, m)
     else do {
       (found, it1) \<leftarrow> pb_field_iter_find env it old_tag;
       if \<not> found then Some (False, is_set_error s ''invalid union tag'', it1, m)
       else do {
         m1 \<leftarrow> pb_release_single_field n env it1 m;
         (found, it2) \<leftarrow> pb_field_iter_find env it1 new_tag;
         if \<not> found then Some (False, is_set_error s ''iterator error'', it2, m1)
         else Some (True, s, it2, m1) } } }"

definition decode_field :: "nat \<Rightarrow> pb_env \<Rightarrow> msg_decoder \<Rightarrow> pb_istream_t \<Rightarrow> pb_wire_type_t \<Rightarrow>
    pb_field_iter_t \<Rightarrow> u32 \<Rightarrow> cmem \<Rightarrow>
    (bool \<times> pb_istream_t \<times> pb_field_iter_t \<times> u32 \<times> cmem) option" where
  "decode_field n env dec s wire_type it fc m = do {
     f0 \<leftarrow> it_fld env it;
     (ok, s1, it1, m1) \<leftarrow> (if PB_HTYPE (fld_type f0) = PB_HTYPE_ONEOF
                            then pb_release_union_field n env s it m
                            else Some (True, s, it, m));
     if \<not> ok then Some (False, s1, it1, fc, m1)
     else do {
       f \<leftarrow> it_fld env it1;
       (ok, s2, fc2, m2) \<leftarrow>
         (if PB_ATYPE (fld_type f) = PB_ATYPE_STATIC
          then decode_static_field n env dec s1 wire_type it1 fc m1
          else if PB_ATYPE (fld_type f) = PB_ATYPE_POINTER
          then decode_pointer_field n env dec s1 wire_type it1 fc m1
          else if PB_ATYPE (fld_type f) = PB_ATYPE_CALLBACK
          then no_count fc (decode_callback_field n env s1 wire_type it1 m1)
          else no_count fc (is_return_error s1 ''invalid field type'' m1));
       Some (ok, s2, it1, fc2, m2) } }"

definition default_extension_decoder :: "nat \<Rightarrow> pb_env \<Rightarrow> msg_decoder \<Rightarrow> pb_istream_t \<Rightarrow> addr \<Rightarrow> u32 \<Rightarrow>
    pb_wire_type_t \<Rightarrow> cmem \<Rightarrow> istream_res" where
  "default_extension_decoder n env dec s ext tag wire_type m = do {
     tp \<leftarrow> load_ptr m (ext_type ext);
     t \<leftarrow> env_ext_type env tp;
     f \<leftarrow> fld_at env (et_arg t) 0;
     if fld_tag f \<noteq> tag then Some (True, s, m)
     else do {
       it \<leftarrow> iter_from_extension env ext m;
       m1 \<leftarrow> store_bool m (ext_found ext) True;
       (ok, s2, _, _, m2) \<leftarrow> decode_field n env dec s wire_type it 0 m1;
       Some (ok, s2, m2) } }"

text \<open>The loop over the extension list, as long as nothing was read; \<open>pos\<close> is \<open>bytes_left\<close> before.\<close>

primrec decode_extension_loop :: "nat \<Rightarrow> nat \<Rightarrow> pb_env \<Rightarrow> msg_decoder \<Rightarrow> u64 \<Rightarrow> u32 \<Rightarrow>
    pb_wire_type_t \<Rightarrow> pb_istream_t \<Rightarrow> addr \<Rightarrow> cmem \<Rightarrow> istream_res" where
  "decode_extension_loop 0 n env dec pos tag wire_type s ext m = None"
| "decode_extension_loop (Suc k) n env dec pos tag wire_type s ext m =
     (if ext \<noteq> 0 \<and> pos = is_bytes_left s then do {
        tp \<leftarrow> load_ptr m (ext_type ext);
        t \<leftarrow> env_ext_type env tp;
        (status, s1, m1) \<leftarrow> (if et_decode t \<noteq> 0
           then env_ext_decode env (et_decode t) s ext tag wire_type m
           else default_extension_decoder n env dec s ext tag wire_type m);
        if \<not> status then Some (False, s1, m1)
        else do {
          nxt \<leftarrow> load_ptr m1 (ext_next ext);
          decode_extension_loop k n env dec pos tag wire_type s1 nxt m1 } }
      else Some (True, s, m))"

definition decode_extension :: "nat \<Rightarrow> pb_env \<Rightarrow> msg_decoder \<Rightarrow> pb_istream_t \<Rightarrow> u32 \<Rightarrow>
    pb_wire_type_t \<Rightarrow> pb_field_iter_t \<Rightarrow> cmem \<Rightarrow> istream_res" where
  "decode_extension n env dec s tag wire_type it m = do {
     ext \<leftarrow> load_ptr m (it_pData it);
     decode_extension_loop n n env dec (is_bytes_left s) tag wire_type s ext m }"

definition find_extension_field :: "pb_env \<Rightarrow> pb_field_iter_t \<Rightarrow> (bool \<times> pb_field_iter_t) option" where
  "find_extension_field env it =
     iter_search env (\<lambda>f. PB_LTYPE (fld_type f) = PB_LTYPE_EXTENSION)
       (it_pos it) (length (env_fields env (it_start it))) it"

subsection \<open>Messages\<close>

text \<open>The local variables of \<open>pb_decode_noinit\<close> that live across rounds of its loop.\<close>

record dec_locals =
  dl_fields_seen :: "u32 list"
  dl_extension_range_start :: u32
  dl_iter :: pb_field_iter_t
  dl_fixed_count_field :: "nat option"
  dl_fixed_count_size :: u32

datatype loop_ctl = Continue | Break | ReturnFalse

text \<open>\<open>fixed_count_field != NULL && fixed_count_size != fixed_count_field->array_size\<close>\<close>

definition fixed_count_wrong :: "pb_env \<Rightarrow> dec_locals \<Rightarrow> bool option" where
  "fixed_count_wrong env L = (case dl_fixed_count_field L of
     None \<Rightarrow> Some False
   | Some i \<Rightarrow> do {
       f \<leftarrow> fld_at env (it_start (dl_iter L)) i;
       Some (dl_fixed_count_size L \<noteq> fld_array_size f) })"

text \<open>The branch for a tag that is not in the descriptor array: extensions, then skip.\<close>

definition decode_unknown :: "nat \<Rightarrow> pb_env \<Rightarrow> msg_decoder \<Rightarrow> pb_istream_t \<Rightarrow> u32 \<Rightarrow> pb_wire_type_t \<Rightarrow>
    dec_locals \<Rightarrow> cmem \<Rightarrow> (loop_ctl \<times> pb_istream_t \<times> dec_locals \<times> cmem) option" where
  "decode_unknown n env dec s tag wire_type L m = do {
     (handled, ok, s1, L1, m1) \<leftarrow>
       (if tag \<ge> dl_extension_range_start L then do {
          (found, it) \<leftarrow> find_extension_field env (dl_iter L);
          f \<leftarrow> it_fld env it;
          let start = (if found then fld_tag f else - 1);
          let L1 = L\<lparr>dl_iter := it, dl_extension_range_start := start\<rparr>;
          if tag \<ge> start then do {
            (ok, s1, m1) \<leftarrow> decode_extension n env dec s tag wire_type it m;
            Some (is_bytes_left s \<noteq> is_bytes_left s1, ok, s1, L1, m1) }
          else Some (False, True, s, L1, m) }
        else Some (False, True, s, L, m));
     if \<not> ok then Some (ReturnFalse, s1, L1, m1)
     else if handled then Some (Continue, s1, L1, m1)
     else do {
       (ok, s2, m2) \<leftarrow> pb_skip_field env s1 wire_type m1;
       Some (if ok then Continue else ReturnFalse, s2, L1, m2) } }"

text \<open>The branch for a field found at the iterator: fixed-count and required bookkeeping, then the
  field itself.\<close>

definition mark_required :: "pb_field_t \<Rightarrow> dec_locals \<Rightarrow> dec_locals option" where
  "mark_required f L =
     (let i = unat (it_required_field_index (dl_iter L)) in
      if PB_HTYPE (fld_type f) = PB_HTYPE_REQUIRED \<and> i < PB_MAX_REQUIRED_FIELDS
      then if i div 32 < length (dl_fields_seen L)
           then Some (L\<lparr>dl_fields_seen := (dl_fields_seen L)[i div 32 :=
                  (dl_fields_seen L ! (i div 32)) OR push_bit (i mod 32) 1]\<rparr>)
           else None
      else Some L)"

definition decode_known :: "nat \<Rightarrow> pb_env \<Rightarrow> msg_decoder \<Rightarrow> pb_istream_t \<Rightarrow> pb_wire_type_t \<Rightarrow>
    dec_locals \<Rightarrow> cmem \<Rightarrow> (loop_ctl \<times> pb_istream_t \<times> dec_locals \<times> cmem) option" where
  "decode_known n env dec s wire_type L m = do {
     let it = dl_iter L;
     f \<leftarrow> it_fld env it;
     (ok, s1, L1) \<leftarrow>
       (if PB_HTYPE (fld_type f) = PB_HTYPE_REPEATED \<and> it_pSize it = it_pData it then
          (if dl_fixed_count_field L \<noteq> Some (it_pos it) then do {
             wrong \<leftarrow> fixed_count_wrong env L;
             if wrong then Some (False, is_set_error s ''wrong size for fixed count field'', L)
             else Some (True, s, L\<lparr>dl_fixed_count_field := Some (it_pos it),
                    dl_fixed_count_size := 0, dl_iter := it\<lparr>it_pSize := FIXED_COUNT_ADDR\<rparr>\<rparr>) }
           else Some (True, s, L\<lparr>dl_iter := it\<lparr>it_pSize := FIXED_COUNT_ADDR\<rparr>\<rparr>))
        else Some (True, s, L));
     if \<not> ok then Some (ReturnFalse, s1, L1, m)
     else do {
       L2 \<leftarrow> mark_required f L1;
       (ok, s3, it3, fc3, m3) \<leftarrow>
         decode_field n env dec s1 wire_type (dl_iter L2) (dl_fixed_count_size L2) m;
       Some (if ok then Continue else ReturnFalse, s3,
             L2\<lparr>dl_iter := it3, dl_fixed_count_size := fc3\<rparr>, m3) } }"

text \<open>One round of the main loop.\<close>

definition decode_round :: "nat \<Rightarrow> pb_env \<Rightarrow> msg_decoder \<Rightarrow> pb_istream_t \<Rightarrow> dec_locals \<Rightarrow> cmem \<Rightarrow>
    (loop_ctl \<times> pb_istream_t \<times> dec_locals \<times> cmem) option" where
  "decode_round n env dec s L m = do {
     (ok, wire_type, tag, eof, s1, m1) \<leftarrow> pb_decode_tag env s m;
     if \<not> ok then Some (if eof then Break else ReturnFalse, s1, L, m1)
     else do {
       (found, it) \<leftarrow> pb_field_iter_find env (dl_iter L) tag;
       let L1 = L\<lparr>dl_iter := it\<rparr>;
       if \<not> found then decode_unknown n env dec s1 tag wire_type L1 m1
       else decode_known n env dec s1 wire_type L1 m1 } }"

primrec decode_loop :: "nat \<Rightarrow> nat \<Rightarrow> pb_env \<Rightarrow> msg_decoder \<Rightarrow> pb_istream_t \<Rightarrow> dec_locals \<Rightarrow> cmem \<Rightarrow>
    (bool \<times> pb_istream_t \<times> dec_locals \<times> cmem) option" where
  "decode_loop 0 n env dec s L m = None"
| "decode_loop (Suc k) n env dec s L m =
     (if is_bytes_left s = 0 then Some (True, s, L, m)
      else do {
        (ctl, s1, L1, m1) \<leftarrow> decode_round n env dec s L m;
        (case ctl of
           Continue \<Rightarrow> decode_loop k n env dec s1 L1 m1
         | Break \<Rightarrow> Some (True, s1, L1, m1)
         | ReturnFalse \<Rightarrow> Some (False, s1, L1, m1)) })"

text \<open>The final check of the required fields: the loop to the end of the array, then the bits.\<close>

primrec count_required :: "pb_env \<Rightarrow> nat \<Rightarrow> pb_field_iter_t \<Rightarrow>
    (u32 \<times> pb_type_t \<times> pb_field_iter_t) option" where
  "count_required env 0 it = None"
| "count_required env (Suc k) it = do {
     f \<leftarrow> it_fld env it;
     (more, it') \<leftarrow> pb_field_iter_next env it;
     if more then count_required env k it'
     else Some (it_required_field_index it, fld_type f, it') }"

primrec whole_words_set :: "u32 list \<Rightarrow> nat \<Rightarrow> nat \<Rightarrow> bool option" where
  "whole_words_set seen 0 i = Some True"
| "whole_words_set seen (Suc k) i =
     (if i < length seen then
        if seen ! i \<noteq> - 1 then Some False else whole_words_set seen k (Suc i)
      else None)"

definition required_seen :: "u32 list \<Rightarrow> nat \<Rightarrow> bool option" where
  "required_seen seen req =
     (if req > 0 then do {
        whole \<leftarrow> whole_words_set seen (req div 32) 0;
        if \<not> whole then Some False
        else if req mod 32 \<noteq> 0 then
          (if req div 32 < length seen
           then Some (seen ! (req div 32) = drop_bit (32 - req mod 32) (- 1))
           else None)
        else Some True }
      else Some True)"

definition check_required :: "pb_env \<Rightarrow> dec_locals \<Rightarrow> bool option" where
  "check_required env L = do {
     (idx, last_type, it) \<leftarrow>
       count_required env (length (env_fields env (it_start (dl_iter L)))) (dl_iter L);
     f \<leftarrow> it_fld env it;
     let req = (if PB_HTYPE last_type = PB_HTYPE_REQUIRED \<and> fld_tag f \<noteq> 0 then idx + 1 else idx);
     required_seen (dl_fields_seen L) (min (unat req) PB_MAX_REQUIRED_FIELDS) }"

definition decode_noinit_step :: "nat \<Rightarrow> pb_env \<Rightarrow> msg_decoder \<Rightarrow> msg_decoder" where
  "decode_noinit_step n env dec s fs dest m = do {
     (_, it) \<leftarrow> pb_field_iter_begin env fs dest;
     (ok, s1, L, m1) \<leftarrow> decode_loop (Suc n) n env dec s
        \<lparr>dl_fields_seen = [0, 0], dl_extension_range_start = 0, dl_iter = it,
         dl_fixed_count_field = None, dl_fixed_count_size = 0\<rparr> m;
     if \<not> ok then Some (False, s1, m1)
     else do {
       wrong \<leftarrow> fixed_count_wrong env L;
       if wrong then is_return_error s1 ''wrong size for fixed count field'' m1
       else do {
         present \<leftarrow> check_required env L;
         if \<not> present then is_return_error s1 ''missing required field'' m1
         else Some (True, s1, m1) } } }"

primrec pb_decode_noinit :: "nat \<Rightarrow> pb_env \<Rightarrow> msg_decoder" where
  "pb_decode_noinit 0 env s fs dest m = None"
| "pb_decode_noinit (Suc n) env s fs dest m =
     decode_noinit_step n env (pb_decode_noinit n env) s fs dest m"

definition pb_decode :: "nat \<Rightarrow> pb_env \<Rightarrow> msg_decoder" where
  "pb_decode n env s fs dest m = decode_with n env (pb_decode_noinit n env) s fs dest m"

definition decode_delimited_with :: "pb_env \<Rightarrow> msg_decoder \<Rightarrow> msg_decoder" where
  "decode_delimited_with env dec s fs dest m = do {
     (ok, s1, sub, m1) \<leftarrow> pb_make_string_substream env s m;
     if \<not> ok then Some (False, s1, m1)
     else do {
       (status, sub2, m2) \<leftarrow> dec sub fs dest m1;
       (ok, s3, m3) \<leftarrow> pb_close_string_substream env s1 sub2 m2;
       if \<not> ok then Some (False, s3, m3) else Some (status, s3, m3) } }"

definition pb_decode_delimited_noinit :: "nat \<Rightarrow> pb_env \<Rightarrow> msg_decoder" where
  "pb_decode_delimited_noinit n env s fs dest m =
     decode_delimited_with env (pb_decode_noinit n env) s fs dest m"

definition pb_decode_delimited :: "nat \<Rightarrow> pb_env \<Rightarrow> msg_decoder" where
  "pb_decode_delimited n env s fs dest m =
     decode_delimited_with env (pb_decode n env) s fs dest m"

definition pb_decode_nullterminated :: "nat \<Rightarrow> pb_env \<Rightarrow> msg_decoder" where
  "pb_decode_nullterminated n env s fs dest m = pb_decode n env s fs dest m"

end
