(* ===== verification/Pb_Roundtrip.thy ===== *)
theory Pb_Roundtrip
  imports Pb_Serial Pb_Decode
begin

text \<open>
  Encoder and decoder together: what the encoder of a value writes, the decoder of the same type
  reads back. First the single values of the wire format (varint, zigzag varint, tag) through a
  buffer, then the field encoders and decoders of the two function tables.
\<close>

subsection \<open>Round trips of single values\<close>

text \<open>What an action that emits \<open>bs\<close> leaves in a buffer is what an input stream over the written
  part of the buffer sees.\<close>

lemma emitted_view:
  assumes act: "emits_all src act bs" and src: "mem_le src m"
    and ap: "\<forall>x \<in> {b ..< b + cap}. mem_bytes src x = None"
    and v: "valid m b cap" and cap: "cap < 2 ^ 64" "length bs \<le> cap"
  obtains s where "act (pb_ostream_from_buffer b (word_of_nat cap)) m = Some (True, s, upd_bytes m b bs)"
    and "is_view {b ..< b + length bs} (pb_istream_from_buffer b (os_bytes_written s)) (upd_bytes m b bs) bs"
proof -
  obtain s m' where e: "act (pb_ostream_from_buffer b (word_of_nat cap)) m = Some (True, s, m')"
    and sk': "sink m src (Some b) cap s m' ([] @ bs)"
    by (rule emitsE [OF emits_allD [OF act] sink_from_buffer [OF src v cap(1) ap]]) (use cap in simp)
  have u: "unat (word_of_nat (length bs) :: u64) = length bs"
    by (rule unat_of_nat_small) (use cap in simp)
  from sk' have m': "m' = upd_bytes m b bs" and bw: "os_bytes_written s = word_of_nat (length bs)"
    by (simp_all add: sink_def)
  have "is_view {b ..< b + length bs} (pb_istream_from_buffer b (os_bytes_written s)) m' bs"
    by (rule is_view_from_buffer) (simp_all add: m' bw u)
  with e m' show ?thesis by (intro that) auto
qed

definition no_mem :: "cmem \<Rightarrow> cmem" where
  "no_mem m = m\<lparr>mem_bytes := Map.empty\<rparr>"

lemma no_mem_simps [simp]: "mem_le (no_mem m) m'" "mem_bytes (no_mem m) x = None"
  by (simp_all add: no_mem_def mem_le_def)

lemma length_varint_u64_le: "length (varint_spec (unat (v :: u64))) \<le> 10"
  by (rule length_varint_spec) (use unat_u64_less [of v] in auto)

lemma sint_neg_bit: "sint (v :: u64) < 0 \<longleftrightarrow> bit v 63"
  using bit_last_iff [of v] by simp

lemma and_one_bit: "(v AND 1 \<noteq> 0) \<longleftrightarrow> bit (v :: u64) 0"
  by (simp add: and_one_eq odd_iff_mod_2_eq_one bit_0)

lemma bit_u64_beyond: "\<not> bit (v :: u64) 64"
  using bit_imp_le_length [of v 64] by auto

lemma bit_double: "bit (v * 2 :: u64) n \<longleftrightarrow> 0 < n \<and> n < 64 \<and> bit v (n - 1)"
proof -
  have "v * 2 = push_bit 1 v" by (simp add: push_bit_eq_mult)
  then show ?thesis by (auto simp only: bit_push_bit_iff possible_bit_word len_num0 len_num1 len_bit0)
qed

lemma unzigzag_zigzag: "unzigzag (zigzag v) = v"
proof (rule bit_word_eqI)
  fix n assume "n < LENGTH(64)"
  then consider "Suc n < 64" | "n = 63" by fastforce
  then show "bit (unzigzag (zigzag v)) n = bit v n"
    by cases (auto simp: unzigzag_def zigzag_def sint_neg_bit and_one_bit bit_not_iff
        bit_drop_bit_eq bit_u64_beyond bit_double)
qed

lemma zigzag_unzigzag: "zigzag (unzigzag v) = v"
proof (rule bit_word_eqI)
  fix n assume n: "n < LENGTH(64)"
  have sgn: "bit (unzigzag v) 63 \<longleftrightarrow> bit v 0"
    by (auto simp: unzigzag_def and_one_bit bit_not_iff bit_drop_bit_eq bit_u64_beyond)
  have "bit (push_bit 1 (unzigzag v)) n \<longleftrightarrow> 0 < n \<and> (bit v n \<noteq> bit v 0)"
    using n by (cases n) (auto simp: unzigzag_def and_one_bit bit_not_iff bit_double bit_drop_bit_eq)
  then have "bit (zigzag (unzigzag v)) n \<longleftrightarrow> (if bit v 0 then \<not> (0 < n \<and> (bit v n \<noteq> bit v 0))
      else 0 < n \<and> (bit v n \<noteq> bit v 0))"
    using n unfolding zigzag_def sint_neg_bit sgn by (cases "bit v 0") (simp_all only: if_True if_False bit_not_iff possible_bit_word simp_thms)
  then show "bit (zigzag (unzigzag v)) n = bit v n" by (cases "n = 0") auto
qed

text \<open>Encoding a varint into a buffer and the stream over the written bytes.\<close>

lemma encoded_varint:
  assumes "valid m b cap" and "10 \<le> cap" and "cap < 2 ^ 64"
  obtains s where "pb_encode_varint env (pb_ostream_from_buffer b (word_of_nat cap)) v m =
      Some (True, s, upd_bytes m b (varint_spec (unat v)))"
    and "is_view {b ..< b + length (varint_spec (unat v))}
      (pb_istream_from_buffer b (os_bytes_written s)) (upd_bytes m b (varint_spec (unat v)))
      (varint_spec (unat v))"
  by (rule emitted_view [OF emits_all_varint [of "no_mem m" env v], of m b cap])
    (use assms length_varint_u64_le [of v] in auto)

lemma view_at_end: "is_view foot s m bs \<Longrightarrow> is_bytes_left (is_adv s (length bs)) = 0"
  using is_view_adv [of foot s m bs "length bs"] by (simp add: is_view_def unat_eq_0)

lemma decode_whole_varint:
  assumes "is_view foot s m (varint_spec (unat (v :: u64)))"
  shows "pb_decode_varint env s m = Some (True, v, is_adv s (length (varint_spec (unat v))), m)"
  using src.decode_varint_spec [of foot s m "unat v" "[]"] assms unat_u64_less [of v] by simp

lemma decode_whole_svarint:
  "is_view foot s m (varint_spec (unat (zigzag v))) \<Longrightarrow>
   pb_decode_svarint env s m = Some (True, v, is_adv s (length (varint_spec (unat (zigzag v)))), m)"
  by (simp add: pb_decode_svarint_def decode_whole_varint unzigzag_zigzag)

text \<open>(C17) What \<open>pb_encode_varint\<close> writes into a buffer, \<open>pb_decode_varint\<close> reads back from the
  written part, for every 64-bit value, and nothing of it is left over.\<close>

theorem varint_roundtrip:
  assumes "valid m b cap" and "10 \<le> cap" and "cap < 2 ^ 64"
  shows "\<exists>s1 s2 m'. pb_encode_varint env (pb_ostream_from_buffer b (word_of_nat cap)) v m =
      Some (True, s1, m') \<and>
    pb_decode_varint env (pb_istream_from_buffer b (os_bytes_written s1)) m' = Some (True, v, s2, m') \<and>
    is_bytes_left s2 = 0"
  by (rule encoded_varint [OF assms, of env v]) (blast dest: decode_whole_varint view_at_end)

theorem varint_roundtrip_witness:
  "\<exists>s1 s2 m'. pb_encode_varint empty_env (pb_ostream_from_buffer 64 (word_of_nat 10)) 300
      (mem_at 64 (replicate 10 0)) = Some (True, s1, m') \<and>
    pb_decode_varint empty_env (pb_istream_from_buffer 64 (os_bytes_written s1)) m' =
      Some (True, 300, s2, m') \<and> is_bytes_left s2 = 0"
  by (rule varint_roundtrip) (auto intro: valid_mem_at)

text \<open>(C18) The same for the zigzag encoding of \<open>pb_encode_svarint\<close> and \<open>pb_decode_svarint\<close>, for every
  signed 64-bit value.\<close>

theorem svarint_roundtrip:
  assumes "valid m b cap" and "10 \<le> cap" and "cap < 2 ^ 64"
  shows "\<exists>s1 s2 m'. pb_encode_svarint env (pb_ostream_from_buffer b (word_of_nat cap)) v m =
      Some (True, s1, m') \<and>
    pb_decode_svarint env (pb_istream_from_buffer b (os_bytes_written s1)) m' = Some (True, v, s2, m') \<and>
    is_bytes_left s2 = 0"
  by (rule encoded_varint [OF assms, of env "zigzag v"])
    (unfold pb_encode_svarint_def, blast dest: decode_whole_svarint view_at_end)

theorem svarint_roundtrip_witness:
  "\<exists>s1 s2 m'. pb_encode_svarint empty_env (pb_ostream_from_buffer 64 (word_of_nat 10)) (- 2)
      (mem_at 64 (replicate 10 0)) = Some (True, s1, m') \<and>
    pb_decode_svarint empty_env (pb_istream_from_buffer 64 (os_bytes_written s1)) m' =
      Some (True, - 2, s2, m') \<and> is_bytes_left s2 = 0"
  by (rule svarint_roundtrip) (auto intro: valid_mem_at)

text \<open>\<open>pb_decode_tag\<close> reads back the wire type and the tag number that \<open>pb_encode_tag\<close> wrote, with
  the end-of-stream flag off.\<close>

theorem tag_roundtrip:
  assumes "valid m b cap" and "10 \<le> cap" and "cap < 2 ^ 64"
    and "0 < t" and "t < 2 ^ 29" and "wt < 8"
  shows "\<exists>s1 s2 m'. pb_encode_tag env (pb_ostream_from_buffer b (word_of_nat cap)) wt t m =
      Some (True, s1, m') \<and>
    pb_decode_tag env (pb_istream_from_buffer b (os_bytes_written s1)) m' =
      Some (True, wt, t, False, s2, m') \<and> is_bytes_left s2 = 0"
proof -
  let ?bs = "tag_spec (unat t) (unat wt)"
  have u: "unat wt < 8" "unat t < 2 ^ 29" "0 < unat t"
    using assms(4-6) by (simp_all add: word_less_nat_alt)
  then have len: "length ?bs \<le> 10" unfolding tag_spec_def by (intro length_varint_spec) auto
  obtain s1 where e: "pb_encode_tag env (pb_ostream_from_buffer b (word_of_nat cap)) wt t m =
      Some (True, s1, upd_bytes m b ?bs)"
    and view: "is_view {b ..< b + length ?bs} (pb_istream_from_buffer b (os_bytes_written s1))
      (upd_bytes m b ?bs) ?bs"
    by (rule emitted_view [OF emits_all_tag [OF u(1), of "no_mem m" env t], of m b cap])
      (use assms(1-3) len in auto)
  from src.decode_tag_spec [where rest = "[]" and env = env, unfolded append_Nil2, OF view] u
  show ?thesis using e view_at_end [OF view] by auto
qed

theorem tag_roundtrip_witness:
  "\<exists>s1 s2 m'. pb_encode_tag empty_env (pb_ostream_from_buffer 64 (word_of_nat 10)) 2 77
      (mem_at 64 (replicate 10 0)) = Some (True, s1, m') \<and>
    pb_decode_tag empty_env (pb_istream_from_buffer 64 (os_bytes_written s1)) m' =
      Some (True, 2, 77, False, s2, m') \<and> is_bytes_left s2 = 0"
  by (rule tag_roundtrip) (auto intro: valid_mem_at)

subsection \<open>Casts of the integer encoders and decoders\<close>

lemma fixed32_value_buffer: "length bs = 4 \<Longrightarrow> fixed32_buffer (fixed32_value bs) = bs"
proof -
  assume "length bs = 4"
  then obtain a b c d where bs: "bs = [a, b, c, d]"
    by (auto simp: numeral_eq_Suc length_Suc_conv)
  have "ucast (fixed32_value bs) = a" "ucast (drop_bit 8 (fixed32_value bs)) = b"
    "ucast (drop_bit 16 (fixed32_value bs)) = c" "ucast (drop_bit 24 (fixed32_value bs)) = d"
    by (auto simp: bs fixed32_value_def bit_eq_iff bit_simps dest: bit_imp_le_length)
  then show ?thesis
    by (simp add: fixed32_buffer_def byte_of_and_255 bs)
qed

lemma fixed64_value_buffer: "length bs = 8 \<Longrightarrow> fixed64_buffer (fixed64_value bs) = bs"
proof -
  assume "length bs = 8"
  then obtain a b c d e f g h where bs: "bs = [a, b, c, d, e, f, g, h]"
    by (auto simp: numeral_eq_Suc length_Suc_conv)
  have "ucast (fixed64_value bs) = a" "ucast (drop_bit 8 (fixed64_value bs)) = b"
    "ucast (drop_bit 16 (fixed64_value bs)) = c" "ucast (drop_bit 24 (fixed64_value bs)) = d"
    "ucast (drop_bit 32 (fixed64_value bs)) = e" "ucast (drop_bit 40 (fixed64_value bs)) = f"
    "ucast (drop_bit 48 (fixed64_value bs)) = g" "ucast (drop_bit 56 (fixed64_value bs)) = h"
    by (auto simp: bs fixed64_value_def bit_eq_iff bit_simps dest: bit_imp_le_length)
  then show ?thesis
    by (simp add: fixed64_buffer_def byte_of_and_255 bs)
qed


lemma ucast_scast_id:
  assumes "LENGTH('a::len) \<le> LENGTH('b::len)"
  shows "ucast (scast (x :: 'a word) :: 'b word) = x"
proof (rule bit_word_eqI)
  fix n assume n: "n < LENGTH('a)"
  then have "min (LENGTH('a) - Suc 0) n = n" by simp
  with n assms show "bit (ucast (scast x :: 'b word) :: 'a word) n = bit x n"
    by (simp add: bit_simps)
qed

lemma ucast_scast_u64 [simp]:
  "ucast (scast (x :: 8 word) :: u64) = x" "ucast (scast (y :: 16 word) :: u64) = y"
  "ucast (scast (z :: 32 word) :: u64) = z"
  by (simp_all add: ucast_scast_id)

lemma scast_via_32 [simp]:
  "scast (ucast (scast (x :: 8 word) :: u64) :: 32 word) = (scast x :: u64)"
  "scast (ucast (scast (y :: 16 word) :: u64) :: 32 word) = (scast y :: u64)"
  by (auto simp: bit_eq_iff bit_simps min_def)

lemma scast_self [simp]: "(scast (x :: u64) :: u64) = x"
  by (simp add: bit_eq_iff bit_simps min_def)

lemma ucast_of_nat_u64 [simp]:
  "ucast (word_of_nat n :: u64) = (word_of_nat n :: 8 word)"
  "ucast (word_of_nat n :: u64) = (word_of_nat n :: 16 word)"
  "ucast (word_of_nat n :: u64) = (word_of_nat n :: 32 word)"
  by (auto simp: bit_eq_iff bit_simps)

lemma store_loaded:
  assumes "load_bytes src p k = Some vs" and "(256 :: nat) ^ k \<le> 2 ^ LENGTH('a::len)" and "valid m dest k"
  shows "store_nat m dest k (unat (word_of_nat (le_nat vs) :: 'a word)) = Some (upd_bytes m dest vs)"
proof -
  have len: "length vs = k" using assms(1) by (rule load_bytes_length)
  have "unat (word_of_nat (le_nat vs) :: 'a word) = le_nat vs"
    using le_nat_less [of vs] assms(2) by (intro unat_of_nat_small) (simp add: len)
  then show ?thesis using assms(3) by (simp add: store_nat_def le_bytes_le_nat len store_bytes_eq)
qed

lemma store_signed_loaded:
  assumes "load_signed src p ds = Some (Some v)" and "load_bytes src p (unat ds) = Some vs"
    and "valid m dest (unat ds)"
  shows "store_signed m dest ds v = Some (Some (upd_bytes m dest vs), v)"
    and "(if ds = 8 then v else scast (ucast v :: 32 word)) = v"
proof -
  from assms(1) consider "ds = 1" | "ds = 2" | "ds = 4" | "ds = 8"
    by (auto simp: load_signed_def split: if_splits)
  then show "store_signed m dest ds v = Some (Some (upd_bytes m dest vs), v)"
    using assms store_loaded [where 'a = 8, OF assms(2) _ assms(3)] store_loaded [where 'a = 16, OF assms(2) _ assms(3)]
      store_loaded [where 'a = 32, OF assms(2) _ assms(3)] store_loaded [where 'a = 64, OF assms(2) _ assms(3)]
    by cases (auto simp: load_signed_def store_signed_def load_nat_def)
  from assms(1) show "(if ds = 8 then v else scast (ucast v :: 32 word)) = v"
    by (auto simp: load_signed_def split: if_splits)
qed

lemma ucast_loaded:
  assumes "load_bytes src p k = Some vs" and "(256 :: nat) ^ k \<le> 2 ^ LENGTH('a::len)"
  shows "(ucast (word_of_nat (le_nat vs) :: 'a word) :: u64) = word_of_nat (le_nat vs)"
proof -
  have "length vs = k" using assms(1) by (rule load_bytes_length)
  then have "unat (word_of_nat (le_nat vs) :: 'a word) = le_nat vs"
    using le_nat_less [of vs] assms(2) by (intro unat_of_nat_small) simp
  then show ?thesis by (metis word_of_nat_eq_0_iff of_nat_unat ucast_eq)
qed

lemma ucast_ucast_byte [simp]: "(ucast (ucast (x :: byte) :: u64) :: byte) = x"
  by (simp add: bit_eq_iff bit_simps)

lemma store_unsigned_loaded:
  assumes "load_unsigned src p ds = Some (Some v)" and "load_bytes src p (unat ds) = Some vs"
    and "valid m dest (unat ds)"
  shows "store_unsigned m dest ds v = Some (Some (upd_bytes m dest vs), v)"
proof -
  from assms(1) consider "ds = 1" | "ds = 2" | "ds = 4" | "ds = 8"
    by (auto simp: load_unsigned_def split: if_splits)
  then show ?thesis
    using assms store_loaded [where 'a = 8, OF assms(2) _ assms(3)] store_loaded [where 'a = 16, OF assms(2) _ assms(3)]
      store_loaded [where 'a = 32, OF assms(2) _ assms(3)] store_loaded [where 'a = 64, OF assms(2) _ assms(3)]
      ucast_loaded [where 'a = 16, OF assms(2)] ucast_loaded [where 'a = 32, OF assms(2)]
    by cases (auto simp: load_unsigned_def store_unsigned_def load_nat_def)
qed

end
