(* ===== verification/Base64.thy ===== *)
theory Base64
  imports Pb_Memory
begin

text \<open>
  \<^verbatim>\<open>third_party/SocketRocket/fbase64.c\<close>: the two conversions the web socket handshake uses.
  \<open>f_b64_ntop\<close> writes the base-64 text of a block of memory as a C string, \<open>f_b64_pton\<close> reads such a
  string back. Both return an \<open>int\<close>, -1 on error, and both are given the size of the target.
  \<open>isspace\<close> is that of the C locale.
\<close>

definition Base64_table :: "byte list" where
  "Base64_table = map of_char ''ABCDEFGHIJKLMNOPQRSTUVWXYZabcdefghijklmnopqrstuvwxyz0123456789+/'' @ [0]"

definition Pad64 :: byte where "Pad64 = 61"

text \<open>Indexing the table (the terminating zero is its last element).\<close>

definition b64_char :: "byte \<Rightarrow> byte option" where
  "b64_char i = (if unat i < length Base64_table then Some (Base64_table ! unat i) else None)"

subsection \<open>Encoding\<close>

definition b64_out0 :: "byte \<Rightarrow> byte" where
  "b64_out0 i0 = drop_bit 2 i0"

definition b64_out1 :: "byte \<Rightarrow> byte \<Rightarrow> byte" where
  "b64_out1 i0 i1 = push_bit 4 (i0 AND 0x03) + drop_bit 4 i1"

definition b64_out2 :: "byte \<Rightarrow> byte \<Rightarrow> byte" where
  "b64_out2 i1 i2 = push_bit 2 (i1 AND 0x0F) + drop_bit 6 i2"

definition b64_out3 :: "byte \<Rightarrow> byte" where
  "b64_out3 i2 = i2 AND 0x3F"

definition b64_put :: "addr \<Rightarrow> u64 \<Rightarrow> byte option \<Rightarrow> cmem \<Rightarrow> cmem option" where
  "b64_put target datalength c m = do {
     b \<leftarrow> c;
     store8 m (target + unat datalength) b }"

text \<open>The loop over whole groups of three bytes: whether it ran to its end (false: the target is too
  small, return -1), then \<open>src\<close>, \<open>srclength\<close>, \<open>datalength\<close> and the memory.\<close>

function ntop_groups :: "addr \<Rightarrow> u64 \<Rightarrow> addr \<Rightarrow> u64 \<Rightarrow> u64 \<Rightarrow> cmem \<Rightarrow>
    (bool \<times> addr \<times> u64 \<times> u64 \<times> cmem) option" where
  "ntop_groups src srclength target targsize datalength m =
     (if 2 < srclength then do {
        i0 \<leftarrow> load8 m src;
        i1 \<leftarrow> load8 m (src + 1);
        i2 \<leftarrow> load8 m (src + 2);
        if datalength + 4 > targsize
        then Some (False, src + 3, srclength - 3, datalength, m)
        else do {
          m1 \<leftarrow> b64_put target datalength (b64_char (b64_out0 i0)) m;
          m2 \<leftarrow> b64_put target (datalength + 1) (b64_char (b64_out1 i0 i1)) m1;
          m3 \<leftarrow> b64_put target (datalength + 2) (b64_char (b64_out2 i1 i2)) m2;
          m4 \<leftarrow> b64_put target (datalength + 3) (b64_char (b64_out3 i2)) m3;
          ntop_groups (src + 3) (srclength - 3) target targsize (datalength + 4) m4 } }
      else Some (True, src, srclength, datalength, m))"
  by pat_completeness auto
termination
proof (relation "measure (\<lambda>(src, srclength, target, targsize, datalength, m). unat srclength)")
  show "wf (measure (\<lambda>(src :: addr, srclength :: u64, target :: addr, targsize :: u64,
      datalength :: u64, m :: cmem). unat srclength))" by simp
next
  fix src target :: addr and targsize datalength srclength :: u64 and m m4 :: cmem
  assume "2 < srclength"
  then have le: "3 \<le> srclength" by (metis inc_le numeral_2_eq_2 one_add_one one_plus_numeral semiring_norm(3) add.commute)
  then have "unat (srclength - 3) = unat srclength - unat (3 :: u64)" by (rule unat_sub)
  moreover have "unat (3 :: u64) \<le> unat srclength" using le by (simp add: word_le_nat_alt)
  ultimately show "((src + 3, srclength - 3, target, targsize, datalength + 4, m4),
      src, srclength, target, targsize, datalength, m)
      \<in> measure (\<lambda>(src, srclength, target, targsize, datalength, m). unat srclength)"
    by simp
qed

declare ntop_groups.simps [simp del]

text \<open>The padding: one or two bytes are left. The bytes not read are zero.\<close>

definition ntop_tail :: "addr \<Rightarrow> u64 \<Rightarrow> addr \<Rightarrow> u64 \<Rightarrow> u64 \<Rightarrow> cmem \<Rightarrow> (bool \<times> u64 \<times> cmem) option" where
  "ntop_tail src srclength target targsize datalength m =
     (if srclength \<noteq> 0 then do {
        i0 \<leftarrow> load8 m src;
        i1 \<leftarrow> (if srclength = 1 then Some 0 else load8 m (src + 1));
        if datalength + 4 > targsize then Some (False, datalength, m)
        else do {
          m1 \<leftarrow> b64_put target datalength (b64_char (b64_out0 i0)) m;
          m2 \<leftarrow> b64_put target (datalength + 1) (b64_char (b64_out1 i0 i1)) m1;
          m3 \<leftarrow> b64_put target (datalength + 2)
                 (if srclength = 1 then Some Pad64 else b64_char (b64_out2 i1 0)) m2;
          m4 \<leftarrow> b64_put target (datalength + 3) (Some Pad64) m3;
          Some (True, datalength + 4, m4) } }
      else Some (True, datalength, m))"

definition f_b64_ntop :: "addr \<Rightarrow> u64 \<Rightarrow> addr \<Rightarrow> u64 \<Rightarrow> cmem \<Rightarrow> (int \<times> cmem) option" where
  "f_b64_ntop src srclength target targsize m = do {
     (ok, src1, srclength1, datalength, m1) \<leftarrow> ntop_groups src srclength target targsize 0 m;
     if \<not> ok then Some (- 1, m1)
     else do {
       (ok, datalength, m2) \<leftarrow> ntop_tail src1 srclength1 target targsize datalength m1;
       if \<not> ok then Some (- 1, m2)
       else if datalength \<ge> targsize then Some (- 1, m2)
       else do {
         m3 \<leftarrow> store8 m2 (target + unat datalength) 0;
         Some (sint (ucast datalength :: 32 word), m3) } } }"

subsection \<open>Decoding\<close>

definition isspace :: "byte \<Rightarrow> bool" where
  "isspace c \<longleftrightarrow> c = 32 \<or> (9 \<le> c \<and> c \<le> 13)"

text \<open>\<open>strchr(Base64, ch)\<close> as the distance from the start of the table.\<close>

primrec strchr :: "byte list \<Rightarrow> byte \<Rightarrow> nat option" where
  "strchr [] c = None"
| "strchr (x # xs) c = (if x = c then Some 0 else map_option Suc (strchr xs c))"

text \<open>The switch on \<open>state\<close> for one character with table index \<open>pos\<close>. False: the target is full,
  return -1.\<close>

definition pton_step :: "addr \<Rightarrow> u64 \<Rightarrow> nat \<Rightarrow> u32 \<Rightarrow> u32 \<Rightarrow> cmem \<Rightarrow>
    (bool \<times> u32 \<times> u32 \<times> cmem) option" where
  "pton_step target targsize pos state tarindex m = (let v = word_of_nat pos :: byte in
     if state = 0 then
       (if target = 0 then Some (True, 1, tarindex, m)
        else if ucast tarindex \<ge> targsize then Some (False, state, tarindex, m)
        else do {
          m1 \<leftarrow> store8 m (target + unat tarindex) (push_bit 2 v);
          Some (True, 1, tarindex, m1) })
     else if state = 1 then
       (if target = 0 then Some (True, 2, tarindex + 1, m)
        else if ucast (tarindex + 1) \<ge> targsize then Some (False, state, tarindex, m)
        else do {
          c \<leftarrow> load8 m (target + unat tarindex);
          m1 \<leftarrow> store8 m (target + unat tarindex) (c OR drop_bit 4 v);
          m2 \<leftarrow> store8 m1 (target + unat (tarindex + 1)) (push_bit 4 (v AND 0x0F));
          Some (True, 2, tarindex + 1, m2) })
     else if state = 2 then
       (if target = 0 then Some (True, 3, tarindex + 1, m)
        else if ucast (tarindex + 1) \<ge> targsize then Some (False, state, tarindex, m)
        else do {
          c \<leftarrow> load8 m (target + unat tarindex);
          m1 \<leftarrow> store8 m (target + unat tarindex) (c OR drop_bit 2 v);
          m2 \<leftarrow> store8 m1 (target + unat (tarindex + 1)) (push_bit 6 (v AND 0x03));
          Some (True, 3, tarindex + 1, m2) })
     else if state = 3 then
       (if target = 0 then Some (True, 0, tarindex + 1, m)
        else if ucast tarindex \<ge> targsize then Some (False, state, tarindex, m)
        else do {
          c \<leftarrow> load8 m (target + unat tarindex);
          m1 \<leftarrow> store8 m (target + unat tarindex) (c OR v);
          Some (True, 0, tarindex + 1, m1) })
     else Some (True, state, tarindex, m))"

text \<open>The main loop. The result is whether to go on (false: return -1), the last character, \<open>src\<close>,
  \<open>state\<close>, \<open>tarindex\<close> and the memory. A text without terminating zero runs out of memory.\<close>

partial_function (option) pton_loop :: "addr \<Rightarrow> u64 \<Rightarrow> addr \<Rightarrow> u32 \<Rightarrow> u32 \<Rightarrow> cmem \<Rightarrow>
    (bool \<times> byte \<times> addr \<times> u32 \<times> u32 \<times> cmem) option" where
  "pton_loop target targsize src state tarindex m = do {
     ch \<leftarrow> load8 m src;
     if ch = 0 then Some (True, ch, src + 1, state, tarindex, m)
     else if isspace ch then pton_loop target targsize (src + 1) state tarindex m
     else if ch = Pad64 then Some (True, ch, src + 1, state, tarindex, m)
     else (case strchr Base64_table ch of
             None \<Rightarrow> Some (False, ch, src + 1, state, tarindex, m)
           | Some pos \<Rightarrow> do {
               (ok, state1, tarindex1, m1) \<leftarrow> pton_step target targsize pos state tarindex m;
               if \<not> ok then Some (False, ch, src + 1, state1, tarindex1, m1)
               else pton_loop target targsize (src + 1) state1 tarindex1 m1 }) }"

declare pton_loop.simps [code]

text \<open>The two loops that skip white space after a pad character: they stop at the terminating zero or
  at the first other character, which is returned with \<open>src\<close>.\<close>

partial_function (option) skip_spaces :: "byte \<Rightarrow> addr \<Rightarrow> cmem \<Rightarrow> (byte \<times> addr) option" where
  "skip_spaces ch src m =
     (if ch = 0 \<or> \<not> isspace ch then Some (ch, src)
      else do { ch1 \<leftarrow> load8 m src; skip_spaces ch1 (src + 1) m })"

declare skip_spaces.simps [code]

text \<open>Case 3 of the switch after the loop: nothing but white space may follow, and the bits past the
  last full byte must be zero.\<close>

definition pton_finish :: "addr \<Rightarrow> byte \<Rightarrow> addr \<Rightarrow> u32 \<Rightarrow> cmem \<Rightarrow> int option" where
  "pton_finish target ch src tarindex m = do {
     (ch1, _) \<leftarrow> skip_spaces ch src m;
     if ch1 \<noteq> 0 then Some (- 1)
     else if target = 0 then Some (sint tarindex)
     else do {
       c \<leftarrow> load8 m (target + unat tarindex);
       Some (if c \<noteq> 0 then - 1 else sint tarindex) } }"

definition f_b64_pton :: "addr \<Rightarrow> addr \<Rightarrow> u64 \<Rightarrow> cmem \<Rightarrow> (int \<times> cmem) option" where
  "f_b64_pton src target targsize m = do {
     (ok, ch, src1, state, tarindex, m1) \<leftarrow> pton_loop target targsize src 0 0 m;
     if \<not> ok then Some (- 1, m1)
     else if ch = Pad64 then do {
       ch1 \<leftarrow> load8 m1 src1;
       if state = 0 \<or> state = 1 then Some (- 1, m1)
       else if state = 2 then do {
         (ch2, src2) \<leftarrow> skip_spaces ch1 (src1 + 1) m1;
         if ch2 \<noteq> Pad64 then Some (- 1, m1)
         else do {
           ch3 \<leftarrow> load8 m1 src2;
           r \<leftarrow> pton_finish target ch3 (src2 + 1) tarindex m1;
           Some (r, m1) } }
       else if state = 3 then do {
         r \<leftarrow> pton_finish target ch1 (src1 + 1) tarindex m1;
         Some (r, m1) }
       else Some (sint tarindex, m1) }
     else if state \<noteq> 0 then Some (- 1, m1)
     else Some (sint tarindex, m1) }"

subsection \<open>Specification\<close>

text \<open>RFC 1521: three bytes are four digits of six bits; one or two bytes left over are filled with
  zero bits and padded.\<close>

definition b64_digit :: "nat \<Rightarrow> byte" where
  "b64_digit n = Base64_table ! n"

fun b64_spec :: "byte list \<Rightarrow> byte list" where
  "b64_spec [] = []"
| "b64_spec [a] = [b64_digit (unat a div 4), b64_digit (unat a mod 4 * 16), Pad64, Pad64]"
| "b64_spec [a, b] = [b64_digit (unat a div 4), b64_digit (unat a mod 4 * 16 + unat b div 16),
     b64_digit (unat b mod 16 * 4), Pad64]"
| "b64_spec (a # b # c # rest) =
     [b64_digit (unat a div 4), b64_digit (unat a mod 4 * 16 + unat b div 16),
      b64_digit (unat b mod 16 * 4 + unat c div 64), b64_digit (unat c mod 64)] @ b64_spec rest"

lemma length_b64_spec: "length (b64_spec bs) = 4 * ((length bs + 2) div 3)"
proof (induction bs rule: b64_spec.induct)
  case (4 a b c rest)
  have "(length (a # b # c # rest) + 2) div 3 = (length rest + 2) div 3 + 1" by simp
  with 4 show ?case by simp
qed simp_all

lemma length_Base64_table [simp]: "length Base64_table = 65"
  by (simp add: Base64_table_def)

lemma and_mask_mod:
  "unat ((x :: byte) AND 0x03) = unat x mod 4" "unat (x AND 0x0F) = unat x mod 16"
  "unat (x AND 0x3F) = unat x mod 64"
proof -
  have "x AND 0x03 = take_bit 2 x" "x AND 0x0F = take_bit 4 x" "x AND 0x3F = take_bit 6 x"
    by (simp_all add: take_bit_eq_mask mask_eq_exp_minus_1)
  then show "unat (x AND 0x03) = unat x mod 4" "unat (x AND 0x0F) = unat x mod 16"
    "unat (x AND 0x3F) = unat x mod 64"
    by (simp_all add: take_bit_eq_mod unat_mod_distrib)
qed

lemma unat_b64_out:
  "unat (b64_out0 a) = unat a div 4"
  "unat (b64_out1 a b) = unat a mod 4 * 16 + unat b div 16"
  "unat (b64_out2 b c) = unat b mod 16 * 4 + unat c div 64"
  "unat (b64_out3 c) = unat c mod 64"
proof -
  have d: "unat b div 16 < 16" "unat c div 64 < 4"
    using unat_byte_less [of b] unat_byte_less [of c] by simp_all
  have p: "unat (push_bit 4 (a AND 0x03)) = unat a mod 4 * 16"
    "unat (push_bit 2 (b AND 0x0F)) = unat b mod 16 * 4"
    by (simp_all add: push_bit_eq_mult unat_word_ariths and_mask_mod)
  have m: "unat a mod 4 < 4" "unat b mod 16 < 16" by simp_all
  show "unat (b64_out0 a) = unat a div 4"
    by (simp add: b64_out0_def drop_bit_eq_div unat_div_distrib)
  show "unat (b64_out1 a b) = unat a mod 4 * 16 + unat b div 16"
    using d m unfolding b64_out1_def unat_word_ariths p by (simp add: drop_bit_eq_div unat_div_distrib)
  show "unat (b64_out2 b c) = unat b mod 16 * 4 + unat c div 64"
    using d m unfolding b64_out2_def unat_word_ariths p by (simp add: drop_bit_eq_div unat_div_distrib)
  show "unat (b64_out3 c) = unat c mod 64"
    by (simp add: b64_out3_def and_mask_mod)
qed

lemma b64_char_out:
  "b64_char (b64_out0 a) = Some (b64_digit (unat a div 4))"
  "b64_char (b64_out1 a b) = Some (b64_digit (unat a mod 4 * 16 + unat b div 16))"
  "b64_char (b64_out2 b c) = Some (b64_digit (unat b mod 16 * 4 + unat c div 64))"
  "b64_char (b64_out3 c) = Some (b64_digit (unat c mod 64))"
proof -
  have "unat a div 4 < 64" "unat b div 16 < 16" "unat c div 64 < 4"
    using unat_byte_less [of a] unat_byte_less [of b] unat_byte_less [of c] by simp_all
  moreover have "unat a mod 4 < 4" "unat b mod 16 < 16" "unat c mod 64 < 64" by simp_all
  ultimately show "b64_char (b64_out0 a) = Some (b64_digit (unat a div 4))"
    "b64_char (b64_out1 a b) = Some (b64_digit (unat a mod 4 * 16 + unat b div 16))"
    "b64_char (b64_out2 b c) = Some (b64_digit (unat b mod 16 * 4 + unat c div 64))"
    "b64_char (b64_out3 c) = Some (b64_digit (unat c mod 64))"
    by (simp_all add: b64_char_def unat_b64_out b64_digit_def)
qed

lemma put4:
  assumes "unat d + 4 \<le> unat (ts :: u64)" and "valid m (t + unat d) 4"
  shows "(do {
      m1 \<leftarrow> b64_put t d (Some a) m;
      m2 \<leftarrow> b64_put t (d + 1) (Some b) m1;
      m3 \<leftarrow> b64_put t (d + 2) (Some c) m2;
      m4 \<leftarrow> b64_put t (d + 3) (Some e) m3;
      g m4 }) = g (upd_bytes m (t + unat d) [a, b, c, e])"
proof -
  have u: "unat (d + 1) = unat d + 1" "unat (d + 2) = unat d + 2" "unat (d + 3) = unat d + 3"
    using assms(1) unat_u64_less [of ts] by (simp_all add: unat_word_ariths)
  have "store_bytes m (t + unat d) [a, b, c, e] = Some (upd_bytes m (t + unat d) [a, b, c, e])"
    using assms(2) by (simp add: store_bytes_eq eval_nat_numeral del: store_bytes.simps)
  then show ?thesis
    by (auto simp: b64_put_def u numeral_2_eq_2 numeral_3_eq_3)
qed


text \<open>The group loop writes whole groups while they fit.\<close>

lemma ntop_groups_stop:
  assumes "length bs < 3" and "load_bytes m src (length bs) = Some bs" and "unat sl = length bs"
    and "unat dl \<le> unat ts"
  shows "\<exists>ok src' sl' dl' gs rest. ntop_groups src sl target ts dl m =
      Some (ok, src', sl', dl', upd_bytes m (target + unat dl) gs) \<and>
    b64_spec bs = gs @ b64_spec rest \<and> unat dl' = unat dl + length gs \<and> unat dl' \<le> unat ts \<and>
    (if ok then length rest < 3 \<and> unat sl' = length rest \<and>
       load_bytes m src' (length rest) = Some rest \<and> src' + length rest = src + length bs \<and> src \<le> src'
     else 3 \<le> length rest \<and> unat ts < unat dl' + 4)"
proof -
  have "\<not> 2 < sl" using assms(1,3) by (simp add: word_less_nat_alt)
  then have "ntop_groups src sl target ts dl m =
      Some (True, src, sl, dl, upd_bytes m (target + unat dl) [])"
    by (subst ntop_groups.simps) simp
  with assms show ?thesis
    by (intro exI [of _ True] exI [of _ src] exI [of _ sl] exI [of _ dl] exI [of _ "[]"] exI [of _ bs]) simp
qed

lemma ntop_groups_spec:
  assumes "load_bytes m src (length bs) = Some bs" and "unat sl = length bs"
    and "unat dl \<le> unat ts" and "unat ts + 4 < 2 ^ 64" and "valid m target (unat ts)"
    and "{target ..< target + unat ts} \<inter> {src ..< src + length bs} = {}"
  shows "\<exists>ok src' sl' dl' gs rest. ntop_groups src sl target ts dl m =
      Some (ok, src', sl', dl', upd_bytes m (target + unat dl) gs) \<and>
    b64_spec bs = gs @ b64_spec rest \<and> unat dl' = unat dl + length gs \<and> unat dl' \<le> unat ts \<and>
    (if ok then length rest < 3 \<and> unat sl' = length rest \<and>
       load_bytes m src' (length rest) = Some rest \<and> src' + length rest = src + length bs \<and> src \<le> src'
     else 3 \<le> length rest \<and> unat ts < unat dl' + 4)"
  using assms
proof (induction bs arbitrary: src sl dl m rule: b64_spec.induct)
  case (4 a b c rest)
  note prems = "4.prems"
  let ?ds = "[b64_digit (unat a div 4), b64_digit (unat a mod 4 * 16 + unat b div 16),
      b64_digit (unat b mod 16 * 4 + unat c div 64), b64_digit (unat c mod 64)]"
  let ?m = "upd_bytes m (target + unat dl) ?ds"
  have ld: "load8 m src = Some a" "load8 m (src + 1) = Some b" "load8 m (src + 2) = Some c"
    and rest: "load_bytes m (src + 3) (length rest) = Some rest"
    using prems(1) by (auto simp: eval_nat_numeral)
  have sl: "2 < sl" "unat (sl - 3) = length rest"
    using prems(2) by (simp_all add: word_less_nat_alt unat_sub word_le_nat_alt)
  have u4: "unat (dl + 4) = unat dl + 4"
    using prems(3,4) by (simp add: unat_word_ariths)
  then have cmp: "dl + 4 > ts \<longleftrightarrow> unat ts < unat dl + 4" by (simp add: word_less_nat_alt)
  note step = ntop_groups.simps [of src sl target ts dl m]
  show ?case
  proof (cases "unat ts < unat dl + 4")
    case True
    then have "ntop_groups src sl target ts dl m =
        Some (False, src + 3, sl - 3, dl, upd_bytes m (target + unat dl) [])"
      unfolding step by (simp add: sl ld [simplified] cmp)
    then show ?thesis
      using True prems(3) by (intro exI [of _ "[]"] exI [of _ "a # b # c # rest"] exI conjI) auto
  next
    case False
    have v4: "valid m (target + unat dl) 4" using prems(5) False by (auto intro: valid_sub)
    have l4: "length ?ds = 4" by simp
    have v: "valid ?m target (unat ts)"
      by (subst valid_upd_bytes) (simp_all only: l4 v4 prems(5))
    have "load_bytes ?m (src + 3) (length rest) = load_bytes m (src + 3) (length rest)"
      by (rule load_bytes_cong) (use prems(6) False in \<open>auto simp: mem_bytes_upd_bytes disjoint_iff\<close>)
    then have l': "load_bytes ?m (src + 3) (length rest) = Some rest" using rest by simp
    have eq: "ntop_groups src sl target ts dl m = ntop_groups (src + 3) (sl - 3) target ts (dl + 4) ?m"
      unfolding step using False v4 by (simp add: sl ld [simplified] cmp b64_char_out put4 [where ts = ts])
    have "{target ..< target + unat ts} \<inter> {src + 3 ..< src + 3 + length rest} = {}"
      using prems(6) by (auto simp: disjoint_iff)
    moreover have "unat (dl + 4) \<le> unat ts" using False u4 by simp
    ultimately
    obtain ok src' sl' dl' gs rest' where IH: "ntop_groups (src + 3) (sl - 3) target ts (dl + 4) ?m =
        Some (ok, src', sl', dl', upd_bytes ?m (target + unat (dl + 4)) gs)"
      "b64_spec rest = gs @ b64_spec rest'" "unat dl' = unat (dl + 4) + length gs" "unat dl' \<le> unat ts"
      "if ok then length rest' < 3 \<and> unat sl' = length rest' \<and>
         load_bytes ?m src' (length rest') = Some rest' \<and> src' + length rest' = src + 3 + length rest \<and>
         src + 3 \<le> src'
       else 3 \<le> length rest' \<and> unat ts < unat dl' + 4"
      using "4.IH" [OF l' sl(2) _ prems(4) v] by blast
    have "upd_bytes ?m (target + unat (dl + 4)) gs = upd_bytes m (target + unat dl) (?ds @ gs)"
      using upd_bytes_append [of m "target + unat dl" ?ds gs] by (simp only: l4 u4 add.assoc)
    moreover have "load_bytes ?m src' (length rest') = load_bytes m src' (length rest')" if ok
      by (rule load_bytes_cong) (use prems(6) False IH(5) that in \<open>auto simp: mem_bytes_upd_bytes disjoint_iff\<close>)
    ultimately show ?thesis
      using IH eq by (intro exI [of _ ok] exI [of _ src'] exI [of _ sl'] exI [of _ dl'] exI [of _ "?ds @ gs"]
          exI [of _ rest']) (auto simp: u4)
  qed
qed (rule ntop_groups_stop; simp)+


lemma ntop_tail_spec:
  assumes "load_bytes m src (length bs) = Some bs" and "unat sl = length bs" and "length bs < 3"
    and "unat dl \<le> unat ts" and "unat ts + 4 < 2 ^ 64" and "valid m target (unat ts)"
  shows "\<exists>ok dl' gs. ntop_tail src sl target ts dl m =
      Some (ok, dl', upd_bytes m (target + unat dl) gs) \<and>
    unat dl' = unat dl + length gs \<and> unat dl' \<le> unat ts \<and>
    (if ok then gs = b64_spec bs else gs = [] \<and> unat ts < unat dl + length (b64_spec bs))"
proof -
  have u4: "unat (dl + 4) = unat dl + 4" using assms(4,5) by (simp add: unat_word_ariths)
  then have cmp: "dl + 4 > ts \<longleftrightarrow> unat ts < unat dl + 4" by (simp add: word_less_nat_alt)
  have v4: "valid m (target + unat dl) 4" if "\<not> unat ts < unat dl + 4"
    using assms(6) that by (auto intro: valid_sub)
  from assms(3) consider "bs = []" | a where "bs = [a]" | a b where "bs = [a, b]"
    by (cases bs; cases "tl bs"; cases "tl (tl bs)") auto
  then show ?thesis
  proof cases
    case 1
    then have "sl = 0" using assms(2) by (simp add: unat_eq_0)
    with 1 assms(4) show ?thesis by (auto simp: ntop_tail_def intro!: exI [of _ "[]"])
  next
    case 2
    then have sl: "sl = 1" using assms(2) by (auto dest: word_eq_of_nat)
    have "load8 m src = Some a" using assms(1) 2 by auto
    then show ?thesis
      using assms(4) 2 sl v4 u4
      by (cases "unat ts < unat dl + 4") (auto simp: ntop_tail_def cmp b64_char_out put4 [where ts = ts]
          intro!: exI [of _ "[]"] exI [of _ "b64_spec bs"])
  next
    case 3
    then have sl: "sl \<noteq> 0" "sl \<noteq> 1" using assms(2) by auto
    have "load8 m src = Some a" "load8 m (Suc src) = Some b" using assms(1) 3 by auto
    then show ?thesis
      using assms(4) 3 sl v4 u4
      by (cases "unat ts < unat dl + 4") (auto simp: ntop_tail_def cmp b64_char_out put4 [where ts = ts]
          intro!: exI [of _ "[]"] exI [of _ "b64_spec bs"])
  qed
qed

lemma ntop_cases:
  assumes ld: "load_bytes m src (unat n) = Some bs" and ts: "unat ts + 4 < 2 ^ 64"
    and v: "valid m target (unat ts)" and dj: "{target ..< target + unat ts} \<inter> {src ..< src + unat n} = {}"
  obtains (full) "length (b64_spec bs) < unat ts"
      and "f_b64_ntop src n target ts m = Some (sint (word_of_nat (length (b64_spec bs)) :: 32 word),
        upd_bytes m target (b64_spec bs @ [0]))"
    | (short) gs where "unat ts \<le> length (b64_spec bs)" and "length gs \<le> unat ts"
      and "\<exists>r. b64_spec bs = gs @ r" and "f_b64_ntop src n target ts m = Some (- 1, upd_bytes m target gs)"
proof -
  have len: "length bs = unat n" using ld by (rule load_bytes_length)
  obtain ok src' sl' dl' gs rest where g: "ntop_groups src n target ts 0 m =
      Some (ok, src', sl', dl', upd_bytes m target gs)"
    and spec: "b64_spec bs = gs @ b64_spec rest" and dl: "unat dl' = length gs" "unat dl' \<le> unat ts"
    and fin: "if ok then length rest < 3 \<and> unat sl' = length rest \<and>
       load_bytes m src' (length rest) = Some rest \<and> src' + length rest = src + unat n \<and> src \<le> src'
     else 3 \<le> length rest \<and> unat ts < unat dl' + 4"
    using ntop_groups_spec [of m src bs n 0 ts target, unfolded len unat_0 add_0 add_0_right,
        OF ld refl zero_le ts v dj] by blast
  show thesis
  proof (cases ok)
    case False
    with fin have "1 \<le> (length rest + 2) div 3" by (simp add: less_eq_div_iff_mult_less_eq)
    then have "4 \<le> length (b64_spec rest)" by (simp add: length_b64_spec)
    with fin False dl have "unat ts \<le> length (b64_spec bs)" by (simp add: spec)
    with g False dl spec show ?thesis by (intro short) (auto simp: f_b64_ntop_def)
  next
    case True
    let ?m = "upd_bytes m target gs"
    have vg: "valid m target (length gs)" using v dl by (auto intro: valid_sub)
    have "load_bytes ?m src' (length rest) = load_bytes m src' (length rest)"
      by (rule load_bytes_cong) (use dj fin True dl len in \<open>auto simp: mem_bytes_upd_bytes disjoint_iff\<close>)
    then have ld': "load_bytes ?m src' (length rest) = Some rest" using fin True by simp
    have f: "unat sl' = length rest" "length rest < 3" using fin True by auto
    have v': "valid ?m target (unat ts)" using v vg by simp
    obtain ok2 dl2 gs2 where t: "ntop_tail src' sl' target ts dl' ?m =
        Some (ok2, dl2, upd_bytes ?m (target + length gs) gs2)"
      and dl2: "unat dl2 = length gs + length gs2" "unat dl2 \<le> unat ts"
      and fin2: "if ok2 then gs2 = b64_spec rest
        else gs2 = [] \<and> unat ts < length gs + length (b64_spec rest)"
      using ntop_tail_spec [OF ld' f dl(2) ts v', unfolded dl(1)] by blast
    have m2: "upd_bytes ?m (target + length gs) gs2 = upd_bytes m target (gs @ gs2)"
      by (rule upd_bytes_append)
    show ?thesis
    proof (cases ok2)
      case False
      with fin2 g True t show ?thesis
        using dl spec by (intro short [of gs]) (auto simp: f_b64_ntop_def)
    next
      case ok2: True
      then have out: "gs @ gs2 = b64_spec bs" and dlen: "unat dl2 = length (b64_spec bs)"
        using fin2 spec dl2 by auto
      show ?thesis
      proof (cases "unat dl2 < unat ts")
        case lt: True
        let ?out = "b64_spec bs"
        have "valid m target (length ?out)" "valid m (target + length ?out) 1"
          using v lt dlen by (auto intro: valid_sub)
        then have "store_bytes (upd_bytes m target ?out) (target + length ?out) [0] =
            Some (upd_bytes m target (?out @ [0]))"
          by (simp add: store_bytes_eq upd_bytes_append del: store_bytes.simps)
        then have st: "store8 (upd_bytes m target ?out) (target + length ?out) 0 =
            Some (upd_bytes m target (?out @ [0]))" by simp
        have "(ucast dl2 :: 32 word) = word_of_nat (length ?out)" by (simp flip: dlen)
        then show ?thesis
          using g True t ok2 lt st dlen
          by (intro full) (simp_all add: f_b64_ntop_def m2 out word_le_nat_alt)
      next
        case False
        then show ?thesis
          using g True t ok2 dlen dl2 spec out
          by (intro short [of "b64_spec bs"]) (auto simp: f_b64_ntop_def m2 word_le_nat_alt)
      qed
    qed
  qed
qed

subsection \<open>Properties of the encoder\<close>

text \<open>(C21) \<open>f_b64_ntop\<close> writes the base-64 text of the input and a terminating zero and returns the
  length of the text, when the target has room for both; nothing else changes.\<close>

theorem f_b64_ntop_encodes:
  assumes "load_bytes m src (unat n) = Some bs" and "unat ts + 4 < 2 ^ 64"
    and "valid m target (unat ts)" and "{target ..< target + unat ts} \<inter> {src ..< src + unat n} = {}"
    and "4 * ((unat n + 2) div 3) < unat ts" and "4 * ((unat n + 2) div 3) < 2 ^ 31"
  shows "f_b64_ntop src n target ts m =
    Some (int (4 * ((unat n + 2) div 3)), upd_bytes m target (b64_spec bs @ [0]))"
proof -
  have len: "length (b64_spec bs) = 4 * ((unat n + 2) div 3)"
    using load_bytes_length [OF assms(1)] by (simp add: length_b64_spec)
  have "sint (word_of_nat (length (b64_spec bs)) :: 32 word) = int (length (b64_spec bs))"
    using assms(6) len by (simp add: signed_of_nat signed_take_bit_int_eq_self del: of_nat_mult)
  moreover have "length (b64_spec bs) < unat ts" using assms(5) len by simp
  ultimately have "f_b64_ntop src n target ts m =
      Some (int (length (b64_spec bs)), upd_bytes m target (b64_spec bs @ [0]))"
    by (cases rule: ntop_cases [OF assms(1-4)]) simp_all
  then show ?thesis by (simp only: len)
qed

theorem f_b64_ntop_encodes_witness:
  "f_b64_ntop 100 2 104 10 (mem_at 100 ([77, 97] @ replicate 30 0)) =
    Some (int (4 * ((unat (2 :: u64) + 2) div 3)),
      upd_bytes (mem_at 100 ([77, 97] @ replicate 30 0)) 104 (b64_spec [77, 97] @ [0]))"
proof (rule f_b64_ntop_encodes)
  show "load_bytes (mem_at 100 ([77, 97] @ replicate 30 0)) 100 (unat (2 :: u64)) = Some [77, 97]"
    by code_simp
qed (auto intro!: valid_mem_at)

text \<open>(C22) When the text and its terminating zero do not fit, \<open>f_b64_ntop\<close> returns -1, and what it
  has written is a part of the text inside the target.\<close>

theorem f_b64_ntop_too_small:
  assumes "load_bytes m src (unat n) = Some bs" and "unat ts + 4 < 2 ^ 64"
    and "valid m target (unat ts)" and "{target ..< target + unat ts} \<inter> {src ..< src + unat n} = {}"
    and "unat ts \<le> 4 * ((unat n + 2) div 3)"
  shows "\<exists>gs r. f_b64_ntop src n target ts m = Some (- 1, upd_bytes m target gs) \<and>
    length gs \<le> unat ts \<and> b64_spec bs = gs @ r"
  using load_bytes_length [OF assms(1)] assms(5)
  by (cases rule: ntop_cases [OF assms(1-4)]) (auto simp: length_b64_spec)


theorem f_b64_ntop_too_small_witness:
  "\<exists>gs r. f_b64_ntop 100 4 104 7 (mem_at 100 ([77, 97, 110, 33] @ replicate 30 0)) =
      Some (- 1, upd_bytes (mem_at 100 ([77, 97, 110, 33] @ replicate 30 0)) 104 gs) \<and>
    length gs \<le> unat (7 :: u64) \<and> b64_spec [77, 97, 110, 33] = gs @ r"
proof (rule f_b64_ntop_too_small)
  show "load_bytes (mem_at 100 ([77, 97, 110, 33] @ replicate 30 0)) 100 (unat (4 :: u64)) =
      Some [77, 97, 110, 33]" by code_simp
qed (auto intro!: valid_mem_at)

subsection \<open>Facts on the decoder\<close>

lemma strchr_nth: "distinct xs \<Longrightarrow> i < length xs \<Longrightarrow> strchr xs (xs ! i) = Some i"
proof (induction xs arbitrary: i)
  case Nil
  then show ?case by simp
next
  case (Cons x xs)
  then show ?case by (cases i) auto
qed

lemma Base64_table_eq: "Base64_table = map word_of_nat ([65 ..< 91] @ [97 ..< 123] @ [48 ..< 58] @ [43, 47, 0])"
  by code_simp

lemma distinct_Base64_table: "distinct Base64_table"
  unfolding Base64_table_eq distinct_map
  by (auto simp: inj_on_def word_of_nat_eq_iff take_bit_eq_mod)

lemma b64_digit_ok:
  assumes "n < 64"
  shows "strchr Base64_table (b64_digit n) = Some n" and "b64_digit n \<noteq> 0"
    and "\<not> isspace (b64_digit n)" and "b64_digit n \<noteq> Pad64"
proof -
  show "strchr Base64_table (b64_digit n) = Some n"
    using assms distinct_Base64_table unfolding b64_digit_def by (intro strchr_nth) auto
  have "list_all (\<lambda>c. c \<noteq> 0 \<and> \<not> isspace c \<and> c \<noteq> Pad64) (butlast Base64_table)" by code_simp
  moreover have "b64_digit n \<in> set (butlast Base64_table)"
    using assms nth_mem [of n "butlast Base64_table"] by (simp add: b64_digit_def nth_butlast)
  ultimately show "b64_digit n \<noteq> 0" "\<not> isspace (b64_digit n)" "b64_digit n \<noteq> Pad64"
    by (simp_all add: list_all_iff)
qed

lemma Pad64_ok: "Pad64 \<noteq> 0" "\<not> isspace Pad64"
  by (simp_all add: Pad64_def isspace_def)

text \<open>The bits of the four digits put together again.\<close>

lemma b64_join:
  "push_bit 2 (b64_out0 a) OR drop_bit 4 (b64_out1 a b) = a"
  "push_bit 4 (b64_out1 a b AND 0x0F) OR drop_bit 2 (b64_out2 b c) = b"
  "push_bit 6 (b64_out2 b c AND 0x03) OR b64_out3 c = c"
proof -
  have m: "x AND 0x03 = take_bit 2 x" "x AND 0x0F = take_bit 4 x" "x AND 0x3F = take_bit 6 x" for x :: byte
    by (simp_all add: take_bit_eq_mask mask_eq_exp_minus_1)
  have o1: "b64_out1 a b = push_bit 4 (take_bit 2 a) OR drop_bit 4 b"
    unfolding b64_out1_def m
    by (rule disjunctive_add_eq_or) (auto simp: bit_eq_iff bit_simps dest: bit_imp_le_length)
  have o2: "b64_out2 b c = push_bit 2 (take_bit 4 b) OR drop_bit 6 c"
    unfolding b64_out2_def m
    by (rule disjunctive_add_eq_or) (auto simp: bit_eq_iff bit_simps dest: bit_imp_le_length)
  show "push_bit 2 (b64_out0 a) OR drop_bit 4 (b64_out1 a b) = a"
  proof (rule bit_word_eqI)
    fix n assume "n < LENGTH(8)"
    moreover have "2 \<le> n \<Longrightarrow> Suc (Suc (n - 2)) = n" by simp
    ultimately show "bit (push_bit 2 (b64_out0 a) OR drop_bit 4 (b64_out1 a b)) n = bit a n"
      unfolding b64_out0_def o1
      by (cases "2 \<le> n") (auto simp: bit_simps not_less dest: bit_imp_le_length)
  qed
  show "push_bit 4 (b64_out1 a b AND 0x0F) OR drop_bit 2 (b64_out2 b c) = b"
    unfolding m o1 o2 by (rule bit_word_eqI) (auto simp: bit_simps dest: bit_imp_le_length)
  show "push_bit 6 (b64_out2 b c AND 0x03) OR b64_out3 c = c"
    unfolding m o2 b64_out3_def by (rule bit_word_eqI) (auto simp: bit_simps dest: bit_imp_le_length)
qed

text \<open>Writing behind and over the last byte of what has been written.\<close>

lemma store8_upd_append:
  assumes "valid m t (Suc (length xs))"
  shows "store8 (upd_bytes m t xs) (t + length xs) v = Some (upd_bytes m t (xs @ [v]))"
proof -
  have "valid m t (length xs)" "valid m (t + length xs) 1" using assms by (auto intro: valid_sub)
  then have "store_bytes (upd_bytes m t xs) (t + length xs) [v] = Some (upd_bytes m t (xs @ [v]))"
    by (simp add: store_bytes_eq upd_bytes_append del: store_bytes.simps)
  then show ?thesis by simp
qed

lemma store8_upd_last:
  "store8 (upd_bytes m t (xs @ [x])) (t + length xs) v = Some (upd_bytes m t (xs @ [v]))"
  by (auto simp: store8_def mem_bytes_upd_bytes upd_bytes_def fun_eq_iff nth_append
      intro!: cmem.equality)

lemma load8_upd_last: "load8 (upd_bytes m t (xs @ [x])) (t + length xs) = Some x"
  by (simp add: load8_def mem_bytes_upd_bytes)

text \<open>One step, with everything written so far in view.\<close>

lemma pton_step_eqs:
  assumes t: "target \<noteq> 0" and ti: "length ys = unat ti" and room: "unat ti + k \<le> unat ts"
    and small: "unat ti + 2 < 2 ^ 32" and v: "valid m target (unat ts)"
  shows "1 \<le> k \<Longrightarrow> pton_step target ts pos 0 ti (upd_bytes m target ys) =
      Some (True, 1, ti, upd_bytes m target (ys @ [push_bit 2 (word_of_nat pos)]))"
    and "2 \<le> k \<Longrightarrow> pton_step target ts pos 1 ti (upd_bytes m target (ys @ [x])) =
      Some (True, 2, ti + 1, upd_bytes m target ((ys @ [x OR drop_bit 4 (word_of_nat pos)]) @
        [push_bit 4 (word_of_nat pos AND 0x0F)]))"
    and "2 \<le> k \<Longrightarrow> pton_step target ts pos 2 ti (upd_bytes m target (ys @ [x])) =
      Some (True, 3, ti + 1, upd_bytes m target ((ys @ [x OR drop_bit 2 (word_of_nat pos)]) @
        [push_bit 6 (word_of_nat pos AND 0x03)]))"
    and "1 \<le> k \<Longrightarrow> pton_step target ts pos 3 ti (upd_bytes m target (ys @ [x])) =
      Some (True, 0, ti + 1, upd_bytes m target (ys @ [x OR word_of_nat pos]))"
proof -
  have u: "unat (ti + 1) = unat ti + 1" using small by (simp add: unat_word_ariths)
  have v1: "valid m target (Suc (length ys))" if "1 \<le> k"
    using v room ti that by (auto intro: valid_sub)
  have v2: "valid m target (Suc (length (ys @ [y])))" if "2 \<le> k" for y
    using v room ti that by (auto intro: valid_sub)
  show "1 \<le> k \<Longrightarrow> pton_step target ts pos 0 ti (upd_bytes m target ys) =
      Some (True, 1, ti, upd_bytes m target (ys @ [push_bit 2 (word_of_nat pos)]))"
    using t room store8_upd_append [OF v1] ti
    by (simp add: pton_step_def word_le_nat_alt Let_def)
  show "2 \<le> k \<Longrightarrow> pton_step target ts pos 1 ti (upd_bytes m target (ys @ [x])) =
      Some (True, 2, ti + 1, upd_bytes m target ((ys @ [x OR drop_bit 4 (word_of_nat pos)]) @
        [push_bit 4 (word_of_nat pos AND 0x0F)]))"
    using t room store8_upd_append [OF v2] ti load8_upd_last [of m target ys]
      store8_upd_last [of m target ys]
    by (simp add: pton_step_def word_le_nat_alt Let_def u)
  show "2 \<le> k \<Longrightarrow> pton_step target ts pos 2 ti (upd_bytes m target (ys @ [x])) =
      Some (True, 3, ti + 1, upd_bytes m target ((ys @ [x OR drop_bit 2 (word_of_nat pos)]) @
        [push_bit 6 (word_of_nat pos AND 0x03)]))"
    using t room store8_upd_append [OF v2] ti load8_upd_last [of m target ys]
      store8_upd_last [of m target ys]
    by (simp add: pton_step_def word_le_nat_alt Let_def u)
  show "1 \<le> k \<Longrightarrow> pton_step target ts pos 3 ti (upd_bytes m target (ys @ [x])) =
      Some (True, 0, ti + 1, upd_bytes m target (ys @ [x OR word_of_nat pos]))"
    using t room ti load8_upd_last [of m target ys] store8_upd_last [of m target ys]
    by (simp add: pton_step_def word_le_nat_alt Let_def u)
qed

text \<open>One round of the loop on a digit, and its ends.\<close>

lemma pton_loop_digit:
  assumes "load8 m src = Some (b64_digit pos)" and "pos < 64"
    and "pton_step target ts pos state ti m = Some (True, state', ti', m')"
  shows "pton_loop target ts src state ti m = pton_loop target ts (src + 1) state' ti' m'"
  using assms b64_digit_ok [OF assms(2)] by (subst pton_loop.simps) simp

lemma pton_loop_end:
  assumes "load8 m src = Some ch" and "ch = 0 \<or> ch = Pad64"
  shows "pton_loop target ts src state ti m = Some (True, ch, src + 1, state, ti, m)"
  using assms Pad64_ok by (subst pton_loop.simps) auto

text \<open>The rest of the text at \<open>src\<close>, apart from the target.\<close>

definition pton_text :: "cmem \<Rightarrow> addr \<Rightarrow> u64 \<Rightarrow> addr \<Rightarrow> byte list \<Rightarrow> bool" where
  "pton_text m target ts src cs \<longleftrightarrow> load_bytes m src (length cs) = Some cs \<and>
     {target ..< target + unat ts} \<inter> {src ..< src + length cs} = {}"

lemma pton_text_Cons:
  assumes "pton_text m target ts src (c # cs)"
  shows "length xs \<le> unat ts \<Longrightarrow> load8 (upd_bytes m target xs) src = Some c"
    and "pton_text m target ts (src + 1) cs"
proof -
  have ap: "{target ..< target + unat ts} \<inter> {src ..< src + length (c # cs)} = {}"
    and ld: "load8 m src = Some c" "load_bytes m (Suc src) (length cs) = Some cs"
    using assms by (auto simp: pton_text_def)
  show "load8 (upd_bytes m target xs) src = Some c" if "length xs \<le> unat ts"
    using apart_notin [OF ap, of src] that ld by (auto simp: load8_def mem_bytes_upd_bytes)
  have "{src + 1 ..< src + 1 + length cs} \<inter> {target ..< target + unat ts} = {}"
    by (rule apart_sub [of src "length (c # cs)"]) (use ap in auto)
  then show "pton_text m target ts (src + 1) cs" using ld by (auto simp: pton_text_def)
qed

lemma b64_out_less:
  "unat (b64_out0 a) < 64" "unat (b64_out1 a b) < 64" "unat (b64_out2 b c) < 64" "unat (b64_out3 c) < 64"
proof -
  have d: "unat a div 4 < 64" "unat b div 16 < 16" "unat c div 64 < 4"
    using unat_byte_less [of a] unat_byte_less [of b] unat_byte_less [of c] by simp_all
  moreover have "unat a mod 4 < 4" "unat b mod 16 < 16" by simp_all
  ultimately show "unat (b64_out0 a) < 64" "unat (b64_out1 a b) < 64" "unat (b64_out2 b c) < 64"
    "unat (b64_out3 c) < 64" by (simp_all add: unat_b64_out)
qed

text \<open>The first two digits of a group, and the third and fourth.\<close>

lemma pton_two_digits:
  assumes t: "target \<noteq> 0" and ti: "length ys = unat ti" and room: "unat ti + 2 \<le> unat ts"
    and small: "unat ti + 4 < 2 ^ 32" and v: "valid m target (unat ts)"
    and tx: "pton_text m target ts src (b64_digit (unat (b64_out0 a)) # b64_digit (unat (b64_out1 a b)) # cs)"
  shows "pton_loop target ts src 0 ti (upd_bytes m target ys) =
      pton_loop target ts (src + 2) 2 (ti + 1) (upd_bytes m target ((ys @ [a]) @ [push_bit 4 (b64_out1 a b AND 0x0F)]))"
    and "pton_text m target ts (src + 2) cs"
proof -
  note t1 = pton_text_Cons [OF tx] and t2 = pton_text_Cons [OF pton_text_Cons(2) [OF tx]]
  note eqs = pton_step_eqs [OF t ti room _ v]
  have "pton_loop target ts src 0 ti (upd_bytes m target ys) =
      pton_loop target ts (src + 1) 1 ti (upd_bytes m target (ys @ [push_bit 2 (b64_out0 a)]))"
    by (rule pton_loop_digit [OF t1(1) b64_out_less(1)]) (use ti room small eqs(1) [of "unat (b64_out0 a)"] in auto)
  also have "\<dots> = pton_loop target ts (src + 1 + 1) 2 (ti + 1)
      (upd_bytes m target ((ys @ [a]) @ [push_bit 4 (b64_out1 a b AND 0x0F)]))"
    by (rule pton_loop_digit [OF t2(1) b64_out_less(2)])
      (use ti room small eqs(2) [of "unat (b64_out1 a b)" "push_bit 2 (b64_out0 a)"] b64_join(1) [of a b] in auto)
  finally show "pton_loop target ts src 0 ti (upd_bytes m target ys) =
      pton_loop target ts (src + 2) 2 (ti + 1) (upd_bytes m target ((ys @ [a]) @ [push_bit 4 (b64_out1 a b AND 0x0F)]))"
    by simp
  show "pton_text m target ts (src + 2) cs" using t2(2) by simp
qed

lemma pton_third_digit:
  assumes t: "target \<noteq> 0" and ti: "length ys = unat ti" and room: "unat ti + 2 \<le> unat ts"
    and small: "unat ti + 4 < 2 ^ 32" and v: "valid m target (unat ts)"
    and tx: "pton_text m target ts src (b64_digit (unat (b64_out2 b c)) # cs)"
  shows "pton_loop target ts src 2 ti (upd_bytes m target (ys @ [push_bit 4 (b64_out1 a b AND 0x0F)])) =
      pton_loop target ts (src + 1) 3 (ti + 1) (upd_bytes m target ((ys @ [b]) @ [push_bit 6 (b64_out2 b c AND 0x03)]))"
  by (rule pton_loop_digit [OF pton_text_Cons(1) [OF tx] b64_out_less(3)])
    (use ti room small pton_step_eqs(3) [OF t ti room _ v, of "unat (b64_out2 b c)"] b64_join(2) [of a b c] in auto)

lemma pton_fourth_digit:
  assumes t: "target \<noteq> 0" and ti: "length ys = unat ti" and room: "unat ti + 1 \<le> unat ts"
    and small: "unat ti + 4 < 2 ^ 32" and v: "valid m target (unat ts)"
    and tx: "pton_text m target ts src (b64_digit (unat (b64_out3 c)) # cs)"
  shows "pton_loop target ts src 3 ti (upd_bytes m target (ys @ [push_bit 6 (b64_out2 b c AND 0x03)])) =
      pton_loop target ts (src + 1) 0 (ti + 1) (upd_bytes m target (ys @ [c]))"
  by (rule pton_loop_digit [OF pton_text_Cons(1) [OF tx] b64_out_less(4)])
    (use ti room small pton_step_eqs(4) [OF t ti room _ v, of "unat (b64_out3 c)"] b64_join(3) [of b c] in auto)

lemma b64_join_zero:
  "push_bit 4 (b64_out1 a 0 AND 0x0F) = 0" "push_bit 6 (b64_out2 b 0 AND 0x03) = 0"
  using b64_join(2) [of a 0 0] b64_join(3) [of b 0]
  by (simp_all add: or_eq_0_iff)

lemma pton_loop_spec:
  assumes "target \<noteq> 0" and "length ys = unat ti"
    and "unat ti + length bs + (if length bs mod 3 = 0 then 0 else 1) \<le> unat ts"
    and "unat ti + length bs + 8 < 2 ^ 32" and "valid m target (unat ts)"
    and "pton_text m target ts src (b64_spec bs @ [0])"
  shows "pton_loop target ts src 0 ti (upd_bytes m target ys) =
    (if length bs mod 3 = 0
     then Some (True, 0, src + length (b64_spec bs) + 1, 0, ti + word_of_nat (length bs),
       upd_bytes m target (ys @ bs))
     else if length bs mod 3 = 1
     then Some (True, Pad64, src + length (b64_spec bs) - 1, 2, ti + word_of_nat (length bs),
       upd_bytes m target (ys @ bs @ [0]))
     else Some (True, Pad64, src + length (b64_spec bs), 3, ti + word_of_nat (length bs),
       upd_bytes m target (ys @ bs @ [0])))"
  using assms
proof (induction bs arbitrary: src ti ys rule: b64_spec.induct)
  case 1
  then have "load8 (upd_bytes m target ys) src = Some 0"
    using pton_text_Cons(1) [of m target ts src 0 "[]" ys] by simp
  then show ?case by (subst pton_loop_end) auto
next
  case (2 a)
  note p = "2.prems"
  have tx: "pton_text m target ts src (b64_digit (unat (b64_out0 a)) # b64_digit (unat (b64_out1 a 0)) #
      [Pad64, Pad64, 0])" using p(6) by (simp add: unat_b64_out)
  have two: "pton_loop target ts src 0 ti (upd_bytes m target ys) =
      pton_loop target ts (src + 2) 2 (ti + 1) (upd_bytes m target ((ys @ [a]) @ [0]))"
    and tx2: "pton_text m target ts (src + 2) [Pad64, Pad64, 0]"
    using pton_two_digits [OF p(1,2) _ _ p(5) tx, unfolded b64_join_zero] p(3,4) by simp_all
  have "load8 (upd_bytes m target ((ys @ [a]) @ [0])) (src + 2) = Some Pad64"
    by (rule pton_text_Cons(1) [OF tx2]) (use p(2,3) in simp)
  then show ?case unfolding two by (subst pton_loop_end) auto
next
  case (3 a b)
  note p = "3.prems"
  have tx: "pton_text m target ts src (b64_digit (unat (b64_out0 a)) # b64_digit (unat (b64_out1 a b)) #
      [b64_digit (unat (b64_out2 b 0)), Pad64, 0])" using p(6) by (simp add: unat_b64_out)
  have two: "pton_loop target ts src 0 ti (upd_bytes m target ys) =
      pton_loop target ts (src + 2) 2 (ti + 1)
        (upd_bytes m target ((ys @ [a]) @ [push_bit 4 (b64_out1 a b AND 0x0F)]))"
    and tx2: "pton_text m target ts (src + 2) [b64_digit (unat (b64_out2 b 0)), Pad64, 0]"
    using pton_two_digits [OF p(1,2) _ _ p(5) tx] p(3,4) by simp_all
  have u1: "unat (ti + 1) = unat ti + 1" using p(4) by (simp add: unat_word_ariths)
  have three: "pton_loop target ts (src + 2) 2 (ti + 1)
        (upd_bytes m target ((ys @ [a]) @ [push_bit 4 (b64_out1 a b AND 0x0F)])) =
      pton_loop target ts (src + 2 + 1) 3 (ti + 1 + 1) (upd_bytes m target (((ys @ [a]) @ [b]) @ [0]))"
    using pton_third_digit [OF p(1) _ _ _ p(5) tx2, of "ys @ [a]" "ti + 1" a, unfolded b64_join_zero]
      p(2,3,4) by (simp add: u1)
  have "load8 (upd_bytes m target (((ys @ [a]) @ [b]) @ [0])) (src + 2 + 1) = Some Pad64"
    by (rule pton_text_Cons(1) [OF pton_text_Cons(2) [OF tx2]]) (use p(2,3) in simp)
  then show ?case unfolding two three by (subst pton_loop_end) auto
next
  case (4 a b c rest)
  note p = "4.prems"
  have tx: "pton_text m target ts src (b64_digit (unat (b64_out0 a)) # b64_digit (unat (b64_out1 a b)) #
      b64_digit (unat (b64_out2 b c)) # b64_digit (unat (b64_out3 c)) # b64_spec rest @ [0])"
    using p(6) by (simp add: unat_b64_out)
  have two: "pton_loop target ts src 0 ti (upd_bytes m target ys) =
      pton_loop target ts (src + 2) 2 (ti + 1)
        (upd_bytes m target ((ys @ [a]) @ [push_bit 4 (b64_out1 a b AND 0x0F)]))"
    and tx2: "pton_text m target ts (src + 2) (b64_digit (unat (b64_out2 b c)) #
      b64_digit (unat (b64_out3 c)) # b64_spec rest @ [0])"
    using pton_two_digits [OF p(1,2) _ _ p(5) tx] p(3,4) by simp_all
  note tx3 = pton_text_Cons(2) [OF tx2]
  have u: "unat (ti + 1) = unat ti + 1" "unat (ti + 1 + 1) = unat ti + 2" "unat (ti + 1 + 1 + 1) = unat ti + 3"
    using p(4) by (simp_all add: unat_word_ariths)
  have three: "pton_loop target ts (src + 2) 2 (ti + 1)
        (upd_bytes m target ((ys @ [a]) @ [push_bit 4 (b64_out1 a b AND 0x0F)])) =
      pton_loop target ts (src + 2 + 1) 3 (ti + 1 + 1)
        (upd_bytes m target (((ys @ [a]) @ [b]) @ [push_bit 6 (b64_out2 b c AND 0x03)]))"
    by (rule pton_third_digit [OF p(1) _ _ _ p(5) tx2]) (use p(2,3,4) u in simp_all)
  have four: "pton_loop target ts (src + 2 + 1) 3 (ti + 1 + 1)
        (upd_bytes m target (((ys @ [a]) @ [b]) @ [push_bit 6 (b64_out2 b c AND 0x03)])) =
      pton_loop target ts (src + 2 + 1 + 1) 0 (ti + 1 + 1 + 1)
        (upd_bytes m target (((ys @ [a]) @ [b]) @ [c]))"
    by (rule pton_fourth_digit [OF p(1) _ _ _ p(5) tx3]) (use p(2,3,4) u in simp_all)
  have mod3: "length (a # b # c # rest) mod 3 = length rest mod 3" by simp
  have room: "unat ti + 3 + length rest + (if length rest mod 3 = 0 then 0 else 1) \<le> unat ts"
    using p(3) unfolding mod3 by simp
  have tx4: "pton_text m target ts (src + 2 + 1 + 1) (b64_spec rest @ [0])"
    by (rule pton_text_Cons(2) [OF tx3])
  have IH: "pton_loop target ts (src + 2 + 1 + 1) 0 (ti + 1 + 1 + 1)
      (upd_bytes m target (((ys @ [a]) @ [b]) @ [c])) =
    (if length rest mod 3 = 0
     then Some (True, 0, src + 2 + 1 + 1 + length (b64_spec rest) + 1, 0,
       ti + 1 + 1 + 1 + word_of_nat (length rest), upd_bytes m target ((((ys @ [a]) @ [b]) @ [c]) @ rest))
     else if length rest mod 3 = 1
     then Some (True, Pad64, src + 2 + 1 + 1 + length (b64_spec rest) - 1, 2,
       ti + 1 + 1 + 1 + word_of_nat (length rest), upd_bytes m target ((((ys @ [a]) @ [b]) @ [c]) @ rest @ [0]))
     else Some (True, Pad64, src + 2 + 1 + 1 + length (b64_spec rest), 3,
       ti + 1 + 1 + 1 + word_of_nat (length rest), upd_bytes m target ((((ys @ [a]) @ [b]) @ [c]) @ rest @ [0])))"
    by (rule "4.IH" [OF p(1) _ _ _ p(5) tx4]) (use p(2,4) room u in simp_all)
  show ?case unfolding two three four IH mod3
    by (simp add: algebra_simps)
qed


lemma pton_text_nth:
  assumes "pton_text m target ts src cs" and "i < length cs" and "length xs \<le> unat ts"
  shows "load8 (upd_bytes m target xs) (src + i) = Some (cs ! i)"
  using assms
proof (induction cs arbitrary: src i)
  case Nil
  then show ?case by simp
next
  case (Cons c cs)
  note tx = pton_text_Cons [OF Cons.prems(1)]
  show ?case
    using tx(1) [OF Cons.prems(3)] Cons.IH [OF tx(2), of "i - 1"] Cons.prems(2,3) by (cases i) auto
qed

lemma b64_spec_pad: "length bs mod 3 = 1 \<Longrightarrow> b64_spec bs ! (length (b64_spec bs) - 1) = Pad64 \<and> b64_spec bs \<noteq> []"
  by (induction bs rule: b64_spec.induct) (auto simp: nth_Cons')

lemma skip_spaces_0: "skip_spaces 0 src m = Some (0, src)"
  by (subst skip_spaces.simps) simp

lemma skip_spaces_pad: "skip_spaces Pad64 src m = Some (Pad64, src)"
  using Pad64_ok by (subst skip_spaces.simps) simp

text \<open>Decoding the text of \<open>bs\<close>. When the text is padded one zero byte is stored behind \<open>bs\<close>.\<close>

lemma pton_decodes:
  assumes "target \<noteq> 0" and "load_bytes m src (length (b64_spec bs) + 1) = Some (b64_spec bs @ [0])"
    and "valid m target (unat ts)"
    and "{target ..< target + unat ts} \<inter> {src ..< src + length (b64_spec bs) + 1} = {}"
    and "length bs + (if length bs mod 3 = 0 then 0 else 1) \<le> unat ts" and "length bs < 2 ^ 31 - 8"
  shows "f_b64_pton src target ts m = Some (int (length bs),
    upd_bytes m target (bs @ (if length bs mod 3 = 0 then [] else [0])))"
proof -
  have tx: "pton_text m target ts src (b64_spec bs @ [0])"
    using assms(2,4) by (simp add: pton_text_def add.assoc)
  have si: "sint (word_of_nat (length bs) :: u32) = int (length bs)"
    using assms(6) by (simp add: signed_of_nat signed_take_bit_int_eq_self)
  have u: "unat (word_of_nat (length bs) :: u32) = length bs"
    by (rule unat_of_nat_small) (use assms(6) in simp)
  let ?L = "length (b64_spec bs)"
  have loop: "pton_loop target ts src 0 0 m =
    (if length bs mod 3 = 0 then Some (True, 0, src + ?L + 1, 0, word_of_nat (length bs), upd_bytes m target bs)
     else if length bs mod 3 = 1
     then Some (True, Pad64, src + ?L - 1, 2, word_of_nat (length bs), upd_bytes m target (bs @ [0]))
     else Some (True, Pad64, src + ?L, 3, word_of_nat (length bs), upd_bytes m target (bs @ [0])))"
    using pton_loop_spec [OF assms(1) _ _ _ assms(3) tx, of "[]" 0] assms(5,6) by simp
  show ?thesis
  proof (cases "length bs mod 3 = 0")
    case True
    then show ?thesis using Pad64_ok(1) by (simp add: f_b64_pton_def loop si)
  next
    case False
    let ?m = "upd_bytes m target (bs @ [0])"
    have room: "length (bs @ [0]) \<le> unat ts" using assms(5) False by simp
    have last: "load8 ?m (src + ?L) = Some 0" using pton_text_nth [OF tx _ room, of ?L] by simp
    have fin: "pton_finish target 0 p (word_of_nat (length bs)) ?m = Some (int (length bs))" for p
      using load8_upd_last [of m target bs 0] assms(1)
      by (simp add: pton_finish_def skip_spaces_0 u si)
    show ?thesis
    proof (cases "length bs mod 3 = 1")
      case True
      from b64_spec_pad [OF True] have pad: "b64_spec bs ! (?L - 1) = Pad64" and L: "0 < ?L" by auto
      have "src + ?L - 1 = src + (?L - 1)" using L by linarith
      moreover have "load8 ?m (src + (?L - 1)) = Some ((b64_spec bs @ [0]) ! (?L - 1))"
        by (rule pton_text_nth [OF tx _ room]) simp
      ultimately have "load8 ?m (src + ?L - 1) = Some Pad64"
        using pad L by (simp only: nth_append) simp
      then show ?thesis
        using True L last fin by (simp add: f_b64_pton_def loop skip_spaces_pad)
    next
      case two: False
      then show ?thesis
        using False last fin by (simp add: f_b64_pton_def loop)
    qed
  qed
qed

subsection \<open>Every text is decoded inside the target\<close>

definition pton_inv :: "u64 \<Rightarrow> u32 \<Rightarrow> u32 \<Rightarrow> byte list \<Rightarrow> bool" where
  "pton_inv ts state ti xs \<longleftrightarrow> length xs \<le> unat ts \<and>
     (state = 0 \<and> length xs = unat ti \<or>
      (state = 1 \<or> state = 2 \<or> state = 3) \<and> length xs = unat ti + 1)"

lemma pton_step_safe:
  assumes t: "target \<noteq> 0" and v: "valid m target (unat ts)" and ts: "unat ts + 2 < 2 ^ 32"
    and inv: "pton_inv ts state ti xs"
  shows "\<exists>ok state' ti' xs'. pton_step target ts pos state ti (upd_bytes m target xs) =
      Some (ok, state', ti', upd_bytes m target xs') \<and> pton_inv ts state' ti' xs'"
proof -
  have small: "unat ti + 2 < 2 ^ 32" using inv ts by (auto simp: pton_inv_def)
  then have u: "unat (ti + 1) = unat ti + 1" by (simp add: unat_word_ariths)
  consider (s0) "state = 0" "length xs = unat ti"
    | (s1) ys x where "state = 1" "xs = ys @ [x]" "length ys = unat ti"
    | (s2) ys x where "state = 2" "xs = ys @ [x]" "length ys = unat ti"
    | (s3) ys x where "state = 3" "xs = ys @ [x]" "length ys = unat ti"
    using inv unfolding pton_inv_def by (cases xs rule: rev_cases) auto
  then show ?thesis
  proof cases
    case s0
    note e = pton_step_eqs(1) [OF t s0(2) _ small v, of 1]
    show ?thesis
      using e inv s0 t by (cases "unat ti < unat ts")
        (fastforce simp: pton_inv_def, auto simp: pton_step_def word_le_nat_alt Let_def)
  next
    case s1
    note e = pton_step_eqs(2) [OF t s1(3) _ small v, of 2]
    show ?thesis
      using e inv s1 t u by (cases "unat ti + 1 < unat ts")
        (fastforce simp: pton_inv_def, auto simp: pton_step_def word_le_nat_alt Let_def)
  next
    case s2
    note e = pton_step_eqs(3) [OF t s2(3) _ small v, of 2]
    show ?thesis
      using e inv s2 t u by (cases "unat ti + 1 < unat ts")
        (fastforce simp: pton_inv_def, auto simp: pton_step_def word_le_nat_alt Let_def)
  next
    case s3
    note e = pton_step_eqs(4) [OF t s3(3) _ small v, of 1]
    show ?thesis
      using e inv s3 t u by (cases "unat ti < unat ts")
        (fastforce simp: pton_inv_def, auto simp: pton_step_def word_le_nat_alt Let_def)
  qed
qed

lemma pton_loop_safe:
  assumes "target \<noteq> 0" and "valid m target (unat ts)" and "unat ts + 2 < 2 ^ 32"
    and "pton_text m target ts src (cs @ [0])" and "pton_inv ts state ti xs"
  shows "\<exists>ok ch src' state' ti' xs' ds. pton_loop target ts src state ti (upd_bytes m target xs) =
      Some (ok, ch, src', state', ti', upd_bytes m target xs') \<and> pton_inv ts state' ti' xs' \<and>
      (ok \<and> ch = Pad64 \<longrightarrow> pton_text m target ts src' (ds @ [0]))"
  using assms(4,5)
proof (induction cs arbitrary: src state ti xs)
  case Nil
  then have "load8 (upd_bytes m target xs) src = Some 0"
    using pton_text_Cons(1) [of m target ts src 0 "[]" xs] by (simp add: pton_inv_def)
  then have "pton_loop target ts src state ti (upd_bytes m target xs) =
      Some (True, 0, src + 1, state, ti, upd_bytes m target xs)"
    by (intro pton_loop_end) auto
  then show ?case using Nil.prems(2) Pad64_ok(1) [symmetric] by blast
next
  case (Cons c cs)
  have tx: "pton_text m target ts src (c # cs @ [0])" using Cons.prems(1) by simp
  note tx1 = pton_text_Cons(2) [OF tx]
  have ld: "load8 (upd_bytes m target xs) src = Some c"
    by (rule pton_text_Cons(1) [OF tx]) (use Cons.prems(2) in \<open>simp add: pton_inv_def\<close>)
  note loop = pton_loop.simps [of target ts src state ti "upd_bytes m target xs"]
  consider "c = 0 \<or> c = Pad64" | "c \<noteq> 0" "isspace c" | "c \<noteq> 0" "\<not> isspace c" "c \<noteq> Pad64" "strchr Base64_table c = None"
    | pos where "c \<noteq> 0" "\<not> isspace c" "c \<noteq> Pad64" "strchr Base64_table c = Some pos" by blast
  then show ?case
  proof cases
    case 1
    from pton_loop_end [OF ld 1] show ?thesis using Cons.prems(2) tx1 by blast
  next
    case 2
    then have "pton_loop target ts src state ti (upd_bytes m target xs) =
        pton_loop target ts (src + 1) state ti (upd_bytes m target xs)"
      unfolding loop by (simp add: ld)
    with Cons.IH [OF tx1 Cons.prems(2)] show ?thesis by simp
  next
    case 3
    then have "pton_loop target ts src state ti (upd_bytes m target xs) =
        Some (False, c, src + 1, state, ti, upd_bytes m target xs)"
      unfolding loop by (simp add: ld)
    with Cons.prems(2) show ?thesis by blast
  next
    case 4
    obtain ok state' ti' xs' where st: "pton_step target ts pos state ti (upd_bytes m target xs) =
        Some (ok, state', ti', upd_bytes m target xs')" and inv: "pton_inv ts state' ti' xs'"
      using pton_step_safe [OF assms(1-3) Cons.prems(2)] by blast
    show ?thesis
    proof (cases ok)
      case True
      with 4 st have "pton_loop target ts src state ti (upd_bytes m target xs) =
          pton_loop target ts (src + 1) state' ti' (upd_bytes m target xs')"
        unfolding loop by (simp add: ld)
      with Cons.IH [OF tx1 inv] show ?thesis by simp
    next
      case False
      with 4 st have "pton_loop target ts src state ti (upd_bytes m target xs) =
          Some (False, c, src + 1, state', ti', upd_bytes m target xs')"
        unfolding loop by (simp add: ld)
      with inv show ?thesis by blast
    qed
  qed
qed

lemma skip_spaces_total:
  assumes "pton_text m target ts src (cs @ [0])" and "length xs \<le> unat ts" and "ch = hd (cs @ [0])"
  shows "\<exists>ch' src' ds. skip_spaces ch (src + 1) (upd_bytes m target xs) = Some (ch', src') \<and>
    (ch' \<noteq> 0 \<longrightarrow> pton_text m target ts src' (ds @ [0]))"
  using assms(1,3)
proof (induction cs arbitrary: src ch)
  case Nil
  then show ?case by (simp add: skip_spaces_0)
next
  case (Cons c cs)
  have tx: "pton_text m target ts (src + 1) (cs @ [0])"
    using pton_text_Cons(2) [of m target ts src c "cs @ [0]"] Cons.prems(1) by simp
  have "load8 (upd_bytes m target xs) (src + 1) = Some (hd (cs @ [0]))"
    using pton_text_nth [OF tx _ assms(2), of 0] by (cases cs) simp_all
  with Cons.IH [OF tx refl] Cons.prems(2) tx show ?case
    by (subst skip_spaces.simps) auto
qed

text \<open>(C23) Memory safety and termination of \<open>f_b64_pton\<close>: on every zero-terminated text apart from
  the target it returns, and what it has written lies inside the target.\<close>

theorem f_b64_pton_in_bounds:
  assumes "target \<noteq> 0" and "valid m target (unat ts)" and "unat ts + 2 < 2 ^ 32"
    and "load_bytes m src (length (cs @ [0])) = Some (cs @ [0])"
    and "{target ..< target + unat ts} \<inter> {src ..< src + length (cs @ [0])} = {}"
  shows "\<exists>r xs. f_b64_pton src target ts m = Some (r, upd_bytes m target xs) \<and> length xs \<le> unat ts"
proof -
  have tx: "pton_text m target ts src (cs @ [0])" using assms(4,5) by (simp add: pton_text_def)
  have "pton_inv ts 0 0 []" by (simp add: pton_inv_def)
  from pton_loop_safe [OF assms(1-3) tx this]
  obtain ok ch src' state ti xs ds where loop: "pton_loop target ts src 0 0 m =
      Some (ok, ch, src', state, ti, upd_bytes m target xs)" and inv: "pton_inv ts state ti xs"
    and pad: "ok \<and> ch = Pad64 \<longrightarrow> pton_text m target ts src' (ds @ [0])"
    unfolding upd_bytes_Nil by blast
  have len: "length xs \<le> unat ts" using inv by (simp add: pton_inv_def)
  let ?m = "upd_bytes m target xs"
  have fin: "\<exists>r. pton_finish target (hd (es @ [0])) (p + 1) ti ?m = Some r"
    if tp: "pton_text m target ts p (es @ [0])" and st: "state = 2 \<or> state = 3" for p es
  proof -
    have "unat ti < length xs" using inv st by (auto simp: pton_inv_def)
    then obtain c where c: "load8 ?m (target + unat ti) = Some c"
      by (simp add: load8_def mem_bytes_upd_bytes)
    obtain ch' p' where "skip_spaces (hd (es @ [0])) (p + 1) ?m = Some (ch', p')"
      using skip_spaces_total [OF tp len refl] by blast
    then show ?thesis using assms(1) c by (cases "ch' = 0") (simp_all add: pton_finish_def)
  qed
  show ?thesis
  proof (cases "ok \<and> ch = Pad64")
    case False
    then show ?thesis using len by (auto simp: f_b64_pton_def loop)
  next
    case True
    with pad have tx1: "pton_text m target ts src' (ds @ [0])" by simp
    have ch1: "load8 ?m src' = Some (hd (ds @ [0]))"
      using pton_text_nth [OF tx1 _ len, of 0] by (cases ds) simp_all
    obtain ch2 src2 es where sk: "skip_spaces (hd (ds @ [0])) (src' + 1) ?m = Some (ch2, src2)"
      and tx2: "ch2 \<noteq> 0 \<longrightarrow> pton_text m target ts src2 (es @ [0])"
      using skip_spaces_total [OF tx1 len refl] by blast
    have ch3: "ch2 = Pad64 \<Longrightarrow> load8 ?m src2 = Some (hd (es @ [0]))"
      using pton_text_nth [where src = src2 and cs = "es @ [0]" and i = 0, OF _ _ len] tx2 Pad64_ok(1) by (cases es) auto
    show ?thesis
      using True ch1 sk tx2 ch3 fin [OF tx1] fin [of src2 es] len Pad64_ok(1)
      by (auto simp: f_b64_pton_def loop)
  qed
qed


theorem f_b64_pton_in_bounds_witness:
  "\<exists>r xs. f_b64_pton 100 110 4 (mem_at 100 ([81, 32, 81, 61, 33] @ [0] @ replicate 20 0)) =
      Some (r, upd_bytes (mem_at 100 ([81, 32, 81, 61, 33] @ [0] @ replicate 20 0)) 110 xs) \<and>
    length xs \<le> unat (4 :: u64)"
proof (rule f_b64_pton_in_bounds [where cs = "[81, 32, 81, 61, 33]"])
  show "load_bytes (mem_at 100 ([81, 32, 81, 61, 33] @ [0] @ replicate 20 0)) 100
      (length ([81, 32, 81, 61, 33] @ [0 :: byte])) = Some ([81, 32, 81, 61, 33] @ [0])" by code_simp
qed (auto intro!: valid_mem_at)

text \<open>(C14) Round trip: the text \<open>f_b64_ntop\<close> leaves at \<open>mid\<close> is decoded by \<open>f_b64_pton\<close> into the
  bytes it was made from.\<close>

theorem f_b64_roundtrip:
  assumes "load_bytes m src (unat n) = Some bs" and "unat ms + 4 < 2 ^ 64"
    and "valid m mid (unat ms)" and "{mid ..< mid + unat ms} \<inter> {src ..< src + unat n} = {}"
    and "4 * ((unat n + 2) div 3) < unat ms" and "unat n < 2 ^ 30"
    and "target \<noteq> 0" and "valid m target (unat ts)" and "unat n < unat ts"
    and "{target ..< target + unat ts} \<inter> {mid ..< mid + unat ms} = {}"
  shows "\<exists>r m1 m2. f_b64_ntop src n mid ms m = Some (r, m1) \<and> 0 \<le> r \<and>
    f_b64_pton mid target ts m1 = Some (int (unat n), m2) \<and> load_bytes m2 target (unat n) = Some bs"
proof -
  let ?bs = "b64_spec bs @ [0]"
  have len: "length bs = unat n" using assms(1) by (rule load_bytes_length)
  have L: "length (b64_spec bs) = 4 * ((unat n + 2) div 3)" by (simp add: length_b64_spec len)
  have L31: "length (b64_spec bs) < 2 ^ 31" using assms(6) unfolding L by simp
  have lt: "length (b64_spec bs) < unat ms" using assms(5) unfolding L .
  have enc: "f_b64_ntop src n mid ms m = Some (int (length (b64_spec bs)), upd_bytes m mid ?bs)"
    using L31 lt
    by (cases rule: ntop_cases [OF assms(1-4)]) (simp_all add: signed_of_nat signed_take_bit_int_eq_self)
  have vm: "valid m mid (length ?bs)" using assms(3,5) L by (auto intro: valid_sub)
  have "{mid ..< mid + length ?bs} \<subseteq> {mid ..< mid + unat ms}" using assms(5) L by auto
  with assms(10) have ap: "{target ..< target + unat ts} \<inter> {mid ..< mid + length (b64_spec bs) + 1} = {}"
    by (auto simp: add.assoc)
  have dec: "f_b64_pton mid target ts (upd_bytes m mid ?bs) = Some (int (length bs),
      upd_bytes (upd_bytes m mid ?bs) target (bs @ (if length bs mod 3 = 0 then [] else [0])))"
    by (rule pton_decodes) (use assms(6-9) ap vm len in \<open>auto simp del: load_bytes.simps\<close>)
  have "load_bytes (upd_bytes m' target (bs @ xs)) target (length bs) = Some bs" for m' xs
    by (rule load_bytes_eqI) (simp_all add: mem_bytes_upd_bytes nth_append)
  with enc dec len show ?thesis by auto
qed

theorem f_b64_roundtrip_witness:
  "\<exists>r m1 m2. f_b64_ntop 100 2 104 10 (mem_at 100 ([77, 97] @ replicate 30 0)) = Some (r, m1) \<and>
    0 \<le> r \<and> f_b64_pton 104 120 3 m1 = Some (int (unat (2 :: u64)), m2) \<and>
    load_bytes m2 120 (unat (2 :: u64)) = Some [77, 97]"
proof (rule f_b64_roundtrip)
  show "load_bytes (mem_at 100 ([77, 97] @ replicate 30 0)) 100 (unat (2 :: u64)) = Some [77, 97]"
    by code_simp
qed (auto intro!: valid_mem_at)

text \<open>A padded text needs one byte more than the data it encodes: the text of the single byte 65 is
  rejected for a target of one byte, and accepted for a target of two.\<close>

lemma f_b64_pton_exact_size_rejected:
  "map_option fst (f_b64_pton 100 110 1 (mem_at 100 ([81, 81, 61, 61, 0] @ replicate 20 0))) = Some (- 1)"
  "map_option fst (f_b64_pton 100 110 2 (mem_at 100 ([81, 81, 61, 61, 0] @ replicate 20 0))) = Some 1"
  by code_simp+

end
