(* ===== verification/Ldb_Coding.thy ===== *)
theory Ldb_Coding
  imports Pb_Wire
begin

text \<open>
  \<open>leveldb-library/util/coding.h\<close> and \<open>coding.cc\<close>: the endian-neutral encoding of the numbers and
  strings in every leveldb file. A \<open>std::string\<close> and a \<open>Slice\<close> are the byte sequences they hold; a
  pair of pointers \<open>p, limit\<close> is the sequence of the bytes from \<open>p\<close> up to \<open>limit\<close>, and a pointer
  that a parser returns is the rest of that sequence. The value \<open>None\<close> of a parser is its
  \<open>NULL\<close> or \<open>false\<close>; \<open>DecodeFixed32\<close> and \<open>DecodeFixed64\<close> check no bounds, so there \<open>None\<close> is a
  read past the end.
\<close>

type_synonym slice = "byte list"

subsection \<open>Fixed-length numbers\<close>

definition EncodeFixed32 :: "u32 \<Rightarrow> byte list" where
  "EncodeFixed32 v = le_bytes 4 (unat v)"

definition EncodeFixed64 :: "u64 \<Rightarrow> byte list" where
  "EncodeFixed64 v = le_bytes 8 (unat v)"

definition PutFixed32 :: "byte list \<Rightarrow> u32 \<Rightarrow> byte list" where
  "PutFixed32 dst v = dst @ EncodeFixed32 v"

definition PutFixed64 :: "byte list \<Rightarrow> u64 \<Rightarrow> byte list" where
  "PutFixed64 dst v = dst @ EncodeFixed64 v"

definition DecodeFixed32 :: "byte list \<Rightarrow> u32 option" where
  "DecodeFixed32 p = (if length p < 4 then None else Some (word_of_nat (le_nat (take 4 p))))"

definition DecodeFixed64 :: "byte list \<Rightarrow> u64 option" where
  "DecodeFixed64 p = (if length p < 8 then None else Some (word_of_nat (le_nat (take 8 p))))"

subsection \<open>Varints\<close>

definition EncodeVarint32 :: "u32 \<Rightarrow> byte list" where
  "EncodeVarint32 v = (let B = 128 in
     if v < push_bit 7 1 then [ucast v]
     else if v < push_bit 14 1 then [ucast (v OR B), ucast (drop_bit 7 v)]
     else if v < push_bit 21 1 then
       [ucast (v OR B), ucast (drop_bit 7 v OR B), ucast (drop_bit 14 v)]
     else if v < push_bit 28 1 then
       [ucast (v OR B), ucast (drop_bit 7 v OR B), ucast (drop_bit 14 v OR B), ucast (drop_bit 21 v)]
     else
       [ucast (v OR B), ucast (drop_bit 7 v OR B), ucast (drop_bit 14 v OR B),
        ucast (drop_bit 21 v OR B), ucast (drop_bit 28 v)])"

definition PutVarint32 :: "byte list \<Rightarrow> u32 \<Rightarrow> byte list" where
  "PutVarint32 dst v = dst @ EncodeVarint32 v"

lemma unat_drop_bit_7: "unat (drop_bit 7 (v :: u64)) = unat v div 128"
  by (simp add: drop_bit_eq_div unat_div_distrib)

function EncodeVarint64 :: "u64 \<Rightarrow> byte list" where
  "EncodeVarint64 v = (if v \<ge> 128 then ucast ((v AND (128 - 1)) OR 128) # EncodeVarint64 (drop_bit 7 v)
     else [ucast v])"
  by pat_completeness auto
termination
  by (relation "measure unat") (auto simp: unat_drop_bit_7 word_le_nat_alt)

declare EncodeVarint64.simps [simp del]

definition PutVarint64 :: "byte list \<Rightarrow> u64 \<Rightarrow> byte list" where
  "PutVarint64 dst v = dst @ EncodeVarint64 v"

text \<open>The loop of \<open>VarintLength\<close> with its counter \<open>len\<close>.\<close>

function VarintLength_loop :: "nat \<Rightarrow> u64 \<Rightarrow> nat" where
  "VarintLength_loop len v = (if v \<ge> 128 then VarintLength_loop (len + 1) (drop_bit 7 v) else len)"
  by pat_completeness auto
termination
  by (relation "measure (unat \<circ> snd)") (auto simp: unat_drop_bit_7 word_le_nat_alt)

declare VarintLength_loop.simps [simp del]

definition VarintLength :: "u64 \<Rightarrow> nat" where
  "VarintLength v = VarintLength_loop 1 v"

text \<open>The two loops over \<open>shift = 0, 7, 14, \<dots>\<close>, of which the 32-bit one ends after shift 28 and the
  64-bit one after shift 63.\<close>

function GetVarint32PtrFallback_loop :: "nat \<Rightarrow> u32 \<Rightarrow> slice \<Rightarrow> (u32 \<times> slice) option" where
  "GetVarint32PtrFallback_loop shift result p =
     (if shift \<le> 28 \<and> p \<noteq> [] then
        let byte = (ucast (hd p) :: u32); p1 = tl p in
        if byte AND 128 \<noteq> 0
        then GetVarint32PtrFallback_loop (shift + 7) (result OR push_bit shift (byte AND 127)) p1
        else Some (result OR push_bit shift byte, p1)
      else None)"
  by pat_completeness auto
termination
  by (relation "measure (\<lambda>(_, _, p). length p)") auto

declare GetVarint32PtrFallback_loop.simps [simp del]

definition GetVarint32PtrFallback :: "slice \<Rightarrow> (u32 \<times> slice) option" where
  "GetVarint32PtrFallback p = GetVarint32PtrFallback_loop 0 0 p"

definition GetVarint32Ptr :: "slice \<Rightarrow> (u32 \<times> slice) option" where
  "GetVarint32Ptr p =
     (if p \<noteq> [] \<and> (ucast (hd p) :: u32) AND 128 = 0 then Some (ucast (hd p), tl p)
      else GetVarint32PtrFallback p)"

definition GetVarint32 :: "slice \<Rightarrow> (u32 \<times> slice) option" where
  "GetVarint32 input = GetVarint32Ptr input"

function GetVarint64Ptr_loop :: "nat \<Rightarrow> u64 \<Rightarrow> slice \<Rightarrow> (u64 \<times> slice) option" where
  "GetVarint64Ptr_loop shift result p =
     (if shift \<le> 63 \<and> p \<noteq> [] then
        let byte = (ucast (hd p) :: u64); p1 = tl p in
        if byte AND 128 \<noteq> 0
        then GetVarint64Ptr_loop (shift + 7) (result OR push_bit shift (byte AND 127)) p1
        else Some (result OR push_bit shift byte, p1)
      else None)"
  by pat_completeness auto
termination
  by (relation "measure (\<lambda>(_, _, p). length p)") auto

declare GetVarint64Ptr_loop.simps [simp del]

definition GetVarint64Ptr :: "slice \<Rightarrow> (u64 \<times> slice) option" where
  "GetVarint64Ptr p = GetVarint64Ptr_loop 0 0 p"

definition GetVarint64 :: "slice \<Rightarrow> (u64 \<times> slice) option" where
  "GetVarint64 input = GetVarint64Ptr input"

subsection \<open>Length-prefixed strings\<close>

text \<open>The length of a slice is a \<open>size_t\<close> that \<open>PutVarint32\<close> takes as a \<open>uint32_t\<close>. The pointer
  variant of the parser compares \<open>p + len\<close> with \<open>limit\<close>, the slice variant the sizes.\<close>

definition PutLengthPrefixedSlice :: "byte list \<Rightarrow> slice \<Rightarrow> byte list" where
  "PutLengthPrefixedSlice dst v = PutVarint32 dst (word_of_nat (length v)) @ v"

definition GetLengthPrefixedSlicePtr :: "slice \<Rightarrow> (slice \<times> slice) option" where
  "GetLengthPrefixedSlicePtr p = (case GetVarint32Ptr p of
     None \<Rightarrow> None
   | Some (len, p1) \<Rightarrow>
       if unat len > length p1 then None else Some (take (unat len) p1, drop (unat len) p1))"

definition GetLengthPrefixedSlice :: "slice \<Rightarrow> (slice \<times> slice) option" where
  "GetLengthPrefixedSlice input = (case GetVarint32 input of
     None \<Rightarrow> None
   | Some (len, input1) \<Rightarrow>
       if length input1 \<ge> unat len then Some (take (unat len) input1, drop (unat len) input1) else None)"

subsection \<open>Fixed-length numbers: facts\<close>

lemma length_EncodeFixed [simp]: "length (EncodeFixed32 v) = 4" "length (EncodeFixed64 w) = 8"
  by (simp_all add: EncodeFixed32_def EncodeFixed64_def)

lemma DecodeFixed32_Encode [simp]: "DecodeFixed32 (EncodeFixed32 v @ rest) = Some v"
  using unat_u32_less [of v] by (simp add: DecodeFixed32_def EncodeFixed32_def)

lemma DecodeFixed64_Encode [simp]: "DecodeFixed64 (EncodeFixed64 v @ rest) = Some v"
  using unat_u64_less [of v] by (simp add: DecodeFixed64_def EncodeFixed64_def)

lemmas DecodeFixed_Encode_Nil [simp] =
  DecodeFixed32_Encode [where rest = "[]", simplified] DecodeFixed64_Encode [where rest = "[]", simplified]

text \<open>An array of fixed-length numbers.\<close>

lemma length_fixed_array [simp]: "length (concat (map EncodeFixed32 xs)) = 4 * length xs"
  by (induction xs) simp_all

lemma foldl_PutFixed32: "foldl PutFixed32 dst xs = dst @ concat (map EncodeFixed32 xs)"
  by (induction xs arbitrary: dst) (simp_all add: PutFixed32_def)

lemma DecodeFixed32_array:
  assumes "i < length xs" and "k = length pre + 4 * i"
  shows "DecodeFixed32 (drop k (pre @ concat (map EncodeFixed32 xs) @ post)) = Some (xs ! i)"
proof -
  obtain ys zs where xs: "xs = ys @ xs ! i # zs" "length ys = i" using id_take_nth_drop [OF assms(1)] assms(1)
    by (metis length_take min.absorb4)
  have "DecodeFixed32 (drop k (pre @ concat (map EncodeFixed32 (ys @ x # zs)) @ post)) = Some x" for x
    using xs(2) assms(2) by simp
  then show ?thesis using xs(1) by metis
qed

lemma EncodeFixed64_Decode: "length p = 8 \<Longrightarrow> DecodeFixed64 p = Some v \<Longrightarrow> EncodeFixed64 v = p"
proof -
  assume p: "length p = 8" and v: "DecodeFixed64 p = Some v"
  have "le_nat p < 256 ^ 8" using le_nat_less [of p] p by simp
  then have "unat (word_of_nat (le_nat p) :: u64) = le_nat p" by (intro unat_of_nat_small) simp
  with v p show ?thesis by (auto simp: DecodeFixed64_def EncodeFixed64_def le_bytes_le_nat)
qed

subsection \<open>Varints: encoder and parser against the wire format\<close>

lemma bit_128: "bit (128 :: 'a::semiring_bit_operations) n \<longleftrightarrow> n = 7 \<and> possible_bit TYPE('a) 7"
proof -
  have "(128 :: 'a) = push_bit 7 1" by (simp add: push_bit_eq_mult)
  then show ?thesis by (simp only: bit_push_bit_iff bit_1_iff) auto
qed

lemma bit_127: "bit (127 :: 'a::ring_bit_operations) n \<longleftrightarrow> n < 7 \<and> possible_bit TYPE('a) n"
proof -
  have "(127 :: 'a) = mask 7" by (simp add: mask_eq_exp_minus_1)
  then show ?thesis by (simp only: bit_mask_iff) auto
qed

lemma bit_255: "bit (0xff :: 'a::ring_bit_operations) n \<longleftrightarrow> n < 8 \<and> possible_bit TYPE('a) n"
proof -
  have "(0xff :: 'a) = mask 8" by (simp add: mask_eq_exp_minus_1)
  then show ?thesis by (simp only: bit_mask_iff) auto
qed

lemma enc_continue_byte:
  assumes "8 \<le> LENGTH('a::len)"
  shows "(ucast ((v :: 'a word) OR 128) :: byte) = word_of_nat (unat v mod 128 + 128)"
proof -
  have "(word_of_nat (unat v mod 128 + 128) :: byte) = word_of_nat (unat v mod 128) + 128" by simp
  also have "word_of_nat (unat v mod 128) = (take_bit 7 (ucast v) :: byte)"
  proof (rule iffD2 [OF word_unat_eq_iff])
    have "unat (word_of_nat (unat v mod 128) :: byte) = unat v mod 128"
      by (rule unat_of_nat_small) (simp add: less_trans [OF mod_less_divisor])
    also have "\<dots> = unat v mod 256 mod 128" by (simp add: mod_mod_cancel)
    also have "\<dots> = unat (take_bit 7 (ucast v) :: byte)"
      by (simp add: take_bit_eq_mod unat_mod_distrib unsigned_ucast_eq)
    finally show "unat (word_of_nat (unat v mod 128) :: byte) = unat (take_bit 7 (ucast v) :: byte)" .
  qed
  also have "take_bit 7 (ucast v) + 128 = (take_bit 7 (ucast v) OR 128 :: byte)"
    by (rule disjunctive_add_eq_or, rule bit_word_eqI) (auto simp: bit_simps bit_128)
  also have "\<dots> = ucast (v OR 128)"
    using assms by (intro bit_word_eqI) (auto simp: bit_simps bit_128)
  finally show ?thesis by simp
qed

lemma unat_drop_bit_u32:
  "unat (drop_bit n (v :: u32)) = unat v div 2 ^ n"
  by (simp only: drop_bit_eq_div [symmetric]) (rule bit_eqI, simp add: bit_simps)

lemma ucast_of_unat: "(ucast (v :: 'a::len word) :: byte) = word_of_nat (unat v)"
  by simp

text \<open>The five branches of \<open>EncodeVarint32\<close> and the loop of \<open>EncodeVarint64\<close> both produce the
  base-128 varint.\<close>

lemma EncodeVarint32_spec: "EncodeVarint32 v = varint_spec (unat v)"
proof -
  let ?n = "unat v"
  have B: "(ucast (drop_bit k v OR 128) :: byte) = word_of_nat (?n div 2 ^ k mod 128 + 128)" for k
    by (simp add: enc_continue_byte unat_drop_bit_u32)
  have B0: "(ucast (v OR 128) :: byte) = word_of_nat (?n mod 128 + 128)"
    by (simp add: enc_continue_byte)
  have L: "(ucast (drop_bit k v) :: byte) = word_of_nat (?n div 2 ^ k)" for k
    unfolding ucast_of_unat unat_drop_bit_u32 ..
  have lt: "v < push_bit 7 1 \<longleftrightarrow> ?n < 128" "v < push_bit 14 1 \<longleftrightarrow> ?n < 2 ^ 14"
    "v < push_bit 21 1 \<longleftrightarrow> ?n < 2 ^ 21" "v < push_bit 28 1 \<longleftrightarrow> ?n < 2 ^ 28"
    by (simp_all add: word_less_nat_alt push_bit_eq_mult)
  have top: "?n div 2 ^ 28 < 128" using unat_u32_less [of v] by (simp add: div_less_iff_less_mult)
  have step: "varint_spec (?n div 2 ^ k) =
      word_of_nat (?n div 2 ^ k mod 128 + 128) # varint_spec (?n div 2 ^ (k + 7))"
    if "2 ^ (k + 7) \<le> ?n" for k
  proof -
    have "128 \<le> ?n div 2 ^ k" using that by (simp add: less_eq_div_iff_mult_less_eq power_add)
    then show ?thesis by (simp add: varint_spec_big div_mult2_eq [symmetric] power_add)
  qed
  have step0: "varint_spec ?n = word_of_nat (?n mod 128 + 128) # varint_spec (?n div 2 ^ 7)"
    if "128 \<le> ?n" using that by (simp add: varint_spec_big)
  have small: "varint_spec (?n div 2 ^ k) = [word_of_nat (?n div 2 ^ k)]" if "?n < 2 ^ (k + 7)" for k
    using that by (simp add: less_mult_imp_div_less power_add mult.commute)
  consider "?n < 128" | "128 \<le> ?n" "?n < 2 ^ 14" | "2 ^ 14 \<le> ?n" "?n < 2 ^ 21"
    | "2 ^ 21 \<le> ?n" "?n < 2 ^ 28" | "2 ^ 28 \<le> ?n" by linarith
  then show ?thesis
  proof cases
    case 1
    then show ?thesis unfolding EncodeVarint32_def Let_def lt by simp
  next
    case 2
    then show ?thesis unfolding EncodeVarint32_def Let_def lt B B0 L
      using step0 small [of 7] by simp
  next
    case 3
    then show ?thesis unfolding EncodeVarint32_def Let_def lt B B0 L
      using step0 step [of 7] small [of 14] by simp
  next
    case 4
    then show ?thesis unfolding EncodeVarint32_def Let_def lt B B0 L
      using step0 step [of 7] step [of 14] small [of 21] by simp
  next
    case 5
    then show ?thesis unfolding EncodeVarint32_def Let_def lt B B0 L
      using step0 step [of 7] step [of 14] step [of 21] varint_spec_small [OF top] by simp
  qed
qed

lemma EncodeVarint64_spec: "EncodeVarint64 v = varint_spec (unat v)"
proof (induction v rule: EncodeVarint64.induct)
  case (1 v)
  have u: "128 \<le> v \<longleftrightarrow> 128 \<le> unat v" by (simp add: word_le_nat_alt)
  show ?case
  proof (cases "128 \<le> v")
    case True
    have "(ucast ((v AND 127) OR 128) :: byte) = word_of_nat (unat v mod 128 + 128)"
      using enc_continue_byte [of "v AND 127"] by (simp add: unat_u64_and_127)
    with True 1 u show ?thesis
      by (subst EncodeVarint64.simps) (simp add: varint_spec_big unat_drop_bit_7)
  next
    case False
    with u show ?thesis by (subst EncodeVarint64.simps) (auto simp: word_le_nat_alt)
  qed
qed

lemma length_EncodeVarint32: "length (EncodeVarint32 v) \<le> 5"
  using length_varint_spec [of "unat v" 5] unat_u32_less [of v] by (simp add: EncodeVarint32_spec)

lemma length_EncodeVarint64: "length (EncodeVarint64 v) \<le> 10"
  using length_varint_spec [of "unat v" 10] unat_u64_less [of v] by (simp add: EncodeVarint64_spec)

lemma VarintLength_loop_spec: "VarintLength_loop n v + 1 = n + length (EncodeVarint64 v)"
proof (induction n v rule: VarintLength_loop.induct)
  case (1 n v)
  then show ?case
    by (cases "128 \<le> v") (simp_all add: VarintLength_loop.simps [of n v] EncodeVarint64.simps [of v])
qed

text \<open>One step of either parser, and what the loops return on every input: the value of the first
  varint, cut to the width of the result, when it has at most 5 (or 10) bytes.\<close>

lemma ucast_and_128:
  "8 \<le> LENGTH('a::len) \<Longrightarrow> ((ucast (b :: byte) :: 'a word) AND 128 = 0) \<longleftrightarrow> unat b < 128"
proof -
  assume l: "8 \<le> LENGTH('a)"
  have "(ucast b :: 'a word) AND 128 = ucast (b AND 128)"
    using l by (intro bit_word_eqI) (auto simp: bit_simps bit_128)
  moreover have "(ucast (b AND 128) :: 'a word) = 0 \<longleftrightarrow> b AND 128 = 0"
    using l by (simp add: unat_eq_0 [symmetric] del: unat_eq_0)
  ultimately have "((ucast b :: 'a word) AND 128 = 0) \<longleftrightarrow> (b AND 128 = 0)" by simp
  then show ?thesis by (simp add: and_128_zero_iff)
qed

lemma ucast_and_127: "(ucast (b :: byte) :: 'a::len word) AND 127 = ucast (b AND 127)"
  by (rule bit_word_eqI) (auto simp: bit_simps bit_127)

lemma varint_acc:
  "(result OR push_bit s (ucast (b AND 127))) OR push_bit (s + 7) (word_of_nat v) =
   result OR push_bit s (word_of_nat (unat (b :: byte) mod 128 + 128 * v) :: 'a::len word)"
  by (simp only: word_varint_step push_bit_or push_bit_push_bit or.assoc)

definition varint_upto :: "nat \<Rightarrow> slice \<Rightarrow> (nat \<times> slice) option" where
  "varint_upto n p = (case varint_parse p of
     Some (v, k) \<Rightarrow> if k \<le> n then Some (v, drop k p) else None | None \<Rightarrow> None)"

lemma varint_upto_0 [simp]: "varint_upto 0 p = None"
  by (auto simp: varint_upto_def split: option.splits dest: varint_parse_take)

lemma varint_upto_Nil [simp]: "varint_upto n [] = None"
  by (simp add: varint_upto_def)

lemma varint_upto_Cons:
  "varint_upto (Suc n) (b # p) = (if unat b < 128 then Some (unat b, p)
     else map_option (\<lambda>(v, q). (unat b mod 128 + 128 * v, q)) (varint_upto n p))"
  by (auto simp: varint_upto_def split: option.splits)

lemma varint_upto_spec:
  "length (varint_spec v) \<le> n \<Longrightarrow> varint_upto n (varint_spec v @ rest) = Some (v, rest)"
  by (simp add: varint_upto_def varint_parse_spec)

lemma varint_upto_length: "varint_upto n p = Some (v, q) \<Longrightarrow> length q < length p"
  by (auto simp: varint_upto_def split: option.splits if_splits dest!: varint_parse_take)

lemma GetVarint32_loop_spec:
  "GetVarint32PtrFallback_loop (7 * i) r p =
     map_option (\<lambda>(v, q). (r OR push_bit (7 * i) (word_of_nat v), q)) (varint_upto (5 - i) p)"
proof (induction p arbitrary: i r)
  case Nil
  show ?case by (simp add: GetVarint32PtrFallback_loop.simps [of "7 * i" r "[]"])
next
  case (Cons b p)
  show ?case
  proof (cases "i \<le> 4")
    case False
    then show ?thesis by (simp add: GetVarint32PtrFallback_loop.simps [of "7 * i"])
  next
    case True
    then obtain j where j: "5 - i = Suc j" "5 - Suc i = j" by (cases "5 - i") auto
    have s: "7 * i + 7 = 7 * Suc i" by simp
    show ?thesis
      unfolding GetVarint32PtrFallback_loop.simps [of "7 * i"] Let_def list.sel j(1) varint_upto_Cons s
        Cons.IH j(2) ucast_and_127
      using True varint_acc [of r "7 * i" b, unfolded s]
      by (cases "varint_upto j p") (auto simp: ucast_and_128)
  qed
qed

lemma GetVarint64_loop_spec:
  "GetVarint64Ptr_loop (7 * i) r p =
     map_option (\<lambda>(v, q). (r OR push_bit (7 * i) (word_of_nat v), q)) (varint_upto (10 - i) p)"
proof (induction p arbitrary: i r)
  case Nil
  show ?case by (simp add: GetVarint64Ptr_loop.simps [of "7 * i" r "[]"])
next
  case (Cons b p)
  show ?case
  proof (cases "i \<le> 9")
    case False
    then show ?thesis by (simp add: GetVarint64Ptr_loop.simps [of "7 * i"])
  next
    case True
    then obtain j where j: "10 - i = Suc j" "10 - Suc i = j" by (cases "10 - i") auto
    have s: "7 * i + 7 = 7 * Suc i" by simp
    show ?thesis
      unfolding GetVarint64Ptr_loop.simps [of "7 * i"] Let_def list.sel j(1) varint_upto_Cons s
        Cons.IH j(2) ucast_and_127
      using True varint_acc [of r "7 * i" b, unfolded s]
      by (cases "varint_upto j p") (auto simp: ucast_and_128)
  qed
qed

lemma GetVarint32_spec:
  "GetVarint32 p = map_option (\<lambda>(v, q). (word_of_nat v, q)) (varint_upto 5 p)"
proof -
  have "GetVarint32PtrFallback p = map_option (\<lambda>(v, q). (word_of_nat v, q)) (varint_upto 5 p)"
    using GetVarint32_loop_spec [of 0 0 p] by (simp add: GetVarint32PtrFallback_def)
  moreover have "varint_upto 5 (b # q) = Some (unat b, q)" if "unat b < 128" for b q
    using varint_upto_Cons [of 4 b q] that by simp
  ultimately show ?thesis
    by (cases p) (simp_all add: GetVarint32_def GetVarint32Ptr_def ucast_and_128)
qed

lemma GetVarint64_spec:
  "GetVarint64 p = map_option (\<lambda>(v, q). (word_of_nat v, q)) (varint_upto 10 p)"
  using GetVarint64_loop_spec [of 0 0 p] by (simp add: GetVarint64_def GetVarint64Ptr_def)

lemma GetVarint32_Encode [simp]: "GetVarint32 (EncodeVarint32 v @ rest) = Some (v, rest)"
  using length_EncodeVarint32 [of v]
  by (simp add: GetVarint32_spec EncodeVarint32_spec varint_upto_spec)

lemma GetVarint64_Encode [simp]: "GetVarint64 (EncodeVarint64 v @ rest) = Some (v, rest)"
  using length_EncodeVarint64 [of v]
  by (simp add: GetVarint64_spec EncodeVarint64_spec varint_upto_spec)

lemma GetLengthPrefixedSlicePtr_eq: "GetLengthPrefixedSlicePtr p = GetLengthPrefixedSlice p"
  by (auto simp: GetLengthPrefixedSlicePtr_def GetLengthPrefixedSlice_def GetVarint32_def
      split: option.splits)

lemma GetLengthPrefixedSlice_Put [simp]:
  assumes "length v < 2 ^ 32"
  shows "GetLengthPrefixedSlice (EncodeVarint32 (word_of_nat (length v)) @ v @ rest) = Some (v, rest)"
  using unat_of_nat_small [where 'a = 32, of "length v"] assms by (simp add: GetLengthPrefixedSlice_def)

lemma GetLengthPrefixedSlice_length:
  "GetLengthPrefixedSlice p = Some (v, q) \<Longrightarrow> length v + length q < length p"
  by (auto simp: GetLengthPrefixedSlice_def GetVarint32_spec split: option.splits if_splits
      dest!: varint_upto_length)

subsection \<open>Properties\<close>

text \<open>(C38) What \<open>PutVarint32\<close> and \<open>PutVarint64\<close> append is read back by \<open>GetVarint32\<close> and
  \<open>GetVarint64\<close>, which leave exactly the bytes after it; the 32-bit encoding fits the 5 bytes and the
  64-bit one the 10 bytes of their local buffers, and \<open>VarintLength\<close> is the number of bytes
  appended.\<close>

theorem leveldb_varint_roundtrip:
  "GetVarint32 (drop (length dst) (PutVarint32 dst v) @ rest) = Some (v, rest) \<and>
   GetVarint64 (drop (length dst) (PutVarint64 dst w) @ rest) = Some (w, rest) \<and>
   length (EncodeVarint32 v) \<le> 5 \<and> length (EncodeVarint64 w) \<le> 10 \<and>
   VarintLength w = length (EncodeVarint64 w)"
  using VarintLength_loop_spec [of 1 w]
  by (simp add: PutVarint32_def PutVarint64_def length_EncodeVarint32 length_EncodeVarint64 VarintLength_def)

text \<open>(C39) The parser with the one-byte fast path on every input: \<open>GetVarint32\<close> succeeds exactly when
  the input starts with a varint of at most 5 bytes, the value is that of the varint modulo
  \<open>2 ^ 32\<close> (excess high bits are dropped without an error), and the rest is what follows it.\<close>

theorem GetVarint32_exact:
  "GetVarint32 p = (case varint_parse p of
     Some (v, k) \<Rightarrow> if k \<le> 5 then Some (word_of_nat v, drop k p) else None
   | None \<Rightarrow> None)"
  by (simp add: GetVarint32_spec varint_upto_def split: option.splits)



end
