(* ===== verification/Ldb_Slice.thy ===== *)
theory Ldb_Slice
  imports Ldb_Coding
begin

text \<open>
  \<open>include/leveldb/slice.h\<close> and \<open>include/leveldb/status.h\<close> with \<open>util/status.cc\<close>: the operations on
  byte slices, and the error values that the leveldb operations return. Where an \<open>assert\<close> of the
  source fails the operation has no result (\<open>None\<close>).
\<close>

subsection \<open>Slices\<close>

text \<open>\<open>memcmp\<close> of the C library compares bytes as unsigned numbers; only the sign of its result is
  used.\<close>

fun memcmp :: "byte list \<Rightarrow> byte list \<Rightarrow> int" where
  "memcmp (x # xs) (y # ys) = (if x = y then memcmp xs ys else if x < y then - 1 else 1)"
| "memcmp _ _ = 0"

definition slice_index :: "slice \<Rightarrow> nat \<Rightarrow> byte option" where
  "slice_index s n = (if n < length s then Some (s ! n) else None)"

definition remove_prefix :: "nat \<Rightarrow> slice \<Rightarrow> slice option" where
  "remove_prefix n s = (if n \<le> length s then Some (drop n s) else None)"

definition slice_compare :: "slice \<Rightarrow> slice \<Rightarrow> int" where
  "slice_compare a b =
     (let min_len = (if length a < length b then length a else length b);
          r = memcmp (take min_len a) (take min_len b)
      in if r = 0 then (if length a < length b then - 1 else if length a > length b then 1 else r)
         else r)"

definition starts_with :: "slice \<Rightarrow> slice \<Rightarrow> bool" where
  "starts_with s x \<longleftrightarrow> length s \<ge> length x \<and> memcmp (take (length x) s) x = 0"

definition slice_eq :: "slice \<Rightarrow> slice \<Rightarrow> bool" where
  "slice_eq x y \<longleftrightarrow> length x = length y \<and> memcmp x y = 0"

lemma memcmp_eq_0: "length x = length y \<Longrightarrow> memcmp x y = 0 \<longleftrightarrow> x = y"
  by (induction x y rule: memcmp.induct) auto

lemma slice_eq_iff [simp]: "slice_eq x y \<longleftrightarrow> x = y"
  by (auto simp: slice_eq_def memcmp_eq_0)

lemma starts_with_iff: "starts_with s x \<longleftrightarrow> (\<exists>r. s = x @ r)"
proof -
  have "starts_with s x \<longleftrightarrow> length x \<le> length s \<and> take (length x) s = x"
    using memcmp_eq_0 [of "take (length x) s" x] by (auto simp: starts_with_def min_def)
  also have "\<dots> \<longleftrightarrow> (\<exists>r. s = x @ r)"
    by (metis append_eq_conv_conj append_take_drop_id le_add1 length_append)
  finally show ?thesis .
qed

lemma slice_compare_simps [simp]:
  "slice_compare [] [] = 0" "slice_compare [] (y # ys) = - 1" "slice_compare (x # xs) [] = 1"
  "slice_compare (x # xs) (y # ys) = (if x = y then slice_compare xs ys else if x < y then - 1 else 1)"
  by (auto simp: slice_compare_def Let_def)

lemma slice_compare_eq_0: "slice_compare a b = 0 \<longleftrightarrow> a = b"
proof (induction a arbitrary: b)
  case Nil
  show ?case by (cases b) auto
next
  case (Cons x a)
  then show ?case by (cases b) auto
qed

lemma slice_compare_refl [simp]: "slice_compare a a = 0"
  by (simp add: slice_compare_eq_0)

lemma slice_compare_flip: "slice_compare b a = - slice_compare a b"
proof (induction a arbitrary: b)
  case Nil
  show ?case by (cases b) auto
next
  case (Cons x a)
  then show ?case by (cases b) auto
qed

lemma slice_compare_trans:
  "slice_compare a b < 0 \<Longrightarrow> slice_compare b c < 0 \<Longrightarrow> slice_compare a c < 0"
proof (induction a arbitrary: b c)
  case Nil
  then show ?case by (cases b; cases c) auto
next
  case (Cons x a)
  then obtain y b' z c' where "b = y # b'" "c = z # c'"
    by (cases b; cases c) auto
  with Cons show ?case by (auto split: if_splits)
qed

lemma slice_compare_append: "slice_compare (p @ a) (p @ b) = slice_compare a b"
  by (induction p) auto

subsection \<open>Status\<close>

datatype StatusCode = kOk | kNotFound | kCorruption | kNotSupported | kInvalidArgument | kIOError

fun code_num :: "StatusCode \<Rightarrow> byte" where
  "code_num kOk = 0"
| "code_num kNotFound = 1"
| "code_num kCorruption = 2"
| "code_num kNotSupported = 3"
| "code_num kInvalidArgument = 4"
| "code_num kIOError = 5"

text \<open>\<open>state_\<close> is null for a success and otherwise the array of the length, the code and the message.\<close>

type_synonym Status = "byte list option"

definition ascii :: "string \<Rightarrow> byte list" where
  "ascii s = map (\<lambda>c. word_of_nat (of_char c)) s"

definition Status_OK :: Status where
  "Status_OK = None"

definition Status_new :: "StatusCode \<Rightarrow> slice \<Rightarrow> slice \<Rightarrow> Status option" where
  "Status_new code msg msg2 = (if code = kOk then None else
     (let len1 = (word_of_nat (length msg) :: u32); len2 = (word_of_nat (length msg2) :: u32);
          siz = len1 + (if len2 \<noteq> 0 then 2 + len2 else 0)
      in Some (Some (EncodeFixed32 siz @ [code_num code] @ take (unat len1) msg @
           (if len2 \<noteq> 0 then ascii '': '' @ take (unat len2) msg2 else [])))))"

definition Status_code :: "Status \<Rightarrow> byte" where
  "Status_code s = (case s of None \<Rightarrow> code_num kOk | Some st \<Rightarrow> st ! 4)"

definition Status_ok :: "Status \<Rightarrow> bool" where
  "Status_ok s \<longleftrightarrow> s = None"

definition IsNotFound :: "Status \<Rightarrow> bool" where
  "IsNotFound s \<longleftrightarrow> Status_code s = code_num kNotFound"

definition IsCorruption :: "Status \<Rightarrow> bool" where
  "IsCorruption s \<longleftrightarrow> Status_code s = code_num kCorruption"

definition IsIOError :: "Status \<Rightarrow> bool" where
  "IsIOError s \<longleftrightarrow> Status_code s = code_num kIOError"

text \<open>The message of an error: \<open>length\<close> bytes from \<open>state_ + 5\<close>.\<close>

definition Status_message :: "Status \<Rightarrow> byte list option" where
  "Status_message s = (case s of None \<Rightarrow> Some [] | Some st \<Rightarrow> do {
     len \<leftarrow> DecodeFixed32 st;
     if 5 + unat len \<le> length st then Some (take (unat len) (drop 5 st)) else None })"

definition Status_ToString :: "Status \<Rightarrow> byte list option" where
  "Status_ToString s = (case s of None \<Rightarrow> Some (ascii ''OK'') | Some st \<Rightarrow> do {
     msg \<leftarrow> Status_message s;
     let c = Status_code s in
     let t = (if c = 0 then ''OK'' else if c = 1 then ''NotFound: '' else if c = 2 then ''Corruption: ''
           else if c = 3 then ''Not implemented: '' else if c = 4 then ''Invalid argument: ''
           else ''IO error: '') in
     if c \<le> 5 then Some (ascii t @ msg) else None })"

definition IsNotSupportedError :: "Status \<Rightarrow> bool" where
  "IsNotSupportedError s \<longleftrightarrow> Status_code s = code_num kNotSupported"

definition IsInvalidArgument :: "Status \<Rightarrow> bool" where
  "IsInvalidArgument s \<longleftrightarrow> Status_code s = code_num kInvalidArgument"

text \<open>The constructors; the code is never \<open>kOk\<close>, so the assertion of the private one holds. Corruption
  and not-found statuses are built from one literal in the modelled operations.\<close>

definition NotSupported :: "slice \<Rightarrow> slice \<Rightarrow> Status" where
  "NotSupported msg msg2 = Option.bind (Status_new kNotSupported msg msg2) id"

definition InvalidArgument :: "slice \<Rightarrow> slice \<Rightarrow> Status" where
  "InvalidArgument msg msg2 = Option.bind (Status_new kInvalidArgument msg msg2) id"

definition Status_IOError :: "slice \<Rightarrow> slice \<Rightarrow> Status" where
  "Status_IOError msg msg2 = Option.bind (Status_new kIOError msg msg2) id"

definition Corruption :: "string \<Rightarrow> Status" where
  "Corruption msg = Option.bind (Status_new kCorruption (ascii msg) []) id"

definition NotFound :: "string \<Rightarrow> Status" where
  "NotFound msg = Option.bind (Status_new kNotFound (ascii msg) []) id"

lemma Status_OK_ok [simp]: "Status_ok Status_OK" "Status_ok None" "\<not> Status_ok (Some st)"
  by (simp_all add: Status_ok_def Status_OK_def)

lemma Corruption_not_ok [simp]: "\<not> Status_ok (Corruption msg)" "Corruption msg \<noteq> Status_OK"
    "Status_OK \<noteq> Corruption msg"
  by (simp_all add: Corruption_def Status_new_def Let_def Status_ok_def Status_OK_def)

lemma IOError_not_ok [simp]: "\<not> Status_ok (Status_IOError a b)" "Status_IOError a b \<noteq> Status_OK"
  by (simp_all add: Status_IOError_def Status_new_def Let_def Status_ok_def Status_OK_def)

text \<open>The message of a status with two parts, when their lengths fit 32 bits.\<close>

lemma Status_new_message:
  assumes "code \<noteq> kOk" and "length msg + length msg2 + 2 < 2 ^ 32"
  shows "\<exists>s. Status_new code msg msg2 = Some s \<and> Status_code s = code_num code \<and>
    Status_message s = Some (msg @ (if msg2 = [] then [] else ascii '': '' @ msg2))"
proof -
  let ?siz = "length msg + (if msg2 = [] then 0 else 2 + length msg2)"
  let ?body = "msg @ (if msg2 = [] then [] else ascii '': '' @ msg2)"
  have u: "unat (word_of_nat (length msg) :: u32) = length msg"
    "unat (word_of_nat (length msg2) :: u32) = length msg2"
    by (rule unat_of_nat_small, use assms(2) in simp)+
  have z: "(word_of_nat (length msg2) :: u32) = 0 \<longleftrightarrow> msg2 = []"
    using u(2) by (metis length_0_conv unsigned_0 unat_eq_0)
  have us: "unat (word_of_nat ?siz :: u32) = ?siz"
    by (rule unat_of_nat_small) (use assms(2) in auto)
  have body: "length ?body = ?siz" by (simp add: ascii_def)
  have "Status_new code msg msg2 = Some (Some (EncodeFixed32 (word_of_nat ?siz) @ [code_num code] @ ?body))"
    using assms(1) u z by (auto simp: Status_new_def Let_def)
  moreover have "Status_message (Some (EncodeFixed32 (word_of_nat ?siz) @ [code_num code] @ ?body)) = Some ?body"
    using us body by (simp add: Status_message_def del: of_nat_add)
  ultimately show ?thesis by (auto simp: Status_code_def nth_append)
qed

end
