(* ===== verification/Ldb_Comparator.thy ===== *)
theory Ldb_Comparator
  imports Ldb_Slice
begin

text \<open>
  \<open>include/leveldb/comparator.h\<close> and \<open>util/comparator.cc\<close>: the contract of a \<open>Comparator\<close> as a locale
  and the bytewise comparator that provides it. A comparator may have no result (\<open>None\<close>) on keys
  outside its domain \<open>ok\<close>; the internal-key comparator of \<open>dbformat.cc\<close> is such a one.
\<close>

subsection \<open>The bytewise comparator\<close>

definition Bytewise_Compare :: "slice \<Rightarrow> slice \<Rightarrow> int option" where
  "Bytewise_Compare a b = Some (slice_compare a b)"

text \<open>The loop that finds the length of the common prefix.\<close>

fun common_prefix_length :: "byte list \<Rightarrow> byte list \<Rightarrow> nat" where
  "common_prefix_length (x # xs) (y # ys) = (if x = y then Suc (common_prefix_length xs ys) else 0)"
| "common_prefix_length _ _ = 0"

definition Bytewise_FindShortestSeparator :: "slice \<Rightarrow> slice \<Rightarrow> slice option" where
  "Bytewise_FindShortestSeparator start limit =
     (let min_length = min (length start) (length limit);
          diff_index = common_prefix_length start limit
      in if diff_index \<ge> min_length then Some start
         else let diff_byte = start ! diff_index in
           if diff_byte < 0xff \<and> unat diff_byte + 1 < unat (limit ! diff_index)
           then let start1 = take (diff_index + 1) (start[diff_index := diff_byte + 1])
                in if slice_compare start1 limit < 0 then Some start1 else None
           else Some start)"

text \<open>The loop of \<open>FindShortSuccessor\<close>: the first byte that is not \<open>0xff\<close> is incremented and the key
  cut after it.\<close>

primrec short_successor :: "byte list \<Rightarrow> byte list option" where
  "short_successor [] = None"
| "short_successor (b # bs) = (if b \<noteq> 0xff then Some [b + 1] else map_option ((#) b) (short_successor bs))"

definition Bytewise_FindShortSuccessor :: "slice \<Rightarrow> slice option" where
  "Bytewise_FindShortSuccessor key = Some (case short_successor key of None \<Rightarrow> key | Some k \<Rightarrow> k)"

subsection \<open>The contract\<close>

definition cmp_lt :: "('k \<Rightarrow> 'k \<Rightarrow> int option) \<Rightarrow> 'k \<Rightarrow> 'k \<Rightarrow> bool" where
  "cmp_lt cmp a b \<longleftrightarrow> (case cmp a b of Some r \<Rightarrow> r < 0 | None \<Rightarrow> False)"

definition cmp_eq :: "('k \<Rightarrow> 'k \<Rightarrow> int option) \<Rightarrow> 'k \<Rightarrow> 'k \<Rightarrow> bool" where
  "cmp_eq cmp a b \<longleftrightarrow> cmp a b = Some 0"

text \<open>A comparator is a total preorder on its domain: it has a result there, equality is reflexive,
  exchanging the arguments changes the sign, and \<open>\<le>\<close> is transitive with strictness kept.\<close>

locale comparator =
  fixes cmp :: "'k \<Rightarrow> 'k \<Rightarrow> int option" and ok :: "'k \<Rightarrow> bool"
  assumes cmp_refl: "ok a \<Longrightarrow> cmp a a = Some 0"
    and cmp_flip: "ok a \<Longrightarrow> ok b \<Longrightarrow> \<exists>r s. cmp a b = Some r \<and> cmp b a = Some s \<and> sgn s = - sgn r"
    and cmp_trans: "ok a \<Longrightarrow> ok b \<Longrightarrow> ok c \<Longrightarrow> cmp a b = Some r \<Longrightarrow> r \<le> 0 \<Longrightarrow> cmp b c = Some s \<Longrightarrow>
      s \<le> 0 \<Longrightarrow> \<exists>t. cmp a c = Some t \<and> t \<le> 0 \<and> (t = 0 \<longrightarrow> r = 0 \<and> s = 0)"
begin

lemma cmp_cases:
  assumes "ok a" and "ok b"
  obtains (lt) r where "cmp a b = Some r" "r < 0" "cmp_lt cmp a b" "\<not> cmp_lt cmp b a" "\<not> cmp_eq cmp a b"
  | (eq) "cmp a b = Some 0" "cmp_eq cmp a b" "cmp_eq cmp b a" "\<not> cmp_lt cmp a b" "\<not> cmp_lt cmp b a"
  | (gt) r where "cmp a b = Some r" "r > 0" "cmp_lt cmp b a" "\<not> cmp_lt cmp a b" "\<not> cmp_eq cmp a b"
proof -
  obtain r s where rs: "cmp a b = Some r" "cmp b a = Some s" "sgn s = - sgn r"
    using cmp_flip [OF assms] by blast
  consider "r < 0" "0 < s" | "r = 0" "s = 0" | "0 < r" "s < 0"
    using rs(3) by (cases r "0 :: int" rule: linorder_cases; cases s "0 :: int" rule: linorder_cases) auto
  then show thesis by cases (use rs that in \<open>auto simp: cmp_lt_def cmp_eq_def\<close>)
qed

lemma cmp_lt_trans:
  "ok a \<Longrightarrow> ok b \<Longrightarrow> ok c \<Longrightarrow> cmp_lt cmp a b \<Longrightarrow> cmp_lt cmp b c \<Longrightarrow> cmp_lt cmp a c"
  using cmp_trans [of a b c] by (force simp: cmp_lt_def split: option.splits)

lemma cmp_eq_sym: "ok a \<Longrightarrow> ok b \<Longrightarrow> cmp_eq cmp a b \<Longrightarrow> cmp_eq cmp b a"
  by (rule cmp_cases [of a b]) auto

lemma cmp_eq_not_lt: "ok a \<Longrightarrow> ok b \<Longrightarrow> cmp_eq cmp a b \<Longrightarrow> \<not> cmp_lt cmp b a"
  by (rule cmp_cases [of a b]) auto

lemma cmp_lt_irrefl: "ok a \<Longrightarrow> \<not> cmp_lt cmp a a"
  by (simp add: cmp_lt_def cmp_refl)

lemma cmp_lt_asym: "ok a \<Longrightarrow> ok b \<Longrightarrow> cmp_lt cmp a b \<Longrightarrow> \<not> cmp_lt cmp b a"
  by (rule cmp_cases [of a b]) auto

lemma cmp_not_lt_trans:
  assumes "ok a" "ok b" "ok c" and "\<not> cmp_lt cmp b a" and "cmp_lt cmp b c"
  shows "cmp_lt cmp a c"
proof -
  obtain r where r: "cmp a b = Some r" "r \<le> 0"
    using assms by (cases rule: cmp_cases [OF assms(1,2)]) auto
  obtain s where s: "cmp b c = Some s" "s < 0"
    using assms(5) by (auto simp: cmp_lt_def split: option.splits)
  show ?thesis using cmp_trans [OF assms(1-3) r s(1)] s(2) by (force simp: cmp_lt_def)
qed

lemma cmp_lt_eq:
  assumes "ok a" "ok b" "ok c" and "cmp_lt cmp a b" and "cmp_eq cmp b c"
  shows "cmp_lt cmp a c"
  using assms cmp_trans [OF assms(1-3)] by (force simp: cmp_lt_def cmp_eq_def split: option.splits)

lemma cmp_lt_not_lt:
  assumes "ok a" "ok b" "ok c" and "cmp_lt cmp a b" and "\<not> cmp_lt cmp c b"
  shows "cmp_lt cmp a c"
  using assms(5) by (cases rule: cmp_cases [OF assms(2,3)]) (use assms cmp_lt_trans cmp_lt_eq in blast)+

end

text \<open>The two operations that shorten keys: a separator lies in \<open>[start, limit)\<close> when
  \<open>start < limit\<close>, and a successor is not below the key; both stay in the domain. The last law is
  what \<open>InternalKeyComparator\<close> relies on in addition: keys that compare equal are not separated.\<close>

locale slice_comparator = comparator cmp ok
  for cmp :: "byte list \<Rightarrow> byte list \<Rightarrow> int option" and ok :: "byte list \<Rightarrow> bool"

locale separating_comparator = slice_comparator +
  fixes sep :: "byte list \<Rightarrow> byte list \<Rightarrow> byte list option"
    and succ :: "byte list \<Rightarrow> byte list option"
  assumes sep_range: "ok s \<Longrightarrow> ok l \<Longrightarrow> cmp_lt cmp s l \<Longrightarrow>
      \<exists>t. sep s l = Some t \<and> ok t \<and> \<not> cmp_lt cmp t s \<and> cmp_lt cmp t l"
    and succ_range: "ok k \<Longrightarrow> \<exists>t. succ k = Some t \<and> ok t \<and> \<not> cmp_lt cmp t k"
    and sep_equal: "ok s \<Longrightarrow> ok l \<Longrightarrow> cmp_eq cmp s l \<Longrightarrow> sep s l = Some s"

subsection \<open>The bytewise comparator provides it\<close>

lemma cmp_lt_Bytewise [simp]: "cmp_lt Bytewise_Compare a b \<longleftrightarrow> slice_compare a b < 0"
  by (simp add: cmp_lt_def Bytewise_Compare_def)

lemma cmp_eq_Bytewise [simp]: "cmp_eq Bytewise_Compare a b \<longleftrightarrow> a = b"
  by (simp add: cmp_eq_def Bytewise_Compare_def slice_compare_eq_0)

lemma common_prefix_split:
  "common_prefix_length a b < min (length a) (length b) \<Longrightarrow>
   \<exists>p x xs y ys. a = p @ x # xs \<and> b = p @ y # ys \<and> x \<noteq> y \<and> common_prefix_length a b = length p"
proof (induction a b rule: common_prefix_length.induct)
  case (1 x xs y ys)
  show ?case
  proof (cases "x = y")
    case True
    with 1 obtain p u us v vs where "xs = p @ u # us" "ys = p @ v # vs" "u \<noteq> v"
      "common_prefix_length xs ys = length p" by auto
    with True show ?thesis by (intro exI [of _ "x # p"]) auto
  next
    case False
    then show ?thesis by (intro exI [of _ "[]"]) auto
  qed
qed auto

text \<open>What the separator is: the key itself, or the common prefix and one incremented byte.\<close>

lemma Bytewise_separator_cases:
  obtains (same) "Bytewise_FindShortestSeparator s l = Some s"
  | (cut) p x xs y ys where "s = p @ x # xs" "l = p @ y # ys" "unat x + 1 < unat y"
      "Bytewise_FindShortestSeparator s l = Some (p @ [x + 1])"
proof (cases "common_prefix_length s l < min (length s) (length l)")
  case False
  then have "min (length s) (length l) \<le> common_prefix_length s l" by (rule leI)
  then show thesis by (intro same) (simp add: Bytewise_FindShortestSeparator_def Let_def)
next
  case True
  then obtain p x xs y ys where sl: "s = p @ x # xs" "l = p @ y # ys" "x \<noteq> y"
    and n: "common_prefix_length s l = length p"
    using common_prefix_split by blast
  show thesis
  proof (cases "x < 0xff \<and> unat x + 1 < unat y")
    case False
    then show thesis using sl n
      by (intro same) (auto simp: Bytewise_FindShortestSeparator_def Let_def)
  next
    case lt: True
    then have "unat (x + 1) = unat x + 1"
      using unat_byte_less [of y] by (simp add: unat_word_ariths(1))
    then have "x + 1 < y" using lt by (simp add: word_less_nat_alt)
    then have "slice_compare (p @ [x + 1]) l < 0" by (auto simp: sl slice_compare_append)
    with sl n lt show thesis
      by (intro cut [of p x xs y ys]) (auto simp: Bytewise_FindShortestSeparator_def Let_def)
  qed
qed

lemma byte_incr_less: "unat (x :: byte) < 255 \<Longrightarrow> x < x + 1"
  using unat_byte_less [of x] by (simp add: word_less_nat_alt unat_word_ariths(1))

lemma short_successor_range: "short_successor k = Some t \<Longrightarrow> slice_compare k t < 0 \<and> length t \<le> length k"
proof (induction k arbitrary: t)
  case Nil
  then show ?case by simp
next
  case (Cons b k)
  show ?case
  proof (cases "b = 0xff")
    case True
    with Cons show ?thesis by auto
  next
    case False
    then have "unat b \<noteq> unat (0xff :: byte)" by (simp only: word_unat_eq_iff [symmetric] not_False_eq_True)
    then have "unat b < 255" using unat_byte_less [of b] by simp
    then have "b < b + 1" by (rule byte_incr_less)
    with Cons False show ?thesis by auto
  qed
qed

interpretation bw: separating_comparator Bytewise_Compare "\<lambda>_. True"
  Bytewise_FindShortestSeparator Bytewise_FindShortSuccessor
proof
  fix a b c :: slice and r s
  show "Bytewise_Compare a a = Some 0" by (simp add: Bytewise_Compare_def)
  show "\<exists>r s. Bytewise_Compare a b = Some r \<and> Bytewise_Compare b a = Some s \<and> sgn s = - sgn r"
    using slice_compare_flip [of b a] by (simp add: Bytewise_Compare_def sgn_minus)
  assume "Bytewise_Compare a b = Some r" "r \<le> 0" "Bytewise_Compare b c = Some s" "s \<le> 0"
  then show "\<exists>t. Bytewise_Compare a c = Some t \<and> t \<le> 0 \<and> (t = 0 \<longrightarrow> r = 0 \<and> s = 0)"
    using slice_compare_trans [of a b c] slice_compare_eq_0 [of a b] slice_compare_eq_0 [of b c]
    by (cases "r = 0"; cases "s = 0") (auto simp: Bytewise_Compare_def)
next
  fix s l :: slice
  assume lt: "cmp_lt Bytewise_Compare s l"
  show "\<exists>t. Bytewise_FindShortestSeparator s l = Some t \<and> True \<and> \<not> cmp_lt Bytewise_Compare t s \<and>
      cmp_lt Bytewise_Compare t l"
  proof (cases rule: Bytewise_separator_cases [of s l])
    case same
    with lt show ?thesis by simp
  next
    case (cut p x xs y ys)
    have "unat x < 255" using cut(3) unat_byte_less [of y] by simp
    then have "x < x + 1" "unat (x + 1) = unat x + 1"
      by (simp_all add: byte_incr_less unat_word_ariths(1))
    then have "x < x + 1" "x + 1 < y" using cut(3) by (simp_all add: word_less_nat_alt)
    with cut show ?thesis by (auto simp: slice_compare_append dest: order.asym)
  qed
next
  fix k :: slice
  show "\<exists>t. Bytewise_FindShortSuccessor k = Some t \<and> True \<and> \<not> cmp_lt Bytewise_Compare t k"
    using short_successor_range [of k] slice_compare_flip [of k]
    by (auto simp: Bytewise_FindShortSuccessor_def split: option.splits)
next
  fix s l :: slice
  assume "cmp_eq Bytewise_Compare s l"
  then show "Bytewise_FindShortestSeparator s l = Some s"
    by (cases rule: Bytewise_separator_cases [of s l]) auto
qed

end
