(* ===== verification/Ldb_Dbformat.thy ===== *)
theory Ldb_Dbformat
  imports Ldb_Comparator
begin

text \<open>
  \<open>db/dbformat.h\<close> and \<open>db/dbformat.cc\<close>: internal keys (a user key followed by eight bytes that hold a
  sequence number and a value type), their parser, the comparator that orders them by increasing
  user key and decreasing sequence number, and the lookup key of a memtable. \<open>None\<close> is a failed
  \<open>assert\<close>, except for \<open>ParseInternalKey\<close>, where it is the result \<open>false\<close>.
\<close>

type_synonym ValueType = byte
type_synonym SequenceNumber = u64

definition kTypeDeletion :: ValueType where "kTypeDeletion = 0x0"
definition kTypeValue :: ValueType where "kTypeValue = 0x1"
definition kValueTypeForSeek :: ValueType where "kValueTypeForSeek = kTypeValue"

definition kMaxSequenceNumber :: SequenceNumber where
  "kMaxSequenceNumber = push_bit 56 0x1 - 1"

record ParsedInternalKey =
  pik_user_key :: slice
  pik_sequence :: SequenceNumber
  pik_type :: ValueType

definition InternalKeyEncodingLength :: "ParsedInternalKey \<Rightarrow> nat" where
  "InternalKeyEncodingLength key = length (pik_user_key key) + 8"

definition PackSequenceAndType :: "u64 \<Rightarrow> ValueType \<Rightarrow> u64 option" where
  "PackSequenceAndType seq t =
     (if seq \<le> kMaxSequenceNumber \<and> t \<le> kValueTypeForSeek then Some (push_bit 8 seq OR ucast t) else None)"

definition AppendInternalKey :: "byte list \<Rightarrow> ParsedInternalKey \<Rightarrow> byte list option" where
  "AppendInternalKey result key = do {
     tag \<leftarrow> PackSequenceAndType (pik_sequence key) (pik_type key);
     Some (PutFixed64 (result @ pik_user_key key) tag) }"

definition ExtractUserKey :: "slice \<Rightarrow> slice option" where
  "ExtractUserKey internal_key =
     (if length internal_key \<ge> 8 then Some (take (length internal_key - 8) internal_key) else None)"

definition ExtractValueType :: "slice \<Rightarrow> ValueType option" where
  "ExtractValueType internal_key = (if length internal_key \<ge> 8 then do {
     num \<leftarrow> DecodeFixed64 (drop (length internal_key - 8) internal_key);
     Some (ucast (num AND 0xff)) } else None)"

definition ParseInternalKey :: "slice \<Rightarrow> ParsedInternalKey option" where
  "ParseInternalKey internal_key =
     (let n = length internal_key in
      if n < 8 then None else do {
        num \<leftarrow> DecodeFixed64 (drop (n - 8) internal_key);
        let c = (ucast (num AND 0xff) :: byte) in
        if c \<le> kTypeValue
        then Some \<lparr>pik_user_key = take (n - 8) internal_key, pik_sequence = drop_bit 8 num, pik_type = c\<rparr>
        else None })"

type_synonym compare_fun = "slice \<Rightarrow> slice \<Rightarrow> int option"

definition InternalKey_Compare :: "compare_fun \<Rightarrow> compare_fun" where
  "InternalKey_Compare user_Compare akey bkey = do {
     ua \<leftarrow> ExtractUserKey akey;
     ub \<leftarrow> ExtractUserKey bkey;
     r \<leftarrow> user_Compare ua ub;
     if r = 0 then do {
       anum \<leftarrow> DecodeFixed64 (drop (length akey - 8) akey);
       bnum \<leftarrow> DecodeFixed64 (drop (length bkey - 8) bkey);
       Some (if anum > bnum then - 1 else if anum < bnum then 1 else r) }
     else Some r }"

definition InternalKey_FindShortestSeparator ::
  "compare_fun \<Rightarrow> (slice \<Rightarrow> slice \<Rightarrow> slice option) \<Rightarrow> slice \<Rightarrow> slice \<Rightarrow> slice option" where
  "InternalKey_FindShortestSeparator user_Compare user_Sep start limit = do {
     user_start \<leftarrow> ExtractUserKey start;
     user_limit \<leftarrow> ExtractUserKey limit;
     tmp \<leftarrow> user_Sep user_start user_limit;
     r \<leftarrow> (if length tmp < length user_start then user_Compare user_start tmp else Some 0);
     if r < 0 then do {
       tag \<leftarrow> PackSequenceAndType kMaxSequenceNumber kValueTypeForSeek;
       let tmp1 = PutFixed64 tmp tag;
       c1 \<leftarrow> InternalKey_Compare user_Compare start tmp1;
       c2 \<leftarrow> InternalKey_Compare user_Compare tmp1 limit;
       if c1 < 0 \<and> c2 < 0 then Some tmp1 else None }
     else Some start }"

definition InternalKey_FindShortSuccessor ::
  "compare_fun \<Rightarrow> (slice \<Rightarrow> slice option) \<Rightarrow> slice \<Rightarrow> slice option" where
  "InternalKey_FindShortSuccessor user_Compare user_Succ key = do {
     user_key \<leftarrow> ExtractUserKey key;
     tmp \<leftarrow> user_Succ user_key;
     r \<leftarrow> (if length tmp < length user_key then user_Compare user_key tmp else Some 0);
     if r < 0 then do {
       tag \<leftarrow> PackSequenceAndType kMaxSequenceNumber kValueTypeForSeek;
       let tmp1 = PutFixed64 tmp tag;
       c \<leftarrow> InternalKey_Compare user_Compare key tmp1;
       if c < 0 then Some tmp1 else None }
     else Some key }"

text \<open>\<open>LookupKey\<close>: the bytes from \<open>start_\<close> to \<open>end_\<close> and the offset of \<open>kstart_\<close>. The buffer has
  \<open>usize + 13\<close> bytes (or 200 when that is enough); writing past it is undefined.\<close>

record LookupKey =
  lk_bytes :: "byte list"
  lk_kstart :: nat

definition LookupKey_new :: "slice \<Rightarrow> SequenceNumber \<Rightarrow> LookupKey option" where
  "LookupKey_new user_key s = do {
     let usize = length user_key;
     let needed = usize + 13;
     tag \<leftarrow> PackSequenceAndType s kValueTypeForSeek;
     let dst = EncodeVarint32 (word_of_nat (usize + 8));
     let bytes = dst @ user_key @ EncodeFixed64 tag;
     if length bytes \<le> (if needed \<le> 200 then 200 else needed)
     then Some \<lparr>lk_bytes = bytes, lk_kstart = length dst\<rparr> else None }"

definition memtable_key :: "LookupKey \<Rightarrow> slice" where
  "memtable_key lk = lk_bytes lk"

definition lookup_internal_key :: "LookupKey \<Rightarrow> slice" where
  "lookup_internal_key lk = drop (lk_kstart lk) (lk_bytes lk)"

definition lookup_user_key :: "LookupKey \<Rightarrow> slice" where
  "lookup_user_key lk = take (length (lk_bytes lk) - lk_kstart lk - 8) (drop (lk_kstart lk) (lk_bytes lk))"

subsection \<open>Tags: a sequence number and a type in 64 bits\<close>

lemma kMaxSequenceNumber_eq: "kMaxSequenceNumber = 0xFFFFFFFFFFFFFF"
  by (simp add: kMaxSequenceNumber_def)

lemma seq_le_max_iff: "seq \<le> kMaxSequenceNumber \<longleftrightarrow> unat seq < 2 ^ 56"
  by (auto simp: kMaxSequenceNumber_eq word_le_nat_alt)

lemma type_le_iff: "t \<le> kTypeValue \<longleftrightarrow> t = 0 \<or> t = 1"
proof -
  have "t \<le> 1 \<longleftrightarrow> unat t \<le> 1" by (simp add: word_le_nat_alt)
  also have "\<dots> \<longleftrightarrow> unat t = unat (0 :: byte) \<or> unat t = unat (1 :: byte)" by auto
  finally show ?thesis unfolding kTypeValue_def by (simp only: word_unat_eq_iff)
qed

lemma unat_pack:
  assumes "PackSequenceAndType seq t = Some tag"
  shows "unat tag = 256 * unat seq + unat t"
proof -
  have seq: "unat seq < 2 ^ 56" and tag: "tag = push_bit 8 seq OR ucast t"
    using assms by (auto simp: PackSequenceAndType_def seq_le_max_iff split: if_splits)
  have "push_bit 8 seq AND ucast t = (0 :: u64)"
    by (rule bit_word_eqI) (auto simp: bit_simps dest: bit_imp_le_length)
  then have "tag = push_bit 8 seq + ucast t" by (simp add: tag disjunctive_add_eq_or)
  also have "\<dots> = word_of_nat (256 * unat seq + unat t)" by (simp add: push_bit_eq_mult mult.commute)
  finally show ?thesis using seq unat_byte_less [of t] by (simp add: unat_of_nat_small del: of_nat_add of_nat_mult)
qed

lemma PackSequenceAndType_eq_Some:
  "seq \<le> kMaxSequenceNumber \<Longrightarrow> t \<le> kTypeValue \<Longrightarrow> \<exists>tag. PackSequenceAndType seq t = Some tag"
  by (simp add: PackSequenceAndType_def kValueTypeForSeek_def)

lemma unpack:
  assumes "PackSequenceAndType seq t = Some tag"
  shows "drop_bit 8 tag = seq" and "ucast (tag AND 0xff) = t"
proof -
  have u: "unat tag = 256 * unat seq + unat t" using assms by (rule unat_pack)
  have "unat (drop_bit 8 tag) = unat tag div 256" by (simp add: drop_bit_eq_div unat_div_distrib)
  also have "\<dots> = unat seq" using unat_byte_less [of t] by (simp add: u)
  finally show "drop_bit 8 tag = seq" by (simp add: word_unat_eq_iff)
  have "(ucast (tag AND 0xff) :: byte) = ucast tag"
    by (rule bit_word_eqI) (simp add: bit_simps bit_255)
  also have "\<dots> = word_of_nat (unat tag)" by simp
  also have "\<dots> = t"
    using unat_byte_less [of t] by (simp only: u word_unat_eq_iff unat_byte_of_nat) simp
  finally show "ucast (tag AND 0xff) = t" .
qed

subsection \<open>Internal keys\<close>

lemma ik_split:
  assumes "8 \<le> length k"
  obtains u num where "k = u @ EncodeFixed64 num"
proof -
  have d: "length (drop (length k - 8) k) = 8" using assms by simp
  then obtain num where "DecodeFixed64 (drop (length k - 8) k) = Some num"
    by (simp add: DecodeFixed64_def)
  then have "k = take (length k - 8) k @ EncodeFixed64 num"
    using EncodeFixed64_Decode [OF d] by simp
  then show thesis by (rule that)
qed

lemma ik_simps [simp]:
  "ExtractUserKey (u @ EncodeFixed64 num) = Some u"
  "DecodeFixed64 (drop (length u) (u @ EncodeFixed64 num)) = Some num"
  by (simp_all add: ExtractUserKey_def)

lemma InternalKey_Compare_split:
  "InternalKey_Compare cmp (u @ EncodeFixed64 a) (v @ EncodeFixed64 b) = do {
     r \<leftarrow> cmp u v;
     Some (if r = 0 then (if a > b then - 1 else if a < b then 1 else 0) else r) }"
  by (cases "cmp u v") (simp_all add: InternalKey_Compare_def)

lemma ParseInternalKey_split:
  "PackSequenceAndType seq t = Some tag \<Longrightarrow>
   ParseInternalKey (u @ EncodeFixed64 tag) = Some \<lparr>pik_user_key = u, pik_sequence = seq, pik_type = t\<rparr>"
  using unpack [of seq t tag]
  by (auto simp: ParseInternalKey_def Let_def PackSequenceAndType_def kValueTypeForSeek_def split: if_splits)

definition ik_ok :: "(slice \<Rightarrow> bool) \<Rightarrow> slice \<Rightarrow> bool" where
  "ik_ok ok k \<longleftrightarrow> 8 \<le> length k \<and> ok (take (length k - 8) k)"

lemma ik_ok_split [simp]: "ik_ok ok (u @ EncodeFixed64 num) \<longleftrightarrow> ok u"
  by (simp add: ik_ok_def)

lemma ik_okE:
  assumes "ik_ok ok k"
  obtains u num where "k = u @ EncodeFixed64 num" and "ok u"
  using assms ik_split [of k] by (metis ik_ok_def ik_ok_split)

text \<open>Over any comparator of user keys, the internal-key comparator is a comparator: the user key
  decides first, then the larger tag comes first.\<close>

lemma ik_lt_iff:
  "cmp_lt (InternalKey_Compare cmp) (u @ EncodeFixed64 a) (v @ EncodeFixed64 b) \<longleftrightarrow>
     cmp_lt cmp u v \<or> cmp_eq cmp u v \<and> b < a"
  by (cases "cmp u v") (auto simp: cmp_lt_def cmp_eq_def InternalKey_Compare_split)

lemma ik_eq_iff:
  "cmp_eq (InternalKey_Compare cmp) (u @ EncodeFixed64 a) (v @ EncodeFixed64 b) \<longleftrightarrow>
     cmp_eq cmp u v \<and> a = b"
  by (cases "cmp u v") (auto simp: cmp_eq_def InternalKey_Compare_split)

sublocale slice_comparator \<subseteq> ik: comparator "InternalKey_Compare cmp" "ik_ok ok"
proof
  fix a
  assume "ik_ok ok a"
  then show "InternalKey_Compare cmp a a = Some 0"
    by (elim ik_okE) (simp add: InternalKey_Compare_split cmp_refl)
next
  fix a b
  assume "ik_ok ok a" "ik_ok ok b"
  then obtain u x v y where ab: "a = u @ EncodeFixed64 x" "b = v @ EncodeFixed64 y"
    and ok: "ok u" "ok v" by (metis ik_okE)
  obtain r s where "cmp u v = Some r" "cmp v u = Some s" "sgn s = - sgn r"
    using cmp_flip [OF ok] by blast
  then show "\<exists>r s. InternalKey_Compare cmp a b = Some r \<and> InternalKey_Compare cmp b a = Some s \<and>
      sgn s = - sgn r"
    by (cases "r = 0") (auto simp: ab InternalKey_Compare_split sgn_0_0)
next
  fix a b c r s
  assume "ik_ok ok a" "ik_ok ok b" "ik_ok ok c"
    and ab: "InternalKey_Compare cmp a b = Some r" "r \<le> 0"
    and bc: "InternalKey_Compare cmp b c = Some s" "s \<le> 0"
  then obtain u x v y w z where k: "a = u @ EncodeFixed64 x" "b = v @ EncodeFixed64 y"
    "c = w @ EncodeFixed64 z" and ok: "ok u" "ok v" "ok w" by (metis ik_okE)
  obtain r' s' where uv: "cmp u v = Some r'" "r' \<le> 0" and vw: "cmp v w = Some s'" "s' \<le> 0"
    using ab bc by (auto simp: k InternalKey_Compare_split split: if_splits)
  obtain t where "cmp u w = Some t" "t \<le> 0" "t = 0 \<longrightarrow> r' = 0 \<and> s' = 0"
    using cmp_trans [OF ok uv vw] by blast
  then show "\<exists>t. InternalKey_Compare cmp a c = Some t \<and> t \<le> 0 \<and> (t = 0 \<longrightarrow> r = 0 \<and> s = 0)"
    using ab bc uv vw by (cases "t = 0") (auto simp: k InternalKey_Compare_split split: if_splits)
qed

text \<open>The shortened internal keys: the assertions of the source hold, the result lies where the
  contract says, and the comparator over a separating comparator is again one.\<close>

lemma max_tag:
  obtains tag where "PackSequenceAndType kMaxSequenceNumber kValueTypeForSeek = Some tag"
  by (simp add: PackSequenceAndType_def)

context separating_comparator
begin

lemma ik_sep_cases:
  assumes ok: "ok u" "ok v" and le: "cmp_lt cmp u v \<or> cmp_eq cmp u v"
  obtains (same) "InternalKey_FindShortestSeparator cmp sep (u @ EncodeFixed64 a) (v @ EncodeFixed64 b) =
      Some (u @ EncodeFixed64 a)"
  | (cut) t tag where "cmp_lt cmp u v" "ok t" "cmp_lt cmp u t" "cmp_lt cmp t v" "length t < length u"
      "InternalKey_FindShortestSeparator cmp sep (u @ EncodeFixed64 a) (v @ EncodeFixed64 b) =
        Some (t @ EncodeFixed64 tag)"
proof (cases "cmp_lt cmp u v")
  case False
  with le have "sep u v = Some u" using sep_equal ok by blast
  then show thesis by (intro same) (simp add: InternalKey_FindShortestSeparator_def)
next
  case True
  obtain t where t: "sep u v = Some t" "ok t" "\<not> cmp_lt cmp t u" "cmp_lt cmp t v"
    using sep_range [OF ok True] by blast
  obtain tag where tag: "PackSequenceAndType kMaxSequenceNumber kValueTypeForSeek = Some tag"
    by (rule max_tag)
  obtain r where r: "cmp u t = Some r" "cmp_lt cmp u t \<longleftrightarrow> r < 0"
    by (rule cmp_cases [OF ok(1) t(2)]) (auto simp: cmp_lt_def)
  show thesis
  proof (cases "length t < length u \<and> r < 0")
    case False
    then show thesis using t r
      by (intro same) (auto simp: InternalKey_FindShortestSeparator_def)
  next
    case lt: True
    then have "cmp_lt cmp u t" using r by simp
    then have "cmp_lt (InternalKey_Compare cmp) (u @ EncodeFixed64 a) (t @ EncodeFixed64 tag)"
      "cmp_lt (InternalKey_Compare cmp) (t @ EncodeFixed64 tag) (v @ EncodeFixed64 b)"
      using t by (simp_all add: ik_lt_iff)
    with lt t r tag True show thesis
      by (intro cut [of t tag])
        (auto simp: InternalKey_FindShortestSeparator_def PutFixed64_def cmp_lt_def Let_def split: option.splits)
  qed
qed

lemma ik_separating: "separating_comparator (InternalKey_Compare cmp) (ik_ok ok)
  (InternalKey_FindShortestSeparator cmp sep) (InternalKey_FindShortSuccessor cmp succ)"
proof (intro separating_comparator.intro separating_comparator_axioms.intro slice_comparator.intro
    ik.comparator_axioms)
  fix s l
  assume ok: "ik_ok ok s" "ik_ok ok l" and lt: "cmp_lt (InternalKey_Compare cmp) s l"
  from ok obtain u a v b where k: "s = u @ EncodeFixed64 a" "l = v @ EncodeFixed64 b"
    and uv: "ok u" "ok v" by (metis ik_okE)
  from lt have le: "cmp_lt cmp u v \<or> cmp_eq cmp u v" by (auto simp: k ik_lt_iff)
  consider (same) "InternalKey_FindShortestSeparator cmp sep s l = Some s"
    | (cut) t tag where "cmp_lt cmp u v" "ok t" "cmp_lt cmp u t" "cmp_lt cmp t v"
      "InternalKey_FindShortestSeparator cmp sep s l = Some (t @ EncodeFixed64 tag)"
    by (rule ik_sep_cases [where a = a and b = b, OF uv le]) (auto simp: k)
  then show "\<exists>t. InternalKey_FindShortestSeparator cmp sep s l = Some t \<and> ik_ok ok t \<and>
      \<not> cmp_lt (InternalKey_Compare cmp) t s \<and> cmp_lt (InternalKey_Compare cmp) t l"
  proof cases
    case same
    then show ?thesis using ok lt ik.cmp_lt_irrefl by (auto simp: k)
  next
    case (cut t tag)
    then have "ik_ok ok (t @ EncodeFixed64 tag)" by simp
    moreover have "cmp_lt (InternalKey_Compare cmp) s (t @ EncodeFixed64 tag)"
      using cut by (simp add: k ik_lt_iff)
    moreover have "cmp_lt (InternalKey_Compare cmp) (t @ EncodeFixed64 tag) l"
      using cut by (simp add: k ik_lt_iff)
    ultimately show ?thesis using cut(5) ik.cmp_lt_asym [OF ok(1)] by blast
  qed
next
  fix k
  assume ok: "ik_ok ok k"
  then obtain u a where k: "k = u @ EncodeFixed64 a" and u: "ok u" by (rule ik_okE)
  obtain t where t: "succ u = Some t" "ok t" "\<not> cmp_lt cmp t u" using succ_range [OF u] by blast
  obtain tag where tag: "PackSequenceAndType kMaxSequenceNumber kValueTypeForSeek = Some tag"
    by (rule max_tag)
  obtain r where r: "cmp u t = Some r" "cmp_lt cmp u t \<longleftrightarrow> r < 0"
    by (rule cmp_cases [OF u t(2)]) (auto simp: cmp_lt_def)
  show "\<exists>t. InternalKey_FindShortSuccessor cmp succ k = Some t \<and> ik_ok ok t \<and>
      \<not> cmp_lt (InternalKey_Compare cmp) t k"
  proof (cases "length t < length u \<and> r < 0")
    case False
    then have "InternalKey_FindShortSuccessor cmp succ k = Some k"
      using t r by (auto simp: k InternalKey_FindShortSuccessor_def)
    then show ?thesis using ok ik.cmp_lt_irrefl by blast
  next
    case True
    then have lt: "cmp_lt (InternalKey_Compare cmp) k (t @ EncodeFixed64 tag)"
      using r by (simp add: k ik_lt_iff)
    then have "InternalKey_FindShortSuccessor cmp succ k = Some (t @ EncodeFixed64 tag)"
      using True t r tag
      by (auto simp: k InternalKey_FindShortSuccessor_def PutFixed64_def cmp_lt_def Let_def split: option.splits)
    moreover have "ik_ok ok (t @ EncodeFixed64 tag)" using t by simp
    ultimately show ?thesis using lt ik.cmp_lt_asym [OF ok] by blast
  qed
next
  fix s l
  assume "ik_ok ok s" "ik_ok ok l" and eq: "cmp_eq (InternalKey_Compare cmp) s l"
  then obtain u a v b where k: "s = u @ EncodeFixed64 a" "l = v @ EncodeFixed64 b"
    and uv: "ok u" "ok v" by (metis ik_okE)
  with eq have "cmp_eq cmp u v" by (simp add: ik_eq_iff)
  with sep_equal uv show "InternalKey_FindShortestSeparator cmp sep s l = Some s"
    by (simp add: k InternalKey_FindShortestSeparator_def)
qed

end

interpretation ikbw: separating_comparator "InternalKey_Compare Bytewise_Compare" "ik_ok (\<lambda>_. True)"
  "InternalKey_FindShortestSeparator Bytewise_Compare Bytewise_FindShortestSeparator"
  "InternalKey_FindShortSuccessor Bytewise_Compare Bytewise_FindShortSuccessor"
  by (rule bw.ik_separating)

subsection \<open>Properties\<close>

text \<open>Internal keys round-trip: what \<open>AppendInternalKey\<close> appends for a sequence number below
  \<open>2 ^ 56\<close> and one of the two value types has the announced length and is parsed back exactly, and
  \<open>ExtractUserKey\<close> and \<open>ExtractValueType\<close> agree with the parser.\<close>

theorem internal_key_roundtrip:
  assumes "pik_sequence key \<le> kMaxSequenceNumber" and "pik_type key \<le> kTypeValue"
  shows "\<exists>k. AppendInternalKey [] key = Some k \<and> length k = InternalKeyEncodingLength key \<and>
    ParseInternalKey k = Some key \<and> ExtractUserKey k = Some (pik_user_key key) \<and>
    ExtractValueType k = Some (pik_type key)"
proof -
  obtain tag where tag: "PackSequenceAndType (pik_sequence key) (pik_type key) = Some tag"
    using PackSequenceAndType_eq_Some [OF assms] by blast
  show ?thesis
    using tag ParseInternalKey_split [OF tag, of "pik_user_key key"] unpack [OF tag]
    by (simp add: AppendInternalKey_def PutFixed64_def InternalKeyEncodingLength_def ExtractValueType_def)
qed

theorem internal_key_roundtrip_witness:
  "\<exists>k. AppendInternalKey [] \<lparr>pik_user_key = [107, 49], pik_sequence = 258, pik_type = 1\<rparr> = Some k \<and>
    length k = InternalKeyEncodingLength \<lparr>pik_user_key = [107, 49], pik_sequence = 258, pik_type = 1\<rparr> \<and>
    ParseInternalKey k = Some \<lparr>pik_user_key = [107, 49], pik_sequence = 258, pik_type = 1\<rparr> \<and>
    ExtractUserKey k = Some (pik_user_key \<lparr>pik_user_key = [107, 49], pik_sequence = 258, pik_type = 1\<rparr>) \<and>
    ExtractValueType k = Some (pik_type \<lparr>pik_user_key = [107, 49], pik_sequence = 258, pik_type = 1\<rparr>)"
  by (rule internal_key_roundtrip) (simp_all add: kMaxSequenceNumber_eq kTypeValue_def)

text \<open>(C34) The order of internal keys over the bytewise comparator: increasing user keys, and for the
  same user key decreasing sequence numbers, so that the newest entry of a key comes first.\<close>

theorem internal_key_order:
  assumes "AppendInternalKey [] p = Some a" and "AppendInternalKey [] q = Some b"
  shows "cmp_lt (InternalKey_Compare Bytewise_Compare) a b \<longleftrightarrow>
    slice_compare (pik_user_key p) (pik_user_key q) < 0 \<or>
    pik_user_key p = pik_user_key q \<and>
      (pik_sequence p > pik_sequence q \<or> pik_sequence p = pik_sequence q \<and> pik_type p > pik_type q)"
proof -
  obtain x y where x: "PackSequenceAndType (pik_sequence p) (pik_type p) = Some x"
      "a = pik_user_key p @ EncodeFixed64 x"
    and y: "PackSequenceAndType (pik_sequence q) (pik_type q) = Some y"
      "b = pik_user_key q @ EncodeFixed64 y"
    using assms by (auto simp: AppendInternalKey_def PutFixed64_def)
  have "y < x \<longleftrightarrow> unat y < unat x" by (simp add: word_less_nat_alt)
  also have "\<dots> \<longleftrightarrow> unat (pik_sequence q) < unat (pik_sequence p) \<or>
      unat (pik_sequence q) = unat (pik_sequence p) \<and> unat (pik_type q) < unat (pik_type p)"
    using unat_byte_less [of "pik_type p"] unat_byte_less [of "pik_type q"]
    unfolding unat_pack [OF x(1)] unat_pack [OF y(1)] by linarith
  finally show ?thesis
    by (auto simp: x(2) y(2) ik_lt_iff word_less_nat_alt simp flip: word_unat_eq_iff)
qed

theorem internal_key_order_witness:
  "cmp_lt (InternalKey_Compare Bytewise_Compare) [107, 1, 2, 0, 0, 0, 0, 0, 0] [107, 1, 1, 0, 0, 0, 0, 0, 0] \<longleftrightarrow>
    slice_compare [107] [107] < 0 \<or>
    [107 :: byte] = [107] \<and> ((2 :: u64) > 1 \<or> (2 :: u64) = 1 \<and> (1 :: byte) > 1)"
proof -
  have "AppendInternalKey [] \<lparr>pik_user_key = [107], pik_sequence = 2, pik_type = 1\<rparr> =
      Some [107, 1, 2, 0, 0, 0, 0, 0, 0]"
    "AppendInternalKey [] \<lparr>pik_user_key = [107], pik_sequence = 1, pik_type = 1\<rparr> =
      Some [107, 1, 1, 0, 0, 0, 0, 0, 0]"
    by (simp_all add: AppendInternalKey_def PackSequenceAndType_def kMaxSequenceNumber_eq
        kValueTypeForSeek_def kTypeValue_def PutFixed64_def EncodeFixed64_def le_bytes_8)
  from internal_key_order [OF this] show ?thesis by simp
qed

text \<open>(C35) Shortening an internal key: for \<open>start < limit\<close> the assertions of
  \<open>FindShortestSeparator\<close> hold and the result lies in \<open>[start, limit)\<close>.\<close>

theorem internal_separator_in_range:
  assumes "8 \<le> length start" and "8 \<le> length limit"
    and "cmp_lt (InternalKey_Compare Bytewise_Compare) start limit"
  shows "\<exists>t. InternalKey_FindShortestSeparator Bytewise_Compare Bytewise_FindShortestSeparator start limit =
      Some t \<and> \<not> cmp_lt (InternalKey_Compare Bytewise_Compare) t start \<and>
    cmp_lt (InternalKey_Compare Bytewise_Compare) t limit"
  using ikbw.sep_range [OF _ _ assms(3)] assms(1,2) by (auto simp: ik_ok_def)

theorem internal_separator_in_range_witness:
  "\<exists>t. InternalKey_FindShortestSeparator Bytewise_Compare Bytewise_FindShortestSeparator
        [97, 98, 99, 1, 2, 0, 0, 0, 0, 0, 0] [97, 122, 1, 1, 0, 0, 0, 0, 0, 0] = Some t \<and>
    \<not> cmp_lt (InternalKey_Compare Bytewise_Compare) t [97, 98, 99, 1, 2, 0, 0, 0, 0, 0, 0] \<and>
    cmp_lt (InternalKey_Compare Bytewise_Compare) t [97, 122, 1, 1, 0, 0, 0, 0, 0, 0]"
proof (rule internal_separator_in_range)
  show "cmp_lt (InternalKey_Compare Bytewise_Compare) [97, 98, 99, 1, 2, 0, 0, 0, 0, 0, 0]
      [97, 122, 1, 1, 0, 0, 0, 0, 0, 0]" by code_simp
qed simp_all

text \<open>A lookup key is built inside its buffer, and its parts are the user key and the internal key
  that comes before every entry of the user key with the same or an older sequence number.\<close>

lemma LookupKey_new_parts:
  assumes "s \<le> kMaxSequenceNumber"
  obtains lk tag where "LookupKey_new u s = Some lk"
    and "PackSequenceAndType s kValueTypeForSeek = Some tag"
    and "memtable_key lk = EncodeVarint32 (word_of_nat (length u + 8)) @ u @ EncodeFixed64 tag"
    and "lookup_internal_key lk = u @ EncodeFixed64 tag" and "lookup_user_key lk = u"
proof -
  obtain tag where tag: "PackSequenceAndType s kValueTypeForSeek = Some tag"
    using PackSequenceAndType_eq_Some [OF assms] by (auto simp: kValueTypeForSeek_def)
  have "length (EncodeVarint32 (word_of_nat (length u + 8))) \<le> 5" by (rule length_EncodeVarint32)
  with tag show thesis
    by (intro that [of "\<lparr>lk_bytes = EncodeVarint32 (word_of_nat (length u + 8)) @ u @ EncodeFixed64 tag,
        lk_kstart = length (EncodeVarint32 (word_of_nat (length u + 8)))\<rparr>" tag])
      (auto simp: LookupKey_new_def memtable_key_def lookup_internal_key_def lookup_user_key_def Let_def)
qed

end
