(* ===== verification/Ldb_Random.thy ===== *)
theory Ldb_Random
  imports Pb_Prelude
begin

text \<open>
  \<open>util/random.h\<close>: the linear congruential generator that chooses the heights of skip-list nodes.
  The state is the 32-bit seed. \<open>None\<close> is a remainder by zero.
\<close>

definition RND_M :: u32 where "RND_M = 2147483647"
definition RND_A :: u64 where "RND_A = 16807"

definition Random_new :: "u32 \<Rightarrow> u32" where
  "Random_new s = (let seed = s AND 0x7fffffff in if seed = 0 \<or> seed = 2147483647 then 1 else seed)"

definition Random_Next :: "u32 \<Rightarrow> u32" where
  "Random_Next seed =
     (let product = ucast seed * RND_A;
          seed1 = ucast (drop_bit 31 product + (product AND ucast RND_M)) :: u32
      in if seed1 > RND_M then seed1 - RND_M else seed1)"

text \<open>\<open>Uniform\<close>, \<open>OneIn\<close> and \<open>Skewed\<close> return the result and the new seed; the \<open>int\<close> argument takes
  part in the remainder as a \<open>uint32_t\<close>.\<close>

definition Random_Uniform :: "u32 \<Rightarrow> u32 \<Rightarrow> (u32 \<times> u32) option" where
  "Random_Uniform n seed = (let r = Random_Next seed in if n = 0 then None else Some (r mod n, r))"

definition Random_OneIn :: "u32 \<Rightarrow> u32 \<Rightarrow> (bool \<times> u32) option" where
  "Random_OneIn n seed = (let r = Random_Next seed in if n = 0 then None else Some (r mod n = 0, r))"

definition Random_Skewed :: "u32 \<Rightarrow> u32 \<Rightarrow> (u32 \<times> u32) option" where
  "Random_Skewed max_log seed = do {
     (base, seed1) \<leftarrow> Random_Uniform (max_log + 1) seed;
     if unat base < 31 then Random_Uniform (push_bit (unat base) 1) seed1 else None }"

subsection \<open>The invariant of the seed\<close>

definition seed_ok :: "u32 \<Rightarrow> bool" where
  "seed_ok seed \<longleftrightarrow> 0 < unat seed \<and> unat seed < 2147483647"

lemma and_mask_31: "unat (x AND 2147483647 :: 'a::len word) = unat x mod 2 ^ 31" if "31 < LENGTH('a)"
proof -
  have "(2147483647 :: 'a word) = mask 31" by (simp add: mask_eq_exp_minus_1)
  then have "x AND 2147483647 = take_bit 31 x" by (simp add: take_bit_eq_mask)
  then show ?thesis by (simp only: unsigned_take_bit_eq) (simp add: take_bit_eq_mod)
qed

lemma seed_ok_new: "seed_ok (Random_new s)"
proof -
  let ?k = "s AND 0x7fffffff"
  have "unat ?k < 2 ^ 31" by (simp add: and_mask_31)
  moreover have "unat ?k \<noteq> 0" if "?k \<noteq> 0" using that by (simp add: unat_eq_0)
  moreover have "unat ?k \<noteq> 2147483647" if "?k \<noteq> 2147483647"
    using that word_eq_of_nat [of ?k 2147483647] by auto
  ultimately show ?thesis unfolding seed_ok_def Random_new_def Let_def by fastforce
qed

text \<open>The reduction modulo \<open>2 ^ 31 - 1\<close> by a shift, a mask and one conditional subtraction.\<close>

lemma mersenne_mod:
  fixes p :: nat
  assumes "p < 2 ^ 46" and "p mod 2147483647 \<noteq> 0"
  defines "s \<equiv> p div 2 ^ 31 + p mod 2 ^ 31"
  shows "s < 2 ^ 32" and "(if s > 2147483647 then s - 2147483647 else s) = p mod 2147483647"
proof -
  have hi: "p div 2 ^ 31 < 2 ^ 15" using assms(1) by (simp add: div_less_iff_less_mult)
  have lo: "p mod 2 ^ 31 < 2 ^ 31" by simp
  show "s < 2 ^ 32" using hi lo unfolding s_def by simp
  have "p = 2147483647 * (p div 2 ^ 31) + s"
    using div_mult_mod_eq [of p "2 ^ 31"] by (simp add: s_def)
  then have m: "p mod 2147483647 = s mod 2147483647" by (metis mod_mult_self4)
  then have "s \<noteq> 2147483647" using assms(2) by auto
  moreover have "s < 2 * 2147483647" using hi lo unfolding s_def by simp
  ultimately show "(if s > 2147483647 then s - 2147483647 else s) = p mod 2147483647"
    unfolding m by (simp add: mod_if)
qed

lemma lehmer_nonzero: "0 < n \<Longrightarrow> n < 2147483647 \<Longrightarrow> n * 16807 mod 2147483647 \<noteq> (0 :: nat)"
proof
  assume n: "0 < n" "n < 2147483647" and "n * 16807 mod 2147483647 = 0"
  then have "2147483647 dvd n * 16807" by (simp only: dvd_eq_mod_eq_0)
  then have "2147483647 dvd n * 16807 * 1407677000" by (rule dvd_mult2)
  also have "n * 16807 * 1407677000 = 2147483647 * (n * 11017) + n" by simp
  finally have "2147483647 dvd n" by (metis dvd_add_right_iff dvd_triv_left)
  with n show False by (simp add: nat_dvd_not_less)
qed

text \<open>The generator is the one its comment announces: from a seed strictly between 0 and
  \<open>2 ^ 31 - 1\<close> the next one is \<open>seed * 16807 mod (2 ^ 31 - 1)\<close>, computed without overflow, and is
  again strictly between the bounds.\<close>

theorem Random_Next_lehmer:
  assumes "0 < unat seed" and "unat seed < 2147483647"
  shows "unat (Random_Next seed) = unat seed * 16807 mod 2147483647 \<and>
    0 < unat (Random_Next seed) \<and> unat (Random_Next seed) < 2147483647"
proof -
  let ?p = "unat seed * 16807"
  have lt: "?p < 2 ^ 46" using assms(2) by simp
  have up: "unat (ucast seed * RND_A) = ?p"
    using lt by (simp add: RND_A_def unat_word_ariths(2))
  have nz: "?p mod 2147483647 \<noteq> 0" using lehmer_nonzero assms by blast
  define s where "s = ?p div 2 ^ 31 + ?p mod 2 ^ 31"
  have s: "s < 2 ^ 32" "(if s > 2147483647 then s - 2147483647 else s) = ?p mod 2147483647"
    unfolding s_def by (rule mersenne_mod [OF lt nz])+
  have h: "unat (drop_bit 31 (ucast seed * RND_A)) = ?p div 2 ^ 31"
    by (simp add: drop_bit_eq_div unat_div_distrib up)
  have l: "unat (ucast seed * RND_A AND ucast RND_M) = ?p mod 2 ^ 31"
    using and_mask_31 [of "ucast seed * RND_A"] by (simp add: RND_M_def up)
  have "unat (drop_bit 31 (ucast seed * RND_A) + (ucast seed * RND_A AND ucast RND_M)) = s"
    using s(1) unfolding unat_word_ariths(1) h l s_def by simp
  then have "unat (ucast (drop_bit 31 (ucast seed * RND_A) + (ucast seed * RND_A AND ucast RND_M)) :: u32) = s"
    using s(1) by (simp add: unsigned_ucast_eq take_bit_nat_eq_self)
  then have "unat (Random_Next seed) = ?p mod 2147483647"
    using s by (auto simp: Random_Next_def Let_def word_less_nat_alt RND_M_def unat_sub word_le_nat_alt
        split: if_splits)
  then show ?thesis using nz by simp
qed

theorem Random_Next_lehmer_witness:
  "unat (Random_Next 12345) = unat (12345 :: u32) * 16807 mod 2147483647 \<and>
    0 < unat (Random_Next 12345) \<and> unat (Random_Next 12345) < 2147483647"
  by (rule Random_Next_lehmer) simp_all

end
