(* ===== verification/Ldb_Skiplist.thy ===== *)
theory Ldb_Skiplist
  imports Ldb_Comparator Ldb_Random
begin

text \<open>
  \<open>db/skiplist.h\<close>: the skip list behind a memtable. A \<open>Node*\<close> is an index into the sequence of the
  nodes the arena has handed out (nodes are never freed), \<open>None\<close> as a pointer is \<open>NULL\<close>, node 0 is
  \<open>head_\<close>, and \<open>nd_next\<close> is the array \<open>next_\<close>, whose length is the height of the node. The
  comparator is an argument. An operation has no result when it would follow a pointer outside the
  allocated nodes, read a level above the height of a node, call the comparator outside its domain,
  fail an assertion, or loop forever (the search loops are partial functions).

  The list is modelled with its writes in program order; the concurrent readers that the
  acquire and release accesses are for are not modelled.
\<close>

record 'k node =
  nd_key :: 'k
  nd_next :: "nat option list"

record 'k SkipList =
  sl_nodes :: "'k node list"
  sl_max_height :: nat
  sl_rnd :: u32

definition kMaxHeight :: nat where "kMaxHeight = 12"
definition kBranching :: u32 where "kBranching = 4"

subsection \<open>Nodes\<close>

definition node_at :: "'k SkipList \<Rightarrow> nat \<Rightarrow> 'k node option" where
  "node_at sl x = (if x < length (sl_nodes sl) then Some (sl_nodes sl ! x) else None)"

definition Node_Next :: "'k SkipList \<Rightarrow> nat \<Rightarrow> nat \<Rightarrow> nat option option" where
  "Node_Next sl x n = do {
     nd \<leftarrow> node_at sl x;
     if n < length (nd_next nd) then Some (nd_next nd ! n) else None }"

definition Node_SetNext :: "nat \<Rightarrow> nat \<Rightarrow> nat option \<Rightarrow> 'k SkipList \<Rightarrow> 'k SkipList option" where
  "Node_SetNext x n p sl = do {
     nd \<leftarrow> node_at sl x;
     if n < length (nd_next nd)
     then Some (sl\<lparr>sl_nodes := (sl_nodes sl)[x := nd\<lparr>nd_next := (nd_next nd)[n := p]\<rparr>]\<rparr>)
     else None }"

definition Node_key :: "'k SkipList \<Rightarrow> nat \<Rightarrow> 'k option" where
  "Node_key sl x = map_option nd_key (node_at sl x)"

text \<open>The links of a new node are not initialised; \<open>Insert\<close> stores each of them before it is
  read.\<close>

definition NewNode :: "'k \<Rightarrow> nat \<Rightarrow> 'k SkipList \<Rightarrow> nat \<times> 'k SkipList" where
  "NewNode key height sl =
     (length (sl_nodes sl),
      sl\<lparr>sl_nodes := sl_nodes sl @ [\<lparr>nd_key = key, nd_next = replicate height None\<rparr>]\<rparr>)"

definition SkipList_new :: "'k \<Rightarrow> 'k SkipList" where
  "SkipList_new any =
     \<lparr>sl_nodes = [\<lparr>nd_key = any, nd_next = replicate kMaxHeight None\<rparr>], sl_max_height = 1,
      sl_rnd = Random_new 0xdeadbeef\<rparr>"

subsection \<open>Searching\<close>

definition KeyIsAfterNode :: "('k \<Rightarrow> 'k \<Rightarrow> int option) \<Rightarrow> 'k SkipList \<Rightarrow> 'k \<Rightarrow> nat option \<Rightarrow> bool option" where
  "KeyIsAfterNode cmp sl key n = (case n of None \<Rightarrow> Some False
     | Some p \<Rightarrow> do { k \<leftarrow> Node_key sl p; r \<leftarrow> cmp k key; Some (r < 0) })"

partial_function (option) FindGreaterOrEqual_loop ::
  "('k \<Rightarrow> 'k \<Rightarrow> int option) \<Rightarrow> 'k SkipList \<Rightarrow> 'k \<Rightarrow> nat \<Rightarrow> nat \<Rightarrow> nat list option \<Rightarrow>
   (nat option \<times> nat list option) option" where
  "FindGreaterOrEqual_loop cmp sl key x level prev = do {
     nxt \<leftarrow> Node_Next sl x level;
     after \<leftarrow> KeyIsAfterNode cmp sl key nxt;
     if after then FindGreaterOrEqual_loop cmp sl key (the nxt) level prev
     else let prev1 = map_option (\<lambda>p. p[level := x]) prev in
       if level = 0 then Some (nxt, prev1)
       else FindGreaterOrEqual_loop cmp sl key x (level - 1) prev1 }"

definition FindGreaterOrEqual ::
  "('k \<Rightarrow> 'k \<Rightarrow> int option) \<Rightarrow> 'k SkipList \<Rightarrow> 'k \<Rightarrow> nat list option \<Rightarrow> (nat option \<times> nat list option) option" where
  "FindGreaterOrEqual cmp sl key prev =
     FindGreaterOrEqual_loop cmp sl key 0 (sl_max_height sl - 1) prev"

partial_function (option) FindLessThan_loop ::
  "('k \<Rightarrow> 'k \<Rightarrow> int option) \<Rightarrow> 'k SkipList \<Rightarrow> 'k \<Rightarrow> nat \<Rightarrow> nat \<Rightarrow> nat option" where
  "FindLessThan_loop cmp sl key x level = do {
     good \<leftarrow> (if x = 0 then Some True else KeyIsAfterNode cmp sl key (Some x));
     if \<not> good then None else do {
       nxt \<leftarrow> Node_Next sl x level;
       after \<leftarrow> KeyIsAfterNode cmp sl key nxt;
       if \<not> after then
         if level = 0 then Some x else FindLessThan_loop cmp sl key x (level - 1)
       else FindLessThan_loop cmp sl key (the nxt) level } }"

definition FindLessThan :: "('k \<Rightarrow> 'k \<Rightarrow> int option) \<Rightarrow> 'k SkipList \<Rightarrow> 'k \<Rightarrow> nat option" where
  "FindLessThan cmp sl key = FindLessThan_loop cmp sl key 0 (sl_max_height sl - 1)"

partial_function (option) FindLast_loop :: "'k SkipList \<Rightarrow> nat \<Rightarrow> nat \<Rightarrow> nat option" where
  "FindLast_loop sl x level = do {
     nxt \<leftarrow> Node_Next sl x level;
     case nxt of
       None \<Rightarrow> if level = 0 then Some x else FindLast_loop sl x (level - 1)
     | Some y \<Rightarrow> FindLast_loop sl y level }"

definition FindLast :: "'k SkipList \<Rightarrow> nat option" where
  "FindLast sl = FindLast_loop sl 0 (sl_max_height sl - 1)"

subsection \<open>Insertion\<close>

text \<open>The loop of \<open>RandomHeight\<close>; it runs at most \<open>kMaxHeight - height\<close> times.\<close>

function RandomHeight_loop :: "nat \<Rightarrow> u32 \<Rightarrow> nat \<times> u32" where
  "RandomHeight_loop height seed =
     (if height < kMaxHeight then
        let seed1 = Random_Next seed in
        if seed1 mod kBranching = 0 then RandomHeight_loop (height + 1) seed1 else (height, seed1)
      else (height, seed))"
  by pat_completeness auto
termination by (relation "measure (\<lambda>(h, _). kMaxHeight - h)") auto

declare RandomHeight_loop.simps [simp del]

definition RandomHeight :: "u32 \<Rightarrow> nat \<times> u32" where
  "RandomHeight seed = RandomHeight_loop 1 seed"

text \<open>\<open>link_levels is x prev\<close> is the body of the last loop of \<open>Insert\<close> for the levels in \<open>is\<close>.\<close>

primrec link_levels :: "nat list \<Rightarrow> nat \<Rightarrow> nat list \<Rightarrow> 'k SkipList \<Rightarrow> 'k SkipList option" where
  "link_levels [] x prev sl = Some sl"
| "link_levels (i # is) x prev sl = do {
     n \<leftarrow> Node_Next sl (prev ! i) i;
     sl1 \<leftarrow> Node_SetNext x i n sl;
     sl2 \<leftarrow> Node_SetNext (prev ! i) i (Some x) sl1;
     link_levels is x prev sl2 }"

definition Insert :: "('k \<Rightarrow> 'k \<Rightarrow> int option) \<Rightarrow> 'k \<Rightarrow> 'k SkipList \<Rightarrow> 'k SkipList option" where
  "Insert cmp key sl = do {
     (x, prev0) \<leftarrow> FindGreaterOrEqual cmp sl key (Some (replicate kMaxHeight 0));
     fresh \<leftarrow> (case x of None \<Rightarrow> Some True
       | Some p \<Rightarrow> do { k \<leftarrow> Node_key sl p; r \<leftarrow> cmp key k; Some (r \<noteq> 0) });
     prev \<leftarrow> prev0;
     if \<not> fresh then None
     else let (height, seed) = RandomHeight (sl_rnd sl);
              old = sl_max_height sl;
              prev1 = (if height > old
                then map (\<lambda>i. if old \<le> i \<and> i < height then 0 else prev ! i) [0 ..< kMaxHeight] else prev);
              sl1 = sl\<lparr>sl_rnd := seed, sl_max_height := (if height > old then height else old)\<rparr>;
              (y, sl2) = NewNode key height sl1
          in link_levels [0 ..< height] y prev1 sl2 }"

definition Contains :: "('k \<Rightarrow> 'k \<Rightarrow> int option) \<Rightarrow> 'k SkipList \<Rightarrow> 'k \<Rightarrow> bool option" where
  "Contains cmp sl key = do {
     (x, _) \<leftarrow> FindGreaterOrEqual cmp sl key None;
     (case x of None \<Rightarrow> Some False
      | Some p \<Rightarrow> do { k \<leftarrow> Node_key sl p; r \<leftarrow> cmp key k; Some (r = 0) }) }"

subsection \<open>Iterators\<close>

text \<open>An iterator is its \<open>node_\<close>; the list it runs over is an argument.\<close>

type_synonym iter = "nat option"

definition Iterator_new :: iter where "Iterator_new = None"

definition Iterator_Valid :: "iter \<Rightarrow> bool" where "Iterator_Valid it \<longleftrightarrow> it \<noteq> None"

definition Iterator_key :: "'k SkipList \<Rightarrow> iter \<Rightarrow> 'k option" where
  "Iterator_key sl it = do { x \<leftarrow> it; Node_key sl x }"

definition Iterator_Next :: "'k SkipList \<Rightarrow> iter \<Rightarrow> iter option" where
  "Iterator_Next sl it = do { x \<leftarrow> it; Node_Next sl x 0 }"

definition Iterator_Prev :: "('k \<Rightarrow> 'k \<Rightarrow> int option) \<Rightarrow> 'k SkipList \<Rightarrow> iter \<Rightarrow> iter option" where
  "Iterator_Prev cmp sl it = do {
     x \<leftarrow> it;
     k \<leftarrow> Node_key sl x;
     y \<leftarrow> FindLessThan cmp sl k;
     Some (if y = 0 then None else Some y) }"

definition Iterator_Seek :: "('k \<Rightarrow> 'k \<Rightarrow> int option) \<Rightarrow> 'k SkipList \<Rightarrow> 'k \<Rightarrow> iter option" where
  "Iterator_Seek cmp sl target = map_option fst (FindGreaterOrEqual cmp sl target None)"

definition Iterator_SeekToFirst :: "'k SkipList \<Rightarrow> iter option" where
  "Iterator_SeekToFirst sl = Node_Next sl 0 0"

definition Iterator_SeekToLast :: "'k SkipList \<Rightarrow> iter option" where
  "Iterator_SeekToLast sl = do { y \<leftarrow> FindLast sl; Some (if y = 0 then None else Some y) }"

subsection \<open>The invariant\<close>

text \<open>\<open>chain sl l xs\<close>: the level-\<open>l\<close> links lead through the nodes \<open>xs\<close> one after the other and end in
  \<open>NULL\<close>.\<close>

fun chain :: "'k SkipList \<Rightarrow> nat \<Rightarrow> nat list \<Rightarrow> bool" where
  "chain sl l [] = True"
| "chain sl l [x] = (Node_Next sl x l = Some None)"
| "chain sl l (x # y # ys) = (Node_Next sl x l = Some (Some y) \<and> chain sl l (y # ys))"

definition ht :: "'k SkipList \<Rightarrow> nat \<Rightarrow> nat" where
  "ht sl x = length (nd_next (sl_nodes sl ! x))"

definition ky :: "'k SkipList \<Rightarrow> nat \<Rightarrow> 'k" where
  "ky sl x = nd_key (sl_nodes sl ! x)"

text \<open>The nodes of \<open>ns\<close> that are linked at level \<open>l\<close>.\<close>

definition lev :: "'k SkipList \<Rightarrow> nat \<Rightarrow> nat list \<Rightarrow> nat list" where
  "lev sl l ns = filter (\<lambda>x. l < ht sl x) ns"

text \<open>\<open>sl_repr sl ns\<close>: the list consists of the nodes \<open>ns\<close>, in this order, every level is the
  sub-list of the nodes that reach it, keys are in the domain and strictly increasing, and no node
  is higher than the recorded height.\<close>

definition sl_repr :: "('k \<Rightarrow> 'k \<Rightarrow> int option) \<Rightarrow> ('k \<Rightarrow> bool) \<Rightarrow> 'k SkipList \<Rightarrow> nat list \<Rightarrow> bool" where
  "sl_repr cmp ok sl ns \<longleftrightarrow>
     distinct (0 # ns) \<and> 0 < length (sl_nodes sl) \<and> ht sl 0 = kMaxHeight \<and>
     (\<forall>x \<in> set ns. x < length (sl_nodes sl) \<and> 0 < ht sl x \<and> ht sl x \<le> sl_max_height sl \<and> ok (ky sl x)) \<and>
     0 < sl_max_height sl \<and> sl_max_height sl \<le> kMaxHeight \<and>
     sorted_wrt (\<lambda>x y. cmp_lt cmp (ky sl x) (ky sl y)) ns \<and>
     (\<forall>l < kMaxHeight. chain sl l (0 # lev sl l ns))"

subsection \<open>Facts on nodes and chains\<close>

lemma Node_Next_eq: "x < length (sl_nodes sl) \<Longrightarrow>
  Node_Next sl x n = (if n < ht sl x then Some (nd_next (sl_nodes sl ! x) ! n) else None)"
  by (simp add: Node_Next_def node_at_def ht_def)

lemma Node_key_eq: "x < length (sl_nodes sl) \<Longrightarrow> Node_key sl x = Some (ky sl x)"
  by (simp add: Node_key_def node_at_def ky_def)

lemma Node_SetNext_eq:
  assumes "x < length (sl_nodes sl)" and "n < ht sl x"
  obtains sl' where "Node_SetNext x n p sl = Some sl'"
    and "length (sl_nodes sl') = length (sl_nodes sl)" and "sl_max_height sl' = sl_max_height sl"
    and "\<And>y. ht sl' y = ht sl y" and "\<And>y. ky sl' y = ky sl y"
    and "\<And>y m. Node_Next sl' y m = (if y = x \<and> m = n then Some p else Node_Next sl y m)"
proof -
  let ?nd = "sl_nodes sl ! x"
  let ?sl = "sl\<lparr>sl_nodes := (sl_nodes sl)[x := ?nd\<lparr>nd_next := (nd_next ?nd)[n := p]\<rparr>]\<rparr>"
  have "Node_Next ?sl y m = (if y = x \<and> m = n then Some p else Node_Next sl y m)" for y m
    using assms by (auto simp: Node_Next_def node_at_def ht_def nth_list_update)
  moreover have "ht ?sl y = ht sl y" "ky ?sl y = ky sl y" for y
    using assms by (auto simp: ht_def ky_def nth_list_update)
  moreover have "Node_SetNext x n p sl = Some ?sl"
    using assms by (simp add: Node_SetNext_def node_at_def ht_def)
  ultimately show thesis by (intro that [of ?sl]) simp_all
qed

definition first :: "'a list \<Rightarrow> 'a option" where
  "first xs = (case xs of [] \<Rightarrow> None | x # _ \<Rightarrow> Some x)"

lemma first_simps [simp]: "first [] = None" "first (x # xs) = Some x"
  by (simp_all add: first_def)

lemma chain_next: "chain sl l (pre @ x # post) \<Longrightarrow> Node_Next sl x l = Some (first post)"
proof (induction pre)
  case Nil
  then show ?case by (cases post) auto
next
  case (Cons y pre)
  then show ?case by (cases pre) auto
qed

lemma chain_cong:
  "(\<And>x. x \<in> set xs \<Longrightarrow> Node_Next sl' x l = Node_Next sl x l) \<Longrightarrow> chain sl' l xs = chain sl l xs"
  by (induction sl l xs rule: chain.induct) auto

lemma chain_insert:
  assumes "chain sl l (pre @ p # post)" and "distinct (pre @ p # post)"
    and "Node_Next sl' p l = Some (Some y)" and "Node_Next sl' y l = Node_Next sl p l"
    and "\<And>x. x \<in> set pre \<union> set post \<Longrightarrow> Node_Next sl' x l = Node_Next sl x l"
  shows "chain sl' l (pre @ p # y # post)"
  using assms
proof (induction pre)
  case Nil
  have "chain sl' l post" if "chain sl l post" using chain_cong [of post sl' l sl] Nil that by simp
  with Nil have "chain sl' l (y # post)" by (cases post) auto
  with Nil show ?case by simp
next
  case (Cons x pre)
  then have "chain sl' l (pre @ p # y # post)" by (cases pre) auto
  with Cons.prems show ?case by (cases pre) auto
qed

lemma lev_append [simp]: "lev sl l (xs @ ys) = lev sl l xs @ lev sl l ys"
  by (simp add: lev_def)

lemma set_lev: "set (lev sl l ns) = {x \<in> set ns. l < ht sl x}"
  by (simp add: lev_def)

lemma lev_0: "\<forall>x \<in> set ns. 0 < ht sl x \<Longrightarrow> lev sl 0 ns = ns"
  by (induction ns) (auto simp: lev_def)

text \<open>The node before position \<open>before\<close> at level \<open>l\<close>.\<close>

definition pred_at :: "'k SkipList \<Rightarrow> nat \<Rightarrow> nat list \<Rightarrow> nat" where
  "pred_at sl l before = last (0 # lev sl l before)"

lemma pred_at_in: "pred_at sl l before = 0 \<or> pred_at sl l before \<in> set before \<and> l < ht sl (pred_at sl l before)"
  using last_in_set [of "lev sl l before"] by (auto simp: pred_at_def set_lev)

lemma pred_at_split:
  obtains pre where "0 # lev sl l before = pre @ [pred_at sl l before]"
  unfolding pred_at_def by (metis append_butlast_last_id list.distinct(1))

lemma pred_at_lower:
  obtains pre post where "0 # lev sl l before = pre @ pred_at sl (Suc l) before # post"
proof -
  have "pred_at sl (Suc l) before \<in> set (0 # lev sl l before)"
    using pred_at_in [of sl "Suc l" before] by (auto simp: set_lev)
  then show thesis using that by (meson split_list)
qed

subsection \<open>The searches\<close>

text \<open>What a search relies on: the list is well formed and its nodes fall into those whose key is
  below the target and the rest.\<close>

definition cut_at :: "('k \<Rightarrow> 'k \<Rightarrow> int option) \<Rightarrow> ('k \<Rightarrow> bool) \<Rightarrow> 'k SkipList \<Rightarrow> 'k \<Rightarrow> nat list \<Rightarrow> nat list \<Rightarrow> bool" where
  "cut_at cmp ok sl key before after \<longleftrightarrow> sl_repr cmp ok sl (before @ after) \<and> ok key \<and>
     (\<forall>x \<in> set before. cmp_lt cmp (ky sl x) key) \<and> (\<forall>x \<in> set after. \<not> cmp_lt cmp (ky sl x) key)"

lemma repr_next:
  assumes "sl_repr cmp ok sl ns" and "l < kMaxHeight" and "0 # lev sl l ns = pre @ x # post"
  shows "Node_Next sl x l = Some (first post)"
proof (rule chain_next)
  have "chain sl l (0 # lev sl l ns)" using assms(1,2) by (simp add: sl_repr_def)
  then show "chain sl l (pre @ x # post)" unfolding assms(3) .
qed

lemma repr_node: "sl_repr cmp ok sl ns \<Longrightarrow> x \<in> set ns \<Longrightarrow> Node_key sl x = Some (ky sl x) \<and> ok (ky sl x)"
  by (simp add: sl_repr_def Node_key_eq)

context comparator
begin

lemma KeyIsAfterNode_eq:
  assumes "cut_at cmp ok sl key before after"
  shows "KeyIsAfterNode cmp sl key None = Some False"
    and "x \<in> set before \<Longrightarrow> KeyIsAfterNode cmp sl key (Some x) = Some True"
    and "x \<in> set after \<Longrightarrow> KeyIsAfterNode cmp sl key (Some x) = Some False"
proof -
  have key: "ok key" and rep: "sl_repr cmp ok sl (before @ after)" using assms by (auto simp: cut_at_def)
  have "KeyIsAfterNode cmp sl key (Some x) = Some (cmp_lt cmp (ky sl x) key)" if "x \<in> set (before @ after)" for x
    using repr_node [OF rep that] cmp_flip [of "ky sl x" key] key
    by (auto simp: KeyIsAfterNode_def cmp_lt_def split: option.splits)
  with assms show "x \<in> set before \<Longrightarrow> KeyIsAfterNode cmp sl key (Some x) = Some True"
    "x \<in> set after \<Longrightarrow> KeyIsAfterNode cmp sl key (Some x) = Some False"
    by (auto simp: cut_at_def)
qed (simp add: KeyIsAfterNode_def)

text \<open>At one level a search walks to the last node below the target and stops there.\<close>

lemma level_step:
  assumes cut: "cut_at cmp ok sl key before after" and l: "l < kMaxHeight"
    and split: "0 # lev sl l before = pre @ x # post"
  shows "Node_Next sl x l = Some (first (post @ lev sl l after))"
    and "KeyIsAfterNode cmp sl key (first (post @ lev sl l after)) = Some (post \<noteq> [])"
proof -
  have "0 # lev sl l (before @ after) = pre @ x # post @ lev sl l after" using split by simp
  then show "Node_Next sl x l = Some (first (post @ lev sl l after))"
    using cut l repr_next by (metis cut_at_def)
  show "KeyIsAfterNode cmp sl key (first (post @ lev sl l after)) = Some (post \<noteq> [])"
  proof (cases post)
    case (Cons y ys)
    then have "y \<in> set (lev sl l before)" using split by (cases pre) auto
    then have "y \<in> set before" by (simp add: set_lev)
    then show ?thesis using Cons KeyIsAfterNode_eq [OF cut] by simp
  next
    case Nil
    have "y \<in> set (lev sl l after)" if "first (lev sl l after) = Some y" for y
      using that by (cases "lev sl l after") auto
    then have "y \<in> set after" if "first (lev sl l after) = Some y" for y
      using that by (simp add: set_lev)
    then show ?thesis using Nil KeyIsAfterNode_eq [OF cut] by (cases "first (lev sl l after)") auto
  qed
qed

text \<open>\<open>FindGreaterOrEqual\<close> returns the first node that is not below the target, and records the
  predecessor of that position at every level.\<close>

lemma FGE_level:
  assumes "cut_at cmp ok sl key before after" and "l < kMaxHeight"
    and "0 # lev sl l before = pre @ x # post"
  shows "FindGreaterOrEqual_loop cmp sl key x l prev =
    (let prev1 = map_option (\<lambda>p. p[l := pred_at sl l before]) prev in
     if l = 0 then Some (first (lev sl 0 after), prev1)
     else FindGreaterOrEqual_loop cmp sl key (pred_at sl l before) (l - 1) prev1)"
  using assms(3)
proof (induction post arbitrary: pre x)
  case Nil
  have "x = pred_at sl l before" using Nil by (simp add: pred_at_def)
  then show ?case
    using level_step [OF assms(1,2) Nil]
    by (subst FindGreaterOrEqual_loop.simps) (simp add: Let_def)
next
  case (Cons y post)
  have "FindGreaterOrEqual_loop cmp sl key x l prev = FindGreaterOrEqual_loop cmp sl key y l prev"
    using level_step [OF assms(1,2) Cons.prems]
    by (subst FindGreaterOrEqual_loop.simps) simp
  then show ?case using Cons.IH [of "pre @ [x]" y] Cons.prems by simp
qed

lemma FGE_loop_spec:
  assumes "cut_at cmp ok sl key before after" and "l < kMaxHeight"
    and "0 # lev sl l before = pre @ x # post"
  shows "\<exists>prev'. FindGreaterOrEqual_loop cmp sl key x l prev = Some (first after, prev') \<and>
    (\<forall>p. prev = Some p \<longrightarrow> length p = kMaxHeight \<longrightarrow> (\<exists>p'. prev' = Some p' \<and> length p' = kMaxHeight \<and>
      (\<forall>i \<le> l. p' ! i = pred_at sl i before) \<and> (\<forall>i > l. p' ! i = p ! i)))"
  using assms(2,3)
proof (induction l arbitrary: pre x post prev)
  case 0
  have "lev sl 0 after = after" using assms(1) by (intro lev_0) (simp add: cut_at_def sl_repr_def)
  then show ?case using FGE_level [OF assms(1) 0] 0 by (auto simp: Let_def kMaxHeight_def)
next
  case (Suc l)
  obtain pre' post' where sp: "0 # lev sl l before = pre' @ pred_at sl (Suc l) before # post'"
    by (rule pred_at_lower)
  let ?prev = "map_option (\<lambda>p. p[Suc l := pred_at sl (Suc l) before]) prev"
  have l: "l < kMaxHeight" using Suc.prems(1) by simp
  obtain prev' where p': "FindGreaterOrEqual_loop cmp sl key (pred_at sl (Suc l) before) l ?prev =
      Some (first after, prev')"
    and q: "\<forall>p. ?prev = Some p \<longrightarrow> length p = kMaxHeight \<longrightarrow> (\<exists>p'. prev' = Some p' \<and>
      length p' = kMaxHeight \<and> (\<forall>i \<le> l. p' ! i = pred_at sl i before) \<and> (\<forall>i > l. p' ! i = p ! i))"
    using Suc.IH [OF l sp, of ?prev] by (elim exE conjE) (rule that)
  have "FindGreaterOrEqual_loop cmp sl key x (Suc l) prev = Some (first after, prev')"
    using FGE_level [OF assms(1) Suc.prems] p' by simp
  moreover have "\<exists>p'. prev' = Some p' \<and> length p' = kMaxHeight \<and>
      (\<forall>i \<le> Suc l. p' ! i = pred_at sl i before) \<and> (\<forall>i > Suc l. p' ! i = p ! i)"
    if p: "prev = Some p" "length p = kMaxHeight" for p
  proof -
    obtain p' where r: "prev' = Some p'" "length p' = kMaxHeight" "\<forall>i \<le> l. p' ! i = pred_at sl i before"
      "\<forall>i > l. p' ! i = p[Suc l := pred_at sl (Suc l) before] ! i"
      using q p by auto
    then have "p' ! Suc l = pred_at sl (Suc l) before" "\<forall>i > Suc l. p' ! i = p ! i"
      using Suc.prems(1) p by auto
    with r show ?thesis by (auto simp: le_Suc_eq)
  qed
  ultimately show ?case by blast
qed

lemma cut_at_height: "cut_at cmp ok sl key before after \<Longrightarrow>
  sl_max_height sl - 1 < kMaxHeight \<and> (\<forall>i. sl_max_height sl - 1 < i \<longrightarrow> pred_at sl i before = 0)"
proof -
  assume cut: "cut_at cmp ok sl key before after"
  then have h: "0 < sl_max_height sl" "sl_max_height sl \<le> kMaxHeight"
    and b: "\<And>x. x \<in> set before \<Longrightarrow> ht sl x \<le> sl_max_height sl"
    by (simp_all add: cut_at_def sl_repr_def)
  have "pred_at sl i before = 0" if "sl_max_height sl - 1 < i" for i
  proof (rule ccontr)
    assume "pred_at sl i before \<noteq> 0"
    then have "i < sl_max_height sl" using pred_at_in [of sl i before] b by fastforce
    with that show False by simp
  qed
  with h show ?thesis by auto
qed

lemma FindGreaterOrEqual_spec:
  assumes "cut_at cmp ok sl key before after"
  shows "map_option fst (FindGreaterOrEqual cmp sl key prev) = Some (first after)"
    and "\<exists>p'. FindGreaterOrEqual cmp sl key (Some (replicate kMaxHeight 0)) = Some (first after, Some p') \<and>
      length p' = kMaxHeight \<and> (\<forall>i < kMaxHeight. p' ! i = pred_at sl i before)"
proof -
  have hd: "0 # lev sl l before = [] @ 0 # lev sl l before" for l by simp
  note spec = FGE_loop_spec [OF assms conjunct1 [OF cut_at_height [OF assms]] hd]
  show "map_option fst (FindGreaterOrEqual cmp sl key prev) = Some (first after)"
    unfolding FindGreaterOrEqual_def using spec [of prev] by force
  obtain p' where p': "FindGreaterOrEqual cmp sl key (Some (replicate kMaxHeight 0)) = Some (first after, Some p')"
    and len: "length p' = kMaxHeight" and lo: "\<forall>i \<le> sl_max_height sl - 1. p' ! i = pred_at sl i before"
    and hi: "\<forall>i > sl_max_height sl - 1. p' ! i = replicate kMaxHeight 0 ! i"
    unfolding FindGreaterOrEqual_def using spec [of "Some (replicate kMaxHeight 0)"] by auto
  have "p' ! i = pred_at sl i before" if "i < kMaxHeight" for i
    using lo hi cut_at_height [OF assms] that by (cases "i \<le> sl_max_height sl - 1") auto
  with p' len show "\<exists>p'. FindGreaterOrEqual cmp sl key (Some (replicate kMaxHeight 0)) =
      Some (first after, Some p') \<and>
      length p' = kMaxHeight \<and> (\<forall>i < kMaxHeight. p' ! i = pred_at sl i before)" by blast
qed

lemma FLT_level:
  assumes "cut_at cmp ok sl key before after" and "l < kMaxHeight"
    and "0 # lev sl l before = pre @ x # post"
  shows "FindLessThan_loop cmp sl key x l =
    (if l = 0 then Some (pred_at sl l before) else FindLessThan_loop cmp sl key (pred_at sl l before) (l - 1))"
  using assms(3)
proof (induction post arbitrary: pre x)
  case Nil
  have x: "x = pred_at sl l before" using Nil by (simp add: pred_at_def)
  have "(if x = 0 then Some True else KeyIsAfterNode cmp sl key (Some x)) = Some True"
    unfolding x using pred_at_in [of sl l before] KeyIsAfterNode_eq(2) [OF assms(1)] by auto
  then show ?case unfolding x [symmetric]
    using level_step [OF assms(1,2) Nil] by (subst FindLessThan_loop.simps) simp
next
  case (Cons y post)
  have "x \<in> set (0 # lev sl l before)" unfolding Cons.prems by simp
  then have "(if x = 0 then Some True else KeyIsAfterNode cmp sl key (Some x)) = Some True"
    using KeyIsAfterNode_eq(2) [OF assms(1)] by (auto simp: set_lev)
  then have "FindLessThan_loop cmp sl key x l = FindLessThan_loop cmp sl key y l"
    using level_step [OF assms(1,2) Cons.prems] by (subst FindLessThan_loop.simps) simp
  then show ?case using Cons.IH [of "pre @ [x]" y] Cons.prems by simp
qed

lemma FindLessThan_spec:
  assumes "cut_at cmp ok sl key before after"
  shows "FindLessThan cmp sl key = Some (last (0 # before))"
proof -
  have "FindLessThan_loop cmp sl key x l = Some (pred_at sl 0 before)"
    if "l < kMaxHeight" "0 # lev sl l before = pre @ x # post" for l pre x post
    using that
  proof (induction l arbitrary: pre x post)
    case 0
    then show ?case using FLT_level [OF assms 0] by simp
  next
    case (Suc l)
    obtain pre' post' where "0 # lev sl l before = pre' @ pred_at sl (Suc l) before # post'"
      by (rule pred_at_lower)
    with Suc.IH Suc.prems(1) FLT_level [OF assms Suc.prems] show ?case by simp
  qed
  moreover have "0 # lev sl l before = [] @ 0 # lev sl l before" for l by simp
  moreover have "lev sl 0 before = before"
    using assms by (intro lev_0) (simp add: cut_at_def sl_repr_def)
  ultimately show ?thesis
    using cut_at_height [OF assms] unfolding FindLessThan_def pred_at_def by metis
qed

lemma FindLast_level:
  assumes "sl_repr cmp ok sl ns" and "l < kMaxHeight" and "0 # lev sl l ns = pre @ x # post"
  shows "FindLast_loop sl x l =
    (if l = 0 then Some (pred_at sl l ns) else FindLast_loop sl (pred_at sl l ns) (l - 1))"
  using assms(3)
proof (induction post arbitrary: pre x)
  case Nil
  have "x = pred_at sl l ns" using Nil by (simp add: pred_at_def)
  then show ?case using repr_next [OF assms(1,2) Nil] by (subst FindLast_loop.simps) simp
next
  case (Cons y post)
  have "FindLast_loop sl x l = FindLast_loop sl y l"
    using repr_next [OF assms(1,2) Cons.prems] by (subst FindLast_loop.simps) simp
  then show ?case using Cons.IH [of "pre @ [x]" y] Cons.prems by simp
qed

lemma FindLast_spec:
  assumes "sl_repr cmp ok sl ns"
  shows "FindLast sl = Some (last (0 # ns))"
proof -
  have "FindLast_loop sl x l = Some (pred_at sl 0 ns)"
    if "l < kMaxHeight" "0 # lev sl l ns = pre @ x # post" for l pre x post
    using that
  proof (induction l arbitrary: pre x post)
    case 0
    then show ?case using FindLast_level [OF assms 0] by simp
  next
    case (Suc l)
    obtain pre' post' where "0 # lev sl l ns = pre' @ pred_at sl (Suc l) ns # post'"
      by (rule pred_at_lower)
    with Suc.IH Suc.prems(1) FindLast_level [OF assms Suc.prems] show ?case by simp
  qed
  moreover have "0 # lev sl l ns = [] @ 0 # lev sl l ns" for l by simp
  moreover have "lev sl 0 ns = ns" using assms by (intro lev_0) (simp add: sl_repr_def)
  moreover have "sl_max_height sl - 1 < kMaxHeight" using assms by (auto simp: sl_repr_def)
  ultimately show ?thesis unfolding FindLast_def pred_at_def by metis
qed

text \<open>Every target cuts the list.\<close>

lemma cut_exists:
  assumes rep: "sl_repr cmp ok sl ns" and "ok key"
  obtains before after where "ns = before @ after" and "cut_at cmp ok sl key before after"
proof -
  let ?P = "\<lambda>x. cmp_lt cmp (ky sl x) key"
  have srt: "sorted_wrt (\<lambda>x y. cmp_lt cmp (ky sl x) (ky sl y)) ns"
    and okn: "\<And>x. x \<in> set ns \<Longrightarrow> ok (ky sl x)"
    using rep by (auto simp: sl_repr_def)
  have "\<not> ?P x" if x: "x \<in> set (dropWhile ?P ns)" for x
  proof -
    obtain y ys where d: "dropWhile ?P ns = y # ys" by (rule list.set_cases [OF x]) (rule that)+
    have ny: "\<not> ?P y" using d hd_dropWhile [of ?P ns] by simp
    have sub: "set (y # ys) \<subseteq> set ns" using set_dropWhileD [of _ ?P ns] d by auto
    have "sorted_wrt (\<lambda>x y. cmp_lt cmp (ky sl x) (ky sl y)) (takeWhile ?P ns @ (y # ys))"
      using srt d takeWhile_dropWhile_id [of ?P ns] by simp
    then have yx: "cmp_lt cmp (ky sl y) (ky sl x)" if "x \<in> set ys" for x
      using that by (simp add: sorted_wrt_append)
    show "\<not> ?P x"
    proof (cases "x = y")
      case False
      then have "x \<in> set ys" using x d by simp
      then have "cmp_lt cmp (ky sl y) (ky sl x)" by (rule yx)
      moreover have "ok (ky sl x)" "ok (ky sl y)" using sub okn \<open>x \<in> set ys\<close> by auto
      ultimately show ?thesis using ny cmp_lt_trans [of "ky sl y" "ky sl x" key] assms(2) by blast
    qed (simp add: ny)
  qed
  moreover have "?P x" if "x \<in> set (takeWhile ?P ns)" for x using set_takeWhileD [OF that] by simp
  ultimately have "cut_at cmp ok sl key (takeWhile ?P ns) (dropWhile ?P ns)"
    unfolding cut_at_def takeWhile_dropWhile_id using assms by blast
  then show thesis by (rule that [OF takeWhile_dropWhile_id [symmetric]])
qed

end

subsection \<open>Insertion\<close>

lemma RandomHeight_loop_range:
  "1 \<le> h \<Longrightarrow> h \<le> kMaxHeight \<Longrightarrow> 1 \<le> fst (RandomHeight_loop h seed) \<and> fst (RandomHeight_loop h seed) \<le> kMaxHeight"
proof (induction h seed rule: RandomHeight_loop.induct)
  case (1 h seed)
  then show ?case by (subst (1 2) RandomHeight_loop.simps) (auto simp: Let_def)
qed

lemma RandomHeight_range: "RandomHeight seed = (h, seed') \<Longrightarrow> 0 < h \<and> h \<le> kMaxHeight"
  using RandomHeight_loop_range [of 1 seed] by (auto simp: RandomHeight_def kMaxHeight_def)

text \<open>The links after the loop of \<open>Insert\<close> has run over the levels \<open>is\<close>.\<close>

lemma link_levels_spec:
  assumes "distinct is" and "\<forall>i \<in> set is. i < ht sl y \<and> prev ! i < length (sl_nodes sl) \<and> i < ht sl (prev ! i)"
    and "y < length (sl_nodes sl)" and "\<forall>i \<in> set is. prev ! i \<noteq> y"
  shows "\<exists>sl'. link_levels is y prev sl = Some sl' \<and>
    length (sl_nodes sl') = length (sl_nodes sl) \<and> sl_max_height sl' = sl_max_height sl \<and>
    (\<forall>x. ht sl' x = ht sl x \<and> ky sl' x = ky sl x) \<and>
    (\<forall>x l. Node_Next sl' x l = (if l \<in> set is then
        (if x = y then Node_Next sl (prev ! l) l else if x = prev ! l then Some (Some y) else Node_Next sl x l)
      else Node_Next sl x l))"
  using assms
proof (induction "is" arbitrary: sl)
  case Nil
  then show ?case by simp
next
  case (Cons i "is")
  obtain n where n: "Node_Next sl (prev ! i) i = Some n"
    using Cons.prems(2) by (simp add: Node_Next_eq)
  obtain sl1 where s1: "Node_SetNext y i n sl = Some sl1"
    "length (sl_nodes sl1) = length (sl_nodes sl)" "sl_max_height sl1 = sl_max_height sl"
    "\<And>x. ht sl1 x = ht sl x" "\<And>x. ky sl1 x = ky sl x"
    "\<And>x m. Node_Next sl1 x m = (if x = y \<and> m = i then Some n else Node_Next sl x m)"
    by (rule Node_SetNext_eq [of y sl i n]) (use Cons.prems in simp_all)
  obtain sl2 where s2: "Node_SetNext (prev ! i) i (Some y) sl1 = Some sl2"
    "length (sl_nodes sl2) = length (sl_nodes sl1)" "sl_max_height sl2 = sl_max_height sl1"
    "\<And>x. ht sl2 x = ht sl1 x" "\<And>x. ky sl2 x = ky sl1 x"
    "\<And>x m. Node_Next sl2 x m = (if x = prev ! i \<and> m = i then Some (Some y) else Node_Next sl1 x m)"
    by (rule Node_SetNext_eq [of "prev ! i" sl1 i "Some y"]) (use Cons.prems s1 in simp_all)
  obtain sl' where s': "link_levels is y prev sl2 = Some sl'"
    "length (sl_nodes sl') = length (sl_nodes sl2)" "sl_max_height sl' = sl_max_height sl2"
    "\<forall>x. ht sl' x = ht sl2 x \<and> ky sl' x = ky sl2 x"
    "\<forall>x l. Node_Next sl' x l = (if l \<in> set is then
        (if x = y then Node_Next sl2 (prev ! l) l else if x = prev ! l then Some (Some y) else Node_Next sl2 x l)
      else Node_Next sl2 x l)"
    using Cons.IH [of sl2] Cons.prems s1 s2 by auto
  have "Node_Next sl' x l = (if l \<in> set (i # is) then
        (if x = y then Node_Next sl (prev ! l) l else if x = prev ! l then Some (Some y) else Node_Next sl x l)
      else Node_Next sl x l)" for x l
    using s'(5) s2(6) s1(6) n Cons.prems(1,4) by (cases "l = i") auto
  with n s1 s2 s' show ?case by auto
qed

text \<open>The list after the whole of \<open>Insert\<close>.\<close>

lemma sl_repr_insert:
  assumes cut: "cut_at cmp ok sl key before after"
    and gt: "\<forall>x \<in> set after. cmp_lt cmp key (ky sl x)"
    and len: "length (sl_nodes sl') = Suc (length (sl_nodes sl))"
    and y: "y = length (sl_nodes sl)" and h: "0 < h" "h \<le> kMaxHeight"
    and mh: "sl_max_height sl' = max h (sl_max_height sl)"
    and ht: "\<And>x. x < y \<Longrightarrow> ht sl' x = ht sl x" "ht sl' y = h"
    and ky: "\<And>x. x < y \<Longrightarrow> ky sl' x = ky sl x" "ky sl' y = key"
    and nx: "\<And>x l. x < y \<Longrightarrow> Node_Next sl' x l =
        (if l < h \<and> x = pred_at sl l before then Some (Some y) else Node_Next sl x l)"
    and ny: "\<And>l. l < h \<Longrightarrow> Node_Next sl' y l = Node_Next sl (pred_at sl l before) l"
  shows "sl_repr cmp ok sl' (before @ y # after)"
proof -
  note rep = cut [unfolded cut_at_def, THEN conjunct1, unfolded sl_repr_def]
  have below: "x < y" if "x \<in> set (0 # before @ after)" for x using rep y that by auto
  then have yn: "y \<notin> set (0 # before @ after)" by blast
  have lv: "lev sl' l xs = lev sl l xs" if "set xs \<subseteq> set (before @ after)" for l xs
    unfolding lev_def using that below by (intro filter_cong refl) (use ht(1) in auto)
  have "chain sl' l (0 # lev sl' l (before @ y # after))" if l: "l < kMaxHeight" for l
  proof -
    have ch: "chain sl l (0 # lev sl l before @ lev sl l after)" using rep l by simp
    have lv': "lev sl' l (before @ y # after) = lev sl l before @ (if l < h then [y] else []) @ lev sl l after"
      using lv [of before] lv [of after] ht(2) by (simp add: lev_def)
    obtain pre where pre: "0 # lev sl l before = pre @ [pred_at sl l before]" by (rule pred_at_split)
    have dist: "distinct (0 # lev sl l before @ lev sl l after)"
      using rep by (auto simp: lev_def)
    have yl: "x < y" if "x \<in> set (0 # lev sl l before @ lev sl l after)" for x
      using below that by (auto simp: set_lev)
    show ?thesis
    proof (cases "l < h")
      case True
      have list: "0 # lev sl l before @ lev sl l after = pre @ pred_at sl l before # lev sl l after"
        using arg_cong [OF pre, of "\<lambda>zs. zs @ lev sl l after"] by simp
      have out: "x < y \<and> x \<noteq> pred_at sl l before" if "x \<in> set pre \<union> set (lev sl l after)" for x
        using dist yl that unfolding list by auto
      have py: "pred_at sl l before < y" using yl unfolding list by auto
      have "chain sl' l (pre @ pred_at sl l before # y # lev sl l after)"
      proof (rule chain_insert)
        show "chain sl l (pre @ pred_at sl l before # lev sl l after)" using ch unfolding list .
        show "distinct (pre @ pred_at sl l before # lev sl l after)" using dist unfolding list .
        show "Node_Next sl' (pred_at sl l before) l = Some (Some y)" using nx [OF py] True by simp
        show "Node_Next sl' y l = Node_Next sl (pred_at sl l before) l" using ny True by simp
        show "Node_Next sl' x l = Node_Next sl x l" if "x \<in> set pre \<union> set (lev sl l after)" for x
          using nx out [OF that] by simp
      qed
      moreover have "0 # lev sl' l (before @ y # after) = pre @ pred_at sl l before # y # lev sl l after"
        using True arg_cong [OF pre, of "\<lambda>zs. zs @ y # lev sl l after"] unfolding lv' by simp
      ultimately show ?thesis by simp
    next
      case False
      have "Node_Next sl' x l = Node_Next sl x l" if "x \<in> set (0 # lev sl l before @ lev sl l after)" for x
        using nx [OF yl [OF that]] False by simp
      then have "chain sl' l (0 # lev sl l before @ lev sl l after)"
        using ch chain_cong [of "0 # lev sl l before @ lev sl l after" sl' l sl] by blast
      then show ?thesis using False unfolding lv' by simp
    qed
  qed
  moreover have "sorted_wrt (\<lambda>x y. cmp_lt cmp (ky sl' x) (ky sl' y)) (before @ y # after)"
  proof -
    have kk: "ky sl' x = ky sl x" if "x \<in> set (before @ after)" for x
      using below that by (intro ky(1)) auto
    have "sorted_wrt (\<lambda>x z. cmp_lt cmp (ky sl x) (ky sl z)) (before @ after)" using rep by simp
    then have "sorted_wrt (\<lambda>x z. cmp_lt cmp (ky sl' x) (ky sl' z)) (before @ after)"
      by (rule sorted_wrt_mono_rel [rotated]) (simp only: kk)
    moreover have "\<forall>x \<in> set before. cmp_lt cmp (ky sl' x) key" "\<forall>x \<in> set after. cmp_lt cmp key (ky sl' x)"
      using cut gt kk by (auto simp: cut_at_def)
    ultimately show ?thesis using ky(2) by (auto simp: sorted_wrt_append)
  qed
  moreover have "x < length (sl_nodes sl') \<and> 0 < ht sl' x \<and> ht sl' x \<le> sl_max_height sl' \<and> ok (ky sl' x)"
    if "x \<in> set (before @ y # after)" for x
  proof (cases "x = y")
    case True
    then show ?thesis using len y h mh ht(2) ky(2) cut by (simp add: cut_at_def)
  next
    case False
    then have "x \<in> set (before @ after)" using that by auto
    then have "x < length (sl_nodes sl) \<and> 0 < ht sl x \<and> ht sl x \<le> sl_max_height sl \<and> ok (ky sl x)"
      using rep by blast
    then show ?thesis using ht(1) [of x] ky(1) [of x] y len mh by (simp add: le_max_iff_disj)
  qed
  moreover have "distinct (0 # before @ y # after)" using rep yn by auto
  moreover have "0 < length (sl_nodes sl')" "0 < sl_max_height sl'" "sl_max_height sl' \<le> kMaxHeight"
    using len mh h rep by simp_all
  moreover have "ht sl' 0 = kMaxHeight" using rep ht(1) [of 0] below [of 0] by simp
  ultimately show ?thesis unfolding sl_repr_def by blast
qed

lemma NewNode_facts:
  assumes "NewNode key h sl = (y, sl')"
  shows "y = length (sl_nodes sl)" "length (sl_nodes sl') = Suc y" "sl_max_height sl' = sl_max_height sl"
    and "ht sl' y = h" "ky sl' y = key"
    and "x < y \<Longrightarrow> ht sl' x = ht sl x" "x < y \<Longrightarrow> ky sl' x = ky sl x"
    and "x < y \<Longrightarrow> Node_Next sl' x l = Node_Next sl x l"
  using assms by (auto simp: NewNode_def ht_def ky_def Node_Next_def node_at_def nth_append)

context comparator
begin

lemma after_greater:
  assumes cut: "cut_at cmp ok sl key before after"
    and new: "\<forall>x \<in> set after. \<not> cmp_eq cmp key (ky sl x)" and x: "x \<in> set after"
  shows "cmp_lt cmp key (ky sl x)"
proof -
  have "ok key" "ok (ky sl x)" using cut x by (auto simp: cut_at_def sl_repr_def)
  then show ?thesis using cut new x by (cases rule: cmp_cases) (auto simp: cut_at_def)
qed

lemma Insert_spec:
  assumes rep: "sl_repr cmp ok sl ns" and key: "ok key"
    and new: "\<forall>x \<in> set ns. \<not> cmp_eq cmp key (ky sl x)"
  obtains sl' before after y where "Insert cmp key sl = Some sl'" and "ns = before @ after"
    and "cut_at cmp ok sl key before after" and "sl_repr cmp ok sl' (before @ y # after)"
    and "map (ky sl') (before @ y # after) = map (ky sl) before @ key # map (ky sl) after"
proof -
  obtain before after where ns: "ns = before @ after" and cut: "cut_at cmp ok sl key before after"
    by (rule cut_exists [OF rep key])
  obtain prev where F: "FindGreaterOrEqual cmp sl key (Some (replicate kMaxHeight 0)) = Some (first after, Some prev)"
    and prev: "length prev = kMaxHeight" "\<forall>i < kMaxHeight. prev ! i = pred_at sl i before"
    using FindGreaterOrEqual_spec(2) [OF cut] by blast
  have fresh: "(case first after of None \<Rightarrow> Some True
      | Some p \<Rightarrow> do { k \<leftarrow> Node_key sl p; r \<leftarrow> cmp key k; Some (r \<noteq> 0) }) = Some True"
  proof (cases after)
    case (Cons p ps)
    then have "Node_key sl p = Some (ky sl p)" "ok (ky sl p)" "\<not> cmp_eq cmp key (ky sl p)"
      using repr_node [OF rep] new ns by auto
    then show ?thesis using Cons cmp_flip [OF key, of "ky sl p"] by (auto simp: cmp_eq_def)
  qed simp
  obtain h seed where rh: "RandomHeight (sl_rnd sl) = (h, seed)" by (cases "RandomHeight (sl_rnd sl)")
  have h: "0 < h" "h \<le> kMaxHeight" using RandomHeight_range [OF rh] by simp_all
  let ?old = "sl_max_height sl"
  define prev1 where "prev1 = (if h > ?old
    then map (\<lambda>i. if ?old \<le> i \<and> i < h then 0 else prev ! i) [0 ..< kMaxHeight] else prev)"
  define sl1 where "sl1 = sl\<lparr>sl_rnd := seed, sl_max_height := (if h > ?old then h else ?old)\<rparr>"
  obtain y sl2 where nn: "NewNode key h sl1 = (y, sl2)" by (cases "NewNode key h sl1")
  have same1: "sl_nodes sl1 = sl_nodes sl" "sl_max_height sl1 = max h ?old" "ht sl1 = ht sl" "ky sl1 = ky sl"
    "Node_Next sl1 = Node_Next sl"
    by (auto simp: sl1_def ht_def ky_def Node_Next_def node_at_def fun_eq_iff max_def)
  note facts = NewNode_facts [OF nn, unfolded same1]
  have p1: "prev1 ! i = pred_at sl i before" if "i < h" for i
  proof -
    have "0 < ?old" using rep by (simp add: sl_repr_def)
    then show ?thesis using prev h that cut_at_height [OF cut] by (auto simp: prev1_def)
  qed
  have pin: "pred_at sl i before < y \<and> i < ht sl (pred_at sl i before)" if "i < h" for i
    using pred_at_in [of sl i before] cut h that facts(1)
    by (auto simp: cut_at_def sl_repr_def)
  have "\<exists>sl'. link_levels [0 ..< h] y prev1 sl2 = Some sl' \<and>
    length (sl_nodes sl') = length (sl_nodes sl2) \<and> sl_max_height sl' = sl_max_height sl2 \<and>
    (\<forall>x. ht sl' x = ht sl2 x \<and> ky sl' x = ky sl2 x) \<and>
    (\<forall>x l. Node_Next sl' x l = (if l \<in> set [0 ..< h] then
        (if x = y then Node_Next sl2 (prev1 ! l) l else if x = prev1 ! l then Some (Some y) else Node_Next sl2 x l)
      else Node_Next sl2 x l))"
  proof (rule link_levels_spec)
    show "\<forall>i \<in> set [0 ..< h]. i < ht sl2 y \<and> prev1 ! i < length (sl_nodes sl2) \<and> i < ht sl2 (prev1 ! i)"
      using pin p1 facts(2,4,6) by (auto simp: less_SucI)
    show "\<forall>i \<in> set [0 ..< h]. prev1 ! i \<noteq> y" using pin p1 by fastforce
  qed (simp_all add: facts(2))
  then obtain sl' where L: "link_levels [0 ..< h] y prev1 sl2 = Some sl'"
    and s': "length (sl_nodes sl') = length (sl_nodes sl2)" "sl_max_height sl' = sl_max_height sl2"
    "\<And>x. ht sl' x = ht sl2 x" "\<And>x. ky sl' x = ky sl2 x"
    and nx: "\<And>x l. Node_Next sl' x l = (if l < h then
        (if x = y then Node_Next sl2 (prev1 ! l) l else if x = prev1 ! l then Some (Some y) else Node_Next sl2 x l)
      else Node_Next sl2 x l)" by auto
  have I: "Insert cmp key sl = Some sl'"
    unfolding Insert_def F using fresh rh L nn by (simp add: Let_def prev1_def sl1_def)
  have len: "length (sl_nodes sl') = Suc (length (sl_nodes sl))" "sl_max_height sl' = max h ?old"
    using s' facts by simp_all
  have old: "ht sl' x = ht sl x" "ky sl' x = ky sl x" if "x < y" for x
    using s' facts(6,7) that by simp_all
  have at_y: "ht sl' y = h" "ky sl' y = key" using s' facts by simp_all
  have nx_old: "Node_Next sl' x l = (if l < h \<and> x = pred_at sl l before then Some (Some y) else Node_Next sl x l)"
    if "x < y" for x l
    using nx [of x l] facts(8) [OF that] p1 [of l] that by auto
  have nx_y: "Node_Next sl' y l = Node_Next sl (pred_at sl l before) l" if "l < h" for l
    using nx [of y l] that p1 facts(8) pin by simp
  have rep': "sl_repr cmp ok sl' (before @ y # after)"
    by (rule sl_repr_insert [OF cut _ len(1) facts(1) h len(2) old(1) at_y(1) old(2) at_y(2) nx_old nx_y])
      (use after_greater [OF cut] new ns in auto)
  have "x < y" if "x \<in> set ns" for x using rep that facts(1) by (simp add: sl_repr_def)
  then have "map (ky sl') (before @ y # after) = map (ky sl) before @ key # map (ky sl) after"
    using old(2) at_y(2) ns by auto
  with I ns cut rep' show thesis by (rule that)
qed

end

subsection \<open>The contents of a list, as an iterator sees them\<close>

primrec sl_walk :: "nat \<Rightarrow> 'k SkipList \<Rightarrow> iter \<Rightarrow> 'k list" where
  "sl_walk 0 sl it = []"
| "sl_walk (Suc n) sl it = (case Iterator_key sl it of None \<Rightarrow> []
     | Some k \<Rightarrow> k # (case Iterator_Next sl it of None \<Rightarrow> [] | Some it1 \<Rightarrow> sl_walk n sl it1))"

definition sl_elems :: "'k SkipList \<Rightarrow> 'k list" where
  "sl_elems sl = (case Iterator_SeekToFirst sl of None \<Rightarrow> [] | Some it \<Rightarrow> sl_walk (length (sl_nodes sl)) sl it)"

definition sl_inv :: "('k \<Rightarrow> 'k \<Rightarrow> int option) \<Rightarrow> ('k \<Rightarrow> bool) \<Rightarrow> 'k SkipList \<Rightarrow> bool" where
  "sl_inv cmp ok sl \<longleftrightarrow> (\<exists>ns. sl_repr cmp ok sl ns)"

text \<open>The key an iterator stands on after \<open>Seek\<close>, if it is valid.\<close>

definition seek_key :: "('k \<Rightarrow> 'k \<Rightarrow> int option) \<Rightarrow> 'k SkipList \<Rightarrow> 'k \<Rightarrow> 'k option option" where
  "seek_key cmp sl target = do {
     it \<leftarrow> Iterator_Seek cmp sl target;
     if Iterator_Valid it then map_option Some (Iterator_key sl it) else Some None }"

lemma repr_level0: "sl_repr cmp ok sl ns \<Longrightarrow> lev sl 0 ns = ns"
  by (rule lev_0) (simp add: sl_repr_def)

lemma repr_next0:
  assumes "sl_repr cmp ok sl ns" and "0 # ns = pre @ x # post"
  shows "Node_Next sl x 0 = Some (first post)"
  by (rule repr_next [OF assms(1)]) (use assms in \<open>simp_all add: repr_level0 kMaxHeight_def\<close>)

lemma sl_walk_repr:
  "sl_repr cmp ok sl ns \<Longrightarrow> ns = pre @ post \<Longrightarrow> length post \<le> n \<Longrightarrow>
   sl_walk n sl (first post) = map (ky sl) post"
proof (induction n arbitrary: pre post)
  case 0
  then show ?case by simp
next
  case (Suc n)
  show ?case
  proof (cases post)
    case Nil
    then show ?thesis by (simp add: Iterator_key_def)
  next
    case (Cons x xs)
    have "Node_key sl x = Some (ky sl x)" using repr_node [OF Suc.prems(1)] Suc.prems(2) Cons by auto
    moreover have "Node_Next sl x 0 = Some (first xs)"
      by (rule repr_next0 [OF Suc.prems(1), of "0 # pre"]) (use Suc.prems(2) Cons in simp)
    moreover have "sl_walk n sl (first xs) = map (ky sl) xs"
      by (rule Suc.IH [OF Suc.prems(1), of "pre @ [x]"]) (use Suc.prems Cons in auto)
    ultimately show ?thesis using Cons by (simp add: Iterator_key_def Iterator_Next_def)
  qed
qed

lemma sl_elems_repr:
  assumes "sl_repr cmp ok sl ns"
  shows "sl_elems sl = map (ky sl) ns"
proof -
  have "set ns \<subseteq> {..< length (sl_nodes sl)}" and "distinct ns"
    using assms by (auto simp: sl_repr_def)
  then have "length ns \<le> length (sl_nodes sl)"
    using card_mono [of "{..< length (sl_nodes sl)}" "set ns"] by (simp add: distinct_card)
  then have "sl_walk (length (sl_nodes sl)) sl (first ns) = map (ky sl) ns"
    using sl_walk_repr [OF assms, of "[]" ns] by simp
  moreover have "Node_Next sl 0 0 = Some (first ns)" using repr_next0 [OF assms, of "[]"] by simp
  ultimately show ?thesis by (simp add: sl_elems_def Iterator_SeekToFirst_def)
qed

lemma sl_repr_new: "sl_repr cmp ok (SkipList_new any) []"
  by (simp add: sl_repr_def SkipList_new_def ht_def kMaxHeight_def lev_def Node_Next_def node_at_def)

lemma SkipList_new_facts [simp]: "sl_inv cmp ok (SkipList_new any)" "sl_elems (SkipList_new any) = []"
  using sl_elems_repr [OF sl_repr_new] by (auto simp: sl_inv_def intro!: exI [of _ "[]"] sl_repr_new)

subsection \<open>The interface\<close>

text \<open>What the memtable relies on: a table of keys kept in increasing order, that takes a fresh key
  without losing or reordering the others and finds the first key that is not below a target.\<close>

locale ordered_table = comparator cmp ok
  for cmp :: "'k \<Rightarrow> 'k \<Rightarrow> int option" and ok :: "'k \<Rightarrow> bool" +
  fixes inv :: "'t \<Rightarrow> bool" and elems :: "'t \<Rightarrow> 'k list"
    and ins :: "'k \<Rightarrow> 't \<Rightarrow> 't option" and has :: "'t \<Rightarrow> 'k \<Rightarrow> bool option"
    and seek :: "'t \<Rightarrow> 'k \<Rightarrow> 'k option option"
  assumes elems_ok: "inv t \<Longrightarrow> k \<in> set (elems t) \<Longrightarrow> ok k"
    and elems_sorted: "inv t \<Longrightarrow> sorted_wrt (cmp_lt cmp) (elems t)"
    and ins_fresh: "inv t \<Longrightarrow> ok k \<Longrightarrow> \<forall>j \<in> set (elems t). \<not> cmp_eq cmp k j \<Longrightarrow>
      \<exists>t' xs ys. ins k t = Some t' \<and> inv t' \<and> elems t = xs @ ys \<and> elems t' = xs @ k # ys"
    and has_iff: "inv t \<Longrightarrow> ok k \<Longrightarrow> has t k = Some (\<exists>j \<in> set (elems t). cmp_eq cmp k j)"
    and seek_first: "inv t \<Longrightarrow> ok k \<Longrightarrow> seek t k = Some (find (\<lambda>j. \<not> cmp_lt cmp j k) (elems t))"
begin

text \<open>Inserting any sequence of keys that are pairwise different and new succeeds and gives the table
  of the old and the new keys.\<close>

lemma ins_all:
  assumes "inv t" and "\<forall>k \<in> set ks. ok k" and "pairwise (\<lambda>a b. \<not> cmp_eq cmp a b) (set (elems t) \<union> set ks)"
    and "distinct ks" and "set (elems t) \<inter> set ks = {}"
  shows "\<exists>t'. fold (\<lambda>k s. Option.bind s (ins k)) ks (Some t) = Some t' \<and> inv t' \<and>
    set (elems t') = set (elems t) \<union> set ks"
  using assms
proof (induction ks arbitrary: t)
  case Nil
  then show ?case by simp
next
  case (Cons k ks)
  have "\<forall>j \<in> set (elems t). \<not> cmp_eq cmp k j"
    using Cons.prems(3,5) by (auto simp: pairwise_def)
  then obtain t1 xs ys where t1: "ins k t = Some t1" "inv t1" "elems t = xs @ ys" "elems t1 = xs @ k # ys"
    using ins_fresh Cons.prems by (metis list.set_intros(1))
  then have s: "set (elems t1) \<union> set ks = set (elems t) \<union> set (k # ks)" by auto
  obtain t' where "fold (\<lambda>k s. Option.bind s (ins k)) ks (Some t1) = Some t'" "inv t'"
    "set (elems t') = set (elems t1) \<union> set ks"
    using Cons.IH [OF t1(2)] Cons.prems s t1 by auto
  then show ?case using t1(1) s by auto
qed

end

context comparator
begin

text \<open>One search: the cut of the list at the target, the result of \<open>FindGreaterOrEqual\<close>, and the
  contents on both sides of the cut.\<close>

lemma search_cut:
  assumes "sl_repr cmp ok t ns" and "ok k"
  obtains before after prev' where "ns = before @ after" and "cut_at cmp ok t k before after"
    and "FindGreaterOrEqual cmp t k None = Some (first after, prev')"
    and "sl_elems t = map (ky t) before @ map (ky t) after"
    and "\<forall>x \<in> set before. cmp_lt cmp (ky t x) k" and "\<forall>x \<in> set after. \<not> cmp_lt cmp (ky t x) k"
proof -
  obtain before after where ns: "ns = before @ after" and cut: "cut_at cmp ok t k before after"
    by (rule cut_exists [OF assms])
  moreover obtain prev' where "FindGreaterOrEqual cmp t k None = Some (first after, prev')"
    using FindGreaterOrEqual_spec(1) [OF cut, of None] by auto
  moreover have "sl_elems t = map (ky t) before @ map (ky t) after"
    using sl_elems_repr [OF assms(1)] ns by simp
  ultimately show thesis using that cut by (auto simp: cut_at_def)
qed

lemma seek_key_repr:
  assumes rep: "sl_repr cmp ok t ns" and k: "ok k"
  shows "seek_key cmp t k = Some (find (\<lambda>j. \<not> cmp_lt cmp j k) (sl_elems t))"
proof -
  obtain before after prev' where s: "ns = before @ after"
    "FindGreaterOrEqual cmp t k None = Some (first after, prev')"
    "sl_elems t = map (ky t) before @ map (ky t) after"
    and lt: "\<forall>x \<in> set before. cmp_lt cmp (ky t x) k" "\<forall>x \<in> set after. \<not> cmp_lt cmp (ky t x) k"
    by (rule search_cut [OF assms])
  have "find (\<lambda>j. \<not> cmp_lt cmp j k) (map (ky t) before @ map (ky t) after) = map_option (ky t) (first after)"
    using lt by (induction before) (auto simp: first_def split: list.splits)
  then show ?thesis
    using s repr_node [OF rep]
    by (cases after) (auto simp: seek_key_def Iterator_Seek_def Iterator_Valid_def Iterator_key_def)
qed

lemma first_after_equal:
  assumes rep: "sl_repr cmp ok t (before @ p # ps)" and k: "ok k"
    and lt: "\<forall>x \<in> set before. cmp_lt cmp (ky t x) k" "\<not> cmp_lt cmp (ky t p) k"
    and j: "j \<in> set (before @ p # ps)" "cmp_eq cmp k (ky t j)"
  shows "cmp_eq cmp k (ky t p)"
proof (rule ccontr)
  assume ne: "\<not> cmp_eq cmp k (ky t p)"
  have okx: "ok (ky t x)" if "x \<in> set (before @ p # ps)" for x using repr_node [OF rep that] by simp
  have sym: "cmp_eq cmp (ky t j) k" by (rule cmp_eq_sym [OF k okx [OF j(1)] j(2)])
  then have "\<not> cmp_lt cmp (ky t j) k" by (auto simp: cmp_eq_def cmp_lt_def)
  then have "j \<in> set ps" using j lt ne by auto
  then have "cmp_lt cmp (ky t p) (ky t j)"
    using rep by (auto simp: sl_repr_def sorted_wrt_append)
  then have "cmp_lt cmp (ky t p) k" using cmp_lt_eq [OF _ _ k _ sym] okx j by auto
  with lt show False by simp
qed

lemma Contains_repr:
  assumes rep: "sl_repr cmp ok t ns" and k: "ok k"
  shows "Contains cmp t k = Some (\<exists>j \<in> set (sl_elems t). cmp_eq cmp k j)"
proof -
  obtain before after prev' where ns: "ns = before @ after"
    and F: "FindGreaterOrEqual cmp t k None = Some (first after, prev')"
    and elems: "sl_elems t = map (ky t) before @ map (ky t) after"
    and lt: "\<forall>x \<in> set before. cmp_lt cmp (ky t x) k" "\<forall>x \<in> set after. \<not> cmp_lt cmp (ky t x) k"
    by (rule search_cut [OF assms])
  have okx: "ok (ky t x)" "Node_key t x = Some (ky t x)" if "x \<in> set ns" for x
    using repr_node [OF rep that] by simp_all
  show ?thesis
  proof (cases after)
    case Nil
    then have "\<not> cmp_eq cmp k (ky t j)" if "j \<in> set ns" for j
      using lt(1) that ns cmp_eq_not_lt [OF k okx(1) [OF that]] by auto
    with Nil F elems ns show ?thesis by (auto simp: Contains_def)
  next
    case (Cons p ps)
    then have p: "p \<in> set ns" using ns by simp
    have "(\<exists>j \<in> set (sl_elems t). cmp_eq cmp k j) \<longleftrightarrow> cmp_eq cmp k (ky t p)"
      using first_after_equal [of t before p ps k] rep k lt elems ns Cons by auto
    moreover have "(\<exists>r. cmp k (ky t p) = Some r \<and> (r = 0) = b) \<longleftrightarrow> b = cmp_eq cmp k (ky t p)" for b
      using cmp_flip [OF k okx(1) [OF p]] by (auto simp: cmp_eq_def)
    ultimately show ?thesis using Cons F okx p by (simp add: Contains_def)
  qed
qed

text \<open>A key that is already present fails the assertion of \<open>Insert\<close>.\<close>

lemma Insert_duplicate:
  assumes rep: "sl_repr cmp ok t ns" and k: "ok k" and dup: "j \<in> set ns" "cmp_eq cmp k (ky t j)"
  shows "Insert cmp k t = None"
proof -
  obtain before after where ns: "ns = before @ after" and cut: "cut_at cmp ok t k before after"
    by (rule cut_exists [OF rep k])
  obtain prev where F: "FindGreaterOrEqual cmp t k (Some (replicate kMaxHeight 0)) = Some (first after, Some prev)"
    using FindGreaterOrEqual_spec(2) [OF cut] by blast
  have lt: "\<forall>x \<in> set before. cmp_lt cmp (ky t x) k" "\<forall>x \<in> set after. \<not> cmp_lt cmp (ky t x) k"
    using cut by (auto simp: cut_at_def)
  have "j \<notin> set before" using lt(1) dup repr_node [OF rep dup(1)] k cmp_eq_not_lt by blast
  then obtain p ps where after: "after = p # ps" using dup(1) ns by (cases after) auto
  have "cmp_eq cmp k (ky t p)"
    using first_after_equal [of t before p ps k j] rep k lt dup ns after by simp
  then show ?thesis
    using repr_node [OF rep, of p] F after ns by (simp add: Insert_def cmp_eq_def)
qed

end

text \<open>The skip list over any comparator provides the interface.\<close>

sublocale comparator \<subseteq> skip: ordered_table cmp ok "sl_inv cmp ok" sl_elems "Insert cmp" "Contains cmp" "seek_key cmp"
proof
  fix t k
  assume "sl_inv cmp ok t" "k \<in> set (sl_elems t)"
  then show "ok k" by (auto simp: sl_inv_def sl_elems_repr dest: repr_node)
next
  fix t
  assume "sl_inv cmp ok t"
  then show "sorted_wrt (cmp_lt cmp) (sl_elems t)"
    by (auto simp: sl_inv_def sl_elems_repr) (simp add: sl_repr_def sorted_wrt_map)
next
  fix t k
  assume "sl_inv cmp ok t" and k: "ok k" and new: "\<forall>j \<in> set (sl_elems t). \<not> cmp_eq cmp k j"
  then obtain ns where rep: "sl_repr cmp ok t ns" by (auto simp: sl_inv_def)
  have "\<forall>x \<in> set ns. \<not> cmp_eq cmp k (ky t x)" using new by (simp add: sl_elems_repr [OF rep])
  then obtain t' before after y where "Insert cmp k t = Some t'" "ns = before @ after"
    and rep': "sl_repr cmp ok t' (before @ y # after)"
    and kys: "map (ky t') (before @ y # after) = map (ky t) before @ k # map (ky t) after"
    by (rule Insert_spec [OF rep k])
  moreover have "sl_elems t' = map (ky t) before @ k # map (ky t) after"
    using sl_elems_repr [OF rep'] kys by simp
  ultimately show "\<exists>t' xs ys. Insert cmp k t = Some t' \<and> sl_inv cmp ok t' \<and> sl_elems t = xs @ ys \<and>
      sl_elems t' = xs @ k # ys"
    unfolding sl_inv_def using sl_elems_repr [OF rep] by (metis map_append)
next
  fix t k
  assume "sl_inv cmp ok t" and k: "ok k"
  then obtain ns where rep: "sl_repr cmp ok t ns" by (auto simp: sl_inv_def)
  show "Contains cmp t k = Some (\<exists>j \<in> set (sl_elems t). cmp_eq cmp k j)"
    by (rule Contains_repr [OF rep k])
  show "seek_key cmp t k = Some (find (\<lambda>j. \<not> cmp_lt cmp j k) (sl_elems t))"
    by (rule seek_key_repr [OF rep k])
qed

context comparator
begin

lemma Insert_refines:
  assumes "sl_inv cmp ok sl" and "ok key" and "\<forall>j \<in> set (sl_elems sl). \<not> cmp_eq cmp key j"
  shows "\<exists>sl' xs ys. Insert cmp key sl = Some sl' \<and> sl_inv cmp ok sl' \<and> sl_elems sl = xs @ ys \<and>
    sl_elems sl' = xs @ key # ys \<and> sorted_wrt (cmp_lt cmp) (sl_elems sl')"
  using skip.ins_fresh [OF assms] skip.elems_sorted by blast

lemma Insert_all:
  assumes "\<forall>k \<in> set ks. ok k" and "pairwise (\<lambda>a b. \<not> cmp_eq cmp a b) (set ks)" and "distinct ks" and "ok k"
  shows "\<exists>sl. fold (\<lambda>k s. Option.bind s (Insert cmp k)) ks (Some (SkipList_new any)) = Some sl \<and>
    sorted_wrt (cmp_lt cmp) (sl_elems sl) \<and> set (sl_elems sl) = set ks \<and>
    Contains cmp sl k = Some (\<exists>j \<in> set ks. cmp_eq cmp k j)"
  using skip.ins_all [of "SkipList_new any" ks] assms skip.elems_sorted skip.has_iff by auto

lemma Insert_rejects:
  assumes "sl_inv cmp ok sl" and "ok key" and "j \<in> set (sl_elems sl)" and "cmp_eq cmp key j"
  shows "Insert cmp key sl = None"
  using assms Insert_duplicate by (auto simp: sl_inv_def sl_elems_repr)

text \<open>The iterator operations on the nodes of the list.\<close>

lemma Iterator_at:
  assumes rep: "sl_repr cmp ok sl ns" and i: "i < length ns"
  shows "Iterator_key sl (Some (ns ! i)) = Some (sl_elems sl ! i)"
    and "Iterator_Next sl (Some (ns ! i)) = Some (if Suc i < length ns then Some (ns ! Suc i) else None)"
    and "Iterator_Prev cmp sl (Some (ns ! i)) = Some (if i = 0 then None else Some (ns ! (i - 1)))"
proof -
  have x: "ns ! i \<in> set ns" using i by simp
  have k: "Node_key sl (ns ! i) = Some (ky sl (ns ! i))" "ok (ky sl (ns ! i))"
    using repr_node [OF rep x] by simp_all
  show "Iterator_key sl (Some (ns ! i)) = Some (sl_elems sl ! i)"
    using k i by (simp add: Iterator_key_def sl_elems_repr [OF rep])
  have split: "ns = take i ns @ ns ! i # drop (Suc i) ns" using i by (rule id_take_nth_drop)
  have "Node_Next sl (ns ! i) 0 = Some (first (drop (Suc i) ns))"
    by (rule repr_next0 [OF rep, of "0 # take i ns"]) (use split in simp)
  then show "Iterator_Next sl (Some (ns ! i)) = Some (if Suc i < length ns then Some (ns ! Suc i) else None)"
    by (simp add: Iterator_Next_def first_def Cons_nth_drop_Suc [symmetric])
  have srt: "sorted_wrt (\<lambda>x y. cmp_lt cmp (ky sl x) (ky sl y)) (take i ns @ ns ! i # drop (Suc i) ns)"
    using rep split by (simp add: sl_repr_def)
  have "\<not> cmp_lt cmp (ky sl x) (ky sl (ns ! i))" if "x \<in> set (drop (Suc i) ns)" for x
    using srt that k(2) repr_node [OF rep in_set_dropD [OF that]] cmp_lt_asym
    by (auto simp: sorted_wrt_append)
  moreover have "cmp_lt cmp (ky sl x) (ky sl (ns ! i))" if "x \<in> set (take i ns)" for x
    using srt that unfolding sorted_wrt_append by simp
  ultimately have cut: "cut_at cmp ok sl (ky sl (ns ! i)) (take i ns) (ns ! i # drop (Suc i) ns)"
    unfolding cut_at_def split [symmetric] using rep k cmp_lt_irrefl by auto
  have "0 \<notin> set ns" using rep by (simp add: sl_repr_def)
  then have "ns ! (i - 1) \<noteq> 0" using i by (metis nth_mem less_imp_diff_less)
  moreover have "last (0 # take i ns) = (if i = 0 then 0 else ns ! (i - 1))"
    using i by (auto simp: last_conv_nth min_def)
  ultimately show "Iterator_Prev cmp sl (Some (ns ! i)) = Some (if i = 0 then None else Some (ns ! (i - 1)))"
    using k FindLessThan_spec [OF cut] by (simp add: Iterator_Prev_def)
qed

lemma Iterator_ends:
  assumes rep: "sl_repr cmp ok sl ns"
  shows "Iterator_SeekToFirst sl = Some (if ns = [] then None else Some (hd ns))"
    and "Iterator_SeekToLast sl = Some (if ns = [] then None else Some (last ns))"
proof -
  show "Iterator_SeekToFirst sl = Some (if ns = [] then None else Some (hd ns))"
    using repr_next0 [OF rep, of "[]"] by (simp add: Iterator_SeekToFirst_def first_def split: list.splits)
  have "last ns \<noteq> 0" if "ns \<noteq> []" using rep last_in_set [OF that] by (metis sl_repr_def distinct.simps(2))
  then show "Iterator_SeekToLast sl = Some (if ns = [] then None else Some (last ns))"
    using FindLast_spec [OF rep] by (cases "ns = []") (auto simp: Iterator_SeekToLast_def)
qed

end

subsection \<open>Properties\<close>

text \<open>(C12) \<open>Insert\<close> refines insertion into a sorted sequence: for a key that compares equal to no key of
  the list, the search loops end, no assertion fails, every link followed is one that exists, the
  invariant is kept, and an iterator over the new list sees the old keys in their order with the new
  key at its place.\<close>

theorem SkipList_Insert_refines:
  assumes "comparator cmp ok" and "sl_inv cmp ok sl" and "ok key"
    and "\<forall>j \<in> set (sl_elems sl). \<not> cmp_eq cmp key j"
  shows "\<exists>sl' xs ys. Insert cmp key sl = Some sl' \<and> sl_inv cmp ok sl' \<and> sl_elems sl = xs @ ys \<and>
    sl_elems sl' = xs @ key # ys \<and> sorted_wrt (cmp_lt cmp) (sl_elems sl')"
  by (rule comparator.Insert_refines [OF assms])

theorem SkipList_Insert_refines_witness:
  "\<exists>sl' xs ys. Insert Bytewise_Compare [5] (SkipList_new []) = Some sl' \<and>
    sl_inv Bytewise_Compare (\<lambda>_. True) sl' \<and> sl_elems (SkipList_new []) = xs @ ys \<and>
    sl_elems sl' = xs @ [5] # ys \<and> sorted_wrt (cmp_lt Bytewise_Compare) (sl_elems sl')"
  by (rule SkipList_Insert_refines [OF bw.comparator_axioms]) simp_all

text \<open>(C31) A list built by any sequence of insertions of pairwise different keys holds exactly these
  keys in increasing order, and \<open>Contains\<close> answers membership.\<close>

theorem SkipList_build:
  assumes "comparator cmp ok" and "\<forall>k \<in> set ks. ok k"
    and "pairwise (\<lambda>a b. \<not> cmp_eq cmp a b) (set ks)" and "distinct ks" and "ok k"
  shows "\<exists>sl. fold (\<lambda>k s. Option.bind s (Insert cmp k)) ks (Some (SkipList_new any)) = Some sl \<and>
    sorted_wrt (cmp_lt cmp) (sl_elems sl) \<and> set (sl_elems sl) = set ks \<and>
    Contains cmp sl k = Some (\<exists>j \<in> set ks. cmp_eq cmp k j)"
  by (rule comparator.Insert_all [OF assms])

theorem SkipList_build_witness:
  "\<exists>sl. fold (\<lambda>k s. Option.bind s (Insert Bytewise_Compare k)) [[3], [1], [2, 7]]
      (Some (SkipList_new [])) = Some sl \<and>
    sorted_wrt (cmp_lt Bytewise_Compare) (sl_elems sl) \<and> set (sl_elems sl) = set [[3], [1], [2, 7]] \<and>
    Contains Bytewise_Compare sl [2, 7] = Some (\<exists>j \<in> set [[3], [1], [2, 7]]. cmp_eq Bytewise_Compare [2, 7] j)"
  by (rule SkipList_build [OF bw.comparator_axioms]) (auto simp: pairwise_def)

text \<open>(C33) Inserting a key that is already present fails the assertion of \<open>Insert\<close>: the list never
  holds two equal keys.\<close>

theorem SkipList_Insert_duplicate:
  assumes "comparator cmp ok" and "sl_inv cmp ok sl" and "ok key" and "j \<in> set (sl_elems sl)"
    and "cmp_eq cmp key j"
  shows "Insert cmp key sl = None"
  by (rule comparator.Insert_rejects [OF assms])

text \<open>A list with one key, for the witnesses.\<close>

definition one_key_list :: "slice SkipList" where
  "one_key_list = \<lparr>sl_nodes = [\<lparr>nd_key = [], nd_next = Some 1 # replicate 11 None\<rparr>,
     \<lparr>nd_key = [5], nd_next = [None]\<rparr>], sl_max_height = 1, sl_rnd = 1\<rparr>"

lemma one_key_repr: "sl_repr Bytewise_Compare (\<lambda>_. True) one_key_list [1]"
proof -
  have "chain one_key_list l (0 # lev one_key_list l [1])" if "l < 12" for l
  proof (cases "l = 0")
    case False
    then have "replicate 11 None ! (l - 1) = (None :: nat option)" using that by (intro nth_replicate) simp
    with False that show ?thesis
      by (simp add: one_key_list_def lev_def ht_def Node_Next_def node_at_def nth_Cons' del: replicate.simps)
  qed (simp add: one_key_list_def lev_def ht_def Node_Next_def node_at_def)
  then show ?thesis by (simp add: sl_repr_def kMaxHeight_def) (simp add: one_key_list_def ht_def)
qed

theorem SkipList_Insert_duplicate_witness: "Insert Bytewise_Compare [5] one_key_list = None"
proof (rule SkipList_Insert_duplicate [OF bw.comparator_axioms])
  show "sl_inv Bytewise_Compare (\<lambda>_. True) one_key_list" using one_key_repr by (auto simp: sl_inv_def)
  show "[5] \<in> set (sl_elems one_key_list)"
    by (simp add: sl_elems_repr [OF one_key_repr]) (simp add: one_key_list_def ky_def)
qed simp_all

text \<open>(C32) The iterator moves through the nodes of the list in both directions: \<open>SeekToFirst\<close> and
  \<open>SeekToLast\<close> go to the ends, \<open>Next\<close> and \<open>Prev\<close> to the neighbours, and past an end the iterator is
  no longer valid.\<close>

theorem SkipList_iterator:
  assumes "comparator cmp ok" and "sl_repr cmp ok sl ns" and "i < length ns"
  shows "Iterator_SeekToFirst sl = Some (Some (ns ! 0)) \<and>
    Iterator_SeekToLast sl = Some (Some (ns ! (length ns - 1))) \<and>
    Iterator_key sl (Some (ns ! i)) = Some (sl_elems sl ! i) \<and>
    Iterator_Next sl (Some (ns ! i)) = Some (if Suc i < length ns then Some (ns ! Suc i) else None) \<and>
    Iterator_Prev cmp sl (Some (ns ! i)) = Some (if i = 0 then None else Some (ns ! (i - 1)))"
  using comparator.Iterator_at [OF assms] comparator.Iterator_ends [OF assms(1,2)] assms(3)
  by (auto simp: hd_conv_nth last_conv_nth)

theorem SkipList_iterator_witness:
  "Iterator_SeekToFirst one_key_list = Some (Some ([1] ! 0)) \<and>
    Iterator_SeekToLast one_key_list = Some (Some ([1] ! (length [1 :: nat] - 1))) \<and>
    Iterator_key one_key_list (Some ([1] ! 0)) = Some (sl_elems one_key_list ! 0) \<and>
    Iterator_Next one_key_list (Some ([1] ! 0)) =
      Some (if Suc 0 < length [1 :: nat] then Some ([1] ! Suc 0) else None) \<and>
    Iterator_Prev Bytewise_Compare one_key_list (Some ([1] ! 0)) =
      Some (if (0 :: nat) = 0 then None else Some ([1] ! (0 - 1)))"
  by (rule SkipList_iterator [OF bw.comparator_axioms one_key_repr]) simp

end
