(* ===== verification/Ldb_Memtable.thy ===== *)
theory Ldb_Memtable
  imports Ldb_Dbformat Ldb_Skiplist
begin

text \<open>
  \<open>db/memtable.h\<close> and \<open>db/memtable.cc\<close>: the in-memory table of recent writes. An entry is one byte
  sequence (length-prefixed internal key, length-prefixed value) and the table is the skip list of
  the entries, ordered by the internal keys in them. The reference count, the arena and the memory
  estimate of the class are not modelled here. \<open>None\<close> is a failed assertion or a read past an
  entry.
\<close>

text \<open>The static helper \<open>GetLengthPrefixedSlice(const char*)\<close>: it reads the length from at most five
  bytes and trusts it. The model returns the slice and the bytes after it.\<close>

definition entry_slice :: "slice \<Rightarrow> (slice \<times> slice) option" where
  "entry_slice data = do {
     (len, p) \<leftarrow> GetVarint32Ptr (take 5 data);
     let rest = drop (length (take 5 data) - length p) data;
     if unat len \<le> length rest then Some (take (unat len) rest, drop (unat len) rest) else None }"

definition KeyComparator :: "compare_fun \<Rightarrow> slice \<Rightarrow> slice \<Rightarrow> int option" where
  "KeyComparator user_Compare aptr bptr = do {
     (a, _) \<leftarrow> entry_slice aptr;
     (b, _) \<leftarrow> entry_slice bptr;
     InternalKey_Compare user_Compare a b }"

type_synonym MemTable = "slice SkipList"

definition MemTable_new :: MemTable where
  "MemTable_new = SkipList_new []"

text \<open>\<open>EncodeKey\<close> and the iterator of a memtable.\<close>

definition EncodeKey :: "slice \<Rightarrow> slice" where
  "EncodeKey target = PutVarint32 [] (word_of_nat (length target)) @ target"

definition MemTableIterator_Seek :: "compare_fun \<Rightarrow> MemTable \<Rightarrow> slice \<Rightarrow> iter option" where
  "MemTableIterator_Seek user_Compare mt k = Iterator_Seek (KeyComparator user_Compare) mt (EncodeKey k)"

definition MemTableIterator_key :: "MemTable \<Rightarrow> iter \<Rightarrow> slice option" where
  "MemTableIterator_key mt it = do { e \<leftarrow> Iterator_key mt it; map_option fst (entry_slice e) }"

definition MemTableIterator_value :: "MemTable \<Rightarrow> iter \<Rightarrow> slice option" where
  "MemTableIterator_value mt it = do {
     e \<leftarrow> Iterator_key mt it;
     (_, rest) \<leftarrow> entry_slice e;
     map_option fst (entry_slice rest) }"

definition MemTable_Add :: "compare_fun \<Rightarrow> SequenceNumber \<Rightarrow> ValueType \<Rightarrow> slice \<Rightarrow> slice \<Rightarrow> MemTable \<Rightarrow> MemTable option" where
  "MemTable_Add user_Compare s type key val mt =
     (let key_size = length key;
          val_size = length val;
          internal_key_size = key_size + 8;
          encoded_len = VarintLength (word_of_nat internal_key_size) + internal_key_size +
            VarintLength (word_of_nat val_size) + val_size;
          buf = EncodeVarint32 (word_of_nat internal_key_size) @ key @
            EncodeFixed64 (push_bit 8 s OR ucast type) @
            EncodeVarint32 (word_of_nat val_size) @ val
      in if length buf = encoded_len then Insert (KeyComparator user_Compare) buf mt else None)"

text \<open>The three outcomes of \<open>Get\<close>: true with the value stored in \<open>*value\<close>, true with a \<open>NotFound\<close>
  status in \<open>*s\<close>, and false.\<close>

datatype get_result = GetValue slice | GetDeleted Status | GetMiss

definition MemTable_Get :: "compare_fun \<Rightarrow> LookupKey \<Rightarrow> MemTable \<Rightarrow> get_result option" where
  "MemTable_Get user_Compare key mt = do {
     it \<leftarrow> Iterator_Seek (KeyComparator user_Compare) mt (memtable_key key);
     if \<not> Iterator_Valid it then Some GetMiss
     else do {
       entry \<leftarrow> Iterator_key mt it;
       (ikey, rest) \<leftarrow> entry_slice entry;
       if length ikey < 8 then None
       else do {
         r \<leftarrow> user_Compare (take (length ikey - 8) ikey) (lookup_user_key key);
         if r = 0 then do {
           tag \<leftarrow> DecodeFixed64 (drop (length ikey - 8) ikey);
           let t = (ucast (tag AND 0xff) :: ValueType);
           if t = kTypeValue then do { (v, _) \<leftarrow> entry_slice rest; Some (GetValue v) }
           else if t = kTypeDeletion then Some (GetDeleted (NotFound ''''))
           else Some GetMiss }
         else Some GetMiss } } }"

subsection \<open>Entries\<close>

lemma GetVarint32Ptr_eq: "GetVarint32Ptr p = GetVarint32 p"
  by (simp add: GetVarint32_def)

lemma entry_slice_Encode:
  assumes "length k < 2 ^ 32"
  shows "entry_slice (EncodeVarint32 (word_of_nat (length k)) @ k @ rest) = Some (k, rest)"
proof -
  let ?e = "EncodeVarint32 (word_of_nat (length k))"
  have l: "length ?e \<le> 5" by (rule length_EncodeVarint32)
  then have t: "take 5 (?e @ k @ rest) = ?e @ take (5 - length ?e) (k @ rest)" by simp
  have "GetVarint32Ptr (take 5 (?e @ k @ rest)) = Some (word_of_nat (length k), take (5 - length ?e) (k @ rest))"
    unfolding t GetVarint32Ptr_eq by (rule GetVarint32_Encode)
  moreover have "length (take 5 (?e @ k @ rest)) - length (take (5 - length ?e) (k @ rest)) = length ?e"
    unfolding t by simp
  moreover have "unat (word_of_nat (length k) :: u32) = length k"
    by (rule unat_of_nat_small) (use assms in simp)
  ultimately show ?thesis by (simp add: entry_slice_def Let_def del: take_append) simp
qed

text \<open>Entries whose internal key is in the domain; the comparator of the table is a comparator of
  entries.\<close>

definition entry_ok :: "(slice \<Rightarrow> bool) \<Rightarrow> slice \<Rightarrow> bool" where
  "entry_ok ok e \<longleftrightarrow> (case entry_slice e of Some (k, _) \<Rightarrow> ik_ok ok k | None \<Rightarrow> False)"

lemma entry_okE:
  assumes "entry_ok ok e"
  obtains k rest where "entry_slice e = Some (k, rest)" and "ik_ok ok k"
  using assms by (auto simp: entry_ok_def split: option.splits)

lemma KeyComparator_eq:
  "entry_slice a = Some (ka, ra) \<Longrightarrow> entry_slice b = Some (kb, rb) \<Longrightarrow>
   KeyComparator cmp a b = InternalKey_Compare cmp ka kb"
  by (simp add: KeyComparator_def)

sublocale slice_comparator \<subseteq> mem: comparator "KeyComparator cmp" "entry_ok ok"
proof
  fix a
  assume "entry_ok ok a"
  then show "KeyComparator cmp a a = Some 0"
    by (elim entry_okE) (simp add: KeyComparator_eq ik.cmp_refl)
next
  fix a b
  assume "entry_ok ok a" "entry_ok ok b"
  then show "\<exists>r s. KeyComparator cmp a b = Some r \<and> KeyComparator cmp b a = Some s \<and> sgn s = - sgn r"
    by (elim entry_okE) (simp only: KeyComparator_eq ik.cmp_flip)
next
  fix a b c r s
  assume "entry_ok ok a" "entry_ok ok b" "entry_ok ok c"
    and "KeyComparator cmp a b = Some r" "r \<le> 0" "KeyComparator cmp b c = Some s" "s \<le> 0"
  then show "\<exists>t. KeyComparator cmp a c = Some t \<and> t \<le> 0 \<and> (t = 0 \<longrightarrow> r = 0 \<and> s = 0)"
    by (elim entry_okE) (simp add: KeyComparator_eq ik.cmp_trans)
qed

context slice_comparator
begin

lemma mem_comparator: "comparator (KeyComparator cmp) (entry_ok ok)"
  by (rule mem.comparator_axioms)

end

subsection \<open>The writes a table holds\<close>

record mem_op =
  op_seq :: SequenceNumber
  op_type :: ValueType
  op_key :: slice
  op_val :: slice

text \<open>A write that fits: a sequence number of 56 bits, one of the two types, and lengths that the
  32-bit length fields can hold.\<close>

definition op_ok :: "mem_op \<Rightarrow> bool" where
  "op_ok w \<longleftrightarrow> op_seq w \<le> kMaxSequenceNumber \<and> op_type w \<le> kTypeValue \<and>
     length (op_key w) + 8 < 2 ^ 32 \<and> length (op_val w) < 2 ^ 32"

definition op_tag :: "mem_op \<Rightarrow> u64" where
  "op_tag w = push_bit 8 (op_seq w) OR ucast (op_type w)"

definition op_entry :: "mem_op \<Rightarrow> slice" where
  "op_entry w = EncodeVarint32 (word_of_nat (length (op_key w) + 8)) @ op_key w @ EncodeFixed64 (op_tag w) @
     EncodeVarint32 (word_of_nat (length (op_val w))) @ op_val w"

lemma op_tag_pack: "op_ok w \<Longrightarrow> PackSequenceAndType (op_seq w) (op_type w) = Some (op_tag w)"
  by (simp add: op_ok_def PackSequenceAndType_def op_tag_def kValueTypeForSeek_def)

lemma op_entry_slices:
  assumes "op_ok w"
  shows "\<exists>rest. entry_slice (op_entry w) = Some (op_key w @ EncodeFixed64 (op_tag w), rest) \<and>
    entry_slice rest = Some (op_val w, [])"
  using assms entry_slice_Encode [of "op_key w @ EncodeFixed64 (op_tag w)"
      "EncodeVarint32 (word_of_nat (length (op_val w))) @ op_val w"]
    entry_slice_Encode [of "op_val w" "[]"]
  by (simp add: op_entry_def op_ok_def)

lemma op_entry_ok: "op_ok w \<Longrightarrow> entry_ok (\<lambda>_. True) (op_entry w)"
  using op_entry_slices [of w] by (auto simp: entry_ok_def)

lemma VarintLength_32: "n < 2 ^ 32 \<Longrightarrow> VarintLength (word_of_nat n) = length (EncodeVarint32 (word_of_nat n))"
proof -
  assume n: "n < 2 ^ 32"
  have "unat (word_of_nat n :: u64) = n" "unat (word_of_nat n :: u32) = n"
    by (rule unat_of_nat_small, use n in simp)+
  then show ?thesis
    using VarintLength_loop_spec [of 1 "word_of_nat n"]
    by (simp add: VarintLength_def EncodeVarint32_spec EncodeVarint64_spec)
qed

definition add_op :: "mem_op \<Rightarrow> MemTable \<Rightarrow> MemTable option" where
  "add_op w mt = MemTable_Add Bytewise_Compare (op_seq w) (op_type w) (op_key w) (op_val w) mt"

lemma add_op_Insert: "op_ok w \<Longrightarrow> add_op w mt = Insert (KeyComparator Bytewise_Compare) (op_entry w) mt"
  by (simp add: add_op_def MemTable_Add_def Let_def op_ok_def VarintLength_32 op_entry_def op_tag_def
      del: of_nat_add)

text \<open>Entries compare by user key and then by decreasing sequence number.\<close>

lemma op_tag_less:
  "op_ok v \<Longrightarrow> op_ok w \<Longrightarrow> op_tag v < op_tag w \<longleftrightarrow>
     op_seq v < op_seq w \<or> op_seq v = op_seq w \<and> op_type v < op_type w"
  using unat_pack [OF op_tag_pack, of v] unat_pack [OF op_tag_pack, of w]
    unat_byte_less [of "op_type v"] unat_byte_less [of "op_type w"]
  unfolding word_less_nat_alt word_unat_eq_iff by linarith

lemma entry_lt:
  assumes "entry_slice a = Some (u @ EncodeFixed64 x, ra)" and "entry_slice b = Some (v @ EncodeFixed64 y, rb)"
  shows "cmp_lt (KeyComparator Bytewise_Compare) a b \<longleftrightarrow> slice_compare u v < 0 \<or> u = v \<and> y < x"
    and "cmp_eq (KeyComparator Bytewise_Compare) a b \<longleftrightarrow> u = v \<and> x = y"
proof -
  let ?IK = "InternalKey_Compare Bytewise_Compare"
  have "KeyComparator Bytewise_Compare a b = ?IK (u @ EncodeFixed64 x) (v @ EncodeFixed64 y)"
    using assms by (rule KeyComparator_eq)
  then have "cmp_lt (KeyComparator Bytewise_Compare) a b = cmp_lt ?IK (u @ EncodeFixed64 x) (v @ EncodeFixed64 y)"
    "cmp_eq (KeyComparator Bytewise_Compare) a b = cmp_eq ?IK (u @ EncodeFixed64 x) (v @ EncodeFixed64 y)"
    by (simp_all add: cmp_lt_def cmp_eq_def)
  then show "cmp_lt (KeyComparator Bytewise_Compare) a b \<longleftrightarrow> slice_compare u v < 0 \<or> u = v \<and> y < x"
    "cmp_eq (KeyComparator Bytewise_Compare) a b \<longleftrightarrow> u = v \<and> x = y"
    by (simp_all add: ik_lt_iff ik_eq_iff)
qed

subsection \<open>Lookup\<close>

definition mt_holds :: "MemTable \<Rightarrow> mem_op set \<Rightarrow> bool" where
  "mt_holds mt ws \<longleftrightarrow> sl_inv (KeyComparator Bytewise_Compare) (entry_ok (\<lambda>_. True)) mt \<and>
     (\<forall>w \<in> ws. op_ok w) \<and> inj_on op_seq ws \<and> set (sl_elems mt) = op_entry ` ws"

text \<open>\<open>visible ws u s w\<close>: \<open>w\<close> is the write that a reader of the key \<open>u\<close> at the snapshot \<open>s\<close> sees among
  the writes \<open>ws\<close>: the newest one of the key that is not newer than the snapshot.\<close>

definition visible :: "mem_op set \<Rightarrow> slice \<Rightarrow> SequenceNumber \<Rightarrow> mem_op \<Rightarrow> bool" where
  "visible ws u s w \<longleftrightarrow> w \<in> ws \<and> op_key w = u \<and> op_seq w \<le> s \<and>
     (\<forall>v \<in> ws. op_key v = u \<and> op_seq v \<le> s \<longrightarrow> op_seq v \<le> op_seq w)"

lemma mt_holds_new: "mt_holds MemTable_new {}"
  by (simp add: mt_holds_def MemTable_new_def)

lemma mt_holds_add:
  assumes "mt_holds mt ws" and "op_ok w" and "op_seq w \<notin> op_seq ` ws"
  shows "\<exists>mt'. add_op w mt = Some mt' \<and> mt_holds mt' (insert w ws)"
proof -
  have inv: "sl_inv (KeyComparator Bytewise_Compare) (entry_ok (\<lambda>_. True)) mt"
    and el: "set (sl_elems mt) = op_entry ` ws" and ws: "\<forall>v \<in> ws. op_ok v"
    using assms(1) by (auto simp: mt_holds_def)
  have "\<not> cmp_eq (KeyComparator Bytewise_Compare) (op_entry w) (op_entry v)" if "v \<in> ws" for v
  proof -
    have "op_ok v" using ws that by blast
    then have "op_tag w = op_tag v \<Longrightarrow> op_seq w = op_seq v"
      using unpack(1) [OF op_tag_pack [OF assms(2)]] unpack(1) [OF op_tag_pack, of v] by simp
    then show ?thesis
      using op_entry_slices [OF assms(2)] op_entry_slices [OF \<open>op_ok v\<close>] entry_lt(2) assms(3) that by blast
  qed
  then have "\<forall>j \<in> set (sl_elems mt). \<not> cmp_eq (KeyComparator Bytewise_Compare) (op_entry w) j"
    unfolding el by blast
  from comparator.Insert_refines [OF bw.mem_comparator inv op_entry_ok [OF assms(2)] this]
  obtain mt' xs ys where mt': "Insert (KeyComparator Bytewise_Compare) (op_entry w) mt = Some mt'"
    "sl_inv (KeyComparator Bytewise_Compare) (entry_ok (\<lambda>_. True)) mt'"
    "sl_elems mt = xs @ ys" "sl_elems mt' = xs @ op_entry w # ys" by blast
  then have "set (sl_elems mt') = op_entry ` insert w ws" using el by auto
  with mt' assms show ?thesis by (auto simp: mt_holds_def add_op_Insert inj_on_insert)
qed

text \<open>The first entry that \<open>Seek\<close> accepts.\<close>

lemma find_sorted:
  assumes "sorted_wrt R xs" and "find P xs = Some x"
  shows "x \<in> set xs \<and> P x \<and> (\<forall>y \<in> set xs. P y \<longrightarrow> y = x \<or> R x y)"
  using assms
proof (induction xs)
  case (Cons z zs)
  then show ?case by (cases "P z") auto
qed simp

lemma slice_compare_cases: "slice_compare a b < 0 \<or> a = b \<or> slice_compare b a < 0"
  using slice_compare_flip [of a b] slice_compare_eq_0 [of a b] by linarith

text \<open>What \<open>Get\<close> does with the entry the search stops at.\<close>

definition read_entry :: "slice \<Rightarrow> slice option \<Rightarrow> get_result option" where
  "read_entry u e = (case e of None \<Rightarrow> Some GetMiss | Some entry \<Rightarrow> do {
     (ikey, rest) \<leftarrow> entry_slice entry;
     if length ikey < 8 then None
     else do {
       r \<leftarrow> Bytewise_Compare (take (length ikey - 8) ikey) u;
       if r = 0 then do {
         tag \<leftarrow> DecodeFixed64 (drop (length ikey - 8) ikey);
         let t = (ucast (tag AND 0xff) :: ValueType);
         if t = kTypeValue then do { (v, _) \<leftarrow> entry_slice rest; Some (GetValue v) }
         else if t = kTypeDeletion then Some (GetDeleted (NotFound ''''))
         else Some GetMiss }
       else Some GetMiss } })"

lemma MemTable_Get_seek:
  "MemTable_Get Bytewise_Compare lk mt =
     Option.bind (seek_key (KeyComparator Bytewise_Compare) mt (memtable_key lk)) (read_entry (lookup_user_key lk))"
proof (cases "Iterator_Seek (KeyComparator Bytewise_Compare) mt (memtable_key lk)")
  case None
  then show ?thesis by (simp add: MemTable_Get_def seek_key_def)
next
  case (Some it)
  then show ?thesis
    by (cases "Iterator_key mt it") (simp_all add: MemTable_Get_def seek_key_def read_entry_def)
qed

definition op_result :: "mem_op \<Rightarrow> get_result" where
  "op_result w = (if op_type w = kTypeValue then GetValue (op_val w) else GetDeleted (NotFound ''''))"

lemma read_entry_op:
  assumes "op_ok w"
  shows "read_entry u (Some (op_entry w)) = Some (if op_key w = u then op_result w else GetMiss)"
proof -
  obtain rest where e: "entry_slice (op_entry w) = Some (op_key w @ EncodeFixed64 (op_tag w), rest)"
    "entry_slice rest = Some (op_val w, [])" using op_entry_slices [OF assms] by blast
  have ty: "op_type w = 0 \<or> op_type w = 1" using assms by (simp add: op_ok_def type_le_iff)
  have "ucast (op_tag w AND 0xff) = op_type w" by (rule unpack(2) [OF op_tag_pack [OF assms]])
  then show ?thesis
    using e ty
    by (auto simp: read_entry_def Bytewise_Compare_def slice_compare_eq_0 op_result_def kTypeValue_def
        kTypeDeletion_def)
qed

lemma seek_tag_le:
  assumes "op_ok w" and "PackSequenceAndType s kValueTypeForSeek = Some tag"
  shows "op_tag w \<le> tag \<longleftrightarrow> op_seq w \<le> s"
proof -
  have "unat (op_type w) \<le> 1" using assms(1) by (auto simp: op_ok_def type_le_iff)
  then show ?thesis
    using unat_pack [OF op_tag_pack [OF assms(1)]] unat_pack [OF assms(2)]
    by (simp add: word_le_nat_alt kValueTypeForSeek_def kTypeValue_def) linarith
qed

lemma op_seq_tag: "op_ok v \<Longrightarrow> op_ok w \<Longrightarrow> op_tag v \<le> op_tag w \<Longrightarrow> op_seq v \<le> op_seq w"
  using unat_pack [OF op_tag_pack, of v] unat_pack [OF op_tag_pack, of w]
    unat_byte_less [of "op_type v"] unat_byte_less [of "op_type w"]
  unfolding word_le_nat_alt by linarith

text \<open>The entries before and at a lookup, in terms of the writes.\<close>

lemma lookup_order:
  assumes tag: "PackSequenceAndType s kValueTypeForSeek = Some tag"
    and L: "entry_slice l = Some (u @ EncodeFixed64 tag, rest)" and "op_ok v" and "op_ok w"
  shows "cmp_lt (KeyComparator Bytewise_Compare) (op_entry w) l \<longleftrightarrow>
      slice_compare (op_key w) u < 0 \<or> op_key w = u \<and> s < op_seq w"
    and "cmp_lt (KeyComparator Bytewise_Compare) (op_entry v) (op_entry w) \<longleftrightarrow>
      slice_compare (op_key v) (op_key w) < 0 \<or> op_key v = op_key w \<and> op_tag w < op_tag v"
proof -
  obtain rv rw where "entry_slice (op_entry v) = Some (op_key v @ EncodeFixed64 (op_tag v), rv)"
    and w: "entry_slice (op_entry w) = Some (op_key w @ EncodeFixed64 (op_tag w), rw)"
    using op_entry_slices assms(3,4) by blast
  then show "cmp_lt (KeyComparator Bytewise_Compare) (op_entry v) (op_entry w) \<longleftrightarrow>
      slice_compare (op_key v) (op_key w) < 0 \<or> op_key v = op_key w \<and> op_tag w < op_tag v"
    by (rule entry_lt(1))
  show "cmp_lt (KeyComparator Bytewise_Compare) (op_entry w) l \<longleftrightarrow>
      slice_compare (op_key w) u < 0 \<or> op_key w = u \<and> s < op_seq w"
    using entry_lt(1) [OF w L] seek_tag_le [OF assms(4) tag] by (simp add: not_le [symmetric])
qed

text \<open>The write whose entry comes first from the lookup position on is the visible one, if it has the
  key at all.\<close>

lemma first_is_visible:
  assumes ws: "\<forall>v \<in> ws. op_ok v" and w: "w \<in> ws" and tag: "PackSequenceAndType s kValueTypeForSeek = Some tag"
    and L: "entry_slice l = Some (u @ EncodeFixed64 tag, rest)"
    and P: "\<not> cmp_lt (KeyComparator Bytewise_Compare) (op_entry w) l"
    and first: "\<forall>v \<in> ws. \<not> cmp_lt (KeyComparator Bytewise_Compare) (op_entry v) l \<longrightarrow>
      op_entry v = op_entry w \<or> cmp_lt (KeyComparator Bytewise_Compare) (op_entry w) (op_entry v)"
  shows "op_key w = u \<Longrightarrow> visible ws u s w"
    and "op_key w \<noteq> u \<Longrightarrow> v \<in> ws \<Longrightarrow> op_key v = u \<Longrightarrow> s < op_seq v"
proof -
  have okw: "op_ok w" using ws w by blast
  have key_tag: "op_key v = op_key w \<and> op_tag v = op_tag w" if "op_entry v = op_entry w" "op_ok v" for v
    using op_entry_slices [OF that(2)] op_entry_slices [OF okw] that(1)
    by (metis (no_types) append_eq_append_conv DecodeFixed64_Encode append_Nil2 length_EncodeFixed(2)
        option.inject prod.inject)
  note cmp = lookup_order [OF tag L _ okw] and cmpv = lookup_order [OF tag L okw]
  { assume u: "op_key w = u"
    have "op_seq v \<le> op_seq w" if v: "v \<in> ws" "op_key v = u" "op_seq v \<le> s" for v
    proof -
      have okv: "op_ok v" using ws v by blast
      have "\<not> cmp_lt (KeyComparator Bytewise_Compare) (op_entry v) l" using cmpv(1) [OF okv] v by simp
      then have "op_entry v = op_entry w \<or> cmp_lt (KeyComparator Bytewise_Compare) (op_entry w) (op_entry v)"
        using first v(1) by blast
      then have "op_tag v \<le> op_tag w"
      proof
        assume "op_entry v = op_entry w"
        then show ?thesis using key_tag okv by simp
      qed (simp add: cmpv(2) [OF okv] u v(2))
      then show ?thesis by (rule op_seq_tag [OF okv okw])
    qed
    moreover have "op_seq w \<le> s" using P cmp(1) [OF okw] u by simp
    ultimately show "visible ws u s w" using w u by (simp add: visible_def) }
  assume ne: "op_key w \<noteq> u" and v: "v \<in> ws" "op_key v = u"
  have okv: "op_ok v" using ws v by blast
  show "s < op_seq v"
  proof (rule ccontr)
    assume "\<not> s < op_seq v"
    then have "\<not> cmp_lt (KeyComparator Bytewise_Compare) (op_entry v) l" using cmpv(1) [OF okv] v by simp
    then have "op_entry v = op_entry w \<or> cmp_lt (KeyComparator Bytewise_Compare) (op_entry w) (op_entry v)"
      using first v(1) by blast
    then have "slice_compare (op_key w) u < 0"
      using key_tag [OF _ okv] cmpv(2) [OF okv] ne v(2) by auto
    then show False using P cmp(1) [OF okw] by simp
  qed
qed

lemma MemTable_Get_spec:
  assumes mt: "mt_holds mt ws" and s: "s \<le> kMaxSequenceNumber" and u: "length u + 8 < 2 ^ 32"
  shows "\<exists>lk r. LookupKey_new u s = Some lk \<and> MemTable_Get Bytewise_Compare lk mt = Some r \<and>
    ((\<exists>w. visible ws u s w \<and> r = op_result w) \<or> (\<forall>w \<in> ws. op_key w = u \<longrightarrow> s < op_seq w) \<and> r = GetMiss)"
proof -
  let ?K = "KeyComparator Bytewise_Compare"
  obtain lk tag where lk: "LookupKey_new u s = Some lk" "lookup_user_key lk = u"
    and tag: "PackSequenceAndType s kValueTypeForSeek = Some tag"
    and mk: "memtable_key lk = EncodeVarint32 (word_of_nat (length u + 8)) @ u @ EncodeFixed64 tag"
    by (rule LookupKey_new_parts [OF s, of u])
  have L: "entry_slice (memtable_key lk) = Some (u @ EncodeFixed64 tag, [])"
    using entry_slice_Encode [of "u @ EncodeFixed64 tag" "[]"] u by (simp add: mk)
  obtain ns where rep: "sl_repr ?K (entry_ok (\<lambda>_. True)) mt ns"
    and ws: "\<forall>v \<in> ws. op_ok v" and el: "set (sl_elems mt) = op_entry ` ws"
    using mt by (auto simp: mt_holds_def sl_inv_def)
  have srt: "sorted_wrt (cmp_lt ?K) (sl_elems mt)"
    using rep by (simp add: sl_elems_repr [OF rep] sl_repr_def sorted_wrt_map)
  have "entry_ok (\<lambda>_. True) (memtable_key lk)" using L by (simp add: entry_ok_def)
  note seek = comparator.seek_key_repr [OF bw.mem_comparator rep this]
  show ?thesis
  proof (cases "find (\<lambda>j. \<not> cmp_lt ?K j (memtable_key lk)) (sl_elems mt)")
    case None
    then have "s < op_seq w" if "w \<in> ws" "op_key w = u" for w
      using that ws el lookup_order(1) [OF tag L, of w w] by (auto simp: find_None_iff)
    moreover have "MemTable_Get Bytewise_Compare lk mt = Some GetMiss"
      using seek None by (simp add: MemTable_Get_seek read_entry_def)
    ultimately show ?thesis using lk by auto
  next
    case (Some e)
    note f = find_sorted [OF srt Some]
    then obtain w where w: "w \<in> ws" "e = op_entry w" using el by blast
    have "MemTable_Get Bytewise_Compare lk mt = Some (if op_key w = u then op_result w else GetMiss)"
      using seek Some w ws read_entry_op [of w u] by (simp add: MemTable_Get_seek lk(2))
    moreover have "visible ws u s w" if "op_key w = u"
      by (rule first_is_visible(1) [OF ws w(1) tag L _ _ that]) (use f w el in auto)
    moreover have "s < op_seq v" if "op_key w \<noteq> u" "v \<in> ws" "op_key v = u" for v
      by (rule first_is_visible(2) [OF ws w(1) tag L _ _ that]) (use f w el in auto)
    ultimately show ?thesis using lk by (cases "op_key w = u") auto
  qed
qed

end
