(* ===== verification/Ldb_WriteBatch.thy ===== *)
theory Ldb_WriteBatch
  imports Ldb_Memtable
begin

text \<open>
  \<open>db/write_batch.cc\<close>, \<open>include/leveldb/write_batch.h\<close> and \<open>db/write_batch_internal.h\<close>: a batch of
  updates as one byte string (a sequence number, a count and the records), its builder, the
  iteration over its records with a handler, and the insertion into a memtable. A batch is its
  \<open>rep_\<close>. The handler is a pair of functions on a state; its operations may have no result
  (\<open>None\<close>), and so may the iteration then.
\<close>

definition kHeader :: nat where "kHeader = 12"

definition WriteBatch_Clear :: "byte list" where
  "WriteBatch_Clear = replicate kHeader 0"

definition WriteBatch_Count :: "byte list \<Rightarrow> u32 option" where
  "WriteBatch_Count rep = DecodeFixed32 (drop 8 rep)"

text \<open>Storing four (eight) bytes at an offset inside \<open>rep_\<close>.\<close>

definition overwrite :: "nat \<Rightarrow> byte list \<Rightarrow> byte list \<Rightarrow> byte list option" where
  "overwrite off bs rep =
     (if off + length bs \<le> length rep then Some (take off rep @ bs @ drop (off + length bs) rep) else None)"

definition WriteBatch_SetCount :: "u32 \<Rightarrow> byte list \<Rightarrow> byte list option" where
  "WriteBatch_SetCount n rep = overwrite 8 (EncodeFixed32 n) rep"

definition WriteBatch_Sequence :: "byte list \<Rightarrow> SequenceNumber option" where
  "WriteBatch_Sequence rep = DecodeFixed64 rep"

definition WriteBatch_SetSequence :: "SequenceNumber \<Rightarrow> byte list \<Rightarrow> byte list option" where
  "WriteBatch_SetSequence s rep = overwrite 0 (EncodeFixed64 s) rep"

definition WriteBatch_Put :: "slice \<Rightarrow> slice \<Rightarrow> byte list \<Rightarrow> byte list option" where
  "WriteBatch_Put key val rep = do {
     n \<leftarrow> WriteBatch_Count rep;
     rep1 \<leftarrow> WriteBatch_SetCount (n + 1) rep;
     Some (PutLengthPrefixedSlice (PutLengthPrefixedSlice (rep1 @ [kTypeValue]) key) val) }"

definition WriteBatch_Delete :: "slice \<Rightarrow> byte list \<Rightarrow> byte list option" where
  "WriteBatch_Delete key rep = do {
     n \<leftarrow> WriteBatch_Count rep;
     rep1 \<leftarrow> WriteBatch_SetCount (n + 1) rep;
     Some (PutLengthPrefixedSlice (rep1 @ [kTypeDeletion]) key) }"

record 's handler =
  h_Put :: "slice \<Rightarrow> slice \<Rightarrow> 's \<Rightarrow> 's option"
  h_Delete :: "slice \<Rightarrow> 's \<Rightarrow> 's option"

text \<open>The loop of \<open>Iterate\<close> over the records: the number of records found and the status.\<close>

function Iterate_loop :: "'s handler \<Rightarrow> nat \<Rightarrow> slice \<Rightarrow> 's \<Rightarrow> (Status \<times> nat \<times> 's) option" where
  "Iterate_loop h found input st =
     (if input = [] then Some (Status_OK, found, st)
      else let found1 = found + 1; tag = hd input; input1 = tl input in
        if tag = kTypeValue then
          (case GetLengthPrefixedSlice input1 of
             None \<Rightarrow> Some (Corruption ''bad WriteBatch Put'', found1, st)
           | Some (key, input2) \<Rightarrow> (case GetLengthPrefixedSlice input2 of
               None \<Rightarrow> Some (Corruption ''bad WriteBatch Put'', found1, st)
             | Some (val, input3) \<Rightarrow> (case h_Put h key val st of None \<Rightarrow> None
                 | Some st1 \<Rightarrow> Iterate_loop h found1 input3 st1)))
        else if tag = kTypeDeletion then
          (case GetLengthPrefixedSlice input1 of
             None \<Rightarrow> Some (Corruption ''bad WriteBatch Delete'', found1, st)
           | Some (key, input2) \<Rightarrow> (case h_Delete h key st of None \<Rightarrow> None
               | Some st1 \<Rightarrow> Iterate_loop h found1 input2 st1))
        else Some (Corruption ''unknown WriteBatch tag'', found1, st))"
  by pat_completeness auto
termination
proof (relation "measure (\<lambda>(_, _, input, _). length input)")
  fix h :: "'s handler" and found :: nat and input :: slice and st x xa tag input1 y key input2 z val input3 st1
  assume "input \<noteq> []" "input1 = tl input" "GetLengthPrefixedSlice input1 = Some y" "(key, input2) = y"
    "GetLengthPrefixedSlice input2 = Some z" "(val, input3) = z"
  then show "((h, x, input3, st1), h, found, input, st) \<in> measure (\<lambda>(_, _, input, _). length input)"
    using GetLengthPrefixedSlice_length [of input1 key input2] GetLengthPrefixedSlice_length [of input2 val input3]
    by simp
next
  fix h :: "'s handler" and found :: nat and input :: slice and st x xa tag input1 y key input2 st1
  assume "input \<noteq> []" "input1 = tl input" "GetLengthPrefixedSlice input1 = Some y" "(key, input2) = y"
  then show "((h, x, input2, st1), h, found, input, st) \<in> measure (\<lambda>(_, _, input, _). length input)"
    using GetLengthPrefixedSlice_length [of input1 key input2] by simp
qed simp

declare Iterate_loop.simps [simp del]

definition WriteBatch_Iterate :: "'s handler \<Rightarrow> byte list \<Rightarrow> 's \<Rightarrow> (Status \<times> 's) option" where
  "WriteBatch_Iterate h rep st =
     (if length rep < kHeader then Some (Corruption ''malformed WriteBatch (too small)'', st)
      else do {
        (status, found, st1) \<leftarrow> Iterate_loop h 0 (drop kHeader rep) st;
        if Status_ok status then do {
          n \<leftarrow> WriteBatch_Count rep;
          Some (if int found \<noteq> sint n then (Corruption ''WriteBatch has wrong count'', st1)
                else (Status_OK, st1)) }
        else Some (status, st1) })"

text \<open>\<open>MemTableInserter\<close>: the state is \<open>sequence_\<close> and the table.\<close>

definition MemTableInserter :: "compare_fun \<Rightarrow> (SequenceNumber \<times> MemTable) handler" where
  "MemTableInserter user_Compare = \<lparr>
     h_Put = (\<lambda>key val (s, mem). do {
       mem1 \<leftarrow> MemTable_Add user_Compare s kTypeValue key val mem; Some (s + 1, mem1) }),
     h_Delete = (\<lambda>key (s, mem). do {
       mem1 \<leftarrow> MemTable_Add user_Compare s kTypeDeletion key [] mem; Some (s + 1, mem1) })\<rparr>"

definition WriteBatch_InsertInto :: "compare_fun \<Rightarrow> byte list \<Rightarrow> MemTable \<Rightarrow> (Status \<times> MemTable) option" where
  "WriteBatch_InsertInto user_Compare rep mem = do {
     s \<leftarrow> WriteBatch_Sequence rep;
     (status, _, mem1) \<leftarrow> WriteBatch_Iterate (MemTableInserter user_Compare) rep (s, mem);
     Some (status, mem1) }"

definition WriteBatch_SetContents :: "slice \<Rightarrow> byte list option" where
  "WriteBatch_SetContents contents = (if length contents \<ge> kHeader then Some contents else None)"

definition WriteBatch_Append :: "byte list \<Rightarrow> byte list \<Rightarrow> byte list option" where
  "WriteBatch_Append dst src = do {
     a \<leftarrow> WriteBatch_Count dst;
     b \<leftarrow> WriteBatch_Count src;
     dst1 \<leftarrow> WriteBatch_SetCount (a + b) dst;
     if length src \<ge> kHeader then Some (dst1 @ drop kHeader src) else None }"

subsection \<open>Batches as sequences of updates\<close>

datatype wb_op = WPut slice slice | WDel slice

fun wb_fits :: "wb_op \<Rightarrow> bool" where
  "wb_fits (WPut k v) \<longleftrightarrow> length k + 8 < 2 ^ 32 \<and> length v < 2 ^ 32"
| "wb_fits (WDel k) \<longleftrightarrow> length k + 8 < 2 ^ 32"

definition lp :: "slice \<Rightarrow> byte list" where
  "lp v = EncodeVarint32 (word_of_nat (length v)) @ v"

fun wb_bytes :: "wb_op \<Rightarrow> byte list" where
  "wb_bytes (WPut k v) = kTypeValue # lp k @ lp v"
| "wb_bytes (WDel k) = kTypeDeletion # lp k"

definition wb_rep :: "SequenceNumber \<Rightarrow> wb_op list \<Rightarrow> byte list" where
  "wb_rep s ops = EncodeFixed64 s @ EncodeFixed32 (word_of_nat (length ops)) @ concat (map wb_bytes ops)"

fun wb_add :: "wb_op \<Rightarrow> byte list \<Rightarrow> byte list option" where
  "wb_add (WPut k v) rep = WriteBatch_Put k v rep"
| "wb_add (WDel k) rep = WriteBatch_Delete k rep"

fun wb_run :: "'s handler \<Rightarrow> wb_op list \<Rightarrow> 's \<Rightarrow> 's option" where
  "wb_run h [] st = Some st"
| "wb_run h (WPut k v # ops) st = Option.bind (h_Put h k v st) (wb_run h ops)"
| "wb_run h (WDel k # ops) st = Option.bind (h_Delete h k st) (wb_run h ops)"

lemma PutLP: "PutLengthPrefixedSlice dst v = dst @ lp v"
  by (simp add: PutLengthPrefixedSlice_def PutVarint32_def lp_def)

lemma GetLP: "length v < 2 ^ 32 \<Longrightarrow> GetLengthPrefixedSlice (lp v @ rest) = Some (v, rest)"
  using GetLengthPrefixedSlice_Put [of v rest] by (simp add: lp_def)

lemma overwrite_mid: "length bs = length cs \<Longrightarrow> length a = n \<Longrightarrow> overwrite n bs (a @ cs @ d) = Some (a @ bs @ d)"
  by (simp add: overwrite_def)

lemma wb_header [simp]:
  "WriteBatch_Count (wb_rep s ops) = Some (word_of_nat (length ops))"
  "WriteBatch_Sequence (wb_rep s ops) = Some s"
  "drop kHeader (wb_rep s ops) = concat (map wb_bytes ops)" "\<not> length (wb_rep s ops) < kHeader"
  by (simp_all add: WriteBatch_Count_def WriteBatch_Sequence_def wb_rep_def kHeader_def)

lemma wb_SetCount: "WriteBatch_SetCount n (wb_rep s ops) =
  Some (EncodeFixed64 s @ EncodeFixed32 n @ concat (map wb_bytes ops))"
  unfolding WriteBatch_SetCount_def wb_rep_def by (rule overwrite_mid) simp_all

lemma wb_SetSequence: "WriteBatch_SetSequence s' (wb_rep s ops) = Some (wb_rep s' ops)"
  unfolding WriteBatch_SetSequence_def wb_rep_def
  using overwrite_mid [of "EncodeFixed64 s'" "EncodeFixed64 s" "[]" 0] by simp

lemma wb_Clear: "WriteBatch_Clear = wb_rep 0 []"
  by (simp add: WriteBatch_Clear_def wb_rep_def kHeader_def EncodeFixed64_def EncodeFixed32_def
      le_bytes_8 le_bytes_4) (simp add: numeral_eq_Suc)

lemma wb_add_rep: "wb_add w (wb_rep s ops) = Some (wb_rep s (ops @ [w]))"
proof -
  have "wb_rep s (ops @ [w]) =
      EncodeFixed64 s @ EncodeFixed32 (word_of_nat (length ops) + 1) @ concat (map wb_bytes ops) @ wb_bytes w"
    by (simp add: wb_rep_def add.commute)
  then show ?thesis
    by (cases w) (simp_all add: WriteBatch_Put_def WriteBatch_Delete_def wb_SetCount PutLP)
qed

lemma wb_build: "fold (\<lambda>w r. Option.bind r (wb_add w)) ops (Some (wb_rep s done)) = Some (wb_rep s (done @ ops))"
  by (induction ops arbitrary: "done") (simp_all add: wb_add_rep)

lemma Iterate_loop_ops:
  "\<forall>w \<in> set ops. wb_fits w \<Longrightarrow> Iterate_loop h n (concat (map wb_bytes ops)) st =
     map_option (\<lambda>st1. (Status_OK, n + length ops, st1)) (wb_run h ops st)"
proof (induction ops arbitrary: n st)
  case Nil
  show ?case by (simp add: Iterate_loop.simps [of h n "[]"])
next
  case (Cons w ops)
  have IH: "Iterate_loop h (Suc n) (concat (map wb_bytes ops)) st1 =
      map_option (\<lambda>st2. (Status_OK, Suc n + length ops, st2)) (wb_run h ops st1)" for st1
    using Cons by simp
  have kd: "kTypeDeletion \<noteq> kTypeValue" by (simp add: kTypeDeletion_def kTypeValue_def)
  show ?case
  proof (cases w)
    case (WPut k v)
    then show ?thesis
      using Cons.prems IH by (subst Iterate_loop.simps) (auto simp: GetLP split: option.splits)
  next
    case (WDel k)
    then show ?thesis
      using Cons.prems IH kd by (subst Iterate_loop.simps) (auto simp: GetLP split: option.splits)
  qed
qed

lemma Iterate_rep:
  assumes "\<forall>w \<in> set ops. wb_fits w" and "length ops < 2 ^ 31"
  shows "WriteBatch_Iterate h (wb_rep s ops) st = map_option (\<lambda>st1. (Status_OK, st1)) (wb_run h ops st)"
proof -
  have "sint (word_of_nat (length ops) :: u32) = int (length ops)"
    using assms(2) by (simp add: signed_of_nat signed_take_bit_int_eq_self)
  then show ?thesis
    using Iterate_loop_ops [OF assms(1), of h 0 st]
    by (cases "wb_run h ops st") (simp_all add: WriteBatch_Iterate_def)
qed

text \<open>The writes that the records of a batch become.\<close>

fun wb_write :: "SequenceNumber \<Rightarrow> wb_op \<Rightarrow> mem_op" where
  "wb_write s (WPut k v) = \<lparr>op_seq = s, op_type = kTypeValue, op_key = k, op_val = v\<rparr>"
| "wb_write s (WDel k) = \<lparr>op_seq = s, op_type = kTypeDeletion, op_key = k, op_val = []\<rparr>"

primrec wb_writes :: "SequenceNumber \<Rightarrow> wb_op list \<Rightarrow> mem_op list" where
  "wb_writes s [] = []"
| "wb_writes s (w # ops) = wb_write s w # wb_writes (s + 1) ops"

lemma op_seq_wb_write [simp]: "op_seq (wb_write s w) = s"
  by (cases w) simp_all

lemma op_ok_wb_write: "wb_fits w \<Longrightarrow> s \<le> kMaxSequenceNumber \<Longrightarrow> op_ok (wb_write s w)"
  by (cases w) (simp_all add: op_ok_def kTypeDeletion_def kTypeValue_def)

lemma wb_run_Cons: "wb_run (MemTableInserter Bytewise_Compare) (w # ops) (s, mt) =
  Option.bind (add_op (wb_write s w) mt) (\<lambda>mt1. wb_run (MemTableInserter Bytewise_Compare) ops (s + 1, mt1))"
  by (cases w; cases "add_op (wb_write s w) mt") (simp_all add: MemTableInserter_def add_op_def)

lemma unat_Suc_u64: "unat (s :: u64) + 1 < 2 ^ 64 \<Longrightarrow> unat (s + 1) = unat s + 1"
  by (simp add: unat_word_ariths(1))

lemma wb_run_inserts:
  assumes "mt_holds mt ws" and "\<forall>w \<in> ws. op_seq w < s" and "\<forall>w \<in> set ops. wb_fits w"
    and "unat s + length ops \<le> 2 ^ 56"
  shows "\<exists>s' mt'. wb_run (MemTableInserter Bytewise_Compare) ops (s, mt) = Some (s', mt') \<and>
    mt_holds mt' (ws \<union> set (wb_writes s ops))"
  using assms
proof (induction ops arbitrary: mt ws s)
  case Nil
  then show ?case by auto
next
  case (Cons w ops)
  have lim: "unat s < 2 ^ 56" "unat (s + 1) = unat s + 1"
    using Cons.prems(4) by (simp_all add: unat_Suc_u64)
  have ok: "op_ok (wb_write s w)" using op_ok_wb_write lim Cons.prems(3) by (simp add: seq_le_max_iff)
  have "op_seq (wb_write s w) \<notin> op_seq ` ws" using Cons.prems(2) by auto
  from mt_holds_add [OF Cons.prems(1) ok this]
  obtain mt1 where mt1: "add_op (wb_write s w) mt = Some mt1" "mt_holds mt1 (insert (wb_write s w) ws)"
    by blast
  have "\<forall>v \<in> insert (wb_write s w) ws. op_seq v < s + 1"
    using Cons.prems(2) lim by (auto simp: word_less_nat_alt)
  moreover have "unat (s + 1) + length ops \<le> 2 ^ 56" using Cons.prems(4) lim by simp
  ultimately show ?case
    using Cons.IH [OF mt1(2), of "s + 1"] Cons.prems(3) mt1(1) by (simp add: wb_run_Cons)
qed

lemma InsertInto_rep:
  assumes "mt_holds mt ws" and "\<forall>w \<in> ws. op_seq w < s" and "\<forall>w \<in> set ops. wb_fits w"
    and "unat s + length ops \<le> 2 ^ 56" and "length ops < 2 ^ 31"
  shows "\<exists>mt'. WriteBatch_InsertInto Bytewise_Compare (wb_rep s ops) mt = Some (Status_OK, mt') \<and>
    mt_holds mt' (ws \<union> set (wb_writes s ops))"
  using wb_run_inserts [OF assms(1-4)]
  by (auto simp: WriteBatch_InsertInto_def Iterate_rep [OF assms(3,5)])

text \<open>The loop on arbitrary bytes: it has a result, and the status is OK or a corruption.\<close>

definition iterated :: "(Status \<times> 'x) option \<Rightarrow> bool" where
  "iterated r \<longleftrightarrow> (\<exists>s x. r = Some (s, x) \<and> (s = Status_OK \<or> (\<exists>m. s = Corruption m)))"

lemma iterated_simps [simp]:
  "iterated (Some (Status_OK, x))" "iterated (Some (Corruption m, x))"
  by (auto simp: iterated_def)

lemma Iterate_loop_total:
  assumes "\<And>k v st. h_Put h k v st \<noteq> None" and "\<And>k st. h_Delete h k st \<noteq> None"
  shows "iterated (Iterate_loop h found input st)"
proof (induction "length input" arbitrary: found input st rule: less_induct)
  case less
  show ?case
  proof (cases "input = []")
    case True
    then show ?thesis by (simp add: Iterate_loop.simps [of h found "[]"])
  next
    case False
    have len1: "length q < length input" if "GetLengthPrefixedSlice (tl input) = Some (k, q)" for k q
      using GetLengthPrefixedSlice_length [OF that] by simp
    have len2: "length q' < length input"
      if "GetLengthPrefixedSlice (tl input) = Some (k, q)" "GetLengthPrefixedSlice q = Some (v, q')" for k q v q'
      using len1 [OF that(1)] GetLengthPrefixedSlice_length [OF that(2)] by simp
    show ?thesis
      unfolding Iterate_loop.simps [of h found input st] Let_def using False
      by (auto split: option.splits simp: assms simp del: not_None_eq intro: less.hyps dest: len1 len2)
  qed
qed

subsection \<open>Properties\<close>

text \<open>(C24) A batch round-trips: built from an empty batch by \<open>Put\<close> and \<open>Delete\<close>, it is iterated with
  status OK, the handler sees exactly these updates in their order, and the stored count is right.\<close>

theorem WriteBatch_roundtrip:
  assumes "\<forall>w \<in> set ops. wb_fits w" and "length ops < 2 ^ 31"
  shows "\<exists>rep. fold (\<lambda>w r. Option.bind r (wb_add w)) ops (Some WriteBatch_Clear) = Some rep \<and>
    WriteBatch_Count rep = Some (word_of_nat (length ops)) \<and>
    (\<forall>h st. WriteBatch_Iterate h rep st = map_option (\<lambda>st1. (Status_OK, st1)) (wb_run h ops st))"
  using wb_build [of ops 0 "[]"] by (simp add: wb_Clear Iterate_rep [OF assms])

theorem WriteBatch_roundtrip_witness:
  "\<exists>rep. fold (\<lambda>w r. Option.bind r (wb_add w)) [WPut [1] [2, 3], WDel [1]] (Some WriteBatch_Clear) = Some rep \<and>
    WriteBatch_Count rep = Some (word_of_nat (length [WPut [1] [2, 3], WDel [1]])) \<and>
    (\<forall>h st. WriteBatch_Iterate h rep st =
      map_option (\<lambda>st1. (Status_OK, st1)) (wb_run h [WPut [1] [2, 3], WDel [1]] (st :: nat)))"
  by (rule WriteBatch_roundtrip) simp_all

text \<open>\<open>Append\<close> concatenates: the batch has the updates of both, the sum of the counts, and keeps the
  sequence number of the destination.\<close>

lemma WriteBatch_Append_rep:
  "WriteBatch_Append (wb_rep s ops) (wb_rep s' ops') = Some (wb_rep s (ops @ ops'))"
proof -
  have "wb_rep s (ops @ ops') = EncodeFixed64 s @
      EncodeFixed32 (word_of_nat (length ops) + word_of_nat (length ops')) @ concat (map wb_bytes ops) @
      concat (map wb_bytes ops')"
    by (simp add: wb_rep_def)
  moreover have "kHeader \<le> length (wb_rep s' ops')" by (simp add: not_less [symmetric])
  ultimately show ?thesis by (simp add: WriteBatch_Append_def wb_SetCount)
qed



subsection \<open>Writing and reading back\<close>

text \<open>The use that \<open>DBImpl::Write\<close> makes of a batch and a memtable: the batch is stamped with the
  sequence number after the last one, inserted, and the last sequence number grows by its count.\<close>

definition write_ops :: "wb_op list \<Rightarrow> SequenceNumber \<times> MemTable \<Rightarrow> (SequenceNumber \<times> MemTable) option" where
  "write_ops ops = (\<lambda>(last_seq, mem). do {
     rep \<leftarrow> fold (\<lambda>w r. Option.bind r (wb_add w)) ops (Some WriteBatch_Clear);
     rep1 \<leftarrow> WriteBatch_SetSequence (last_seq + 1) rep;
     n \<leftarrow> WriteBatch_Count rep1;
     (status, mem1) \<leftarrow> WriteBatch_InsertInto Bytewise_Compare rep1 mem;
     if Status_ok status then Some (last_seq + ucast n, mem1) else None })"

fun wb_key :: "wb_op \<Rightarrow> slice" where
  "wb_key (WPut k v) = k"
| "wb_key (WDel k) = k"

fun wb_result :: "wb_op option \<Rightarrow> get_result" where
  "wb_result (Some (WPut k v)) = GetValue v"
| "wb_result (Some (WDel k)) = GetDeleted (NotFound '''')"
| "wb_result None = GetMiss"

text \<open>The abstract store: a key is answered from the last update of it.\<close>

definition last_update :: "slice \<Rightarrow> wb_op list \<Rightarrow> wb_op option" where
  "last_update u ops = find (\<lambda>w. wb_key w = u) (rev ops)"

lemma op_key_wb_write [simp]: "op_key (wb_write s w) = wb_key w"
  by (cases w) simp_all

lemma op_result_wb_write [simp]: "op_result (wb_write s w) = wb_result (Some w)"
  by (cases w) (simp_all add: op_result_def kTypeDeletion_def kTypeValue_def)

lemma last_update_simps [simp]:
  "last_update u [] = None"
  "last_update u (ops @ [w]) = (if wb_key w = u then Some w else last_update u ops)"
  by (simp_all add: last_update_def)

lemma wb_writes_append: "wb_writes s (a @ b) = wb_writes s a @ wb_writes (s + of_nat (length a)) b"
  by (induction a arbitrary: s) (simp_all add: add_ac)

lemma wb_writes_less:
  assumes "v \<in> set (wb_writes s ops)" and "unat s + length ops < 2 ^ 64"
  shows "s \<le> op_seq v" and "unat (op_seq v) < unat s + length ops"
  using assms
proof (induction ops arbitrary: s)
  case (Cons w ops)
  { case 1 then show ?case using Cons.IH [of "s + 1"] unat_Suc_u64 [of s] by (auto simp: word_le_nat_alt) }
  { case 2 then show ?case using Cons.IH [of "s + 1"] unat_Suc_u64 [of s] by auto }
qed simp_all

lemma visible_last_update:
  assumes "unat s + length ops < 2 ^ 64" and "visible (set (wb_writes s ops)) u n w"
    and "\<forall>v \<in> set (wb_writes s ops). op_seq v \<le> n"
  shows "op_result w = wb_result (last_update u ops)"
  using assms
proof (induction ops rule: rev_induct)
  case Nil
  then show ?case by (simp add: visible_def)
next
  case (snoc x ops)
  let ?s = "s + of_nat (length ops)"
  have at: "unat ?s = unat s + length ops"
    using snoc.prems(1) by (simp add: unat_word_ariths(1) unat_of_nat)
  have below: "op_seq v < ?s" if "v \<in> set (wb_writes s ops)" for v
    using wb_writes_less(2) [OF that] snoc.prems(1) at by (simp add: word_less_nat_alt)
  show ?case
  proof (cases "wb_key x = u")
    case True
    then have "?s \<le> op_seq w"
      using snoc.prems(2,3) by (auto simp: visible_def wb_writes_append)
    then have "w = wb_write ?s x"
      using snoc.prems(2) below [of w] by (auto simp: visible_def wb_writes_append)
    then show ?thesis using True by simp
  next
    case False
    then have "visible (set (wb_writes s ops)) u n w"
      using snoc.prems(2) by (auto simp: visible_def wb_writes_append)
    then show ?thesis using snoc False by (simp add: wb_writes_append)
  qed
qed

lemma last_update_None: "\<forall>v \<in> set (wb_writes s ops). op_key v \<noteq> u \<Longrightarrow> last_update u ops = None"
  by (induction ops rule: rev_induct) (auto simp: wb_writes_append)

lemma InsertInto_next:
  assumes "mt_holds mem (set (wb_writes 1 past))" and "\<forall>w \<in> set ops. wb_fits w" and "length ops < 2 ^ 31"
    and "length past + length ops < 2 ^ 56"
  shows "\<exists>mem'. WriteBatch_InsertInto Bytewise_Compare (wb_rep (of_nat (length past) + 1) ops) mem = Some (Status_OK, mem') \<and>
    mt_holds mem' (set (wb_writes 1 (past @ ops)))"
proof -
  let ?s = "of_nat (length past) + 1 :: u64"
  have s: "unat ?s = length past + 1"
    using assms(4) by (simp add: unat_word_ariths(1) unat_of_nat)
  have "\<forall>w \<in> set (wb_writes 1 past). op_seq w < ?s"
    using wb_writes_less(2) [of _ 1 past] assms(4) s by (auto simp: word_less_nat_alt)
  moreover have "unat ?s + length ops \<le> 2 ^ 56" using assms(4) s by simp
  moreover have "wb_writes 1 (past @ ops) = wb_writes 1 past @ wb_writes ?s ops"
    by (simp add: wb_writes_append add.commute)
  ultimately show ?thesis using InsertInto_rep [OF assms(1) _ assms(2) _ assms(3), of ?s] by auto
qed

lemma write_ops_holds:
  assumes "mt_holds mem (set (wb_writes 1 past))" and "\<forall>w \<in> set ops. wb_fits w" and "length ops < 2 ^ 31"
    and "length past + length ops < 2 ^ 56"
  shows "\<exists>mem'. write_ops ops (of_nat (length past), mem) = Some (of_nat (length (past @ ops)), mem') \<and>
    mt_holds mem' (set (wb_writes 1 (past @ ops)))"
proof -
  have "(ucast (word_of_nat (length ops) :: u32) :: u64) = of_nat (length ops)"
    using assms(3) by (simp add: word_unat_eq_iff unsigned_ucast_eq unat_of_nat take_bit_eq_mod)
  moreover obtain mem' where
    "WriteBatch_InsertInto Bytewise_Compare (wb_rep (of_nat (length past) + 1) ops) mem = Some (Status_OK, mem')"
    "mt_holds mem' (set (wb_writes 1 (past @ ops)))" using InsertInto_next [OF assms] by blast
  ultimately show ?thesis
    using wb_build [of ops 0 "[]"] by (simp add: write_ops_def wb_Clear wb_SetSequence)
qed

lemma write_all_holds:
  assumes "\<forall>ops \<in> set bs. length ops < 2 ^ 31 \<and> (\<forall>w \<in> set ops. wb_fits w)"
    and "mt_holds mem (set (wb_writes 1 past))" and "length past + length (concat bs) < 2 ^ 56"
  shows "\<exists>mem'. fold (\<lambda>ops r. Option.bind r (write_ops ops)) bs (Some (of_nat (length past), mem)) =
      Some (of_nat (length (past @ concat bs)), mem') \<and> mt_holds mem' (set (wb_writes 1 (past @ concat bs)))"
  using assms
proof (induction bs arbitrary: past mem)
  case (Cons ops bs)
  then obtain mem1 where w: "write_ops ops (of_nat (length past), mem) = Some (of_nat (length (past @ ops)), mem1)"
    and m: "mt_holds mem1 (set (wb_writes 1 (past @ ops)))"
    using write_ops_holds [of mem past ops] by auto
  show ?case using Cons.IH [OF _ m] Cons.prems(1,3) w by (simp add: add.assoc)
qed simp

lemma visible_take:
  assumes "length ops < 2 ^ 63" and "m \<le> length ops"
  shows "visible (set (wb_writes 1 ops)) u (of_nat m) w \<longleftrightarrow> visible (set (wb_writes 1 (take m ops))) u (of_nat m) w"
proof -
  have split: "set (wb_writes 1 ops) = set (wb_writes 1 (take m ops)) \<union> set (wb_writes (1 + of_nat m) (drop m ops))"
    using wb_writes_append [of 1 "take m ops" "drop m ops"] assms(2) by simp
  have "of_nat m < op_seq v" if "v \<in> set (wb_writes (1 + of_nat m) (drop m ops))" for v
  proof -
    have "unat (1 + of_nat m :: u64) = m + 1" using assms by (simp add: unat_word_ariths(1) unat_of_nat)
    then show ?thesis
      using wb_writes_less(1) [OF that] assms by (simp add: word_le_nat_alt word_less_nat_alt unat_of_nat)
  qed
  then show ?thesis by (fastforce simp: visible_def split not_less [symmetric])
qed

lemma wb_writes_at_most:
  assumes "length ops < 2 ^ 63" and "m \<le> length ops" and "v \<in> set (wb_writes 1 (take m ops))"
  shows "op_seq v \<le> of_nat m"
  using wb_writes_less(2) [OF assms(3)] assms(1,2) by (simp add: word_le_nat_alt unat_of_nat)

lemma mt_holds_lookup:
  assumes m: "mt_holds mem (set (wb_writes 1 ops))" and ops: "length ops < 2 ^ 56" and k: "k \<le> length ops"
    and u: "length u + 8 < 2 ^ 32"
  shows "\<exists>lk. LookupKey_new u (of_nat k) = Some lk \<and>
    MemTable_Get Bytewise_Compare lk mem = Some (wb_result (last_update u (take k ops)))"
proof -
  let ?W = "set (wb_writes 1 (take k ops))"
  have lim: "length ops < 2 ^ 63" using ops by simp
  have "(of_nat k :: u64) \<le> kMaxSequenceNumber" using k ops by (simp add: seq_le_max_iff unat_of_nat)
  from MemTable_Get_spec [OF m this u] obtain lk r where
    r: "LookupKey_new u (of_nat k) = Some lk" "MemTable_Get Bytewise_Compare lk mem = Some r"
    "(\<exists>w. visible (set (wb_writes 1 ops)) u (of_nat k) w \<and> r = op_result w) \<or>
     (\<forall>w \<in> set (wb_writes 1 ops). op_key w = u \<longrightarrow> of_nat k < op_seq w) \<and> r = GetMiss" by blast
  from r(3) have "r = wb_result (last_update u (take k ops))"
  proof
    assume "\<exists>w. visible (set (wb_writes 1 ops)) u (of_nat k) w \<and> r = op_result w"
    then obtain w where "visible ?W u (of_nat k) w" "r = op_result w" using visible_take [OF lim k] by blast
    then show ?thesis
      using visible_last_update [of 1 "take k ops"] wb_writes_at_most [OF lim k] k lim by simp
  next
    assume none: "(\<forall>w \<in> set (wb_writes 1 ops). op_key w = u \<longrightarrow> of_nat k < op_seq w) \<and> r = GetMiss"
    have "op_key v \<noteq> u" if "v \<in> ?W" for v
    proof -
      have "v \<in> set (wb_writes 1 ops)" using that wb_writes_append [of 1 "take k ops" "drop k ops"] by simp
      then show ?thesis using none wb_writes_at_most [OF lim k that] by fastforce
    qed
    then show ?thesis using none last_update_None [of 1 "take k ops" u] by simp
  qed
  then show ?thesis using r(1,2) by blast
qed

subsection \<open>The property of writing and reading back\<close>

text \<open>(C6) Writing and reading back, with snapshots: after any sequence of batches is built, stamped and
  inserted into an empty memtable, a lookup of a key at the snapshot after the first \<open>m\<close> updates
  answers from the last of these \<open>m\<close> updates of that key: its value, a deletion, or a miss if there
  is none.\<close>

theorem write_then_read:
  assumes "\<forall>ops \<in> set bs. length ops < 2 ^ 31 \<and> (\<forall>w \<in> set ops. wb_fits w)"
    and "length (concat bs) < 2 ^ 56" and "length u + 8 < 2 ^ 32"
  shows "\<exists>mem. fold (\<lambda>ops r. Option.bind r (write_ops ops)) bs (Some (0, MemTable_new)) =
      Some (of_nat (length (concat bs)), mem) \<and>
    (\<forall>m \<le> length (concat bs). \<exists>lk. LookupKey_new u (of_nat m) = Some lk \<and>
      MemTable_Get Bytewise_Compare lk mem = Some (wb_result (last_update u (take m (concat bs)))))"
proof -
  obtain mem where "fold (\<lambda>ops r. Option.bind r (write_ops ops)) bs (Some (0, MemTable_new)) =
      Some (of_nat (length (concat bs)), mem)" "mt_holds mem (set (wb_writes 1 (concat bs)))"
    using write_all_holds [OF assms(1), of MemTable_new "[]"] assms(2) mt_holds_new by auto
  then show ?thesis using mt_holds_lookup [OF _ assms(2) _ assms(3)] by blast
qed

theorem write_then_read_witness:
  "\<exists>mem. fold (\<lambda>ops r. Option.bind r (write_ops ops)) [[WPut [1] [7], WPut [2] [8]], [WDel [1]]]
      (Some (0, MemTable_new)) = Some (of_nat (length (concat [[WPut [1] [7], WPut [2] [8]], [WDel [1]]])), mem) \<and>
    (\<forall>m \<le> length (concat [[WPut [1] [7], WPut [2] [8]], [WDel [1]]]). \<exists>lk. LookupKey_new [1] (of_nat m) = Some lk \<and>
      MemTable_Get Bytewise_Compare lk mem =
        Some (wb_result (last_update [1] (take m (concat [[WPut [1] [7], WPut [2] [8]], [WDel [1]]])))))"
  by (rule write_then_read) simp_all

end
