(* ===== verification/Ldb_Env.thy ===== *)
theory Ldb_Env
  imports Ldb_Slice
begin

text \<open>
  The file interfaces of \<open>include/leveldb/env.h\<close> that the log uses, as records of operations, with the
  contracts their clients rely on as locales, and the implementations \<open>PosixSequentialFile\<close> and
  \<open>PosixWritableFile\<close> of \<open>util/env_posix.cc\<close> over a model of the C library's \<open>FILE\<close>: the bytes on the
  device, the bytes still in the buffer of the stream, the room left on the device, the position of
  the reader, the position from which the device cannot be read, and whether the directory can be
  opened and synchronised and the file synchronised.
\<close>

subsection \<open>Streams of the C library\<close>

record FILE =
  f_data :: "byte list"
  f_buf :: "byte list"
  f_bufsiz :: nat
  f_room :: nat
  f_pos :: nat
  f_bad :: nat
  f_eof :: bool
  f_dir_open :: bool
  f_dir_fsync :: bool
  f_fdatasync :: bool
  f_strerror :: "byte list"

text \<open>Writing out the buffer: what does not fit the device is lost and is an error.\<close>

definition write_out :: "byte list \<Rightarrow> FILE \<Rightarrow> FILE" where
  "write_out bs f = f\<lparr>f_data := f_data f @ take (f_room f) bs, f_buf := [], f_room := f_room f - length bs\<rparr>"

definition fwrite :: "byte list \<Rightarrow> FILE \<Rightarrow> nat \<times> FILE" where
  "fwrite bs f = (let b = f_buf f @ bs in
     if bs = [] then (0, f)
     else if length b \<le> f_bufsiz f then (length bs, f\<lparr>f_buf := b\<rparr>)
     else (min (length bs) (f_room f - length (f_buf f)), write_out b f))"

definition fflush :: "FILE \<Rightarrow> int \<times> FILE" where
  "fflush f = (if length (f_buf f) \<le> f_room f then 0 else -1, write_out (f_buf f) f)"

definition fclose :: "FILE \<Rightarrow> int \<times> FILE" where
  "fclose f = fflush f"

definition fread :: "nat \<Rightarrow> FILE \<Rightarrow> byte list \<times> FILE" where
  "fread n f = (let bs = take n (drop (f_pos f) (take (f_bad f) (f_data f))) in
     (bs, f\<lparr>f_pos := f_pos f + length bs,
            f_eof := f_eof f \<or> length bs < n \<and> length (f_data f) \<le> f_pos f + length bs\<rparr>))"

definition fseek_cur :: "u64 \<Rightarrow> FILE \<Rightarrow> int \<times> FILE" where
  "fseek_cur n f = (let p = int (f_pos f) + sint n in
     if p < 0 then (-1, f) else (0, f\<lparr>f_pos := nat p, f_eof := False\<rparr>))"

subsection \<open>The interfaces\<close>

record 'f WritableFile =
  wf_Append :: "slice \<Rightarrow> 'f \<Rightarrow> Status \<times> 'f"
  wf_Close :: "'f \<Rightarrow> Status \<times> 'f"
  wf_Flush :: "'f \<Rightarrow> Status \<times> 'f"
  wf_Sync :: "'f \<Rightarrow> Status \<times> 'f"

text \<open>\<open>Read n\<close> returns the status and the slice; \<open>Skip n\<close> moves forward.\<close>

record 'f SequentialFile =
  sf_Read :: "nat \<Rightarrow> 'f \<Rightarrow> Status \<times> slice \<times> 'f"
  sf_Skip :: "u64 \<Rightarrow> 'f \<Rightarrow> Status \<times> 'f"

text \<open>What a writer relies on: while \<open>n\<close> more bytes fit, appending at most \<open>n\<close> bytes succeeds and
  extends the contents, and flushing succeeds and makes the contents durable. Synchronising may fail,
  but it keeps the contents and what is durable.\<close>

locale writable_file =
  fixes ops :: "'f WritableFile" and contents :: "'f \<Rightarrow> byte list" and durable :: "'f \<Rightarrow> byte list"
    and fits :: "'f \<Rightarrow> nat \<Rightarrow> bool"
  assumes append: "fits f n \<Longrightarrow> length d \<le> n \<Longrightarrow>
      \<exists>f'. wf_Append ops d f = (Status_OK, f') \<and> contents f' = contents f @ d \<and> fits f' (n - length d)"
    and flush: "fits f n \<Longrightarrow>
      \<exists>f'. wf_Flush ops f = (Status_OK, f') \<and> contents f' = contents f \<and> durable f' = contents f \<and> fits f' n"
    and sync: "fits f n \<Longrightarrow> durable f = contents f \<Longrightarrow> wf_Sync ops f = (s, f') \<Longrightarrow>
      contents f' = contents f \<and> durable f' = contents f \<and> fits f' n"

text \<open>What a writer relies on that checks every status, on a device whose size is not known: a call that
  succeeds has appended the data, or kept the contents, of a file smaller than 4 GiB.\<close>

locale appending_file =
  fixes ops :: "'f WritableFile" and contents :: "'f \<Rightarrow> byte list" and good :: "'f \<Rightarrow> bool"
  assumes append_ok: "good f \<Longrightarrow> wf_Append ops d f = (Status_OK, f') \<Longrightarrow> good f' \<and> contents f' = contents f @ d"
    and flush_ok: "good f \<Longrightarrow> wf_Flush ops f = (Status_OK, f') \<Longrightarrow> good f' \<and> contents f' = contents f"
    and good_size: "good f \<Longrightarrow> length (contents f) < 2 ^ 32"

text \<open>What a reader relies on: reads return the bytes in their order and never more than was asked for,
  a short read without an error is the end of the file, and nothing is read twice, whatever fails.\<close>

locale sequential_file =
  fixes sops :: "'f SequentialFile" and remaining :: "'f \<Rightarrow> byte list" and healthy :: "'f \<Rightarrow> bool"
  assumes read: "healthy f \<Longrightarrow> \<exists>f'. sf_Read sops n f = (Status_OK, take n (remaining f), f') \<and>
      remaining f' = drop n (remaining f) \<and> healthy f'"
    and read_less: "sf_Read sops n f = (s, bs, f') \<Longrightarrow> length bs \<le> n \<and>
      length bs + length (remaining f') \<le> length (remaining f)"

subsection \<open>The POSIX implementations\<close>

definition env_IOError :: "slice \<Rightarrow> FILE \<Rightarrow> Status" where
  "env_IOError context f = Status_IOError context (f_strerror f)"

definition PosixWritableFile_Append :: "slice \<Rightarrow> slice \<Rightarrow> FILE \<Rightarrow> Status \<times> FILE" where
  "PosixWritableFile_Append filename data f = (let (r, f1) = fwrite data f in
     if r \<noteq> length data then (env_IOError filename f1, f1) else (Status_OK, f1))"

definition PosixWritableFile_Flush :: "slice \<Rightarrow> FILE \<Rightarrow> Status \<times> FILE" where
  "PosixWritableFile_Flush filename f = (let (r, f1) = fflush f in
     if r \<noteq> 0 then (env_IOError filename f1, f1) else (Status_OK, f1))"

definition PosixWritableFile_Close :: "slice \<Rightarrow> FILE \<Rightarrow> Status \<times> FILE" where
  "PosixWritableFile_Close filename f = (let (r, f1) = fclose f in
     (if r \<noteq> 0 then env_IOError filename f1 else Status_OK, f1))"

text \<open>\<open>strrchr(f, '/')\<close> splits the name; without a separator the directory is the current one.\<close>

definition SyncDirIfManifest :: "slice \<Rightarrow> FILE \<Rightarrow> Status" where
  "SyncDirIfManifest filename f =
     (let base = rev (takeWhile (\<lambda>c. c \<noteq> 47) (rev filename));
          dir = (if 47 \<in> set filename then take (length filename - length base - 1) filename else ascii ''.'')
      in if starts_with base (ascii ''MANIFEST'') then
           if \<not> f_dir_open f then env_IOError dir f
           else if \<not> f_dir_fsync f then env_IOError dir f else Status_OK
         else Status_OK)"

definition PosixWritableFile_Sync :: "slice \<Rightarrow> FILE \<Rightarrow> Status \<times> FILE" where
  "PosixWritableFile_Sync filename f = (let s = SyncDirIfManifest filename f in
     if \<not> Status_ok s then (s, f)
     else let (r, f1) = fflush f in
       if r \<noteq> 0 \<or> \<not> f_fdatasync f1 then (env_IOError filename f1, f1) else (s, f1))"

definition PosixWritableFile :: "slice \<Rightarrow> FILE WritableFile" where
  "PosixWritableFile filename =
     \<lparr>wf_Append = PosixWritableFile_Append filename, wf_Close = PosixWritableFile_Close filename,
      wf_Flush = PosixWritableFile_Flush filename, wf_Sync = PosixWritableFile_Sync filename\<rparr>"

definition PosixSequentialFile_Read :: "slice \<Rightarrow> nat \<Rightarrow> FILE \<Rightarrow> Status \<times> slice \<times> FILE" where
  "PosixSequentialFile_Read filename n f = (let (result, f1) = fread n f in
     if length result < n then
       if f_eof f1 then (Status_OK, result, f1) else (env_IOError filename f1, result, f1)
     else (Status_OK, result, f1))"

definition PosixSequentialFile_Skip :: "slice \<Rightarrow> u64 \<Rightarrow> FILE \<Rightarrow> Status \<times> FILE" where
  "PosixSequentialFile_Skip filename n f = (let (r, f1) = fseek_cur n f in
     if r \<noteq> 0 then (env_IOError filename f1, f1) else (Status_OK, f1))"

definition PosixSequentialFile :: "slice \<Rightarrow> FILE SequentialFile" where
  "PosixSequentialFile filename =
     \<lparr>sf_Read = PosixSequentialFile_Read filename, sf_Skip = PosixSequentialFile_Skip filename\<rparr>"

subsection \<open>The contracts hold\<close>

definition file_contents :: "FILE \<Rightarrow> byte list" where
  "file_contents f = f_data f @ f_buf f"

definition file_fits :: "FILE \<Rightarrow> nat \<Rightarrow> bool" where
  "file_fits f n \<longleftrightarrow> length (f_buf f) + n \<le> f_room f"

definition file_remaining :: "FILE \<Rightarrow> byte list" where
  "file_remaining f = drop (f_pos f) (take (f_bad f) (f_data f))"

definition file_healthy :: "FILE \<Rightarrow> bool" where
  "file_healthy f \<longleftrightarrow> length (f_data f) \<le> f_bad f \<and> f_pos f \<le> length (f_data f)"

interpretation pw: writable_file "PosixWritableFile filename" file_contents f_data file_fits
proof
  fix f n and d :: slice
  assume f: "file_fits f n" and d: "length d \<le> n"
  show "\<exists>f'. wf_Append (PosixWritableFile filename) d f = (Status_OK, f') \<and>
      file_contents f' = file_contents f @ d \<and> file_fits f' (n - length d)"
    using f d
    by (auto simp: PosixWritableFile_def PosixWritableFile_Append_def fwrite_def write_out_def Let_def
        file_contents_def file_fits_def)
next
  fix f n
  assume "file_fits f n"
  then show "\<exists>f'. wf_Flush (PosixWritableFile filename) f = (Status_OK, f') \<and>
      file_contents f' = file_contents f \<and> f_data f' = file_contents f \<and> file_fits f' n"
    by (auto simp: PosixWritableFile_def PosixWritableFile_Flush_def fflush_def write_out_def
        file_contents_def file_fits_def)
next
  fix f n s f'
  assume "file_fits f n" "f_data f = file_contents f" "wf_Sync (PosixWritableFile filename) f = (s, f')"
  then show "file_contents f' = file_contents f \<and> f_data f' = file_contents f \<and> file_fits f' n"
    by (auto simp: PosixWritableFile_def PosixWritableFile_Sync_def fflush_def write_out_def Let_def
        file_contents_def file_fits_def split: if_splits)
qed

definition file_good :: "FILE \<Rightarrow> bool" where
  "file_good f \<longleftrightarrow> length (f_data f) + f_room f + f_bufsiz f < 2 ^ 32 \<and> length (f_buf f) \<le> f_bufsiz f"

interpretation pa: appending_file "PosixWritableFile filename" file_contents file_good
proof
  fix f d f'
  assume g: "file_good f" and a: "wf_Append (PosixWritableFile filename) d f = (Status_OK, f')"
  show "file_good f' \<and> file_contents f' = file_contents f @ d"
  proof (cases "length (f_buf f @ d) \<le> f_bufsiz f")
    case False
    have "length d \<le> f_room f - length (f_buf f)" "d \<noteq> []"
      using a False g by (auto simp: PosixWritableFile_def PosixWritableFile_Append_def fwrite_def Let_def env_IOError_def file_good_def
          split: if_splits)
    then show ?thesis using a g False
      by (auto simp: PosixWritableFile_def PosixWritableFile_Append_def fwrite_def write_out_def Let_def file_good_def file_contents_def
          split: if_splits)
  qed (use a g in \<open>auto simp: PosixWritableFile_def PosixWritableFile_Append_def fwrite_def Let_def file_good_def file_contents_def
        split: if_splits\<close>)
next
  fix f f'
  assume "file_good f" "wf_Flush (PosixWritableFile filename) f = (Status_OK, f')"
  then show "file_good f' \<and> file_contents f' = file_contents f"
    by (auto simp: PosixWritableFile_def PosixWritableFile_Flush_def fflush_def write_out_def env_IOError_def file_good_def
        file_contents_def split: if_splits)
qed (simp add: file_good_def file_contents_def)

interpretation ps: sequential_file "PosixSequentialFile filename" file_remaining file_healthy
proof
  fix f n
  assume "file_healthy f"
  then show "\<exists>f'. sf_Read (PosixSequentialFile filename) n f = (Status_OK, take n (file_remaining f), f') \<and>
      file_remaining f' = drop n (file_remaining f) \<and> file_healthy f'"
    by (auto simp: PosixSequentialFile_def PosixSequentialFile_Read_def fread_def Let_def file_healthy_def
        file_remaining_def min_def add.commute)
next
  fix n f s bs f'
  assume "sf_Read (PosixSequentialFile filename) n f = (s, bs, f')"
  then show "length bs \<le> n \<and> length bs + length (file_remaining f') \<le> length (file_remaining f)"
    by (auto simp: PosixSequentialFile_def PosixSequentialFile_Read_def fread_def Let_def
        file_remaining_def min_def split: if_splits)
qed

text \<open>An opened file with the given bytes, and an empty file with room for \<open>n\<close> more bytes.\<close>

definition opened :: "byte list \<Rightarrow> FILE" where
  "opened bs = \<lparr>f_data = bs, f_buf = [], f_bufsiz = 65536, f_room = 0, f_pos = 0, f_bad = length bs, f_eof = False,
     f_dir_open = True, f_dir_fsync = True, f_fdatasync = True, f_strerror = []\<rparr>"

definition created :: "nat \<Rightarrow> FILE" where
  "created n = (opened [])\<lparr>f_room := n\<rparr>"

lemma opened_simps: "file_healthy (opened bs)" "file_remaining (opened bs) = bs" "f_data (created n) = []"
  "file_contents (created n) = []" "file_fits (created n) n"
  by (simp_all add: opened_def created_def file_healthy_def file_remaining_def file_contents_def file_fits_def)

end
