(* ===== verification/Ldb_LogWriter.thy ===== *)
theory Ldb_LogWriter
  imports Ldb_Env Ldb_Crc32c
begin

text \<open>
  \<open>db/log_format.h\<close> and \<open>db/log_writer.cc\<close>: the write-ahead log is a sequence of 32768-byte blocks;
  a record is cut into fragments, each with a checksum, a length and a type, that do not cross block
  boundaries. The destination is any \<open>WritableFile\<close>. \<open>None\<close> is a failed assertion. The checksum does
  not depend on the address of the data, so the model computes it at address 0.
\<close>

subsection \<open>The format\<close>

type_synonym RecordType = u32

definition kZeroType :: RecordType where "kZeroType = 0"
definition kFullType :: RecordType where "kFullType = 1"
definition kFirstType :: RecordType where "kFirstType = 2"
definition kMiddleType :: RecordType where "kMiddleType = 3"
definition kLastType :: RecordType where "kLastType = 4"
definition kMaxRecordType :: RecordType where "kMaxRecordType = kLastType"

definition kBlockSize :: nat where "kBlockSize = 32768"
definition kHeaderSize :: nat where "kHeaderSize = 4 + 2 + 1"

subsection \<open>The writer\<close>

record Writer =
  w_block_offset :: nat
  w_type_crc :: "u32 list"

definition InitTypeCrc :: "u32 list option" where
  "InitTypeCrc = those (map (\<lambda>i. crc32c_Value 0 [word_of_nat i]) [0..<unat kMaxRecordType + 1])"

definition Writer_new :: "Writer option" where
  "Writer_new = do { tc \<leftarrow> InitTypeCrc; Some \<lparr>w_block_offset = 0, w_type_crc = tc\<rparr> }"

definition Writer_new_at :: "u64 \<Rightarrow> Writer option" where
  "Writer_new_at dest_length = do {
     tc \<leftarrow> InitTypeCrc;
     Some \<lparr>w_block_offset = unat (dest_length mod word_of_nat kBlockSize), w_type_crc = tc\<rparr> }"

definition EmitPhysicalRecord ::
  "'f WritableFile \<Rightarrow> RecordType \<Rightarrow> slice \<Rightarrow> Writer \<Rightarrow> 'f \<Rightarrow> (Status \<times> Writer \<times> 'f) option" where
  "EmitPhysicalRecord dest t ptr w f =
     (if length ptr > 0xffff then None
      else if w_block_offset w + kHeaderSize + length ptr > kBlockSize then None
      else if unat t \<ge> length (w_type_crc w) then None
      else do {
        let n = (word_of_nat (length ptr) :: u64);
        crc \<leftarrow> Extend 0 (w_type_crc w ! unat t) ptr;
        let buf = EncodeFixed32 (crc_Mask crc) @ [ucast (n AND 0xff), ucast (drop_bit 8 n), ucast t];
        let w1 = w\<lparr>w_block_offset := w_block_offset w + (kHeaderSize + length ptr)\<rparr>;
        let (s, f1) = wf_Append dest buf f;
        if Status_ok s then
          let (s, f2) = wf_Append dest ptr f1 in
          if Status_ok s then let (s, f3) = wf_Flush dest f2 in Some (s, w1, f3)
          else Some (s, w1, f2)
        else Some (s, w1, f1) })"

definition fragment_type :: "bool \<Rightarrow> bool \<Rightarrow> RecordType" where
  "fragment_type bgn fin =
     (if bgn \<and> fin then kFullType else if bgn then kFirstType else if fin then kLastType else kMiddleType)"

text \<open>The loop of \<open>AddRecord\<close>. The status of the append that fills the trailer is ignored, as in the
  source.\<close>

partial_function (option) AddRecord_loop ::
  "'f WritableFile \<Rightarrow> bool \<Rightarrow> slice \<Rightarrow> Writer \<Rightarrow> 'f \<Rightarrow> (Status \<times> Writer \<times> 'f) option" where
  "AddRecord_loop dest bgn ptr w f =
     (if w_block_offset w > kBlockSize then None
      else let leftover = kBlockSize - w_block_offset w;
               f1 = (if leftover < kHeaderSize \<and> leftover > 0 then snd (wf_Append dest (replicate leftover 0) f) else f);
               w1 = (if leftover < kHeaderSize then w\<lparr>w_block_offset := 0\<rparr> else w)
        in if kBlockSize < w_block_offset w1 + kHeaderSize then None
        else let avail = kBlockSize - w_block_offset w1 - kHeaderSize;
                 fragment_length = (if length ptr < avail then length ptr else avail);
                 rest = drop fragment_length ptr
          in do {
            (s, w2, f2) \<leftarrow> EmitPhysicalRecord dest (fragment_type bgn (length ptr = fragment_length))
                             (take fragment_length ptr) w1 f1;
            if Status_ok s \<and> rest \<noteq> [] then AddRecord_loop dest False rest w2 f2
            else Some (s, w2, f2) })"

definition AddRecord :: "'f WritableFile \<Rightarrow> slice \<Rightarrow> Writer \<Rightarrow> 'f \<Rightarrow> (Status \<times> Writer \<times> 'f) option" where
  "AddRecord dest rcd w f = AddRecord_loop dest True rcd w f"

subsection \<open>The bytes of a record\<close>

definition phys :: "RecordType \<Rightarrow> slice \<Rightarrow> byte list" where
  "phys t d = EncodeFixed32 (crc_Mask (crc_spec 0 (ucast t # d))) @
     [word_of_nat (length d mod 256), word_of_nat (length d div 256), ucast t] @ d"

text \<open>At the block offset \<open>off\<close>: the zeros before the next fragment, where it starts, and the room for
  its data.\<close>

definition blk_pad :: "nat \<Rightarrow> nat" where
  "blk_pad off = (if kBlockSize - off < kHeaderSize then kBlockSize - off else 0)"

definition blk_start :: "nat \<Rightarrow> nat" where
  "blk_start off = (if kBlockSize - off < kHeaderSize then 0 else off)"

definition blk_avail :: "nat \<Rightarrow> nat" where
  "blk_avail off = kBlockSize - blk_start off - kHeaderSize"

lemmas blk_defs = blk_pad_def blk_start_def blk_avail_def kBlockSize_def kHeaderSize_def

function rec_spec :: "nat \<Rightarrow> bool \<Rightarrow> slice \<Rightarrow> byte list \<times> nat" where
  "rec_spec off bgn d =
     (let n = min (length d) (blk_avail off);
          p = replicate (blk_pad off) 0 @ phys (fragment_type bgn (length d = n)) (take n d);
          off1 = blk_start off + kHeaderSize + n
      in if length d = n then (p, off1)
         else let (q, off2) = rec_spec off1 False (drop n d) in (p @ q, off2))"
  by pat_completeness auto
termination
proof (relation "measure (\<lambda>(off, _, d). 2 * length d + (if blk_avail off = 0 then 1 else 0))")
  fix off bgn d n p off1
  assume n: "n = min (length (d :: slice)) (blk_avail off)" and o: "off1 = blk_start off + kHeaderSize + n"
    and ne: "length d \<noteq> n"
  show "((off1, False, drop n d), (off, bgn, d)) \<in> measure (\<lambda>(off, _, d). 2 * length d + (if blk_avail off = 0 then 1 else 0))"
  proof (cases "n = 0")
    case True
    then have "blk_avail off = 0" "off1 = kBlockSize" using n o ne by (auto simp: blk_defs min_def split: if_splits)
    then show ?thesis using True by (simp add: blk_defs)
  qed (use n ne in auto)
qed simp

declare rec_spec.simps [simp del]

text \<open>The last fragment of a record, and a fragment that fills its block.\<close>

lemma rec_spec_one: "length d \<le> blk_avail off \<Longrightarrow> rec_spec off bgn d =
    (replicate (blk_pad off) 0 @ phys (fragment_type bgn True) d, blk_start off + kHeaderSize + length d)"
  by (subst rec_spec.simps) (simp add: min_absorb1)

lemma rec_spec_more: "blk_avail off < length d \<Longrightarrow> rec_spec off bgn d =
    (let (q, o2) = rec_spec (blk_start off + kHeaderSize + blk_avail off) False (drop (blk_avail off) d)
     in (replicate (blk_pad off) 0 @ phys (fragment_type bgn False) (take (blk_avail off) d) @ q, o2))"
  by (subst rec_spec.simps) (simp add: min_absorb2 split_beta Let_def)

lemma length_phys [simp]: "length (phys t d) = kHeaderSize + length d"
  by (simp add: phys_def kHeaderSize_def)

lemma crc_type_data: "crc_spec (crc_spec 0 [x]) d = crc_spec 0 (x # d)"
  using crc_spec_append [of 0 "[x]" d] by simp

definition type_crcs :: "u32 list" where
  "type_crcs = map (\<lambda>i. crc_spec 0 [word_of_nat i]) [0..<5]"

lemma InitTypeCrc_eq: "InitTypeCrc = Some type_crcs"
  by (simp add: InitTypeCrc_def type_crcs_def crc32c_Value_def Extend_eq kMaxRecordType_def kLastType_def upt_rec)

lemma type_crcs_nth: "unat t < 5 \<Longrightarrow> type_crcs ! unat (t :: u32) = crc_spec 0 [ucast t]"
  by (simp add: type_crcs_def)

lemma fragment_type_range: "unat (fragment_type bgn fin) \<in> {1..4}"
  by (simp add: fragment_type_def kFullType_def kFirstType_def kLastType_def kMiddleType_def)

lemma header_lengths:
  assumes "n < 2 ^ 16"
  shows "(ucast ((word_of_nat n :: u64) AND 0xff) :: byte) = word_of_nat (n mod 256)"
    and "(ucast (drop_bit 8 (word_of_nat n :: u64)) :: byte) = word_of_nat (n div 256)"
proof -
  have u: "unat (word_of_nat n :: u64) = n" using assms by (simp add: unat_of_nat)
  have "(word_of_nat n :: u64) AND 0xff = take_bit 8 (word_of_nat n)"
    by (simp add: take_bit_eq_mask mask_eq_exp_minus_1)
  then have "unat ((word_of_nat n :: u64) AND 0xff) = n mod 256"
    using u by (simp add: take_bit_eq_mod unat_mod)
  then show "(ucast ((word_of_nat n :: u64) AND 0xff) :: byte) = word_of_nat (n mod 256)"
    by (simp add: ucast_of_unat)
  have "unat (drop_bit 8 (word_of_nat n :: u64)) = n div 256"
    using u by (simp add: drop_bit_eq_div unat_div)
  then show "(ucast (drop_bit 8 (word_of_nat n :: u64)) :: byte) = word_of_nat (n div 256)"
    by (simp add: ucast_of_unat)
qed

lemma blk_bounds:
  "off \<le> kBlockSize \<Longrightarrow> blk_start off + kHeaderSize + blk_avail off = kBlockSize"
  "blk_pad off \<le> 6" "n \<le> blk_avail off \<Longrightarrow> n < 2 ^ 16"
  by (auto simp: blk_defs)

lemma rec_spec_off: "off \<le> kBlockSize \<Longrightarrow> snd (rec_spec off bgn d) \<le> kBlockSize"
proof (induction off bgn d rule: rec_spec.induct)
  case (1 off bgn d)
  let ?n = "min (length d) (blk_avail off)"
  have "blk_start off + kHeaderSize + ?n \<le> kBlockSize" using blk_bounds(1) [OF 1(2)] by simp
  then show ?case using 1(1) by (subst rec_spec.simps) (auto simp: Let_def split_beta)
qed

text \<open>A block that is full and a block that has not been started are the same.\<close>

lemma rec_spec_wrap: "rec_spec kBlockSize bgn d = rec_spec 0 bgn d"
  by (subst (1 2) rec_spec.simps) (simp add: blk_defs)

subsection \<open>The writer emits the format\<close>

lemma AddRecord_loop_step:
  fixes d :: slice
  assumes "w_block_offset w \<le> kBlockSize"
  defines "off \<equiv> w_block_offset w" and "n \<equiv> min (length d) (blk_avail (w_block_offset w))"
  shows "AddRecord_loop ops bgn d w f = Option.bind
      (EmitPhysicalRecord ops (fragment_type bgn (length d = n)) (take n d) (w\<lparr>w_block_offset := blk_start off\<rparr>)
        (if blk_pad off > 0 then snd (wf_Append ops (replicate (blk_pad off) 0) f) else f))
      (\<lambda>(s, w1, f1). if Status_ok s \<and> length d \<noteq> n then AddRecord_loop ops False (drop n d) w1 f1 else Some (s, w1, f1))"
proof -
  have w1: "(if kBlockSize - off < kHeaderSize then w\<lparr>w_block_offset := 0\<rparr> else w) = w\<lparr>w_block_offset := blk_start off\<rparr>"
    by (simp add: blk_start_def off_def)
  have f0: "(if kBlockSize - off < kHeaderSize \<and> 0 < kBlockSize - off
      then snd (wf_Append ops (replicate (kBlockSize - off) 0) f) else f) =
      (if blk_pad off > 0 then snd (wf_Append ops (replicate (blk_pad off) 0) f) else f)"
    by (auto simp: blk_pad_def)
  have k: "(if length d < kBlockSize - blk_start off - kHeaderSize then length d
      else kBlockSize - blk_start off - kHeaderSize) = n" by (auto simp: blk_avail_def n_def off_def)
  have le: "\<not> kBlockSize < off" "\<not> kBlockSize < blk_start off + kHeaderSize"
    using blk_bounds(1) [OF assms(1)] assms(1) by (simp_all add: off_def)
  have nil: "drop n d \<noteq> [] \<longleftrightarrow> length d \<noteq> n" by (auto simp: n_def)
  have sel: "w_block_offset (w\<lparr>w_block_offset := x\<rparr>) = x" for x by simp
  show ?thesis
    by (subst AddRecord_loop.simps) (simp only: Let_def off_def [symmetric] w1 f0 sel k le nil if_False)
qed

context writable_file
begin

lemma Emit_ok:
  assumes "w_type_crc w = type_crcs" and "unat t < 5" and "w_block_offset w + kHeaderSize + length d \<le> kBlockSize"
    and "fits f n" and "kHeaderSize + length d \<le> n"
  shows "\<exists>f'. EmitPhysicalRecord ops t d w f =
      Some (Status_OK, w\<lparr>w_block_offset := w_block_offset w + (kHeaderSize + length d)\<rparr>, f') \<and>
    contents f' = contents f @ phys t d \<and> durable f' = contents f' \<and> fits f' (n - (kHeaderSize + length d))"
proof -
  have d: "length d < 2 ^ 16" using assms(3) by (simp add: kBlockSize_def)
  let ?h = "EncodeFixed32 (crc_Mask (crc_spec 0 (ucast t # d))) @
    [word_of_nat (length d mod 256), word_of_nat (length d div 256), ucast t]"
  have h: "length ?h = kHeaderSize" by (simp add: kHeaderSize_def)
  obtain f1 where f1: "wf_Append ops ?h f = (Status_OK, f1)" "contents f1 = contents f @ ?h"
    "fits f1 (n - kHeaderSize)" using append [OF assms(4), of ?h] assms(5) h by auto
  obtain f2 where f2: "wf_Append ops d f1 = (Status_OK, f2)" "contents f2 = contents f1 @ d"
    "fits f2 (n - (kHeaderSize + length d))"
    using append [OF f1(3), of d] assms(5) by (auto simp: le_diff_conv2)
  obtain f3 where f3: "wf_Flush ops f2 = (Status_OK, f3)" "contents f3 = contents f2" "durable f3 = contents f2"
    "fits f3 (n - (kHeaderSize + length d))" using flush [OF f2(3)] by blast
  have "EmitPhysicalRecord ops t d w f =
      Some (Status_OK, w\<lparr>w_block_offset := w_block_offset w + (kHeaderSize + length d)\<rparr>, f3)"
    using assms(1-3) d f1(1) f2(1) f3(1)
    by (simp add: EmitPhysicalRecord_def type_crcs_nth Extend_eq crc_type_data header_lengths
        type_crcs_def [THEN arg_cong [of _ _ length]] Let_def)
  then show ?thesis using f1(2) f2(2) f3 by (simp add: phys_def)
qed

lemma AddRecord_loop_ok:
  assumes "w_type_crc w = type_crcs" and "w_block_offset w \<le> kBlockSize" and "fits f n"
    and "length (fst (rec_spec (w_block_offset w) bgn d)) \<le> n"
  shows "\<exists>f'. AddRecord_loop ops bgn d w f =
      Some (Status_OK, w\<lparr>w_block_offset := snd (rec_spec (w_block_offset w) bgn d)\<rparr>, f') \<and>
    contents f' = contents f @ fst (rec_spec (w_block_offset w) bgn d) \<and> durable f' = contents f' \<and>
    fits f' (n - length (fst (rec_spec (w_block_offset w) bgn d)))"
  using assms
proof (induction "w_block_offset w" bgn d arbitrary: w f n rule: rec_spec.induct)
  case (1 bgn d)
  let ?off = "w_block_offset w"
  let ?k = "min (length d) (blk_avail ?off)"
  let ?p = "phys (fragment_type bgn (length d = ?k)) (take ?k d)"
  let ?w1 = "w\<lparr>w_block_offset := blk_start ?off\<rparr>"
  let ?w2 = "w\<lparr>w_block_offset := blk_start ?off + kHeaderSize + ?k\<rparr>"
  have len: "length ?p = kHeaderSize + ?k" by simp
  have spec: "rec_spec ?off bgn d = (if length d = ?k then (replicate (blk_pad ?off) 0 @ ?p, w_block_offset ?w2)
      else (replicate (blk_pad ?off) 0 @ ?p @ fst (rec_spec (w_block_offset ?w2) False (drop ?k d)),
            snd (rec_spec (w_block_offset ?w2) False (drop ?k d))))"
    by (subst rec_spec.simps) (simp add: Let_def split_beta)
  have room: "blk_pad ?off + (kHeaderSize + ?k) \<le> n"
    using 1(5) unfolding spec by (auto split: if_splits)
  obtain f1 where f1: "(if blk_pad ?off > 0 then snd (wf_Append ops (replicate (blk_pad ?off) 0) f) else f) = f1"
    "contents f1 = contents f @ replicate (blk_pad ?off) 0" "fits f1 (n - blk_pad ?off)"
    using append [OF 1(4), of "replicate (blk_pad ?off) 0"] 1(4) room by (cases "blk_pad ?off > 0") auto
  have bound: "blk_start ?off + kHeaderSize + ?k \<le> kBlockSize" using blk_bounds(1) [OF 1(3)] by simp
  obtain f2 where f2: "EmitPhysicalRecord ops (fragment_type bgn (length d = ?k)) (take ?k d) ?w1 f1 =
      Some (Status_OK, ?w2, f2)" "contents f2 = contents f1 @ ?p" "durable f2 = contents f2"
    "fits f2 (n - blk_pad ?off - (kHeaderSize + ?k))"
  proof -
    have "kHeaderSize + length (take ?k d) \<le> n - blk_pad ?off" using room by simp
    from Emit_ok [of ?w1 "fragment_type bgn (length d = ?k)" "take ?k d" f1, OF _ _ _ f1(3) this]
    show ?thesis using that 1(2) fragment_type_range [of bgn "length d = ?k"] bound by (auto simp: add.assoc)
  qed
  have step: "AddRecord_loop ops bgn d w f =
      (if length d = ?k then Some (Status_OK, ?w2, f2) else AddRecord_loop ops False (drop ?k d) ?w2 f2)"
    using f1(1) f2(1) by (simp add: AddRecord_loop_step [OF 1(3)])
  show ?case
  proof (cases "length d = ?k")
    case True
    then show ?thesis using step f1(2) f2 unfolding spec if_P [OF True] by (auto simp: diff_diff_left)
  next
    case False
    have "blk_pad ?off + length ?p + length (fst (rec_spec (w_block_offset ?w2) False (drop ?k d))) \<le> n"
      using 1(5) unfolding spec if_not_P [OF False] by simp
    then have "length (fst (rec_spec (w_block_offset ?w2) False (drop ?k d))) \<le> n - blk_pad ?off - (kHeaderSize + ?k)"
      unfolding len by linarith
    from 1(1) [OF refl refl _ False _ _ f2(4) this] show ?thesis
      using step False f1(2) f2(2) 1(2) bound unfolding spec if_not_P [OF False] by (auto simp: diff_diff_left add.assoc)
  qed
qed

end

end
