(* ===== verification/Ldb_Logging.thy ===== *)
theory Ldb_Logging
  imports Ldb_Slice
begin

text \<open>
  \<open>util/logging.cc\<close>: decimal numbers and escaped strings, used for file names, record types in
  reports and debug output. \<open>snprintf\<close> into a buffer of \<open>n\<close> bytes keeps at most \<open>n - 1\<close> characters;
  \<open>char\<close> is signed.
\<close>

text \<open>The conversions of the C library: \<open>%llu\<close> (and \<open>%u\<close>) and \<open>%02x\<close> of a byte.\<close>

fun print_llu :: "nat \<Rightarrow> byte list" where
  "print_llu n = (if n < 10 then [word_of_nat (48 + n)] else print_llu (n div 10) @ [word_of_nat (48 + n mod 10)])"

declare print_llu.simps [simp del]

definition hex_digit :: "nat \<Rightarrow> byte" where
  "hex_digit n = (if n < 10 then word_of_nat (48 + n) else word_of_nat (87 + n))"

definition print_02x :: "byte \<Rightarrow> byte list" where
  "print_02x c = [hex_digit (unat c div 16), hex_digit (unat c mod 16)]"

definition snprintf :: "nat \<Rightarrow> byte list \<Rightarrow> byte list" where
  "snprintf n s = take (n - 1) s"

definition AppendNumberTo :: "byte list \<Rightarrow> u64 \<Rightarrow> byte list" where
  "AppendNumberTo str num = str @ snprintf 30 (print_llu (unat num))"

definition escape_char :: "byte \<Rightarrow> byte list" where
  "escape_char c = (if sint c \<ge> 32 \<and> sint c \<le> 126 then [c] else snprintf 10 (ascii [CHR 0x5C, CHR ''x''] @ print_02x c))"

definition AppendEscapedStringTo :: "byte list \<Rightarrow> slice \<Rightarrow> byte list" where
  "AppendEscapedStringTo str val = fold (\<lambda>c r. r @ escape_char c) val str"

definition NumberToString :: "u64 \<Rightarrow> byte list" where
  "NumberToString num = AppendNumberTo [] num"

definition EscapeString :: "slice \<Rightarrow> byte list" where
  "EscapeString val = AppendEscapedStringTo [] val"

text \<open>The loop of \<open>ConsumeDecimalNumber\<close>: whether it was left without overflow, the value, the number
  of digits and the rest of the input.\<close>

definition kMaxUint64 :: u64 where "kMaxUint64 = NOT 0"

fun ConsumeDecimalNumber_loop :: "u64 \<Rightarrow> nat \<Rightarrow> slice \<Rightarrow> bool \<times> u64 \<times> nat \<times> slice" where
  "ConsumeDecimalNumber_loop v digits [] = (True, v, digits, [])"
| "ConsumeDecimalNumber_loop v digits (c # inp) =
     (if sint c \<ge> 48 \<and> sint c \<le> 57 then
        let delta = (ucast (c - 48) :: u64) in
        if v > kMaxUint64 div 10 \<or> v = kMaxUint64 div 10 \<and> delta > kMaxUint64 mod 10
        then (False, v, digits + 1, c # inp)
        else ConsumeDecimalNumber_loop (v * 10 + delta) (digits + 1) inp
      else (True, v, digits, c # inp))"

text \<open>The result: the returned flag, what was stored to \<open>*val\<close> (nothing on overflow) and the slice.\<close>

definition ConsumeDecimalNumber :: "slice \<Rightarrow> bool \<times> u64 option \<times> slice" where
  "ConsumeDecimalNumber inp = (case ConsumeDecimalNumber_loop 0 0 inp of (ok, v, digits, rest) \<Rightarrow>
     if ok then (digits > 0, Some v, rest) else (False, None, rest))"

subsection \<open>Decimal numbers\<close>

definition is_digit :: "byte \<Rightarrow> bool" where
  "is_digit c \<longleftrightarrow> 48 \<le> c \<and> c \<le> 57"

definition digits_val :: "nat \<Rightarrow> byte list \<Rightarrow> nat" where
  "digits_val v ds = foldl (\<lambda>v c. v * 10 + (unat c - 48)) v ds"

lemma digits_val_simps [simp]:
  "digits_val v [] = v" "digits_val v (c # ds) = digits_val (v * 10 + (unat c - 48)) ds"
  "digits_val v (ds @ [c]) = digits_val v ds * 10 + (unat c - 48)"
  by (simp_all add: digits_val_def)

lemma sint_byte: "sint (c :: byte) = (if 128 \<le> uint c then uint c - 256 else uint c)"
proof -
  have s: "sint c = (uint c + 128) mod 256 - 128"
    by (simp add: sint_uint signed_take_bit_eq_take_bit_shift take_bit_eq_mod)
  have lim: "0 \<le> uint c" "uint c < 256" using unsigned_less [where 'a = int, of c] by simp_all
  show ?thesis
  proof (cases "128 \<le> uint c")
    case True
    have "(uint c + 128) mod 256 = uint c - 128"
      using lim True by (auto simp: mod_pos_geq mod_pos_pos_trivial)
    then show ?thesis using True s by simp
  next
    case False
    have "(uint c + 128) mod 256 = uint c + 128" using lim False by (intro mod_pos_pos_trivial) auto
    then show ?thesis using False s by simp
  qed
qed

lemma sint_digit: "(sint (c :: byte) \<ge> 48 \<and> sint c \<le> 57) \<longleftrightarrow> is_digit c"
  using unsigned_less [where 'a = int, of c] by (auto simp: sint_byte is_digit_def word_le_def)

lemma is_digit_unat: "is_digit c \<longleftrightarrow> 48 \<le> unat c \<and> unat c \<le> 57"
  by (simp add: is_digit_def word_le_nat_alt)

lemma decimal_step:
  assumes "is_digit c"
  shows "(v > kMaxUint64 div 10 \<or> v = kMaxUint64 div 10 \<and> (ucast (c - 48) :: u64) > kMaxUint64 mod 10) \<longleftrightarrow>
      2 ^ 64 \<le> unat v * 10 + (unat c - 48)"
    and "unat v * 10 + (unat c - 48) < 2 ^ 64 \<Longrightarrow>
      unat (v * 10 + (ucast (c - 48) :: u64)) = unat v * 10 + (unat c - 48)"
proof -
  have d: "unat (ucast (c - 48) :: u64) = unat c - 48"
  proof -
    have "unat (c - 48) = unat c - 48" using assms by (simp add: is_digit_def unat_sub)
    moreover have "unat c - 48 < 10" using assms unfolding is_digit_unat by linarith
    ultimately show ?thesis by (simp add: unsigned_ucast_eq take_bit_nat_eq_self)
  qed
  have "unat (kMaxUint64 div 10) = 1844674407370955161" "unat (kMaxUint64 mod 10) = 5"
    by (simp_all add: kMaxUint64_def unat_div unat_mod)
  then show "(v > kMaxUint64 div 10 \<or> v = kMaxUint64 div 10 \<and> (ucast (c - 48) :: u64) > kMaxUint64 mod 10) \<longleftrightarrow>
      2 ^ 64 \<le> unat v * 10 + (unat c - 48)"
    using assms by (auto simp: word_less_nat_alt word_unat_eq_iff d is_digit_unat)
  show "unat (v * 10 + (ucast (c - 48) :: u64)) = unat v * 10 + (unat c - 48)"
    if "unat v * 10 + (unat c - 48) < 2 ^ 64"
    using that by (simp add: unat_word_ariths d)
qed

lemma digits_val_mono: "v \<le> digits_val v ds"
proof (induction ds arbitrary: v)
  case (Cons c ds)
  show ?case using Cons [of "v * 10 + (unat c - 48)"] by simp
qed simp

lemma ConsumeDecimalNumber_loop_spec:
  assumes "\<forall>c \<in> set ds. is_digit c" and "rest = [] \<or> \<not> is_digit (hd rest)"
  shows "digits_val (unat v) ds < 2 ^ 64 \<Longrightarrow>
      ConsumeDecimalNumber_loop v n (ds @ rest) = (True, word_of_nat (digits_val (unat v) ds), n + length ds, rest)"
    and "2 ^ 64 \<le> digits_val (unat v) ds \<Longrightarrow> \<not> fst (ConsumeDecimalNumber_loop v n (ds @ rest))"
  using assms(1)
proof (induction ds arbitrary: v n)
  case Nil
  { case 1 then show ?case using assms(2) by (cases rest) (auto simp: sint_digit) }
  { case 2 then show ?case using unsigned_less [where 'a = nat, of v] by simp }
next
  case (Cons c ds)
  { case (1 v n)
    let ?v = "v * 10 + (ucast (c - 48) :: u64)" and ?n = "unat v * 10 + (unat c - 48)"
    from 1 have c: "is_digit c" and ds: "\<forall>c \<in> set ds. is_digit c" by auto
    note step = decimal_step [OF c, of v]
    have "?n < 2 ^ 64" using 1(1) unfolding digits_val_simps by (rule le_less_trans [OF digits_val_mono])
    then show ?case using 1 Cons.IH(1) [of ?v "n + 1"] ds step c by (simp add: sint_digit Let_def) }
  { case (2 v n)
    let ?v = "v * 10 + (ucast (c - 48) :: u64)" and ?n = "unat v * 10 + (unat c - 48)"
    from 2 have c: "is_digit c" and ds: "\<forall>c \<in> set ds. is_digit c" by auto
    note step = decimal_step [OF c, of v]
    show ?case
    proof (cases "?n < 2 ^ 64")
      case True
      then show ?thesis using 2 Cons.IH(2) [of ?v "n + 1"] ds step c by (simp add: sint_digit Let_def)
    next
      case False
      then show ?thesis using step(1) c by (simp add: sint_digit Let_def)
    qed }
qed

lemma print_llu_digits: "(\<forall>c \<in> set (print_llu n). is_digit c) \<and> print_llu n \<noteq> [] \<and> digits_val 0 (print_llu n) = n"
proof (induction n rule: print_llu.induct)
  case (1 n)
  have dig: "unat (word_of_nat (48 + k) :: byte) = 48 + k" if "k < 10" for k
    using that by (simp add: unat_word_ariths unat_of_nat)
  show ?case
    using 1 dig [of n] dig [of "n mod 10"]
    by (subst (1 2 3) print_llu.simps) (simp add: is_digit_unat less_Suc_eq_le [symmetric] del: of_nat_add)
qed

lemma length_print_llu: "n < 10 ^ Suc k \<Longrightarrow> length (print_llu n) \<le> Suc k"
proof (induction k arbitrary: n)
  case 0
  then show ?case by (simp add: print_llu.simps)
next
  case (Suc k)
  have "n div 10 < 10 ^ Suc k" using Suc.prems by (simp add: less_mult_imp_div_less)
  then show ?case using Suc.IH [of "n div 10"] by (subst print_llu.simps) simp
qed

lemma NumberToString_eq: "NumberToString n = print_llu (unat n)"
proof -
  have "unat n < 10 ^ Suc 19" using unsigned_less [where 'a = nat, of n] by simp
  from length_print_llu [OF this] show ?thesis
    by (simp add: NumberToString_def AppendNumberTo_def snprintf_def)
qed

subsection \<open>Properties\<close>

text \<open>(C28) Parsing decimal numbers is exact: on a maximal run of digits \<open>ConsumeDecimalNumber\<close> succeeds
  exactly when the run is not empty and its value fits 64 bits, stores that value and stops behind
  the digits; a value that does not fit is refused and nothing is stored.\<close>

theorem ConsumeDecimalNumber_exact:
  assumes "\<forall>c \<in> set ds. is_digit c" and "rest = [] \<or> \<not> is_digit (hd rest)"
  shows "(digits_val 0 ds < 2 ^ 64 \<longrightarrow>
      ConsumeDecimalNumber (ds @ rest) = (ds \<noteq> [], Some (word_of_nat (digits_val 0 ds)), rest)) \<and>
    (2 ^ 64 \<le> digits_val 0 ds \<longrightarrow> (\<exists>r. ConsumeDecimalNumber (ds @ rest) = (False, None, r)))"
  using ConsumeDecimalNumber_loop_spec [OF assms, of 0 0]
  by (auto simp: ConsumeDecimalNumber_def split: prod.splits)

theorem ConsumeDecimalNumber_exact_witness:
  "ConsumeDecimalNumber ([52, 50] @ [46]) = (True, Some 42, [46])"
  using ConsumeDecimalNumber_exact [of "[52, 50]" "[46]"] by (simp add: is_digit_def digits_val_def)

text \<open>(C29) Numbers round-trip: what \<open>NumberToString\<close> prints is parsed back to the number, and the 30-byte
  buffer of \<open>AppendNumberTo\<close> never truncates.\<close>

theorem decimal_roundtrip:
  assumes "rest = [] \<or> \<not> is_digit (hd rest)"
  shows "ConsumeDecimalNumber (NumberToString n @ rest) = (True, Some n, rest)"
proof -
  have d: "\<forall>c \<in> set (print_llu (unat n)). is_digit c" "print_llu (unat n) \<noteq> []"
    "digits_val 0 (print_llu (unat n)) = unat n"
    using print_llu_digits [of "unat n"] by auto
  show ?thesis
    using ConsumeDecimalNumber_loop_spec(1) [OF d(1) assms, of 0 0] d(2,3) unsigned_less [where 'a = nat, of n]
    by (simp add: ConsumeDecimalNumber_def NumberToString_eq)
qed

theorem decimal_roundtrip_witness: "ConsumeDecimalNumber (NumberToString 0xFFFFFFFFFFFFFFFF @ [46]) =
    (True, Some 0xFFFFFFFFFFFFFFFF, [46])"
  by (rule decimal_roundtrip) (simp add: is_digit_def)

end
