(* ===== verification/Ldb_LogReader.thy ===== *)
theory Ldb_LogReader
  imports Ldb_LogWriter Ldb_Logging
begin

text \<open>
  \<open>db/log_reader.cc\<close>: the reader of the write-ahead log. It reads the file block by block, checks each
  fragment, assembles the records, reports what it drops, and resynchronises after an initial offset.
  The calls of the reporter are a list in the state. Offsets are 64-bit words and wrap as in C.
\<close>

definition kEof :: u32 where "kEof = kMaxRecordType + 1"
definition kBadRecord :: u32 where "kBadRecord = kMaxRecordType + 2"

record Reader =
  r_has_reporter :: bool
  r_reported :: "(u64 \<times> Status) list"
  r_checksum :: bool
  r_buffer :: slice
  r_eof :: bool
  r_last_record_offset :: u64
  r_end_of_buffer_offset :: u64
  r_initial_offset :: u64
  r_resyncing :: bool

definition Reader_new :: "bool \<Rightarrow> bool \<Rightarrow> u64 \<Rightarrow> Reader" where
  "Reader_new reporter checksum initial_offset = \<lparr>r_has_reporter = reporter, r_reported = [],
     r_checksum = checksum, r_buffer = [], r_eof = False, r_last_record_offset = 0,
     r_end_of_buffer_offset = 0, r_initial_offset = initial_offset, r_resyncing = initial_offset > 0\<rparr>"

definition ReportDrop :: "u64 \<Rightarrow> Status \<Rightarrow> Reader \<Rightarrow> Reader" where
  "ReportDrop bytes reason r =
     (if r_has_reporter r \<and>
         r_end_of_buffer_offset r - word_of_nat (length (r_buffer r)) - bytes \<ge> r_initial_offset r
      then r\<lparr>r_reported := r_reported r @ [(bytes, reason)]\<rparr> else r)"

definition ReportCorruption :: "nat \<Rightarrow> slice \<Rightarrow> Reader \<Rightarrow> Reader" where
  "ReportCorruption bytes reason r =
     ReportDrop (word_of_nat bytes) (Option.bind (Status_new kCorruption reason []) id) r"

definition SkipToInitialBlock :: "'f SequentialFile \<Rightarrow> Reader \<Rightarrow> 'f \<Rightarrow> bool \<times> Reader \<times> 'f" where
  "SkipToInitialBlock file r f =
     (let offset_in_block = r_initial_offset r mod word_of_nat kBlockSize;
          start = r_initial_offset r - offset_in_block;
          block_start_location = (if offset_in_block > word_of_nat (kBlockSize - 6)
            then start + word_of_nat kBlockSize else start);
          r1 = r\<lparr>r_end_of_buffer_offset := block_start_location\<rparr>
      in if block_start_location > 0 then
           let (skip_status, f1) = sf_Skip file block_start_location f in
           if \<not> Status_ok skip_status then (False, ReportDrop block_start_location skip_status r1, f1)
           else (True, r1, f1)
         else (True, r1, f))"

text \<open>The fields of a header: the length in bytes 4 and 5 and the type in byte 6. \<open>char\<close> is signed, so
  the type is sign-extended.\<close>

definition hdr_length :: "slice \<Rightarrow> nat" where
  "hdr_length header = (let a = (scast (header ! 4) :: u32) AND 0xff; b = (scast (header ! 5) :: u32) AND 0xff
     in unat (a OR push_bit 8 b))"

definition hdr_type :: "slice \<Rightarrow> u32" where
  "hdr_type header = scast (header ! 6)"

text \<open>The offset in the file of a fragment that was just removed from the buffer.\<close>

definition fragment_offset :: "Reader \<Rightarrow> nat \<Rightarrow> u64" where
  "fragment_offset r len = r_end_of_buffer_offset r - word_of_nat (length (r_buffer r)) -
     word_of_nat kHeaderSize - word_of_nat len"

text \<open>The part of \<open>ReadPhysicalRecord\<close> behind the refill: parsing the first fragment of the buffer.\<close>

definition parse_fragment :: "slice \<Rightarrow> Reader \<Rightarrow> (u32 \<times> slice \<times> Reader) option" where
  "parse_fragment result r =
     (let header = r_buffer r; len = hdr_length header; type = hdr_type header;
          drop_size = length (r_buffer r); r0 = r\<lparr>r_buffer := []\<rparr>
      in if kHeaderSize + len > length (r_buffer r) then
           Some (if \<not> r_eof r then (kBadRecord, result, ReportCorruption drop_size (ascii ''bad record length'') r0)
                 else (kEof, result, r0))
         else if type = kZeroType \<and> len = 0 then Some (kBadRecord, result, r0)
         else do {
           mismatch \<leftarrow> (if r_checksum r then do {
               stored \<leftarrow> DecodeFixed32 header;
               actual_crc \<leftarrow> crc32c_Value 0 (take (1 + len) (drop 6 header));
               Some (actual_crc \<noteq> crc_Unmask stored) } else Some False);
           if mismatch then Some (kBadRecord, result, ReportCorruption drop_size (ascii ''checksum mismatch'') r0)
           else do {
             buf \<leftarrow> remove_prefix (kHeaderSize + len) (r_buffer r);
             let r1 = r\<lparr>r_buffer := buf\<rparr>;
             if fragment_offset r1 len < r_initial_offset r1 then Some (kBadRecord, [], r1)
             else Some (type, take len (drop kHeaderSize header), r1) } })"

text \<open>\<open>result\<close> is an in-out parameter: it keeps its old value on the paths that do not assign it.\<close>

partial_function (option) ReadPhysicalRecord ::
  "'f SequentialFile \<Rightarrow> slice \<Rightarrow> Reader \<Rightarrow> 'f \<Rightarrow> (u32 \<times> slice \<times> Reader \<times> 'f) option" where
  "ReadPhysicalRecord file result r f =
     (if length (r_buffer r) < kHeaderSize then
        if \<not> r_eof r then
          let (status, buf, f1) = sf_Read file kBlockSize f;
              r1 = r\<lparr>r_buffer := buf, r_end_of_buffer_offset := r_end_of_buffer_offset r + word_of_nat (length buf)\<rparr>
          in if \<not> Status_ok status then
               Some (kEof, result, (ReportDrop (word_of_nat kBlockSize) status (r1\<lparr>r_buffer := []\<rparr>))\<lparr>r_eof := True\<rparr>, f1)
             else ReadPhysicalRecord file result (if length buf < kBlockSize then r1\<lparr>r_eof := True\<rparr> else r1) f1
        else Some (kEof, result, r\<lparr>r_buffer := []\<rparr>, f)
      else map_option (\<lambda>(type, res, r1). (type, res, r1, f)) (parse_fragment result r))"

text \<open>The body of the loop of \<open>ReadRecord\<close> after a physical record was read: \<open>Inl\<close> returns the record
  (or \<open>None\<close> for \<open>false\<close>) and the scratch string, \<open>Inr\<close> continues with \<open>in_fragmented_record\<close>, the
  scratch string and \<open>prospective_record_offset\<close>.\<close>

definition record_step ::
  "bool \<Rightarrow> slice \<Rightarrow> u64 \<Rightarrow> u32 \<Rightarrow> slice \<Rightarrow> Reader \<Rightarrow> (slice option \<times> slice \<times> Reader) + (bool \<times> slice \<times> u64 \<times> Reader)" where
  "record_step in_frag scratch prospective record_type fragment r1 =
     (let offset = fragment_offset r1 (length fragment);
          r = r1\<lparr>r_resyncing := False\<rparr>
      in if r_resyncing r1 \<and> record_type = kMiddleType then Inr (in_frag, scratch, prospective, r1)
         else if r_resyncing r1 \<and> record_type = kLastType then Inr (in_frag, scratch, prospective, r)
         else if record_type = kFullType then
           let r2 = (if in_frag \<and> scratch \<noteq> [] then
                       ReportCorruption (length scratch) (ascii ''partial record without end(1)'') r else r)
           in Inl (Some fragment, [], r2\<lparr>r_last_record_offset := offset\<rparr>)
         else if record_type = kFirstType then
           let r2 = (if in_frag \<and> scratch \<noteq> [] then
                       ReportCorruption (length scratch) (ascii ''partial record without end(2)'') r else r)
           in Inr (True, fragment, offset, r2)
         else if record_type = kMiddleType then
           if \<not> in_frag then Inr (in_frag, scratch, prospective,
               ReportCorruption (length fragment) (ascii ''missing start of fragmented record(1)'') r)
           else Inr (in_frag, scratch @ fragment, prospective, r)
         else if record_type = kLastType then
           if \<not> in_frag then Inr (in_frag, scratch, prospective,
               ReportCorruption (length fragment) (ascii ''missing start of fragmented record(2)'') r)
           else Inl (Some (scratch @ fragment), scratch @ fragment, r\<lparr>r_last_record_offset := prospective\<rparr>)
         else if record_type = kEof then Inl (None, if in_frag then [] else scratch, r)
         else if record_type = kBadRecord then
           if in_frag then Inr (False, [], prospective,
               ReportCorruption (length scratch) (ascii ''error in middle of record'') r)
           else Inr (in_frag, scratch, prospective, r)
         else Inr (False, [], prospective,
             ReportCorruption (length fragment + (if in_frag then length scratch else 0))
               (snprintf 40 (ascii ''unknown record type '' @ print_llu (unat record_type))) r))"

partial_function (option) ReadRecord_loop ::
  "'f SequentialFile \<Rightarrow> bool \<Rightarrow> slice \<Rightarrow> u64 \<Rightarrow> slice \<Rightarrow> Reader \<Rightarrow> 'f \<Rightarrow> (slice option \<times> slice \<times> Reader \<times> 'f) option" where
  "ReadRecord_loop file in_frag scratch prospective fragment0 r0 f0 = do {
     (record_type, fragment, r1, f) \<leftarrow> ReadPhysicalRecord file fragment0 r0 f0;
     case record_step in_frag scratch prospective record_type fragment r1 of
       Inl (res, scr, r) \<Rightarrow> Some (res, scr, r, f)
     | Inr (in_frag1, scr, pro, r) \<Rightarrow> ReadRecord_loop file in_frag1 scr pro fragment r f }"

text \<open>\<open>ReadRecord\<close>: the record (\<open>None\<close> is the result \<open>false\<close>) and the scratch string.\<close>

definition ReadRecord :: "'f SequentialFile \<Rightarrow> Reader \<Rightarrow> 'f \<Rightarrow> (slice option \<times> slice \<times> Reader \<times> 'f) option" where
  "ReadRecord file r f =
     (if r_last_record_offset r < r_initial_offset r then
        let (ok, r1, f1) = SkipToInitialBlock file r f in
        if \<not> ok then Some (None, [], r1, f1) else ReadRecord_loop file False [] 0 [] r1 f1
      else ReadRecord_loop file False [] 0 [] r f)"

definition LastRecordOffset :: "Reader \<Rightarrow> u64" where
  "LastRecordOffset r = r_last_record_offset r"

subsection \<open>Termination on every file\<close>

lemma Report_simps [simp]:
  "r_buffer (ReportDrop n s r) = r_buffer r" "r_buffer (ReportCorruption k m r) = r_buffer r"
  "r_eof (ReportDrop n s r) = r_eof r" "r_eof (ReportCorruption k m r) = r_eof r"
  by (simp_all add: ReportDrop_def ReportCorruption_def)

lemma kEof_neq: "kEof \<noteq> kFullType" "kEof \<noteq> kFirstType" "kEof \<noteq> kMiddleType" "kEof \<noteq> kLastType" "kEof \<noteq> kBadRecord"
  "kFullType \<noteq> kEof" "kFirstType \<noteq> kEof" "kMiddleType \<noteq> kEof" "kLastType \<noteq> kEof" "kBadRecord \<noteq> kEof"
  by (simp_all add: kEof_def kMaxRecordType_def kLastType_def kFullType_def kFirstType_def kMiddleType_def kBadRecord_def)

definition hdr_crc_ok :: "slice \<Rightarrow> bool" where
  "hdr_crc_ok header \<longleftrightarrow>
     crc_spec 0 (take (1 + hdr_length header) (drop 6 header)) = crc_Unmask (the (DecodeFixed32 header))"

lemma parse_fragment_eq:
  assumes "kHeaderSize \<le> length (r_buffer r)"
  shows "parse_fragment result r =
    (let len = hdr_length (r_buffer r); r0 = r\<lparr>r_buffer := []\<rparr>;
         r1 = r\<lparr>r_buffer := drop (kHeaderSize + len) (r_buffer r)\<rparr>
     in if kHeaderSize + len > length (r_buffer r) then
          Some (if \<not> r_eof r then (kBadRecord, result, ReportCorruption (length (r_buffer r)) (ascii ''bad record length'') r0)
                else (kEof, result, r0))
        else if hdr_type (r_buffer r) = kZeroType \<and> len = 0 then Some (kBadRecord, result, r0)
        else if r_checksum r \<and> \<not> hdr_crc_ok (r_buffer r) then
          Some (kBadRecord, result, ReportCorruption (length (r_buffer r)) (ascii ''checksum mismatch'') r0)
        else if fragment_offset r1 len < r_initial_offset r then Some (kBadRecord, [], r1)
        else Some (hdr_type (r_buffer r), take len (drop kHeaderSize (r_buffer r)), r1))"
proof -
  obtain x where "DecodeFixed32 (r_buffer r) = Some x"
    using assms by (simp add: DecodeFixed32_def kHeaderSize_def)
  then show ?thesis
    by (cases "r_checksum r")
      (simp_all add: parse_fragment_def Let_def crc32c_Value_def Extend_eq remove_prefix_def hdr_crc_ok_def
        not_less, auto)
qed

lemma parse_fragment_total:
  assumes "kHeaderSize \<le> length (r_buffer r)"
  shows "\<exists>type res r1. parse_fragment result r = Some (type, res, r1) \<and> length (r_buffer r1) < length (r_buffer r)"
proof -
  have ne: "r_buffer r \<noteq> []" "0 < kHeaderSize" using assms by (auto simp: kHeaderSize_def)
  show ?thesis
    unfolding parse_fragment_eq [OF assms] Let_def using ne
    by (simp split: if_split)
qed

lemma record_step_Inr:
  "record_step in_frag scratch pro type fr r = Inr (b, s, p, q) \<Longrightarrow> type \<noteq> kEof \<and> r_buffer q = r_buffer r"
  unfolding record_step_def Let_def by (auto simp: kEof_neq split: if_splits)

context sequential_file
begin

definition rd_size :: "Reader \<Rightarrow> 'f \<Rightarrow> nat" where
  "rd_size r f = length (r_buffer r) + length (remaining f)"

definition rd_fin :: "(u32 \<times> slice \<times> Reader \<times> 'f) option \<Rightarrow> nat \<Rightarrow> bool" where
  "rd_fin x n \<longleftrightarrow> (\<exists>type res r f. x = Some (type, res, r, f) \<and> (type \<noteq> kEof \<longrightarrow> rd_size r f < n))"

lemma ReadPhysical_full:
  assumes "kHeaderSize \<le> length (r_buffer r)"
  shows "rd_fin (ReadPhysicalRecord sops result r f) (rd_size r f)"
  using parse_fragment_total [OF assms, of result] assms
  by (subst ReadPhysicalRecord.simps) (auto simp: rd_fin_def rd_size_def)

lemma ReadPhysical_eof: "r_eof r \<Longrightarrow> rd_fin (ReadPhysicalRecord sops result r f) (rd_size r f)"
  using ReadPhysical_full [of r result f]
  by (cases "length (r_buffer r) < kHeaderSize") (subst ReadPhysicalRecord.simps, auto simp: rd_fin_def)

lemma rd_fin_mono: "rd_fin x m \<Longrightarrow> m \<le> n \<Longrightarrow> rd_fin x n"
  by (fastforce simp: rd_fin_def)

lemma ReadPhysical_total: "rd_fin (ReadPhysicalRecord sops result r f) (rd_size r f)"
proof (cases "length (r_buffer r) < kHeaderSize \<and> \<not> r_eof r")
  case True
  obtain s bs f1 where rd: "sf_Read sops kBlockSize f = (s, bs, f1)" by (metis prod_cases3)
  note less = read_less [OF rd]
  define r1 where "r1 = r\<lparr>r_buffer := bs, r_end_of_buffer_offset := r_end_of_buffer_offset r + word_of_nat (length bs)\<rparr>"
  let ?r2 = "if length bs < kBlockSize then r1\<lparr>r_eof := True\<rparr> else r1"
  have "rd_fin (ReadPhysicalRecord sops result ?r2 f1) (rd_size ?r2 f1)"
    by (cases "length bs < kBlockSize")
      (simp_all add: ReadPhysical_eof ReadPhysical_full r1_def kBlockSize_def kHeaderSize_def)
  moreover have "rd_size ?r2 f1 \<le> rd_size r f" using less by (auto simp: rd_size_def r1_def)
  ultimately have "rd_fin (ReadPhysicalRecord sops result ?r2 f1) (rd_size r f)" by (rule rd_fin_mono)
  then show ?thesis
    using True rd by (subst ReadPhysicalRecord.simps) (simp add: r1_def [symmetric] rd_fin_def)
qed (use ReadPhysical_eof ReadPhysical_full in auto)

lemma ReadRecord_loop_total: "\<exists>x. ReadRecord_loop sops in_frag scratch pro fr r f = Some x"
proof (induction "rd_size r f" arbitrary: in_frag scratch pro fr r f rule: less_induct)
  case less
  obtain type res r1 f1 where rp: "ReadPhysicalRecord sops fr r f = Some (type, res, r1, f1)"
    and dec: "type \<noteq> kEof \<longrightarrow> rd_size r1 f1 < rd_size r f"
    using ReadPhysical_total [of fr r f] by (auto simp: rd_fin_def)
  show ?case
  proof (cases "record_step in_frag scratch pro type res r1")
    case (Inl x)
    then show ?thesis by (subst ReadRecord_loop.simps) (auto simp: rp split: prod.splits)
  next
    case (Inr x)
    obtain b s p q where x: "x = (b, s, p, q)" by (cases x)
    from record_step_Inr [OF Inr [unfolded x]] have "rd_size q f1 < rd_size r f"
      using dec by (simp add: rd_size_def)
    from less [OF this, of b s p res] show ?thesis
      by (subst ReadRecord_loop.simps) (simp add: rp Inr x)
  qed
qed

lemma ReadRecord_total: "\<exists>x. ReadRecord sops r f = Some x"
  using ReadRecord_loop_total by (auto simp: ReadRecord_def Let_def split_beta)

end

end
