(* ===== verification/Ldb_LogRoundtrip.thy ===== *)
theory Ldb_LogRoundtrip
  imports Ldb_LogReader
begin

text \<open>
  What the log reader returns on a log that the log writer wrote, complete or cut off at any byte, and
  on arbitrary files.
\<close>

subsection \<open>Headers of written fragments\<close>

lemma scast_and_255: "(scast (b :: byte) :: u32) AND 0xff = ucast b"
proof (rule bit_word_eqI)
  fix n assume "n < LENGTH(32)"
  then show "bit ((scast b :: u32) AND 0xff) n = bit (ucast b :: u32) n"
    by (cases "n < 8") (auto simp: bit_simps bit_255 min_absorb2 dest: bit_imp_le_length)
qed

lemma hdr_length_bytes:
  assumes "header ! 4 = word_of_nat (n mod 256)" and "header ! 5 = word_of_nat (n div 256)" and "n < 2 ^ 16"
  shows "hdr_length header = n"
proof -
  have a: "unat (ucast (word_of_nat (n mod 256) :: byte) :: u32) = n mod 256"
    by (simp add: unsigned_ucast_eq unat_of_nat take_bit_eq_mod)
  have b: "unat (ucast (word_of_nat (n div 256) :: byte) :: u32) = n div 256"
    using assms(3) by (simp add: unsigned_ucast_eq unat_of_nat take_bit_eq_mod)
  let ?a = "ucast (word_of_nat (n mod 256) :: byte) :: u32" and ?b = "ucast (word_of_nat (n div 256) :: byte) :: u32"
  have "?a AND push_bit 8 ?b = 0" by (rule bit_word_eqI) (auto simp: bit_simps dest: bit_imp_le_length)
  then have "?a OR push_bit 8 ?b = ?a + push_bit 8 ?b" by (simp add: disjunctive_add_eq_or)
  moreover have "unat (push_bit 8 ?b) = 256 * (n div 256)"
  proof -
    have "push_bit 8 ?b = ?b * 256" by (simp add: push_bit_eq_mult)
    moreover have "n div 256 * 256 < 2 ^ 32" using assms(3) by simp
    ultimately show ?thesis using unat_word_ariths(2) [of ?b 256] unfolding b by (simp add: mult.commute)
  qed
  ultimately show ?thesis
    using a assms(3) by (simp add: hdr_length_def assms(1,2) scast_and_255 Let_def unat_word_ariths(1))
qed

lemma phys_nth:
  "(phys t d @ rest) ! 4 = word_of_nat (length d mod 256)"
  "(phys t d @ rest) ! 5 = word_of_nat (length d div 256)" "(phys t d @ rest) ! 6 = ucast t"
  by (simp_all add: phys_def nth_append)

lemma hdr_length_phys: "length d < 2 ^ 16 \<Longrightarrow> hdr_length (phys t d @ rest) = length d"
  by (rule hdr_length_bytes) (simp_all add: phys_nth)

lemma hdr_type_phys: "unat t < 5 \<Longrightarrow> hdr_type (phys t d @ rest) = t"
proof -
  assume t: "unat t < 5"
  then have "t = 0 \<or> t = 1 \<or> t = 2 \<or> t = 3 \<or> t = 4"
    by (auto simp: word_unat_eq_iff)
  then show ?thesis unfolding hdr_type_def phys_nth by auto
qed

lemma hdr_crc_ok_phys: "length d < 2 ^ 16 \<Longrightarrow> hdr_crc_ok (phys t d @ rest)"
  by (simp add: hdr_crc_ok_def hdr_length_phys) (simp add: phys_def crc_Unmask_Mask kHeaderSize_def)

lemma drop_header_phys: "drop kHeaderSize (phys t d) = d"
  by (simp add: phys_def kHeaderSize_def)

lemma drop_phys: "drop (kHeaderSize + length d) (phys t d @ rest) = rest"
  "take (length d) (drop kHeaderSize (phys t d @ rest)) = d"
proof -
  have "phys t d @ rest = take kHeaderSize (phys t d) @ d @ rest" "length (take kHeaderSize (phys t d)) = kHeaderSize"
    by (simp_all add: phys_def kHeaderSize_def)
  then obtain h where "phys t d @ rest = h @ d @ rest" "length h = kHeaderSize" by blast
  then show "drop (kHeaderSize + length d) (phys t d @ rest) = rest"
    "take (length d) (drop kHeaderSize (phys t d @ rest)) = d" by simp_all
qed

subsection \<open>Whole logs\<close>

text \<open>The bytes of a sequence of records from the block offset \<open>off\<close>, the loop that writes them and the
  loop that reads until \<open>ReadRecord\<close> returns \<open>false\<close>.\<close>

primrec log_bytes :: "nat \<Rightarrow> slice list \<Rightarrow> byte list" where
  "log_bytes off [] = []"
| "log_bytes off (d # ds) = fst (rec_spec off True d) @ log_bytes (snd (rec_spec off True d)) ds"

primrec write_log :: "'f WritableFile \<Rightarrow> slice list \<Rightarrow> Writer \<Rightarrow> 'f \<Rightarrow> (Writer \<times> 'f) option" where
  "write_log dest [] w f = Some (w, f)"
| "write_log dest (d # ds) w f = do {
     (s, w1, f1) \<leftarrow> AddRecord dest d w f;
     if Status_ok s then write_log dest ds w1 f1 else None }"

partial_function (option) read_log :: "'f SequentialFile \<Rightarrow> Reader \<Rightarrow> 'f \<Rightarrow> (slice list \<times> Reader \<times> 'f) option" where
  "read_log file r f = do {
     (res, _, r1, f1) \<leftarrow> ReadRecord file r f;
     case res of None \<Rightarrow> Some ([], r1, f1)
     | Some d \<Rightarrow> do { (ds, r2, f2) \<leftarrow> read_log file r1 f1; Some (d # ds, r2, f2) } }"

text \<open>\<open>ReadRecord\<close> returns exactly the records \<open>ds\<close> and then \<open>false\<close>, and reports nothing.\<close>

primrec quiet_reads :: "'f SequentialFile \<Rightarrow> slice list \<Rightarrow> Reader \<Rightarrow> 'f \<Rightarrow> bool" where
  "quiet_reads file [] r f \<longleftrightarrow> (\<exists>s r1 f1. ReadRecord file r f = Some (None, s, r1, f1) \<and> r_reported r1 = r_reported r)"
| "quiet_reads file (d # ds) r f \<longleftrightarrow> (\<exists>s r1 f1. ReadRecord file r f = Some (Some d, s, r1, f1) \<and>
     r_reported r1 = r_reported r \<and> quiet_reads file ds r1 f1)"

lemma read_log_quiet:
  "quiet_reads file ds r f \<Longrightarrow> \<exists>r1 f1. read_log file r f = Some (ds, r1, f1) \<and> r_reported r1 = r_reported r"
proof (induction ds arbitrary: r f)
  case (Cons d ds)
  then obtain s r1 f1 where r1: "ReadRecord file r f = Some (Some d, s, r1, f1)"
    "r_reported r1 = r_reported r" "quiet_reads file ds r1 f1" by auto
  then show ?case using Cons.IH [OF r1(3)] by (subst read_log.simps) auto
qed (subst read_log.simps, auto)

lemma log_bytes_wrap: "log_bytes kBlockSize ds = log_bytes 0 ds"
  by (cases ds) (simp_all add: rec_spec_wrap)

context writable_file
begin

lemma write_log_ok:
  assumes "w_type_crc w = type_crcs" and "w_block_offset w \<le> kBlockSize" and "fits f n"
    and "length (log_bytes (w_block_offset w) ds) \<le> n" and "durable f = contents f"
  shows "\<exists>w' f'. write_log ops ds w f = Some (w', f') \<and> contents f' = contents f @ log_bytes (w_block_offset w) ds \<and>
    durable f' = contents f'"
  using assms
proof (induction ds arbitrary: w f n)
  case (Cons d ds)
  let ?s = "rec_spec (w_block_offset w) True d" and ?w = "w\<lparr>w_block_offset := snd (rec_spec (w_block_offset w) True d)\<rparr>"
  have "length (fst ?s) \<le> n" using Cons.prems(4) by simp
  from AddRecord_loop_ok [OF Cons.prems(1-3) this] obtain f1 where
    f1: "AddRecord ops d w f = Some (Status_OK, ?w, f1)" "contents f1 = contents f @ fst ?s" "durable f1 = contents f1"
    "fits f1 (n - length (fst ?s))" by (auto simp: AddRecord_def)
  have "snd ?s \<le> kBlockSize" using rec_spec_off Cons.prems(2) by simp
  then show ?case using Cons.IH [of ?w f1 "n - length (fst ?s)"] Cons.prems f1 by auto
qed auto

end

subsection \<open>Positions in a log\<close>

context sequential_file
begin

text \<open>The reader stands at the block offset \<open>off\<close> and \<open>rest\<close> is all it has not consumed.\<close>

definition rd_at :: "Reader \<Rightarrow> 'f \<Rightarrow> nat \<Rightarrow> byte list \<Rightarrow> bool" where
  "rd_at r f off rest \<longleftrightarrow> healthy f \<and> r_initial_offset r = 0 \<and> \<not> r_resyncing r \<and> off \<le> kBlockSize \<and>
     rest = r_buffer r @ remaining f \<and>
     (if r_eof r then remaining f = [] \<and> length rest < kBlockSize - off else length (r_buffer r) = kBlockSize - off)"

lemma rd_at_eof:
  "rd_at r f off rest \<Longrightarrow> r_eof r \<Longrightarrow> r_buffer r = rest \<and> length rest < kBlockSize - off"
  by (auto simp: rd_at_def)

lemma rd_at_new: "healthy f \<Longrightarrow> rd_at (Reader_new rep chk 0) f kBlockSize (remaining f)"
  by (simp add: rd_at_def Reader_new_def)

lemma rd_at_refill:
  assumes "rd_at r f off rest" and "kBlockSize - off < kHeaderSize" and "\<not> r_eof r"
  shows "\<exists>r1 f1. ReadPhysicalRecord sops res r f = ReadPhysicalRecord sops res r1 f1 \<and>
    rd_at r1 f1 0 (drop (kBlockSize - off) rest) \<and> r_reported r1 = r_reported r"
proof -
  obtain f1 where rd: "sf_Read sops kBlockSize f = (Status_OK, take kBlockSize (remaining f), f1)"
    and f1: "remaining f1 = drop kBlockSize (remaining f)" "healthy f1"
    using read [of f kBlockSize] assms(1) by (auto simp: rd_at_def)
  let ?b = "take kBlockSize (remaining f)"
  let ?r = "r\<lparr>r_buffer := ?b, r_end_of_buffer_offset := r_end_of_buffer_offset r + word_of_nat (length ?b)\<rparr>"
  let ?r1 = "if length ?b < kBlockSize then ?r\<lparr>r_eof := True\<rparr> else ?r"
  have "ReadPhysicalRecord sops res r f = ReadPhysicalRecord sops res ?r1 f1"
    using assms rd by (subst ReadPhysicalRecord.simps) (simp add: rd_at_def Let_def)
  moreover have "rd_at ?r1 f1 0 (drop (kBlockSize - off) rest)"
    using assms f1 by (auto simp: rd_at_def)
  moreover have "r_reported ?r1 = r_reported r" by simp
  ultimately show ?thesis by blast
qed

lemma rd_at_phys:
  assumes "rd_at r f off (phys t d @ rest)" and "off + kHeaderSize + length d \<le> kBlockSize" and "unat t \<in> {1..4}"
  shows "\<exists>r1. ReadPhysicalRecord sops res r f = Some (t, d, r1, f) \<and> rd_at r1 f (off + kHeaderSize + length d) rest \<and>
    r_reported r1 = r_reported r"
proof -
  have d: "length d < 2 ^ 16" using assms(2) by (simp add: kBlockSize_def)
  have len: "kHeaderSize + length d \<le> length (r_buffer r)"
    using assms(1,2) length_phys [of t d] by (auto simp: rd_at_def split: if_splits dest: arg_cong [of _ _ length])
  then obtain buf where buf: "r_buffer r = phys t d @ buf"
  proof -
    have "phys t d @ rest = r_buffer r @ remaining f" using assms(1) by (simp add: rd_at_def)
    then obtain us where "phys t d @ us = r_buffer r \<or> phys t d = r_buffer r @ us"
      unfolding append_eq_append_conv2 by auto
    moreover have "us = []" if "phys t d = r_buffer r @ us"
    proof -
      have "length us = 0" using len length_phys [of t d] unfolding that length_append by linarith
      then show ?thesis by simp
    qed
    ultimately have "phys t d @ us = r_buffer r" by auto
    then show ?thesis using that [of us] by simp
  qed
  have t: "hdr_type (phys t d @ buf) = t" "t \<noteq> kZeroType"
    using assms(3) by (auto simp: hdr_type_phys kZeroType_def)
  let ?r1 = "r\<lparr>r_buffer := buf\<rparr>"
  have "parse_fragment res r = Some (t, d, ?r1)"
    using assms(1) len d t
    by (simp add: parse_fragment_eq buf Let_def hdr_length_phys hdr_crc_ok_phys drop_phys drop_header_phys rd_at_def)
  then have "ReadPhysicalRecord sops res r f = Some (t, d, ?r1, f)"
    using len by (subst ReadPhysicalRecord.simps) simp
  moreover have "rd_at ?r1 f (off + kHeaderSize + length d) rest"
    using assms(1,2) by (auto simp: rd_at_def buf)
  ultimately show ?thesis by auto
qed

lemma rd_at_cut:
  assumes "rd_at r f off (take k (phys t d))" and "off + kHeaderSize + length d \<le> kBlockSize"
    and "k < kHeaderSize + length d"
  shows "\<exists>r1. ReadPhysicalRecord sops res r f = Some (kEof, res, r1, f) \<and> r_reported r1 = r_reported r \<and> \<not> r_resyncing r1"
proof -
  have d: "length d < 2 ^ 16" using assms(2) by (simp add: kBlockSize_def)
  have eof: "r_eof r" "r_buffer r = take k (phys t d)"
    using assms by (auto simp: rd_at_def split: if_splits dest!: arg_cong [of _ _ length])
  show ?thesis
  proof (cases "k < kHeaderSize")
    case True
    then show ?thesis using eof assms(1) by (subst ReadPhysicalRecord.simps) (simp add: rd_at_def)
  next
    case False
    then have "4 < k" "5 < k" by (simp_all add: kHeaderSize_def)
    then have "hdr_length (r_buffer r) = length d"
      using d phys_nth [of t d "[]"] by (intro hdr_length_bytes) (simp_all add: eof)
    then have "parse_fragment res r = Some (kEof, res, r\<lparr>r_buffer := []\<rparr>)"
      using eof False assms(3) by (simp add: parse_fragment_eq Let_def)
    then show ?thesis using eof False assms by (subst ReadPhysicalRecord.simps) (simp add: rd_at_def)
  qed
qed

text \<open>The next fragment of a log, behind the zeros that fill a block.\<close>

lemma rd_at_fragment:
  assumes "rd_at r f off (replicate (blk_pad off) 0 @ phys t d @ rest)" and "length d \<le> blk_avail off"
    and "unat t \<in> {1..4}"
  shows "\<exists>r1 f1. ReadPhysicalRecord sops res r f = Some (t, d, r1, f1) \<and>
    rd_at r1 f1 (blk_start off + kHeaderSize + length d) rest \<and> r_reported r1 = r_reported r"
proof -
  have off: "off \<le> kBlockSize" using assms(1) by (simp add: rd_at_def)
  have fit: "blk_start off + kHeaderSize + length d \<le> kBlockSize" using blk_bounds(1) [OF off] assms(2) by simp
  show ?thesis
  proof (cases "kBlockSize - off < kHeaderSize")
    case True
    then have pad: "blk_pad off = kBlockSize - off" "blk_start off = 0" by (simp_all add: blk_pad_def blk_start_def)
    have "\<not> r_eof r" using rd_at_eof [OF assms(1)] pad by auto
    from rd_at_refill [OF assms(1) True this, of res] obtain r1 f1 where
      r1: "ReadPhysicalRecord sops res r f = ReadPhysicalRecord sops res r1 f1"
      "rd_at r1 f1 0 (phys t d @ rest)" "r_reported r1 = r_reported r" by (auto simp: pad)
    then show ?thesis using rd_at_phys [OF r1(2) _ assms(3), of res] fit pad by auto
  next
    case False
    then show ?thesis
      using rd_at_phys [of r f off t d rest res] assms fit by (auto simp: blk_pad_def blk_start_def)
  qed
qed

lemma rd_at_fragment_cut:
  assumes "rd_at r f off (take k (replicate (blk_pad off) 0 @ phys t d))" and "length d \<le> blk_avail off"
    and "k < blk_pad off + kHeaderSize + length d"
  shows "\<exists>r1 f1. ReadPhysicalRecord sops res r f = Some (kEof, res, r1, f1) \<and>
    r_reported r1 = r_reported r \<and> \<not> r_resyncing r1"
proof -
  have off: "off \<le> kBlockSize" using assms(1) by (simp add: rd_at_def)
  have fit: "blk_start off + kHeaderSize + length d \<le> kBlockSize" using blk_bounds(1) [OF off] assms(2) by simp
  consider "r_eof r" "kBlockSize - off < kHeaderSize" | "\<not> r_eof r" "kBlockSize - off < kHeaderSize"
    | "kHeaderSize \<le> kBlockSize - off" by linarith
  then show ?thesis
  proof cases
    case 1
    then have "length (r_buffer r) < kHeaderSize" using rd_at_eof [OF assms(1)] by simp
    then show ?thesis using 1 assms(1) by (subst ReadPhysicalRecord.simps) (simp add: rd_at_def)
  next
    case 2
    then have pad: "blk_pad off = kBlockSize - off" "blk_start off = 0" by (simp_all add: blk_pad_def blk_start_def)
    have "drop (kBlockSize - off) (take k (replicate (blk_pad off) 0 @ phys t d)) = take (k - blk_pad off) (phys t d)"
      unfolding drop_take by (simp add: pad)
    with rd_at_refill [OF assms(1) 2(2,1), of res] obtain r1 f1 where
      r1: "ReadPhysicalRecord sops res r f = ReadPhysicalRecord sops res r1 f1"
      "rd_at r1 f1 0 (take (k - blk_pad off) (phys t d))" "r_reported r1 = r_reported r"
      by auto
    moreover have "k - blk_pad off < kHeaderSize + length d" using assms(3) by (simp add: kHeaderSize_def less_diff_conv2)
    ultimately show ?thesis using rd_at_cut [OF r1(2), of res] fit pad by auto
  next
    case 3
    then show ?thesis
      using rd_at_cut [of r f off k t d res] assms fit by (auto simp: blk_pad_def blk_start_def)
  qed
qed

text \<open>A written record is read back.\<close>

lemma record_step_frag:
  assumes "\<not> r_resyncing r"
  shows "record_step False s p kFullType d r = Inl (Some d, [], r\<lparr>r_last_record_offset := fragment_offset r (length d)\<rparr>)"
    and "record_step False s p kFirstType d r = Inr (True, d, fragment_offset r (length d), r)"
    and "record_step True s p kMiddleType d r = Inr (True, s @ d, p, r)"
    and "record_step True s p kLastType d r = Inl (Some (s @ d), s @ d, r\<lparr>r_last_record_offset := p\<rparr>)"
    and "record_step b s p kEof d r = Inl (None, if b then [] else s, r)"
  using assms
  by (simp_all add: record_step_def Let_def kFullType_def kFirstType_def kMiddleType_def kLastType_def
      kEof_def kMaxRecordType_def)

lemma ReadRecord_loop_record:
  assumes "rd_at r f off (fst (rec_spec off bgn d) @ rest)"
  shows "\<exists>s r1 f1. ReadRecord_loop sops (\<not> bgn) acc p fr r f = Some (Some ((if bgn then [] else acc) @ d), s, r1, f1) \<and>
    rd_at r1 f1 (snd (rec_spec off bgn d)) rest \<and> r_reported r1 = r_reported r"
  using assms
proof (induction off bgn d arbitrary: acc p fr r f rule: rec_spec.induct)
  case (1 off bgn d)
  let ?n = "blk_avail off"
  show ?case
  proof (cases "length d \<le> ?n")
    case True
    note one = rec_spec_one [OF True, of bgn]
    have "rd_at r f off (replicate (blk_pad off) 0 @ phys (fragment_type bgn True) d @ rest)"
      using 1(2) one by simp
    from rd_at_fragment [OF this True fragment_type_range, of fr] obtain r1 f1 where
      r1: "ReadPhysicalRecord sops fr r f = Some (fragment_type bgn True, d, r1, f1)"
      "rd_at r1 f1 (blk_start off + kHeaderSize + length d) rest" "r_reported r1 = r_reported r" by blast
    have nr: "\<not> r_resyncing r1" using r1(2) by (simp add: rd_at_def)
    have "rd_at (r1\<lparr>r_last_record_offset := x\<rparr>) f1 (blk_start off + kHeaderSize + length d) rest" for x
      using r1(2) by (auto simp: rd_at_def)
    then show ?thesis
      using r1(3) one
      by (subst ReadRecord_loop.simps)
        (cases bgn, auto simp: r1(1) fragment_type_def record_step_frag [OF nr])
  next
    case False
    let ?o = "blk_start off + kHeaderSize + ?n"
    have more: "rec_spec off bgn d = (replicate (blk_pad off) 0 @ phys (fragment_type bgn False) (take ?n d) @
        fst (rec_spec ?o False (drop ?n d)), snd (rec_spec ?o False (drop ?n d)))"
      using False rec_spec_more [of off d bgn] by (simp add: split_beta)
    have avail: "length (take ?n d) \<le> blk_avail off" "length (take ?n d) = ?n" "min (length d) ?n = ?n"
      using False by simp_all
    have "rd_at r f off (replicate (blk_pad off) 0 @ phys (fragment_type bgn False) (take ?n d) @
        fst (rec_spec ?o False (drop ?n d)) @ rest)"
      using 1(2) more by simp
    from rd_at_fragment [OF this avail(1) fragment_type_range, of fr] obtain r1 f1 where
      r1: "ReadPhysicalRecord sops fr r f = Some (fragment_type bgn False, take ?n d, r1, f1)"
      "rd_at r1 f1 ?o (fst (rec_spec ?o False (drop ?n d)) @ rest)" "r_reported r1 = r_reported r"
      unfolding avail(2) by blast
    have nr: "\<not> r_resyncing r1" using r1(2) by (simp add: rd_at_def)
    note IH = 1(1) [OF refl refl refl, unfolded avail(3), OF _ r1(2)]
    show ?thesis
    proof (cases bgn)
      case True
      then show ?thesis
        using IH [of "take ?n d" "fragment_offset r1 (length (take ?n d))" "take ?n d"] r1(1,3) more \<open>\<not> length d \<le> ?n\<close>
        by (subst ReadRecord_loop.simps) (simp add: fragment_type_def record_step_frag(2) [OF nr])
    next
      case False
      then show ?thesis
        using IH [of "acc @ take ?n d" p "take ?n d"] r1(1,3) more \<open>\<not> length d \<le> ?n\<close>
        by (subst ReadRecord_loop.simps) (simp add: fragment_type_def record_step_frag(3) [OF nr])
    qed
  qed
qed

text \<open>A record that is cut off reads as the end of the log, and nothing is reported.\<close>

lemma ReadRecord_loop_cut:
  assumes "rd_at r f off (take k (fst (rec_spec off bgn d)))" and "k < length (fst (rec_spec off bgn d))"
  shows "\<exists>s r1 f1. ReadRecord_loop sops (\<not> bgn) acc p fr r f = Some (None, s, r1, f1) \<and> r_reported r1 = r_reported r"
  using assms
proof (induction off bgn d arbitrary: k acc p fr r f rule: rec_spec.induct)
  case (1 off bgn d)
  let ?n = "min (length d) (blk_avail off)"
  let ?t = "fragment_type bgn (length d \<le> blk_avail off)"
  let ?p = "replicate (blk_pad off) 0 @ phys ?t (take ?n d)" and ?o = "blk_start off + kHeaderSize + ?n"
  have spec: "fst (rec_spec off bgn d) = ?p @
      (if length d \<le> blk_avail off then [] else fst (rec_spec ?o False (drop ?n d)))"
    using rec_spec_one [of d off bgn] rec_spec_more [of off d bgn] by (auto simp: min_def split_beta)
  show ?case
  proof (cases "k < length ?p")
    case True
    then have "rd_at r f off (take k ?p)" "k < blk_pad off + kHeaderSize + length (take ?n d)"
      using 1(2) by (simp_all add: spec)
    from rd_at_fragment_cut [OF this(1) _ this(2), of fr] obtain r1 f1 where
      r1: "ReadPhysicalRecord sops fr r f = Some (kEof, fr, r1, f1)" "r_reported r1 = r_reported r" "\<not> r_resyncing r1"
      by auto
    then show ?thesis
      by (subst ReadRecord_loop.simps) (simp add: record_step_frag(5))
  next
    case False
    then have more: "blk_avail off < length d" using 1(3) by (auto simp: spec split: if_splits)
    then have n: "?n = blk_avail off" by simp
    let ?q = "fst (rec_spec ?o False (drop ?n d))"
    have q: "rd_at r f off (replicate (blk_pad off) 0 @ phys ?t (take ?n d) @ take (k - length ?p) ?q)"
      "k - length ?p < length ?q"
      using 1(2,3) False more unfolding spec by (auto simp: take_append)
    have "length (take ?n d) \<le> blk_avail off" by simp
    from rd_at_fragment [OF q(1) this fragment_type_range, of fr] obtain r1 f1 where
      r1: "ReadPhysicalRecord sops fr r f = Some (?t, take ?n d, r1, f1)"
      "rd_at r1 f1 ?o (take (k - length ?p) ?q)" "r_reported r1 = r_reported r" by auto
    have nr: "\<not> r_resyncing r1" using r1(2) by (simp add: rd_at_def)
    have t: "?t = (if bgn then kFirstType else kMiddleType)" using more by (simp add: fragment_type_def)
    have "length d \<noteq> ?n" using more by simp
    note IH = 1(1) [OF refl refl refl this r1(2) q(2)]
    show ?thesis
      using IH [of "take ?n d" "fragment_offset r1 (length (take ?n d))" "take ?n d"]
        IH [of "acc @ take ?n d" p "take ?n d"] r1(3)
      by (subst ReadRecord_loop.simps)
        (cases bgn, simp_all add: r1(1) [unfolded t] record_step_frag(2,3) [OF nr])
  qed
qed

lemma ReadRecord_at: "rd_at r f off rest \<Longrightarrow> ReadRecord sops r f = ReadRecord_loop sops False [] 0 [] r f"
  by (simp add: ReadRecord_def rd_at_def)

lemma quiet_reads_cut:
  assumes "rd_at r f off (take k (log_bytes off ds))"
  shows "\<exists>j. quiet_reads sops (take j ds) r f \<and>
    length (log_bytes off (take j ds)) \<le> k \<and> (j < length ds \<longrightarrow> k < length (log_bytes off (take (Suc j) ds)))"
  using assms
proof (induction ds arbitrary: off k r f)
  case Nil
  have "rd_at r f off (take 0 (fst (rec_spec off True [])))" "0 < length (fst (rec_spec off True []))"
    using Nil rec_spec_one [of "[]" off True] by (simp_all add: kHeaderSize_def)
  from ReadRecord_loop_cut [OF this, of "[]" 0 "[]"] show ?case using ReadRecord_at [OF Nil] by auto
next
  case (Cons d ds)
  let ?b = "fst (rec_spec off True d)" and ?o = "snd (rec_spec off True d)"
  show ?case
  proof (cases "k < length ?b")
    case True
    then have "rd_at r f off (take k ?b)" using Cons.prems by simp
    from ReadRecord_loop_cut [OF this True, of "[]" 0 "[]"] have "quiet_reads sops (take 0 (d # ds)) r f"
      using ReadRecord_at [OF Cons.prems] by auto
    then show ?thesis using True by (intro exI [of _ 0]) auto
  next
    case False
    then have "rd_at r f off (?b @ take (k - length ?b) (log_bytes ?o ds))" using Cons.prems by simp
    from ReadRecord_loop_record [OF this, of "[]" 0 "[]"] obtain s r1 f1 where
      r1: "ReadRecord sops r f = Some (Some d, s, r1, f1)" "rd_at r1 f1 ?o (take (k - length ?b) (log_bytes ?o ds))"
      "r_reported r1 = r_reported r" using ReadRecord_at [OF Cons.prems] by auto
    from Cons.IH [OF r1(2)] obtain j where j: "quiet_reads sops (take j ds) r1 f1"
      "length (log_bytes ?o (take j ds)) \<le> k - length ?b"
      "j < length ds \<longrightarrow> k - length ?b < length (log_bytes ?o (take (Suc j) ds))" by blast
    have "quiet_reads sops (take (Suc j) (d # ds)) r f" using r1(1,3) j(1) by auto
    moreover have "length (log_bytes off (take (Suc j) (d # ds))) \<le> k" using j(2) False by simp
    moreover have "Suc j < length (d # ds) \<longrightarrow> k < length (log_bytes off (take (Suc (Suc j)) (d # ds)))"
      using j(3) False by auto
    ultimately show ?thesis by blast
  qed
qed

end

subsection \<open>Properties\<close>

lemma quiet_reads_log:
  "\<exists>j. quiet_reads (PosixSequentialFile name) (take j ds) (Reader_new rep chk 0) (opened (take k (log_bytes 0 ds))) \<and>
    length (log_bytes 0 (take j ds)) \<le> k \<and> (j < length ds \<longrightarrow> k < length (log_bytes 0 (take (Suc j) ds)))"
  using ps.quiet_reads_cut [of "Reader_new rep chk 0" "opened (take k (log_bytes 0 ds))" kBlockSize k ds name]
    ps.rd_at_new [of "opened (take k (log_bytes 0 ds))" rep chk]
  by (simp add: opened_simps log_bytes_wrap)

text \<open>(C7) A crash loses only the records that were not complete on the device: for every sequence of
  records written to a file with enough room, everything written is on the device, and for every
  prefix of these bytes a reader returns, in order and unchanged, exactly the records whose bytes are
  all in the prefix, then reports the end of the log, and reports no corruption.\<close>

theorem log_survives_crash:
  assumes "length (log_bytes 0 ds) \<le> room"
  shows "\<exists>w w' f. Writer_new = Some w \<and> write_log (PosixWritableFile name) ds w (created room) = Some (w', f) \<and>
    (\<forall>k. \<exists>j r g. read_log (PosixSequentialFile name) (Reader_new True chk 0) (opened (take k (f_data f))) =
        Some (take j ds, r, g) \<and> r_reported r = [] \<and> length (log_bytes 0 (take j ds)) \<le> k \<and>
      (j < length ds \<longrightarrow> k < length (log_bytes 0 (take (Suc j) ds))))"
proof -
  let ?w = "\<lparr>w_block_offset = 0, w_type_crc = type_crcs\<rparr>"
  have w: "Writer_new = Some ?w" by (simp add: Writer_new_def InitTypeCrc_eq)
  obtain w' f where wf: "write_log (PosixWritableFile name) ds ?w (created room) = Some (w', f)"
    "f_data f = log_bytes 0 ds"
    using pw.write_log_ok [of ?w "created room" room ds name] assms by (auto simp: opened_simps kBlockSize_def)
  have "\<exists>j r g. read_log (PosixSequentialFile name) (Reader_new True chk 0) (opened (take k (f_data f))) =
        Some (take j ds, r, g) \<and> r_reported r = [] \<and> length (log_bytes 0 (take j ds)) \<le> k \<and>
      (j < length ds \<longrightarrow> k < length (log_bytes 0 (take (Suc j) ds)))" for k
  proof -
    obtain j where j: "quiet_reads (PosixSequentialFile name) (take j ds) (Reader_new True chk 0) (opened (take k (f_data f)))"
      "length (log_bytes 0 (take j ds)) \<le> k" "j < length ds \<longrightarrow> k < length (log_bytes 0 (take (Suc j) ds))"
      using quiet_reads_log [of name ds True chk k] unfolding wf(2) by blast
    moreover have "r_reported (Reader_new True chk 0) = []" by (simp add: Reader_new_def)
    ultimately show ?thesis using read_log_quiet [OF j(1)] by metis
  qed
  then show ?thesis using w wf(1) by blast
qed

theorem log_survives_crash_witness:
  "\<exists>w w' f. Writer_new = Some w \<and> write_log (PosixWritableFile []) [[1, 2], []] w (created 16) = Some (w', f) \<and>
    (\<forall>k. \<exists>j r g. read_log (PosixSequentialFile []) (Reader_new True True 0) (opened (take k (f_data f))) =
        Some (take j [[1, 2], []], r, g) \<and> r_reported r = [] \<and> length (log_bytes 0 (take j [[1, 2], []])) \<le> k \<and>
      (j < length [[1, 2], [] :: slice] \<longrightarrow> k < length (log_bytes 0 (take (Suc j) [[1, 2], []]))))"
  by (rule log_survives_crash) (simp add: rec_spec_one blk_defs)

text \<open>(C25) Reading terminates on every file: whatever the bytes, whatever initial offset, and also when the
  device fails while reading, \<open>ReadRecord\<close> returns.\<close>

theorem ReadRecord_terminates: "\<exists>x. ReadRecord (PosixSequentialFile name) r (f :: FILE) = Some x"
  by (rule ps.ReadRecord_total)

end
