(* ===== verification/Ldb_LogSpace.thy ===== *)
theory Ldb_LogSpace
  imports Ldb_LogWriter
begin

text \<open>
  The log writer on a device that runs full: \<open>AddRecord\<close> reports success exactly when everything it
  wrote reached the device, although the status of the append that fills the trailer of a block is
  ignored.
\<close>

lemma append_lossy:
  assumes "\<not> file_fits f m" and "length d \<le> m" and "wf_Append (PosixWritableFile name) d f = (s, f')"
  shows "length d < m \<Longrightarrow> \<not> file_fits f' (m - length d)" and "Status_ok s \<Longrightarrow> \<not> file_fits f' (m - length d)"
  using assms
  by (cases d; auto simp: PosixWritableFile_def PosixWritableFile_Append_def fwrite_def write_out_def Let_def
      file_fits_def env_IOError_def min_def split: if_splits)+

lemma flush_lossy: "\<not> file_fits f 0 \<Longrightarrow> \<not> Status_ok (fst (wf_Flush (PosixWritableFile name) f))"
  by (simp add: PosixWritableFile_def PosixWritableFile_Flush_def fflush_def file_fits_def env_IOError_def)

lemma Emit_cases:
  assumes "EmitPhysicalRecord ops t d w f = Some (s, w', f')"
  obtains h s1 f1 s2 f2 where "length h = kHeaderSize" and "wf_Append ops h f = (s1, f1)"
    and "wf_Append ops d f1 = (s2, f2)"
    and "if \<not> Status_ok s1 then s = s1 \<and> f' = f1 else if \<not> Status_ok s2 then s = s2 \<and> f' = f2
      else wf_Flush ops f2 = (s, f')"
proof -
  define h where "h = EncodeFixed32 (crc_Mask (crc_spec (w_type_crc w ! unat t) d)) @
    [ucast ((word_of_nat (length d) :: u64) AND 0xff), ucast (drop_bit 8 (word_of_nat (length d) :: u64)), ucast t]"
  obtain s1 f1 where A: "wf_Append ops h f = (s1, f1)" by fastforce
  obtain s2 f2 where B: "wf_Append ops d f1 = (s2, f2)" by fastforce
  obtain s3 f3 where C: "wf_Flush ops f2 = (s3, f3)" by fastforce
  have "length h = kHeaderSize" by (simp add: h_def kHeaderSize_def)
  moreover have "if \<not> Status_ok s1 then s = s1 \<and> f' = f1 else if \<not> Status_ok s2 then s = s2 \<and> f' = f2
      else wf_Flush ops f2 = (s, f')"
    using assms
    by (simp add: EmitPhysicalRecord_def Let_def Extend_eq h_def [symmetric] A B C split: if_splits)
  ultimately show ?thesis using that A B by blast
qed

lemma Emit_lossy:
  assumes "\<not> file_fits f (kHeaderSize + length d)" and "EmitPhysicalRecord (PosixWritableFile name) t d w f = Some (s, w', f')"
  shows "\<not> Status_ok s"
proof
  assume ok: "Status_ok s"
  from assms(2) show False
  proof (cases rule: Emit_cases)
    case (1 h s1 f1 s2 f2)
    have s: "Status_ok s1" "Status_ok s2" "wf_Flush (PosixWritableFile name) f2 = (s, f')"
      using 1(4) ok by (auto split: if_splits)
    have "\<not> file_fits f1 (length d)" using append_lossy(2) [OF assms(1) _ 1(2) s(1)] 1(1) by simp
    then have "\<not> file_fits f2 0" using append_lossy(2) [OF _ _ 1(3) s(2), of "length d"] by simp
    from flush_lossy [OF this, of name] show False using s(3) ok by simp
  qed
qed

lemma pad_lossy:
  assumes "\<not> file_fits f (blk_pad off + m)" and "0 < m"
  shows "\<not> file_fits (if blk_pad off > 0 then snd (wf_Append (PosixWritableFile name) (replicate (blk_pad off) 0) f) else f) m"
proof (cases "blk_pad off > 0")
  case True
  obtain s f1 where "wf_Append (PosixWritableFile name) (replicate (blk_pad off) 0) f = (s, f1)" by fastforce
  from append_lossy(1) [OF assms(1) _ this] show ?thesis using True assms(2) \<open>wf_Append _ _ _ = _\<close> by simp
qed (use assms(1) in simp)

text \<open>What fits after an append that fits.\<close>

lemma append_exact:
  "file_fits f (length d) \<Longrightarrow> wf_Append (PosixWritableFile name) d f = (s, f') \<Longrightarrow>
   file_fits f' m \<longleftrightarrow> file_fits f (length d + m)"
  by (auto simp: PosixWritableFile_def PosixWritableFile_Append_def fwrite_def write_out_def Let_def file_fits_def
      split: if_splits)

lemma flush_exact:
  "file_fits f 0 \<Longrightarrow> wf_Flush (PosixWritableFile name) f = (s, f') \<Longrightarrow> file_fits f' m \<longleftrightarrow> file_fits f m"
  by (auto simp: PosixWritableFile_def PosixWritableFile_Flush_def fflush_def write_out_def file_fits_def split: if_splits)

lemma Emit_exact:
  assumes "file_fits f (kHeaderSize + length d)" and "EmitPhysicalRecord (PosixWritableFile name) t d w f = Some (s, w', f')"
  shows "file_fits f' m \<longleftrightarrow> file_fits f (kHeaderSize + length d + m)"
  using assms(2)
proof (cases rule: Emit_cases)
  case (1 h s1 f1 s2 f2)
  have fit: "file_fits f n" if "n \<le> kHeaderSize + length d" for n using assms(1) that by (simp add: file_fits_def)
  note e1 = append_exact [OF fit [of "length h"] 1(2)]
  have "file_fits f1 (length d)" using e1 1(1) assms(1) by simp
  note e2 = append_exact [OF this 1(3)]
  have "file_fits f2 0" using e1 e2 1(1) assms(1) by simp
  moreover have "Status_ok s1" "Status_ok s2"
    using pw.append [OF assms(1), of h name] pw.append [OF \<open>file_fits f1 (length d)\<close>, of d name] 1 by auto
  ultimately show ?thesis using flush_exact [of f2 name s f'] 1 e1 e2 by (simp add: add.assoc)
qed

lemma AddRecord_loop_lossy:
  assumes "w_type_crc w = type_crcs" and "w_block_offset w \<le> kBlockSize"
    and "\<not> file_fits f (length (fst (rec_spec (w_block_offset w) bgn d)))"
    and "AddRecord_loop (PosixWritableFile name) bgn d w f = Some (s, w', f')"
  shows "\<not> Status_ok s"
  using assms
proof (induction "w_block_offset w" bgn d arbitrary: w f rule: rec_spec.induct)
  case (1 bgn d)
  let ?ops = "PosixWritableFile name" and ?off = "w_block_offset w"
  let ?k = "min (length d) (blk_avail ?off)"
  let ?t = "fragment_type bgn (length d = ?k)" and ?w1 = "w\<lparr>w_block_offset := blk_start ?off\<rparr>"
  let ?f0 = "if blk_pad ?off > 0 then snd (wf_Append ?ops (replicate (blk_pad ?off) 0) f) else f"
  let ?n = "kHeaderSize + ?k"
  obtain s1 w1 f1 where E: "EmitPhysicalRecord ?ops ?t (take ?k d) ?w1 ?f0 = Some (s1, w1, f1)"
    and rest: "if Status_ok s1 \<and> length d \<noteq> ?k then AddRecord_loop ?ops False (drop ?k d) w1 f1 = Some (s, w', f') else s = s1"
    using 1(5) unfolding AddRecord_loop_step [OF 1(3)] by (fastforce split: bind_splits if_splits)
  show ?case
  proof (cases "file_fits f (blk_pad ?off + ?n)")
    case False
    then have "\<not> file_fits ?f0 ?n" by (rule pad_lossy) (simp add: kHeaderSize_def)
    then have "\<not> Status_ok s1" using Emit_lossy [OF _ E] by simp
    then show ?thesis using rest by simp
  next
    case True
    have spec: "length (fst (rec_spec ?off bgn d)) = blk_pad ?off + ?n +
        (if length d = ?k then 0 else length (fst (rec_spec (blk_start ?off + kHeaderSize + ?k) False (drop ?k d))))"
      by (subst rec_spec.simps) (simp add: Let_def split_beta)
    have more: "length d \<noteq> ?k" using True 1(4) unfolding spec by (simp split: if_splits)
    have fit0: "file_fits ?f0 m \<longleftrightarrow> file_fits f (blk_pad ?off + m)" for m
    proof -
      obtain s0 f0 where a: "wf_Append ?ops (replicate (blk_pad ?off) 0) f = (s0, f0)" by fastforce
      have "file_fits f (length (replicate (blk_pad ?off) (0 :: byte)))" using True by (simp add: file_fits_def)
      from append_exact [OF this a] show ?thesis by (simp add: a)
    qed
    have fit1: "file_fits f1 m \<longleftrightarrow> file_fits f (blk_pad ?off + ?n + m)" for m
      using Emit_exact [OF _ E, of m] fit0 [of ?n] fit0 [of "?n + m"] True by (simp add: add.assoc)
    have "kHeaderSize + length (take ?k d) \<le> ?n" by simp
    from pw.Emit_ok [of ?w1 ?t "take ?k d" ?f0 ?n name, OF _ _ _ _ this] have w1: "w1 = w\<lparr>w_block_offset := blk_start ?off + kHeaderSize + ?k\<rparr>" "Status_ok s1"
      using 1(2) E fit0 True fragment_type_range [of bgn "length d = ?k"] blk_bounds(1) [OF 1(3)]
      by (auto simp: add.assoc)
    have "\<not> file_fits f1 (length (fst (rec_spec (w_block_offset w1) False (drop ?k d))))"
      using 1(4) unfolding spec if_not_P [OF more] fit1 w1(1) by simp
    moreover have "w_block_offset w1 \<le> kBlockSize" using blk_bounds(1) [OF 1(3)] by (simp add: w1(1))
    moreover have "AddRecord_loop ?ops False (drop ?k d) w1 f1 = Some (s, w', f')" using rest w1(2) more by presburger
    moreover have "w_block_offset w1 = blk_start ?off + kHeaderSize + ?k" "w_type_crc w1 = type_crcs"
      using w1(1) 1(2) by simp_all
    ultimately show ?thesis using 1(1) [OF refl refl _ more, of w1 f1] by blast
  qed
qed

text \<open>The loop returns whatever the file does.\<close>

lemma Emit_total:
  assumes "w_type_crc w = type_crcs" and "unat t < 5" and "w_block_offset w + kHeaderSize + length d \<le> kBlockSize"
  shows "\<exists>s f'. EmitPhysicalRecord ops t d w f =
    Some (s, w\<lparr>w_block_offset := w_block_offset w + (kHeaderSize + length d)\<rparr>, f')"
proof -
  have "length d \<le> 65535" using assms(3) by (simp add: kBlockSize_def)
  then show ?thesis
    using assms by (simp add: EmitPhysicalRecord_def Let_def Extend_eq type_crcs_def split_beta)
qed

lemma AddRecord_loop_total:
  assumes "w_type_crc w = type_crcs" and "w_block_offset w \<le> kBlockSize"
  shows "\<exists>s w' f'. AddRecord_loop ops bgn d w f = Some (s, w', f') \<and> w_type_crc w' = type_crcs \<and>
    w_block_offset w' \<le> kBlockSize"
  using assms
proof (induction "w_block_offset w" bgn d arbitrary: w f rule: rec_spec.induct)
  case (1 bgn d)
  let ?k = "min (length d) (blk_avail (w_block_offset w))"
  let ?w2 = "w\<lparr>w_block_offset := blk_start (w_block_offset w) + kHeaderSize + ?k\<rparr>"
  have b: "blk_start (w_block_offset w) + kHeaderSize + ?k \<le> kBlockSize" using blk_bounds(1) [OF 1(3)] by simp
  have "\<exists>s w' f'. AddRecord_loop ops False (drop ?k d) ?w2 f1 = Some (s, w', f') \<and> w_type_crc w' = type_crcs \<and>
      w_block_offset w' \<le> kBlockSize" if "length d \<noteq> ?k" for f1
    by (rule 1(1) [OF refl refl _ that]) (use b 1(2) in simp_all)
  moreover obtain s1 f1 where "EmitPhysicalRecord ops (fragment_type bgn (length d = ?k)) (take ?k d)
      (w\<lparr>w_block_offset := blk_start (w_block_offset w)\<rparr>)
      (if blk_pad (w_block_offset w) > 0 then snd (wf_Append ops (replicate (blk_pad (w_block_offset w)) 0) f) else f) =
      Some (s1, ?w2, f1)"
    using Emit_total [of "w\<lparr>w_block_offset := blk_start (w_block_offset w)\<rparr>"
        "fragment_type bgn (length d = ?k)" "take ?k d"] b 1(2) fragment_type_range [of bgn "length d = ?k"]
    by (fastforce simp: add.assoc)
  ultimately show ?case unfolding AddRecord_loop_step [OF 1(3)] using b 1(2) by auto
qed

subsection \<open>Properties\<close>

text \<open>(C27) Success of \<open>AddRecord\<close> on a device of any size means that the record is on the device: it
  returns a status, the status is OK exactly when the bytes of the record fit, and then the file holds
  exactly these bytes more and none of them is left in a buffer.\<close>

theorem AddRecord_ok_iff_durable:
  assumes "Writer_new = Some w0" and "w = w0\<lparr>w_block_offset := off\<rparr>" and "off \<le> kBlockSize"
  shows "\<exists>s w' f'. AddRecord (PosixWritableFile name) d w f = Some (s, w', f') \<and>
    (Status_ok s \<longleftrightarrow> file_fits f (length (fst (rec_spec off True d)))) \<and>
    (Status_ok s \<longrightarrow> f_data f' = f_data f @ f_buf f @ fst (rec_spec off True d) \<and> f_buf f' = [])"
proof -
  have w: "w_type_crc w = type_crcs" "w_block_offset w = off"
    using assms(1,2) by (auto simp: Writer_new_def InitTypeCrc_eq)
  have lim: "w_block_offset w \<le> kBlockSize" using assms(3) w(2) by simp
  let ?n = "length (fst (rec_spec off True d))"
  show ?thesis
  proof (cases "file_fits f ?n")
    case True
    then show ?thesis
      using pw.AddRecord_loop_ok [OF w(1) lim, of f ?n True d name] w(2) by (auto simp: AddRecord_def file_contents_def)
  next
    case False
    obtain s w' f' where a: "AddRecord_loop (PosixWritableFile name) True d w f = Some (s, w', f')"
      using AddRecord_loop_total [OF w(1) lim, of "PosixWritableFile name" True d f] by blast
    from AddRecord_loop_lossy [OF w(1) lim _ a] show ?thesis
      using False a w(2) by (auto simp: AddRecord_def)
  qed
qed

theorem AddRecord_ok_iff_durable_witness:
  "\<exists>s w' f'. AddRecord (PosixWritableFile []) [1, 2] ((the Writer_new)\<lparr>w_block_offset := 32764\<rparr>) (created 8) = Some (s, w', f') \<and>
    (Status_ok s \<longleftrightarrow> file_fits (created 8) (length (fst (rec_spec 32764 True [1, 2])))) \<and>
    (Status_ok s \<longrightarrow> f_data f' = f_data (created 8) @ f_buf (created 8) @ fst (rec_spec 32764 True [1, 2]) \<and> f_buf f' = [])"
  by (rule AddRecord_ok_iff_durable [OF _ refl]) (simp_all add: Writer_new_def InitTypeCrc_eq kBlockSize_def)

end
