(* ===== verification/Ldb_Db.thy ===== *)
theory Ldb_Db
  imports Ldb_WriteBatch Ldb_LogRoundtrip Ldb_LogSpace
begin

text \<open>
  The write path of \<open>db/db_impl.cc\<close>: the queue of writers, the grouping of their batches, logging and
  inserting a group, and the replay of a log when a database is opened. The steps of the threads are
  the steps of the model: a writer enqueues itself, and the writer at the front processes a group (it
  is the only one that does, which is what the mutex and the queue are for). \<open>MakeRoomForWrite\<close>, which
  waits for compactions, is a parameter: the status it returned. Flushing a full memtable during
  replay is not modelled.
\<close>

subsection \<open>Grouping\<close>

record db_writer =
  bw_batch :: "byte list option"
  bw_sync :: bool

text \<open>The loop of \<open>BuildBatchGroup\<close> over the writers behind the first: \<open>result\<close> is the batch of the first
  writer until \<open>is_tmp\<close>, then the temporary batch; \<open>lastw\<close> is the index of \<open>*last_writer\<close>.\<close>

fun BuildBatchGroup_loop ::
  "bool \<Rightarrow> nat \<Rightarrow> byte list \<Rightarrow> nat \<Rightarrow> byte list \<Rightarrow> bool \<Rightarrow> nat \<Rightarrow> db_writer list \<Rightarrow> (byte list \<times> bool \<times> nat) option" where
  "BuildBatchGroup_loop first_sync max_size tmp siz result is_tmp lastw [] = Some (result, is_tmp, lastw)"
| "BuildBatchGroup_loop first_sync max_size tmp siz result is_tmp lastw (w # ws) =
     (if bw_sync w \<and> \<not> first_sync then Some (result, is_tmp, lastw)
      else case bw_batch w of
        None \<Rightarrow> BuildBatchGroup_loop first_sync max_size tmp siz result is_tmp (lastw + 1) ws
      | Some batch \<Rightarrow>
          if siz + length batch > max_size then Some (result, is_tmp, lastw)
          else do {
            res \<leftarrow> (if \<not> is_tmp then do {
                      n \<leftarrow> WriteBatch_Count tmp;
                      if n \<noteq> 0 then None else WriteBatch_Append tmp result }
                    else Some result);
            res1 \<leftarrow> WriteBatch_Append res batch;
            BuildBatchGroup_loop first_sync max_size tmp (siz + length batch) res1 True (lastw + 1) ws })"

definition BuildBatchGroup :: "byte list \<Rightarrow> db_writer list \<Rightarrow> (byte list \<times> bool \<times> nat) option" where
  "BuildBatchGroup tmp writers = (case writers of
     [] \<Rightarrow> None
   | first_w # ws \<Rightarrow> (case bw_batch first_w of
       None \<Rightarrow> None
     | Some result \<Rightarrow>
         let siz = length result;
             max_size = (if siz \<le> 128 * 1024 then siz + 128 * 1024 else 1024 * 1024)
         in BuildBatchGroup_loop (bw_sync first_w) max_size tmp siz result False 0 ws))"

subsection \<open>Writing\<close>

record 'f DB =
  db_log :: Writer
  db_logfile :: 'f
  db_mem :: MemTable
  db_last_sequence :: SequenceNumber
  db_tmp_batch :: "byte list"
  db_bg_error :: Status
  db_writers :: "db_writer list"
  db_done :: "Status list"

definition RecordBackgroundError :: "Status \<Rightarrow> 'f DB \<Rightarrow> 'f DB" where
  "RecordBackgroundError s db = (if Status_ok (db_bg_error db) then db\<lparr>db_bg_error := s\<rparr> else db)"

text \<open>Stamping, logging and inserting a group.\<close>

definition write_updates ::
  "'f WritableFile \<Rightarrow> compare_fun \<Rightarrow> bool \<Rightarrow> byte list \<Rightarrow> bool \<Rightarrow> 'f DB \<Rightarrow> (Status \<times> 'f DB) option" where
  "write_updates ops cmp sync updates0 is_tmp db = do {
     updates \<leftarrow> WriteBatch_SetSequence (db_last_sequence db + 1) updates0;
     n \<leftarrow> WriteBatch_Count updates;
     (s1, w1, f1) \<leftarrow> AddRecord ops updates (db_log db) (db_logfile db);
     let (s2, f2, sync_error) = (if Status_ok s1 \<and> sync
           then let (s, f) = wf_Sync ops f1 in (s, f, \<not> Status_ok s) else (s1, f1, False));
     (s3, mem1) \<leftarrow> (if Status_ok s2 then WriteBatch_InsertInto cmp updates (db_mem db) else Some (s2, db_mem db));
     let db1 = db\<lparr>db_log := w1, db_logfile := f2, db_mem := mem1\<rparr>;
     let db2 = (if sync_error then RecordBackgroundError s3 db1 else db1);
     Some (s3, db2\<lparr>db_tmp_batch := (if is_tmp then WriteBatch_Clear else db_tmp_batch db),
                   db_last_sequence := db_last_sequence db + scast n\<rparr>) }"

text \<open>\<open>Write\<close> of the writer at the front of the queue, once \<open>MakeRoomForWrite\<close> returned \<open>room\<close>: the group is
  written, its writers leave the queue and receive the status.\<close>

definition write_front :: "'f WritableFile \<Rightarrow> compare_fun \<Rightarrow> Status \<Rightarrow> 'f DB \<Rightarrow> (Status \<times> 'f DB) option" where
  "write_front ops cmp room db = (case db_writers db of
     [] \<Rightarrow> None
   | first_w # _ \<Rightarrow> do {
       (s, lastw, db1) \<leftarrow> (if Status_ok room \<and> bw_batch first_w \<noteq> None then do {
           (updates, is_tmp, lastw) \<leftarrow> BuildBatchGroup (db_tmp_batch db) (db_writers db);
           (s, db1) \<leftarrow> write_updates ops cmp (bw_sync first_w) updates is_tmp db;
           Some (s, lastw, db1) }
         else Some (room, 0, db));
       Some (s, db1\<lparr>db_writers := drop (Suc lastw) (db_writers db),
                    db_done := db_done db @ replicate (Suc lastw) s\<rparr>) })"

definition write_enqueue :: "db_writer \<Rightarrow> 'f DB \<Rightarrow> 'f DB" where
  "write_enqueue w db = db\<lparr>db_writers := db_writers db @ [w]\<rparr>"

subsection \<open>Replaying a log\<close>

definition MaybeIgnoreError :: "bool \<Rightarrow> Status \<Rightarrow> Status" where
  "MaybeIgnoreError paranoid_checks s = (if Status_ok s \<or> paranoid_checks then s else Status_OK)"

text \<open>The reporter of \<open>RecoverLogFile\<close>: with paranoid checks the first report becomes the status.\<close>

definition LogReporter_Corruption :: "bool \<Rightarrow> Status \<Rightarrow> Status \<Rightarrow> Status" where
  "LogReporter_Corruption paranoid_checks s status = (if paranoid_checks \<and> Status_ok status then s else status)"

definition reported_status :: "bool \<Rightarrow> Reader \<Rightarrow> Reader \<Rightarrow> Status \<Rightarrow> Status" where
  "reported_status paranoid r r1 status =
     fold (\<lambda>(_, s) st. LogReporter_Corruption paranoid s st) (drop (length (r_reported r)) (r_reported r1)) status"

text \<open>The loop of \<open>RecoverLogFile\<close>; \<open>None\<close> for the table is the null pointer.\<close>

partial_function (option) recover_loop ::
  "'f SequentialFile \<Rightarrow> compare_fun \<Rightarrow> bool \<Rightarrow> Reader \<Rightarrow> 'f \<Rightarrow> Status \<Rightarrow> MemTable option \<Rightarrow> SequenceNumber \<Rightarrow>
   (Status \<times> MemTable option \<times> SequenceNumber) option" where
  "recover_loop file cmp paranoid r f status mem max_sequence = do {
     (res, _, r1, f1) \<leftarrow> ReadRecord file r f;
     let status1 = reported_status paranoid r r1 status;
     if res = None \<or> \<not> Status_ok status1 then Some (status1, mem, max_sequence)
     else let record = the res in
       if length record < 12 then
         recover_loop file cmp paranoid r1 f1
           (LogReporter_Corruption paranoid (Corruption ''log record too small'') status1) mem max_sequence
       else do {
         batch \<leftarrow> WriteBatch_SetContents record;
         (s, mem1) \<leftarrow> WriteBatch_InsertInto cmp batch (case mem of None \<Rightarrow> MemTable_new | Some m \<Rightarrow> m);
         let status2 = MaybeIgnoreError paranoid s;
         if \<not> Status_ok status2 then Some (status2, Some mem1, max_sequence)
         else do {
           seq \<leftarrow> WriteBatch_Sequence batch;
           n \<leftarrow> WriteBatch_Count batch;
           let last_seq = seq + scast n - 1;
           recover_loop file cmp paranoid r1 f1 status2 (Some mem1)
             (if last_seq > max_sequence then last_seq else max_sequence) } } }"

definition recover_log ::
  "'f SequentialFile \<Rightarrow> compare_fun \<Rightarrow> bool \<Rightarrow> 'f \<Rightarrow> SequenceNumber \<Rightarrow> (Status \<times> MemTable option \<times> SequenceNumber) option" where
  "recover_log file cmp paranoid f max_sequence =
     recover_loop file cmp paranoid (Reader_new True True 0) f Status_OK None max_sequence"

subsection \<open>A group is a prefix of the queue\<close>

text \<open>The updates of a batch, and of a writer.\<close>

definition batch_is :: "byte list \<Rightarrow> wb_op list \<Rightarrow> bool" where
  "batch_is b ops \<longleftrightarrow> (\<exists>s. b = wb_rep s ops) \<and> (\<forall>w \<in> set ops. wb_fits w)"

fun queue_ops :: "db_writer list \<Rightarrow> wb_op list list \<Rightarrow> bool" where
  "queue_ops [] [] \<longleftrightarrow> True"
| "queue_ops (w # ws) (ops # opss) \<longleftrightarrow>
     (case bw_batch w of None \<Rightarrow> ops = [] | Some b \<Rightarrow> batch_is b ops \<and> length ops < 2 ^ 31) \<and> queue_ops ws opss"
| "queue_ops _ _ \<longleftrightarrow> False"

definition batch_bytes :: "db_writer \<Rightarrow> nat" where
  "batch_bytes w = (case bw_batch w of None \<Rightarrow> 0 | Some b \<Rightarrow> length b)"

lemma batch_bytes_simps [simp]:
  "bw_batch w = None \<Longrightarrow> batch_bytes w = 0" "bw_batch w = Some b \<Longrightarrow> batch_bytes w = length b"
  by (simp_all add: batch_bytes_def)

lemma length_wb_bytes: "2 \<le> length (wb_bytes w)"
proof -
  have "EncodeVarint32 v \<noteq> []" for v by (simp add: EncodeVarint32_def)
  then have "lp k \<noteq> []" for k by (simp add: lp_def)
  then have "1 \<le> length (lp k)" for k by (simp add: Suc_le_eq)
  then show ?thesis by (cases w) (auto intro: trans_le_add1)
qed

lemma batch_is_length: "batch_is b ops \<Longrightarrow> 2 * length ops + 12 \<le> length b"
proof -
  have "2 * length ops \<le> length (concat (map wb_bytes ops))"
  proof (induction ops)
    case (Cons w ops)
    then show ?case using length_wb_bytes [of w] by simp
  qed simp
  then show "batch_is b ops \<Longrightarrow> ?thesis" by (auto simp: batch_is_def wb_rep_def)
qed

lemma queue_ops_take: "queue_ops ws opss \<Longrightarrow> queue_ops (take n ws) (take n opss)"
  by (induction ws opss arbitrary: n rule: queue_ops.induct) (case_tac n; auto)+

lemma queue_ops_length: "queue_ops ws opss \<Longrightarrow> length opss = length ws"
  by (induction ws opss rule: queue_ops.induct) auto

lemma queue_ops_bytes: "queue_ops ws opss \<Longrightarrow> 2 * length (concat opss) \<le> sum_list (map batch_bytes ws)"
proof (induction ws opss rule: queue_ops.induct)
  case (2 w ws ops opss)
  have "2 * length ops \<le> batch_bytes w"
    using 2(2) batch_is_length by (cases "bw_batch w") fastforce+
  then show ?case using 2 by simp
qed simp_all

lemma Append_is:
  "batch_is a xs \<Longrightarrow> batch_is b ys \<Longrightarrow> \<exists>c. WriteBatch_Append a b = Some c \<and> batch_is c (xs @ ys)"
  by (auto simp: batch_is_def WriteBatch_Append_rep)

lemma batch_is_Clear: "batch_is WriteBatch_Clear []"
  by (auto simp: batch_is_def wb_Clear)

lemma BuildBatchGroup_loop_spec:
  assumes "batch_is result xs" and "queue_ops ws opss" and "is_tmp \<or> tmp = WriteBatch_Clear"
  shows "\<exists>res tmp' n. BuildBatchGroup_loop fs max_size tmp siz result is_tmp lastw ws = Some (res, tmp', lastw + n) \<and>
    n \<le> length ws \<and> batch_is res (xs @ concat (take n opss)) \<and>
    (n > 0 \<and> siz \<le> max_size \<longrightarrow> siz + sum_list (map batch_bytes (take n ws)) \<le> max_size) \<and>
    (max_size < siz \<longrightarrow> concat (take n opss) = []) \<and> (\<not> fs \<longrightarrow> (\<forall>w \<in> set (take n ws). \<not> bw_sync w))"
  using assms
proof (induction ws arbitrary: opss siz result is_tmp lastw xs)
  case Nil
  then show ?case by (cases opss) auto
next
  case (Cons w ws)
  obtain ops opss' where opss: "opss = ops # opss'" using Cons.prems(2) by (cases opss) auto
  show ?case
  proof (cases "bw_sync w \<and> \<not> fs")
    case True
    then show ?thesis using Cons.prems(1) by (intro exI [of _ result] exI [of _ is_tmp] exI [of _ 0]) auto
  next
    case False
    show ?thesis
    proof (cases "bw_batch w")
      case None
      then have "ops = []" "queue_ops ws opss'" using Cons.prems(2) by (auto simp: opss)
      from Cons.IH [OF Cons.prems(1) this(2) Cons.prems(3), of siz "lastw + 1"] obtain res tmp' n where
        "BuildBatchGroup_loop fs max_size tmp siz result is_tmp (lastw + 1) ws = Some (res, tmp', lastw + 1 + n)"
        "n \<le> length ws" "batch_is res (xs @ concat (take n opss'))"
        "n > 0 \<and> siz \<le> max_size \<longrightarrow> siz + sum_list (map batch_bytes (take n ws)) \<le> max_size"
        "max_size < siz \<longrightarrow> concat (take n opss') = []"
        "\<not> fs \<longrightarrow> (\<forall>w \<in> set (take n ws). \<not> bw_sync w)" by blast
      then show ?thesis using None False \<open>ops = []\<close>
        by (intro exI [of _ res] exI [of _ tmp'] exI [of _ "Suc n"]) (cases n, auto simp: opss)
    next
      case (Some b)
      show ?thesis
      proof (cases "max_size < siz + length b")
        case True
        then show ?thesis using Some False Cons.prems(1)
          by (intro exI [of _ result] exI [of _ is_tmp] exI [of _ 0]) auto
      next
        case small: False
        have b: "batch_is b ops" "queue_ops ws opss'" using Cons.prems(2) Some by (auto simp: opss)
        obtain r where r: "(if \<not> is_tmp then do { n \<leftarrow> WriteBatch_Count tmp; if n \<noteq> 0 then None else WriteBatch_Append tmp result }
            else Some result) = Some r" "batch_is r xs"
          using Cons.prems(1,3) Append_is [of WriteBatch_Clear "[]" result xs] batch_is_Clear
          by (cases is_tmp) (auto simp: wb_Clear)
        obtain r1 where r1: "WriteBatch_Append r b = Some r1" "batch_is r1 (xs @ ops)"
          using Append_is [OF r(2) b(1)] by blast
        from Cons.IH [OF r1(2) b(2), of True "siz + length b" "lastw + 1"] obtain res tmp' n where
          "BuildBatchGroup_loop fs max_size tmp (siz + length b) r1 True (lastw + 1) ws = Some (res, tmp', lastw + 1 + n)"
          "n \<le> length ws" "batch_is res ((xs @ ops) @ concat (take n opss'))"
          "n > 0 \<and> siz + length b \<le> max_size \<longrightarrow> siz + length b + sum_list (map batch_bytes (take n ws)) \<le> max_size"
          "max_size < siz + length b \<longrightarrow> concat (take n opss') = []"
          "\<not> fs \<longrightarrow> (\<forall>w \<in> set (take n ws). \<not> bw_sync w)" by blast
        then show ?thesis using Some False small r(1) r1(1)
          by (intro exI [of _ res] exI [of _ tmp'] exI [of _ "Suc n"])
            (cases n, auto simp: opss)
      qed
    qed
  qed
qed

lemma BuildBatchGroup_spec:
  assumes "queue_ops (w # ws) (ops # opss)" and "bw_batch w = Some b"
  shows "\<exists>res is_tmp n. BuildBatchGroup WriteBatch_Clear (w # ws) = Some (res, is_tmp, n) \<and> n \<le> length ws \<and>
    batch_is res (concat (take (Suc n) (ops # opss))) \<and> length (concat (take (Suc n) (ops # opss))) < 2 ^ 31 \<and>
    (length b \<le> 2 ^ 20 \<and> n > 0 \<longrightarrow> sum_list (map batch_bytes (take (Suc n) (w # ws))) \<le> 2 ^ 20) \<and>
    (\<not> bw_sync w \<longrightarrow> (\<forall>v \<in> set (take (Suc n) (w # ws)). \<not> bw_sync v))"
proof -
  define M where "M = (if length b \<le> 128 * 1024 then length b + 128 * 1024 else 1024 * 1024 :: nat)"
  have q: "batch_is b ops" "length ops < 2 ^ 31" "queue_ops ws opss" using assms by auto
  from BuildBatchGroup_loop_spec [OF q(1) q(3), of False WriteBatch_Clear "bw_sync w" M "length b" 0]
  obtain res tmp' n where
    loop: "BuildBatchGroup_loop (bw_sync w) M WriteBatch_Clear (length b) b False 0 ws = Some (res, tmp', n)"
    and n: "n \<le> length ws" and bi: "batch_is res (ops @ concat (take n opss))"
    and siz: "n > 0 \<and> length b \<le> M \<longrightarrow> length b + sum_list (map batch_bytes (take n ws)) \<le> M"
    and big: "M < length b \<longrightarrow> concat (take n opss) = []"
    and syn: "\<not> bw_sync w \<longrightarrow> (\<forall>v \<in> set (take n ws). \<not> bw_sync v)" by auto
  have max: "M \<le> 2 ^ 20" by (simp add: M_def)
  have "length (ops @ concat (take n opss)) < 2 ^ 31"
  proof (cases "n > 0 \<and> length b \<le> M")
    case True
    have "2 * length (concat (take n opss)) \<le> sum_list (map batch_bytes (take n ws))"
      by (rule queue_ops_bytes [OF queue_ops_take [OF q(3)]])
    moreover have "2 * length ops \<le> length b" using batch_is_length [OF q(1)] by simp
    moreover have "2 * (x + y) \<le> m" if "2 * y \<le> s" "2 * x \<le> l" "l + s \<le> m" for x y s l m :: nat using that by simp
    ultimately have "2 * length (ops @ concat (take n opss)) \<le> M" using mp [OF siz True] unfolding length_append by metis
    moreover have "x < 2 ^ 31" if "2 * x \<le> m" "m \<le> 2 ^ 20" for x m :: nat using that by simp
    ultimately show ?thesis using max by blast
  next
    case False
    then have "concat (take n opss) = []" using big by (cases "n = 0") auto
    then show ?thesis using q(2) by (simp only: append_Nil2)
  qed
  moreover have "length b \<le> 2 ^ 20 \<Longrightarrow> length b \<le> M" by (simp add: M_def)
  then have "length b \<le> 2 ^ 20 \<and> n > 0 \<longrightarrow> sum_list (map batch_bytes (take (Suc n) (w # ws))) \<le> 2 ^ 20"
    using siz max assms(2) by auto
  ultimately show ?thesis
    using loop n bi syn assms(2) by (auto simp: BuildBatchGroup_def Let_def M_def)
qed

subsection \<open>The invariant of the write path\<close>

text \<open>The records that the groups of updates became in the log, and the state of a database that wrote
  the groups \<open>gs\<close>: the table holds the updates with their sequence numbers, the log file holds the
  records and all of it is on the device.\<close>

primrec stamped :: "SequenceNumber \<Rightarrow> wb_op list list \<Rightarrow> byte list list" where
  "stamped s [] = []"
| "stamped s (ops # gs) = wb_rep (s + 1) ops # stamped (s + of_nat (length ops)) gs"

primrec log_end :: "nat \<Rightarrow> slice list \<Rightarrow> nat" where
  "log_end off [] = off"
| "log_end off (d # ds) = log_end (snd (rec_spec off True d)) ds"

definition db_rel :: "FILE DB \<Rightarrow> wb_op list list \<Rightarrow> bool" where
  "db_rel db gs \<longleftrightarrow> mt_holds (db_mem db) (set (wb_writes 1 (concat gs))) \<and>
     db_last_sequence db = of_nat (length (concat gs)) \<and> db_tmp_batch db = WriteBatch_Clear \<and>
     w_type_crc (db_log db) = type_crcs \<and> w_block_offset (db_log db) = log_end 0 (stamped 0 gs) \<and>
     f_data (db_logfile db) = log_bytes 0 (stamped 0 gs) \<and> f_buf (db_logfile db) = [] \<and>
     (\<forall>ops \<in> set gs. length ops < 2 ^ 31 \<and> (\<forall>w \<in> set ops. wb_fits w))"

lemma stamped_append: "stamped s (gs @ [ops]) = stamped s gs @ [wb_rep (s + of_nat (length (concat gs)) + 1) ops]"
  by (induction gs arbitrary: s) (simp_all add: add.assoc)

lemma log_bytes_append: "log_bytes off (ds @ [d]) = log_bytes off ds @ fst (rec_spec (log_end off ds) True d)"
  by (induction ds arbitrary: off) simp_all

lemma log_end_append: "log_end off (ds @ [d]) = snd (rec_spec (log_end off ds) True d)"
  by (induction ds arbitrary: off) simp_all

lemma log_end_le: "off \<le> kBlockSize \<Longrightarrow> log_end off ds \<le> kBlockSize"
  by (induction ds arbitrary: off) (simp_all add: rec_spec_off)

lemma take_stamped: "take j (stamped s gs) = stamped s (take j gs)"
  by (induction gs arbitrary: s j) (simp_all add: take_Cons split: nat.split)

lemma stamped_length [simp]: "length (stamped s gs) = length gs"
  by (induction gs arbitrary: s) simp_all

text \<open>\<open>AddRecord\<close> on the log of a database.\<close>

lemma AddRecord_posix:
  assumes "w_type_crc w = type_crcs" and "w_block_offset w \<le> kBlockSize" and "f_buf f = []"
  shows "\<exists>s w' f'. AddRecord (PosixWritableFile name) d w f = Some (s, w', f') \<and>
    (Status_ok s \<longrightarrow> w' = w\<lparr>w_block_offset := snd (rec_spec (w_block_offset w) True d)\<rparr> \<and>
      f_data f' = f_data f @ fst (rec_spec (w_block_offset w) True d) \<and> f_buf f' = [] \<and> s = Status_OK) \<and>
    (file_fits f (length (fst (rec_spec (w_block_offset w) True d))) \<longrightarrow> Status_ok s)"
proof (cases "file_fits f (length (fst (rec_spec (w_block_offset w) True d)))")
  case True
  from pw.AddRecord_loop_ok [OF assms(1,2) True order_refl, of name] show ?thesis
    using assms(3) by (auto simp: AddRecord_def file_contents_def)
next
  case False
  obtain s w' f' where a: "AddRecord_loop (PosixWritableFile name) True d w f = Some (s, w', f')"
    using AddRecord_loop_total [OF assms(1,2), of "PosixWritableFile name" True d f] by blast
  from AddRecord_loop_lossy [OF assms(1,2) False a] show ?thesis using a False by (auto simp: AddRecord_def)
qed

lemma sync_posix:
  "f_buf f = [] \<Longrightarrow> wf_Sync (PosixWritableFile name) f = (s, f') \<Longrightarrow> f_data f' = f_data f \<and> f_buf f' = []"
  by (auto simp: PosixWritableFile_def PosixWritableFile_Sync_def fflush_def write_out_def Let_def split: if_splits)

lemma sync_status: "wf_Sync (PosixWritableFile name) f = (s, f') \<Longrightarrow> Status_ok s \<Longrightarrow> s = Status_OK"
  by (simp add: Status_ok_def Status_OK_def)

lemma scast_count: "n < 2 ^ 31 \<Longrightarrow> (scast (word_of_nat n :: u32) :: u64) = of_nat n"
proof -
  assume "n < 2 ^ 31"
  then have "sint (word_of_nat n :: u32) = int n" by (simp add: signed_of_nat signed_take_bit_int_eq_self)
  then show ?thesis by (metis of_int_of_nat_eq of_int_sint)
qed

lemma write_updates_rel:
  assumes rel: "db_rel db gs" and b: "batch_is b ops" "length ops < 2 ^ 31"
    and lim: "length (concat gs) + length ops < 2 ^ 56"
  shows "\<exists>s db'. write_updates (PosixWritableFile name) Bytewise_Compare sync b is_tmp db = Some (s, db') \<and>
    (Status_ok s \<longrightarrow> db_rel db' (gs @ [ops])) \<and> db_writers db' = db_writers db \<and>
    (\<not> sync \<and> file_fits (db_logfile db) (length (fst (rec_spec (w_block_offset (db_log db)) True
        (wb_rep (of_nat (length (concat gs)) + 1) ops)))) \<longrightarrow> Status_ok s)"
proof -
  let ?ops = "PosixWritableFile name"
  let ?s = "of_nat (length (concat gs)) + 1 :: u64" and ?off = "w_block_offset (db_log db)"
  obtain mem' where ins: "WriteBatch_InsertInto Bytewise_Compare (wb_rep ?s ops) (db_mem db) = Some (Status_OK, mem')"
    and mem: "mt_holds mem' (set (wb_writes 1 (concat gs @ ops)))"
    using InsertInto_next [of "db_mem db" "concat gs" ops] rel b lim by (auto simp: db_rel_def batch_is_def)
  have set: "WriteBatch_SetSequence ?s b = Some (wb_rep ?s ops)"
    using b(1) by (auto simp: batch_is_def wb_SetSequence)
  have off: "?off \<le> kBlockSize" using rel log_end_le [of 0 "stamped 0 gs"] by (simp add: db_rel_def)
  obtain s1 w1 f1 where add: "AddRecord ?ops (wb_rep ?s ops) (db_log db) (db_logfile db) = Some (s1, w1, f1)"
    and ok1: "Status_ok s1 \<Longrightarrow> w1 = (db_log db)\<lparr>w_block_offset := snd (rec_spec ?off True (wb_rep ?s ops))\<rparr> \<and>
      f_data f1 = f_data (db_logfile db) @ fst (rec_spec ?off True (wb_rep ?s ops)) \<and> f_buf f1 = []"
    and fits: "file_fits (db_logfile db) (length (fst (rec_spec ?off True (wb_rep ?s ops)))) \<longrightarrow> Status_ok s1"
    using AddRecord_posix [of "db_log db" "db_logfile db" name "wb_rep ?s ops"] off rel by (auto simp: db_rel_def)
  obtain s2 f2 where sy: "wf_Sync ?ops f1 = (s2, f2)" by fastforce
  have dat: "f_data f2 = f_data f1 \<and> f_buf f2 = []" if "Status_ok s1" using sync_posix [OF _ sy] ok1 [OF that] by blast
  have rel': "db_rel (db\<lparr>db_log := w1, db_logfile := f, db_mem := mem', db_tmp_batch := WriteBatch_Clear,
      db_last_sequence := of_nat (length (concat gs)) + of_nat (length ops)\<rparr>) (gs @ [ops])"
    if "Status_ok s1" "f_data f = f_data f1 \<and> f_buf f = []" for f
    using rel mem ok1 [OF that(1)] that(2) b
    by (auto simp: db_rel_def stamped_append log_bytes_append log_end_append batch_is_def)
  have tmp: "(if is_tmp then WriteBatch_Clear else db_tmp_batch db) = WriteBatch_Clear"
    and last: "db_last_sequence db = of_nat (length (concat gs))" using rel by (simp_all add: db_rel_def)
  have w: "write_updates ?ops Bytewise_Compare sync b is_tmp db = do {
     let (s, f, sync_error) = (if Status_ok s1 \<and> sync then (s2, f2, \<not> Status_ok s2) else (s1, f1, False));
     (s3, mem1) \<leftarrow> (if Status_ok s then Some (Status_OK, mem') else Some (s, db_mem db));
     let db1 = db\<lparr>db_log := w1, db_logfile := f, db_mem := mem1\<rparr>;
     let db2 = (if sync_error then RecordBackgroundError s3 db1 else db1);
     Some (s3, db2\<lparr>db_tmp_batch := WriteBatch_Clear,
       db_last_sequence := of_nat (length (concat gs)) + of_nat (length ops)\<rparr>) }"
    by (simp add: write_updates_def set add sy ins tmp last scast_count [OF b(2)] Let_def split_beta)
  show ?thesis
  proof (cases "Status_ok s1 \<and> (sync \<longrightarrow> Status_ok s2)")
    case True
    then show ?thesis using rel' [of "if sync then f2 else f1"] dat ok1 unfolding w by (cases sync) auto
  next
    case False
    then show ?thesis using fits unfolding w by (cases "Status_ok s1") (auto simp: RecordBackgroundError_def Let_def)
  qed
qed

subsection \<open>Runs\<close>

definition DB_open :: "Writer \<Rightarrow> nat \<Rightarrow> FILE DB" where
  "DB_open w room = \<lparr>db_log = w, db_logfile = created room, db_mem = MemTable_new, db_last_sequence = 0,
     db_tmp_batch = WriteBatch_Clear, db_bg_error = Status_OK, db_writers = [], db_done = []\<rparr>"

text \<open>\<open>db_run name gs q db\<close>: the database, opened on an empty log, has acknowledged the groups \<open>gs\<close> and has
  the updates \<open>q\<close> in its queue; writers enqueue at any time.\<close>

inductive db_run :: "slice \<Rightarrow> wb_op list list \<Rightarrow> wb_op list list \<Rightarrow> FILE DB \<Rightarrow> bool" for name where
  start: "Writer_new = Some w \<Longrightarrow> db_run name [] [] (DB_open w room)"
| enqueue: "db_run name gs q db \<Longrightarrow> queue_ops [w] [ops] \<Longrightarrow> db_run name gs (q @ [ops]) (write_enqueue w db)"
| group: "db_run name gs q db \<Longrightarrow> db_writers db \<noteq> [] \<Longrightarrow> bw_batch (hd (db_writers db)) \<noteq> None \<Longrightarrow>
    write_front (PosixWritableFile name) Bytewise_Compare Status_OK db = Some (s, db') \<Longrightarrow> Status_ok s \<Longrightarrow>
    n = length (db_writers db) - length (db_writers db') \<Longrightarrow> db_run name (gs @ [concat (take n q)]) (drop n q) db'"
| idle: "db_run name gs ([] # q) db \<Longrightarrow> db_writers db \<noteq> [] \<Longrightarrow> bw_batch (hd (db_writers db)) = None \<Longrightarrow>
    write_front (PosixWritableFile name) Bytewise_Compare Status_OK db = Some (s, db') \<Longrightarrow> db_run name gs q db'"

lemma queue_ops_append: "queue_ops ws opss \<Longrightarrow> queue_ops ws' opss' \<Longrightarrow> queue_ops (ws @ ws') (opss @ opss')"
  by (induction ws opss rule: queue_ops.induct) auto

lemma queue_ops_drop: "queue_ops ws opss \<Longrightarrow> queue_ops (drop n ws) (drop n opss)"
  by (induction ws opss arbitrary: n rule: queue_ops.induct) (case_tac n; auto)+

lemma write_front_rel:
  assumes rel: "db_rel db gs" and q: "queue_ops (w # ws) (ops # opss)" "db_writers db = w # ws"
    and b: "bw_batch w = Some b" and lim: "length (concat gs) + length (concat (ops # opss)) < 2 ^ 56"
  shows "\<exists>s n db'. write_front (PosixWritableFile name) Bytewise_Compare Status_OK db = Some (s, db') \<and> n \<le> length ws \<and>
    db_writers db' = drop (Suc n) (w # ws) \<and> (Status_ok s \<longrightarrow> db_rel db' (gs @ [concat (take (Suc n) (ops # opss))])) \<and>
    (\<not> bw_sync w \<and> file_fits (db_logfile db) (length (fst (rec_spec (w_block_offset (db_log db)) True
        (wb_rep (of_nat (length (concat gs)) + 1) (concat (take (Suc n) (ops # opss))))))) \<longrightarrow> Status_ok s)"
proof -
  have tmp: "db_tmp_batch db = WriteBatch_Clear" using rel by (simp add: db_rel_def)
  from BuildBatchGroup_spec [OF q(1) b] obtain res is_tmp n where
    g: "BuildBatchGroup WriteBatch_Clear (w # ws) = Some (res, is_tmp, n)" "n \<le> length ws"
    "batch_is res (concat (take (Suc n) (ops # opss)))" "length (concat (take (Suc n) (ops # opss))) < 2 ^ 31" by blast
  have "length (concat (take (Suc n) (ops # opss))) \<le> length (concat (ops # opss))"
    by (metis append_take_drop_id concat_append le_add1 length_append)
  then have "length (concat gs) + length (concat (take (Suc n) (ops # opss))) < 2 ^ 56" using lim by linarith
  from write_updates_rel [OF rel g(3,4) this, of name "bw_sync w" is_tmp] obtain s db1 where
    u: "write_updates (PosixWritableFile name) Bytewise_Compare (bw_sync w) res is_tmp db = Some (s, db1)"
    "Status_ok s \<longrightarrow> db_rel db1 (gs @ [concat (take (Suc n) (ops # opss))])"
    "\<not> bw_sync w \<and> file_fits (db_logfile db) (length (fst (rec_spec (w_block_offset (db_log db)) True
        (wb_rep (of_nat (length (concat gs)) + 1) (concat (take (Suc n) (ops # opss))))))) \<longrightarrow> Status_ok s" by blast
  have "write_front (PosixWritableFile name) Bytewise_Compare Status_OK db =
      Some (s, db1\<lparr>db_writers := drop (Suc n) (w # ws), db_done := db_done db @ replicate (Suc n) s\<rparr>)"
    using q(2) b g(1) u(1) by (simp add: write_front_def tmp)
  then show ?thesis using g(2) u(2,3) by (auto simp: db_rel_def)
qed

lemma db_run_rel:
  "db_run name gs q db \<Longrightarrow> length (concat gs) + length (concat q) < 2 ^ 56 \<Longrightarrow>
   db_rel db gs \<and> queue_ops (db_writers db) q"
proof (induction rule: db_run.induct)
  case (start w room)
  then show ?case
    using mt_holds_new by (auto simp: db_rel_def DB_open_def Writer_new_def InitTypeCrc_eq opened_simps created_def opened_def)
next
  case (enqueue gs q db w ops)
  then show ?case by (auto simp: write_enqueue_def db_rel_def intro: queue_ops_append)
next
  case (group gs q db s db' n)
  obtain w ws where ws: "db_writers db = w # ws" using group.hyps(2) by (cases "db_writers db") auto
  have l: "length (concat (gs @ [concat (take n q)])) + length (concat (drop n q)) = length (concat gs) + length (concat q)"
    using append_take_drop_id [of n q] by (metis add.assoc append.right_neutral concat.simps concat_append length_append)
  then have IH: "db_rel db gs" "queue_ops (w # ws) q" using group.IH group.prems ws by auto
  obtain ops opss where q: "q = ops # opss" using IH(2) by (cases q) auto
  obtain b where b: "bw_batch w = Some b" using group.hyps(3) ws by auto
  have "length (concat gs) + length (concat (ops # opss)) < 2 ^ 56" using l group.prems q by simp
  from write_front_rel [OF IH(1) _ ws b this, of name] IH(2) obtain m where
    m: "m \<le> length ws" "db_writers db' = drop (Suc m) (w # ws)"
    "db_rel db' (gs @ [concat (take (Suc m) (ops # opss))])"
    using group.hyps(4,5) q by auto
  have "n = Suc m" using group.hyps(6) m(1,2) ws by simp
  then show ?case using m(2,3) q queue_ops_drop [OF IH(2), of n] by simp
next
  case (idle gs q db s db')
  obtain w ws where ws: "db_writers db = w # ws" using idle.hyps(2) by (cases "db_writers db") auto
  have none: "bw_batch w = None" using idle.hyps(3) ws by simp
  have db': "db' = db\<lparr>db_writers := ws, db_done := db_done db @ [s]\<rparr>"
    using idle.hyps(4) none by (simp add: write_front_def ws)
  show ?case using idle.IH idle.prems by (simp add: db' ws db_rel_def)
qed

subsection \<open>Replay\<close>

abbreviation tbl :: "MemTable option \<Rightarrow> MemTable" where
  "tbl m \<equiv> case m of None \<Rightarrow> MemTable_new | Some t \<Rightarrow> t"

lemma recover_quiet:
  assumes "quiet_reads file (stamped (of_nat (length past)) gs) r f" and "mt_holds (tbl m) (set (wb_writes 1 past))"
    and "\<forall>ops \<in> set gs. length ops < 2 ^ 31 \<and> (\<forall>w \<in> set ops. wb_fits w)"
    and "length past + length (concat gs) < 2 ^ 56"
  shows "\<exists>m'. recover_loop file Bytewise_Compare paranoid r f Status_OK m (of_nat (length past)) =
      Some (Status_OK, m', of_nat (length (past @ concat gs))) \<and>
    mt_holds (tbl m') (set (wb_writes 1 (past @ concat gs)))"
  using assms
proof (induction gs arbitrary: past r f m)
  case Nil
  obtain s r1 f1 where "ReadRecord file r f = Some (None, s, r1, f1)" "r_reported r1 = r_reported r"
    using Nil(1) by auto
  then have "recover_loop file Bytewise_Compare paranoid r f Status_OK m (of_nat (length past)) =
      Some (Status_OK, m, of_nat (length past))"
    by (subst recover_loop.simps) (simp add: reported_status_def)
  then show ?case using Nil(2) by auto
next
  case (Cons ops gs)
  let ?n = "length past" and ?rep = "wb_rep (of_nat (length past) + 1) ops"
  obtain s r1 f1 where rd: "ReadRecord file r f = Some (Some ?rep, s, r1, f1)" "r_reported r1 = r_reported r"
    and q: "quiet_reads file (stamped (of_nat (length (past @ ops))) gs) r1 f1" using Cons.prems(1) by auto
  have fit: "\<forall>w \<in> set ops. wb_fits w" "length ops < 2 ^ 31" "?n + length ops < 2 ^ 56"
    using Cons.prems(3,4) by auto
  from InsertInto_next [OF Cons.prems(2) fit] obtain mem' where
    ins: "WriteBatch_InsertInto Bytewise_Compare ?rep (tbl m) = Some (Status_OK, mem')"
    and mem: "mt_holds mem' (set (wb_writes 1 (past @ ops)))" by blast
  have len: "\<not> length ?rep < 12" "WriteBatch_SetContents ?rep = Some ?rep"
    using wb_header(4) [of "of_nat ?n + 1" ops] by (simp_all add: WriteBatch_SetContents_def kHeader_def)
  have max: "(if of_nat ?n + of_nat (length ops) > (of_nat ?n :: u64) then of_nat ?n + of_nat (length ops) else of_nat ?n) =
      (of_nat (length (past @ ops)) :: u64)"
  proof -
    have "unat (of_nat (?n + length ops) :: u64) = ?n + length ops" "unat (of_nat ?n :: u64) = ?n"
      using fit(3) by (simp_all add: unat_of_nat del: of_nat_add)
    then show ?thesis by (auto simp: word_less_nat_alt simp flip: of_nat_add)
  qed
  have "recover_loop file Bytewise_Compare paranoid r f Status_OK m (of_nat ?n) =
      recover_loop file Bytewise_Compare paranoid r1 f1 Status_OK (Some mem') (of_nat (length (past @ ops)))"
    using max by (subst recover_loop.simps)
      (simp add: rd reported_status_def Let_def len ins MaybeIgnoreError_def scast_count [OF fit(2)] del: of_nat_add split: if_splits)
  moreover have "mt_holds (tbl (Some mem')) (set (wb_writes 1 (past @ ops)))" using mem by simp
  ultimately show ?case
    using Cons.IH [OF q, of "Some mem'"] Cons.prems(3,4) by (simp add: add.assoc)
qed

subsection \<open>Every write is answered\<close>

text \<open>The part of the invariant that also holds after failed writes.\<close>

definition db_wf :: "'f DB \<Rightarrow> bool" where
  "db_wf db \<longleftrightarrow> (\<exists>ws. mt_holds (db_mem db) ws \<and> (\<forall>w \<in> ws. op_seq w \<le> db_last_sequence db)) \<and>
     db_tmp_batch db = WriteBatch_Clear \<and> w_type_crc (db_log db) = type_crcs \<and> w_block_offset (db_log db) \<le> kBlockSize"

lemma write_updates_wf:
  assumes wf: "db_wf db" and b: "batch_is b ops" "length ops < 2 ^ 31"
    and lim: "unat (db_last_sequence db) + length ops < 2 ^ 56"
  shows "\<exists>s db'. write_updates wops Bytewise_Compare sync b is_tmp db = Some (s, db') \<and> db_wf db' \<and>
    unat (db_last_sequence db') = unat (db_last_sequence db) + length ops"
proof -
  let ?s = "db_last_sequence db + 1" and ?l = "db_last_sequence db + of_nat (length ops)"
  obtain ws where ws: "mt_holds (db_mem db) ws" "\<forall>w \<in> ws. op_seq w \<le> db_last_sequence db"
    using wf by (auto simp: db_wf_def)
  have s: "unat ?s = unat (db_last_sequence db) + 1" using lim by (simp add: unat_Suc_u64)
  have l: "unat ?l = unat (db_last_sequence db) + length ops"
    using lim by (simp add: unat_word_ariths(1) unat_of_nat)
  have "\<forall>w \<in> ws. op_seq w < ?s" using ws(2) s by (auto simp: word_less_nat_alt word_le_nat_alt)
  moreover have "unat ?s + length ops \<le> 2 ^ 56" using lim s by simp
  ultimately obtain mem' where ins: "WriteBatch_InsertInto Bytewise_Compare (wb_rep ?s ops) (db_mem db) = Some (Status_OK, mem')"
    and mem: "mt_holds mem' (ws \<union> set (wb_writes ?s ops))"
    using InsertInto_rep [OF ws(1) _ _ _ b(2), of ?s] b(1) unfolding batch_is_def by blast
  have new: "\<forall>w \<in> ws \<union> set (wb_writes ?s ops). op_seq w \<le> ?l"
    using ws(2) wb_writes_less(2) [of _ ?s ops] lim s l by (fastforce simp: word_le_nat_alt)
  have old: "\<forall>w \<in> ws. op_seq w \<le> ?l" using ws(2) l by (auto simp: word_le_nat_alt)
  have set: "WriteBatch_SetSequence ?s b = Some (wb_rep ?s ops)"
    using b(1) by (auto simp: batch_is_def wb_SetSequence)
  obtain s1 w1 f1 where add: "AddRecord wops (wb_rep ?s ops) (db_log db) (db_logfile db) = Some (s1, w1, f1)"
    "w_type_crc w1 = type_crcs" "w_block_offset w1 \<le> kBlockSize"
    using AddRecord_loop_total [of "db_log db" wops True "wb_rep ?s ops" "db_logfile db"] wf
    by (auto simp: AddRecord_def db_wf_def)
  have tmp: "(if is_tmp then WriteBatch_Clear else db_tmp_batch db) = WriteBatch_Clear"
    using wf by (simp add: db_wf_def)
  obtain s f2 e where c: "(if Status_ok s1 \<and> sync then let (s, f) = wf_Sync wops f1 in (s, f, \<not> Status_ok s) else (s1, f1, False)) = (s, f2, e)"
    by (cases "Status_ok s1 \<and> sync") (auto simp: split_beta)
  define m3 where "m3 = (if Status_ok s then mem' else db_mem db)"
  define s3 where "s3 = (if Status_ok s then Status_OK else s)"
  have keep: "db\<lparr>db_log := w1, db_logfile := f2, db_mem := db_mem db\<rparr> = db\<lparr>db_log := w1, db_logfile := f2\<rparr>"
    by (cases db) simp
  have w: "write_updates wops Bytewise_Compare sync b is_tmp db = Some (s3,
      (let db1 = db\<lparr>db_log := w1, db_logfile := f2, db_mem := m3\<rparr> in if e then RecordBackgroundError s3 db1 else db1)
      \<lparr>db_tmp_batch := WriteBatch_Clear, db_last_sequence := ?l\<rparr>)"
    by (cases "Status_ok s"; cases e)
      (simp_all add: write_updates_def set add(1) ins tmp c scast_count [OF b(2)] Let_def m3_def s3_def keep)
  have "\<exists>ws. mt_holds m3 ws \<and> (\<forall>w \<in> ws. op_seq w \<le> ?l)" using mem new ws(1) old by (auto simp: m3_def)
  then have "db_wf ((let db1 = db\<lparr>db_log := w1, db_logfile := f2, db_mem := m3\<rparr> in if e then RecordBackgroundError s3 db1 else db1)
      \<lparr>db_tmp_batch := WriteBatch_Clear, db_last_sequence := ?l\<rparr>)"
    using add(2,3) by (simp add: db_wf_def Let_def RecordBackgroundError_def)
  then show ?thesis using w l by auto
qed

lemma write_front_wf:
  assumes wf: "db_wf db" and q: "queue_ops (db_writers db) q" "db_writers db \<noteq> []"
    and lim: "unat (db_last_sequence db) + length (concat q) < 2 ^ 56"
  shows "\<exists>s n db'. write_front wops Bytewise_Compare room db = Some (s, db') \<and> n < length (db_writers db) \<and> db_wf db' \<and>
    db_writers db' = drop (Suc n) (db_writers db) \<and> db_done db' = db_done db @ replicate (Suc n) s \<and>
    unat (db_last_sequence db') + length (concat (drop (Suc n) q)) < 2 ^ 56"
proof -
  obtain w ws where ws: "db_writers db = w # ws" using q(2) by (cases "db_writers db") auto
  obtain ops opss where qq: "q = ops # opss" using q(1) ws by (cases q) auto
  have split: "length (concat (take n q)) + length (concat (drop n q)) = length (concat q)" for n
    by (metis append_take_drop_id concat_append length_append)
  show ?thesis
  proof (cases "Status_ok room \<and> bw_batch w \<noteq> None")
    case True
    then obtain b where b: "bw_batch w = Some b" by auto
    have tmp: "db_tmp_batch db = WriteBatch_Clear" using wf by (simp add: db_wf_def)
    from BuildBatchGroup_spec [OF q(1) [unfolded ws qq] b] obtain res is_tmp n where
      g: "BuildBatchGroup WriteBatch_Clear (w # ws) = Some (res, is_tmp, n)" "n \<le> length ws"
      "batch_is res (concat (take (Suc n) q))" "length (concat (take (Suc n) q)) < 2 ^ 31" unfolding qq by blast
    have "unat (db_last_sequence db) + length (concat (take (Suc n) q)) < 2 ^ 56"
      using lim split [of "Suc n"] by linarith
    from write_updates_wf [OF wf g(3,4) this, of wops "bw_sync w" is_tmp] obtain s db1 where
      u: "write_updates wops Bytewise_Compare (bw_sync w) res is_tmp db = Some (s, db1)" "db_wf db1"
      "unat (db_last_sequence db1) = unat (db_last_sequence db) + length (concat (take (Suc n) q))" by blast
    have "write_front wops Bytewise_Compare room db =
        Some (s, db1\<lparr>db_writers := drop (Suc n) (w # ws), db_done := db_done db @ replicate (Suc n) s\<rparr>)"
      using True b g(1) u(1) by (simp add: write_front_def ws tmp)
    moreover have "unat (db_last_sequence db1) + length (concat (drop (Suc n) q)) < 2 ^ 56"
      using u(3) lim split [of "Suc n"] by linarith
    ultimately show ?thesis using g(2) u(2) ws
      by (intro exI [of _ s] exI [of _ n]
        exI [of _ "db1\<lparr>db_writers := drop (Suc n) (w # ws), db_done := db_done db @ replicate (Suc n) s\<rparr>"]) (simp add: db_wf_def)
  next
    case False
    then have "write_front wops Bytewise_Compare room db =
        Some (room, db\<lparr>db_writers := drop (Suc 0) (w # ws), db_done := db_done db @ replicate (Suc 0) room\<rparr>)"
      by (auto simp: write_front_def ws)
    moreover have "unat (db_last_sequence db) + length (concat (drop (Suc 0) q)) < 2 ^ 56"
      using lim split [of "Suc 0"] by linarith
    ultimately show ?thesis using wf ws by (intro exI [of _ room] exI [of _ 0]
        exI [of _ "db\<lparr>db_writers := drop (Suc 0) (w # ws), db_done := db_done db @ replicate (Suc 0) room\<rparr>"]) (simp add: db_wf_def)
  qed
qed

text \<open>The writers at the front take turns until the queue is empty; \<open>rooms\<close> are the results of
  \<open>MakeRoomForWrite\<close>.\<close>

fun drain :: "'f WritableFile \<Rightarrow> compare_fun \<Rightarrow> Status list \<Rightarrow> 'f DB \<Rightarrow> 'f DB option" where
  "drain wops cmp [] db = Some db"
| "drain wops cmp (room # rooms) db = (if db_writers db = [] then Some db
     else do { (s, db1) \<leftarrow> write_front wops cmp room db; drain wops cmp rooms db1 })"

lemma drain_wf:
  assumes "db_wf db" and "queue_ops (db_writers db) q" and "unat (db_last_sequence db) + length (concat q) < 2 ^ 56"
    and "length (db_writers db) \<le> length rooms"
  shows "\<exists>db'. drain wops Bytewise_Compare rooms db = Some db' \<and> db_wf db' \<and> db_writers db' = [] \<and>
    length (db_done db') = length (db_done db) + length (db_writers db) \<and>
    take (length (db_done db)) (db_done db') = db_done db"
  using assms
proof (induction rooms arbitrary: db q)
  case (Cons room rooms)
  show ?case
  proof (cases "db_writers db = []")
    case False
    from write_front_wf [OF Cons.prems(1,2) False Cons.prems(3), of wops room] obtain s n db1 where
      f: "write_front wops Bytewise_Compare room db = Some (s, db1)" "n < length (db_writers db)" "db_wf db1"
      "db_writers db1 = drop (Suc n) (db_writers db)" "db_done db1 = db_done db @ replicate (Suc n) s"
      "unat (db_last_sequence db1) + length (concat (drop (Suc n) q)) < 2 ^ 56" by blast
    have "queue_ops (db_writers db1) (drop (Suc n) q)" using queue_ops_drop [OF Cons.prems(2), of "Suc n"] f(4) by simp
    moreover have "length (db_writers db1) \<le> length rooms" using Cons.prems(4) f(2,4) by simp
    ultimately obtain db' where
      d: "drain wops Bytewise_Compare rooms db1 = Some db'" "db_wf db'" "db_writers db' = []"
      "length (db_done db') = length (db_done db1) + length (db_writers db1)"
      "take (length (db_done db1)) (db_done db') = db_done db1"
      using Cons.IH [OF f(3) _ f(6)] by blast
    have "take (length a) y = a" if "take (length (a @ c)) y = a @ c" for a c y :: "Status list"
      using that by (metis append_eq_conv_conj append_take_drop_id append.assoc)
    then have "take (length (db_done db)) (db_done db') = db_done db" using d(5) unfolding f(5) by blast
    then show ?thesis using d False f by auto
  qed (use Cons.prems in simp)
qed simp

subsection \<open>The properties\<close>







text \<open>(C9) Every write is answered, also when the log or the device fails: from a state in which the
  memtable is a table of writes up to \<open>last_sequence\<close>, whatever \<open>MakeRoomForWrite\<close> returns and whatever
  the operations of the log file return, letting the front of the queue write once per waiting
  writer empties the queue, every waiting writer has received a status, the statuses of earlier
  writers are unchanged, and the state is such a state again.\<close>

theorem write_queue_drains:
  assumes "db_wf db" and "queue_ops (db_writers db) q" and "unat (db_last_sequence db) + length (concat q) < 2 ^ 56"
    and "length (db_writers db) \<le> length rooms"
  shows "\<exists>db'. drain wops Bytewise_Compare rooms db = Some db' \<and> db_wf db' \<and> db_writers db' = [] \<and>
    length (db_done db') = length (db_done db) + length (db_writers db) \<and>
    take (length (db_done db)) (db_done db') = db_done db"
  using drain_wf [OF assms] .

theorem write_queue_drains_witness:
  "\<exists>l w db'. Writer_new = Some l \<and> bw_batch w = Some (wb_rep 0 [WDel [3]]) \<and>
    drain (PosixWritableFile []) Bytewise_Compare [Status_OK] (write_enqueue w (DB_open l 9)) = Some db' \<and>
    db_writers db' = [] \<and> length (db_done db') = 1"
proof -
  define w where "w = \<lparr>bw_batch = Some (wb_rep 0 [WDel [3]]), bw_sync = True\<rparr>"
  have "Writer_new = Some \<lparr>w_block_offset = 0, w_type_crc = type_crcs\<rparr>" by (simp add: Writer_new_def InitTypeCrc_eq)
  then obtain l where l: "Writer_new = Some l" "w_type_crc l = type_crcs" "w_block_offset l = 0" by simp
  let ?db = "write_enqueue w (DB_open l 9)"
  have d: "db_writers ?db = [w]" "db_done ?db = []" "db_last_sequence ?db = 0"
    by (simp_all add: write_enqueue_def DB_open_def)
  have q: "queue_ops (db_writers ?db) [[WDel [3]]]" unfolding d(1) by (auto simp: w_def batch_is_def)
  have "db_wf ?db" using l mt_holds_new by (auto simp: db_wf_def write_enqueue_def DB_open_def)
  from write_queue_drains [OF this q, of "[Status_OK]" "PosixWritableFile []"] obtain db' where
    "drain (PosixWritableFile []) Bytewise_Compare [Status_OK] ?db = Some db'" "db_writers db' = []" "length (db_done db') = 1"
    unfolding d by auto
  moreover have "bw_batch w = Some (wb_rep 0 [WDel [3]])" by (simp add: w_def)
  ultimately show ?thesis using l(1) by blast
qed

end
