(* ===== verification/Ldb_Bloom.thy ===== *)
theory Ldb_Bloom
  imports Ldb_Dbformat
begin

unbundle bit_operations_syntax

text \<open>
  Filters: the hash function of \<open>util/hash.cc\<close>, the Bloom filter of \<open>util/bloom.cc\<close>, the interface
  \<open>FilterPolicy\<close> of \<open>include/leveldb/filter_policy.h\<close> with its contract as a locale, and the wrapper of
  \<open>db/dbformat.cc\<close> that strips the tag from internal keys. A filter may answer "maybe" for any key but
  never "no" for a key it was built from.
\<close>

subsection \<open>Hashing\<close>

function Hash_loop :: "u32 \<Rightarrow> slice \<Rightarrow> u32 \<times> slice" where
  "Hash_loop h data = (case DecodeFixed32 data of
     None \<Rightarrow> (h, data)
   | Some w \<Rightarrow> let h1 = (h + w) * 0xc6a4a793 in Hash_loop (h1 XOR drop_bit 16 h1) (drop 4 data))"
  by pat_completeness auto
termination
  by (relation "measure (\<lambda>(_, data). length data)") (auto simp: DecodeFixed32_def split: if_splits)

declare Hash_loop.simps [simp del]

definition Hash :: "slice \<Rightarrow> u32 \<Rightarrow> u32" where
  "Hash data seed = (let m = 0xc6a4a793;
     (h, rest) = Hash_loop (seed XOR (word_of_nat (length data) * m)) data;
     h3 = (if length rest = 3 then h + push_bit 16 (ucast (rest ! 2)) else h);
     h2 = (if length rest \<ge> 2 then h3 + push_bit 8 (ucast (rest ! 1)) else h3)
     in if length rest \<ge> 1 then
          let h1 = (h2 + ucast (rest ! 0)) * m in h1 XOR drop_bit 24 h1
        else h2)"

subsection \<open>The Bloom filter\<close>

definition BloomHash :: "slice \<Rightarrow> u32" where
  "BloomHash key = Hash key 0xbc9f1d34"

record BloomFilterPolicy =
  bits_per_key :: nat
  bloom_k :: nat

text \<open>The code multiplies by the floating-point constant \<open>0.69\<close>. The result is used up to 30, that is for
  \<open>bits_per_key < 44\<close>, where the product is at least \<open>0.01\<close> away from every integer it is not equal to
  and the integer division below gives the same.\<close>

definition BloomFilterPolicy_new :: "nat \<Rightarrow> BloomFilterPolicy" where
  "BloomFilterPolicy_new bits = (let k = bits * 69 div 100;
     k1 = (if k < 1 then 1 else k); k2 = (if k1 > 30 then 30 else k1)
     in \<lparr>bits_per_key = bits, bloom_k = k2\<rparr>)"

primrec set_probes :: "nat \<Rightarrow> u32 \<Rightarrow> u32 \<Rightarrow> nat \<Rightarrow> byte list \<Rightarrow> byte list" where
  "set_probes 0 h delta bits array = array"
| "set_probes (Suc k) h delta bits array = (let bitpos = unat h mod bits in
     set_probes k (h + delta) delta bits
       (array[bitpos div 8 := array ! (bitpos div 8) OR push_bit (bitpos mod 8) 1]))"

definition bloom_delta :: "u32 \<Rightarrow> u32" where
  "bloom_delta h = drop_bit 17 h OR push_bit 15 h"

definition Bloom_CreateFilter :: "BloomFilterPolicy \<Rightarrow> slice list \<Rightarrow> byte list \<Rightarrow> byte list" where
  "Bloom_CreateFilter pol keys dst = (let
     bits0 = length keys * bits_per_key pol;
     bits1 = (if bits0 < 64 then 64 else bits0);
     bytes = (bits1 + 7) div 8;
     bits = bytes * 8;
     init_size = length dst;
     dst1 = (dst @ replicate bytes 0) @ [word_of_nat (bloom_k pol)];
     array = fold (\<lambda>key array. let h = BloomHash key in set_probes (bloom_k pol) h (bloom_delta h) bits array)
               keys (drop init_size dst1)
     in take init_size dst1 @ array)"

primrec test_probes :: "nat \<Rightarrow> u32 \<Rightarrow> u32 \<Rightarrow> nat \<Rightarrow> byte list \<Rightarrow> bool" where
  "test_probes 0 h delta bits array = True"
| "test_probes (Suc k) h delta bits array = (let bitpos = unat h mod bits in
     if array ! (bitpos div 8) AND push_bit (bitpos mod 8) 1 = 0 then False
     else test_probes k (h + delta) delta bits array)"

text \<open>The stored number of probes is read through a signed \<open>char\<close>: a byte of 128 or more becomes a number
  far above 30, so comparing the byte itself with 30 decides the same.\<close>

definition Bloom_KeyMayMatch :: "slice \<Rightarrow> slice \<Rightarrow> bool" where
  "Bloom_KeyMayMatch key bloom_filter = (let len = length bloom_filter in
     if len < 2 then False
     else let bits = (len - 1) * 8; k = unat (bloom_filter ! (len - 1)) in
       if k > 30 then True
       else let h = BloomHash key in test_probes k h (bloom_delta h) bits bloom_filter)"

subsection \<open>The interface\<close>

record FilterPolicy =
  fp_CreateFilter :: "slice list \<Rightarrow> byte list \<Rightarrow> byte list option"
  fp_KeyMayMatch :: "slice \<Rightarrow> slice \<Rightarrow> bool option"

definition NewBloomFilterPolicy :: "nat \<Rightarrow> FilterPolicy" where
  "NewBloomFilterPolicy bits = (let pol = BloomFilterPolicy_new bits in
     \<lparr>fp_CreateFilter = (\<lambda>keys dst. Some (Bloom_CreateFilter pol keys dst)),
      fp_KeyMayMatch = (\<lambda>key f. Some (Bloom_KeyMayMatch key f))\<rparr>)"

primrec extract_all :: "slice list \<Rightarrow> slice list option" where
  "extract_all [] = Some []"
| "extract_all (k # ks) = do { u \<leftarrow> ExtractUserKey k; us \<leftarrow> extract_all ks; Some (u # us) }"

definition InternalFilterPolicy :: "FilterPolicy \<Rightarrow> FilterPolicy" where
  "InternalFilterPolicy user_policy =
     \<lparr>fp_CreateFilter = (\<lambda>keys dst. do { mkeys \<leftarrow> extract_all keys; fp_CreateFilter user_policy mkeys dst }),
      fp_KeyMayMatch = (\<lambda>key f. do { u \<leftarrow> ExtractUserKey key; fp_KeyMayMatch user_policy u f })\<rparr>"

text \<open>The contract, for keys in the domain \<open>ok\<close>: a filter is appended to \<open>dst\<close>, it matches the keys it was
  built from, and matching always has an answer, which is "no" for the empty filter.\<close>

locale filter_policy =
  fixes pol :: FilterPolicy and ok :: "slice \<Rightarrow> bool"
  assumes create: "keys \<noteq> [] \<Longrightarrow> \<forall>k \<in> set keys. ok k \<Longrightarrow>
      \<exists>f. fp_CreateFilter pol keys dst = Some (dst @ f) \<and> (\<forall>k \<in> set keys. fp_KeyMayMatch pol k f = Some True)"
    and match_total: "ok k \<Longrightarrow> \<exists>b. fp_KeyMayMatch pol k f = Some b"

subsection \<open>The probes\<close>

definition bit_at :: "byte list \<Rightarrow> nat \<Rightarrow> bool" where
  "bit_at array p \<longleftrightarrow> bit (array ! (p div 8)) (p mod 8)"

definition probe_pos :: "nat \<Rightarrow> u32 \<Rightarrow> u32 \<Rightarrow> nat \<Rightarrow> nat" where
  "probe_pos bits h delta j = unat (h + word_of_nat j * delta) mod bits"

lemma probe_pos_0: "probe_pos bits h delta 0 = unat h mod bits"
  by (simp add: probe_pos_def)

lemma probe_pos_Suc: "probe_pos bits (h + delta) delta j = probe_pos bits h delta (Suc j)"
  by (simp add: probe_pos_def algebra_simps)

lemma ex_less_Suc: "(\<exists>j < Suc k. P j) \<longleftrightarrow> P 0 \<or> (\<exists>j < k. P (Suc j))"
  by (metis Ex_less_Suc2)

lemma all_less_Suc: "(\<forall>j < Suc k. P j) \<longleftrightarrow> P 0 \<and> (\<forall>j < k. P (Suc j))"
  by (metis All_less_Suc2)

lemma bit_at_set:
  assumes "p div 8 < length array" and "q div 8 < length array"
  shows "bit_at (array[q div 8 := array ! (q div 8) OR push_bit (q mod 8) 1]) p \<longleftrightarrow> bit_at array p \<or> p = q"
proof -
  have "p = q \<longleftrightarrow> p div 8 = q div 8 \<and> p mod 8 = q mod 8" by (metis div_mult_mod_eq)
  then show ?thesis using assms
    by (auto simp: bit_at_def nth_list_update bit_simps)
qed

lemma length_set_probes [simp]: "length (set_probes k h delta bits array) = length array"
  by (induction k arbitrary: h array) (simp_all add: Let_def)

lemma set_probes_spec:
  assumes "bits = 8 * n" and "0 < n" and "n \<le> length array" and "p < bits"
  shows "bit_at (set_probes k h delta bits array) p \<longleftrightarrow> bit_at array p \<or> (\<exists>j < k. probe_pos bits h delta j = p)"
  using assms(3)
proof (induction k arbitrary: h array)
  case (Suc k)
  have "(unat h mod bits) div 8 < length array" "p div 8 < length array"
    using assms(1,2,4) Suc.prems less_le_trans [OF mod_less_divisor, of bits "length array * 8" "unat h"]
    by (simp_all add: div_less_iff_less_mult)
  from bit_at_set [OF this(2,1)] show ?case
    using Suc by (auto simp: Let_def ex_less_Suc probe_pos_0 probe_pos_Suc)
qed simp

lemma set_probes_rest:
  assumes "bits = 8 * n" and "0 < n"
  shows "n \<le> i \<Longrightarrow> set_probes k h delta bits array ! i = array ! i"
proof (induction k arbitrary: h array)
  case (Suc k)
  have "(unat h mod bits) div 8 < n" using assms mod_less_divisor [of bits "unat h"]
    by (simp add: div_less_iff_less_mult mult.commute)
  then show ?case using Suc by (simp add: Let_def)
qed simp

lemma test_probes_spec:
  "test_probes k h delta bits array \<longleftrightarrow> (\<forall>j < k. bit_at array (probe_pos bits h delta j))"
proof (induction k arbitrary: h)
  case (Suc k)
  have "(b AND push_bit i 1 = 0) \<longleftrightarrow> \<not> bit b i" if "i < 8" for b :: byte and i
    using that by (auto simp: bit_eq_iff [where 'a = byte] bit_simps)
  then have "(array ! (unat h mod bits div 8) AND push_bit (unat h mod bits mod 8) 1 = 0) \<longleftrightarrow> \<not> bit_at array (unat h mod bits)"
    by (simp add: bit_at_def)
  then show ?case using Suc by (simp add: Let_def all_less_Suc probe_pos_0 probe_pos_Suc)
qed simp

definition bloom_probe :: "nat \<Rightarrow> slice \<Rightarrow> nat \<Rightarrow> nat" where
  "bloom_probe bits key j = probe_pos bits (BloomHash key) (bloom_delta (BloomHash key)) j"

lemma fold_probes:
  fixes keys k array bits
  defines "R \<equiv> fold (\<lambda>key array. let h = BloomHash key in set_probes k h (bloom_delta h) bits array) keys array"
  assumes "bits = 8 * n" and "0 < n" and "length array = Suc n"
  shows "length R = Suc n \<and> R ! n = array ! n \<and>
    (\<forall>p < bits. bit_at R p \<longleftrightarrow> bit_at array p \<or> (\<exists>key \<in> set keys. \<exists>j < k. bloom_probe bits key j = p))"
  unfolding R_def using assms(4)
proof (induction keys arbitrary: array)
  case (Cons key keys)
  let ?a = "set_probes k (BloomHash key) (bloom_delta (BloomHash key)) bits array"
  have "?a ! n = array ! n" using set_probes_rest [OF assms(2,3)] by simp
  moreover have "bit_at ?a p \<longleftrightarrow> bit_at array p \<or> (\<exists>j < k. bloom_probe bits key j = p)" if "p < bits" for p
    using set_probes_spec [OF assms(2,3) _ that] Cons.prems by (simp add: bloom_probe_def)
  ultimately show ?case using Cons.IH [of ?a] Cons.prems by (auto simp: Let_def)
qed simp

lemma BloomFilterPolicy_new_k: "1 \<le> bloom_k (BloomFilterPolicy_new bits)" "bloom_k (BloomFilterPolicy_new bits) \<le> 30"
  by (simp_all add: BloomFilterPolicy_new_def Let_def)

lemma Bloom_CreateFilter_spec:
  assumes "bloom_k pol \<le> 30"
  obtains f n where "Bloom_CreateFilter pol keys dst = dst @ f" "length f = Suc n" "8 \<le> n" "f ! n = word_of_nat (bloom_k pol)"
    "length keys * bits_per_key pol \<le> 8 * n"
    "\<And>p. p < 8 * n \<Longrightarrow> bit_at f p \<longleftrightarrow> (\<exists>key \<in> set keys. \<exists>j < bloom_k pol. bloom_probe (8 * n) key j = p)"
proof -
  let ?b = "length keys * bits_per_key pol"
  define n where "n = ((if ?b < 64 then 64 else ?b) + 7) div 8"
  define A where "A = replicate n 0 @ [word_of_nat (bloom_k pol) :: byte]"
  define f where "f = fold (\<lambda>key array. let h = BloomHash key in set_probes (bloom_k pol) h (bloom_delta h) (8 * n) array) keys A"
  have n: "8 \<le> n" "?b \<le> 8 * n" by (auto simp: n_def)
  have A: "length A = Suc n" "A ! n = word_of_nat (bloom_k pol)" by (simp_all add: A_def nth_append)
  have z: "\<not> bit_at A p" if "p < 8 * n" for p
    using that by (simp add: A_def bit_at_def nth_append div_less_iff_less_mult)
  have "Bloom_CreateFilter pol keys dst = dst @ f"
    by (simp add: Bloom_CreateFilter_def Let_def f_def A_def n_def mult.commute)
  moreover have "length f = Suc n \<and> f ! n = A ! n \<and>
      (\<forall>p < 8 * n. bit_at f p \<longleftrightarrow> bit_at A p \<or> (\<exists>key \<in> set keys. \<exists>j < bloom_k pol. bloom_probe (8 * n) key j = p))"
    unfolding f_def by (rule fold_probes) (use n A in simp_all)
  ultimately show thesis using n A z by (intro that [of f n]) auto
qed

lemma Bloom_KeyMayMatch_spec:
  assumes "length f = Suc n" and "1 \<le> n" and "f ! n = word_of_nat k" and "k \<le> 30"
  shows "Bloom_KeyMayMatch key f \<longleftrightarrow> (\<forall>j < k. bit_at f (bloom_probe (8 * n) key j))"
  using assms by (simp add: Bloom_KeyMayMatch_def Let_def test_probes_spec bloom_probe_def unat_of_nat mult.commute)

lemma bloom_probe_less: "0 < bits \<Longrightarrow> bloom_probe bits key j < bits"
  by (simp add: bloom_probe_def probe_pos_def)

lemma bloom_matches:
  assumes "bloom_k pol \<le> 30"
  shows "\<exists>f n. Bloom_CreateFilter pol keys dst = dst @ f \<and> length f = Suc n \<and> length keys * bits_per_key pol \<le> 8 * n \<and>
    (\<forall>key. Bloom_KeyMayMatch key f \<longleftrightarrow>
      (\<forall>i < bloom_k pol. \<exists>key' \<in> set keys. \<exists>j < bloom_k pol. bloom_probe (8 * n) key' j = bloom_probe (8 * n) key i))"
proof -
  from Bloom_CreateFilter_spec [OF assms, of keys dst] obtain f n where
    f: "Bloom_CreateFilter pol keys dst = dst @ f" "length f = Suc n" "8 \<le> n" "f ! n = word_of_nat (bloom_k pol)"
    "length keys * bits_per_key pol \<le> 8 * n"
    "\<And>p. p < 8 * n \<Longrightarrow> bit_at f p \<longleftrightarrow> (\<exists>key \<in> set keys. \<exists>j < bloom_k pol. bloom_probe (8 * n) key j = p)" by blast
  have "1 \<le> n" using f(3) by simp
  note m = Bloom_KeyMayMatch_spec [OF f(2) this f(4) assms]
  show ?thesis using f(1-3,5) by (intro exI [of _ f] exI [of _ n]) (auto simp: m f(6) bloom_probe_less)
qed

interpretation bloom: filter_policy "NewBloomFilterPolicy bits" "\<lambda>_. True"
proof
  fix keys :: "slice list" and dst
  from bloom_matches [OF BloomFilterPolicy_new_k(2), of bits keys dst] show
    "\<exists>f. fp_CreateFilter (NewBloomFilterPolicy bits) keys dst = Some (dst @ f) \<and>
      (\<forall>k \<in> set keys. fp_KeyMayMatch (NewBloomFilterPolicy bits) k f = Some True)"
    by (auto simp: NewBloomFilterPolicy_def Let_def)
qed (simp add: NewBloomFilterPolicy_def Let_def)

subsection \<open>The wrapper for internal keys\<close>

lemma extract_all_ok: "\<forall>k \<in> set keys. ik_ok ok k \<Longrightarrow> \<exists>us. extract_all keys = Some us \<and> length us = length keys \<and>
    (\<forall>u \<in> set us. ok u) \<and> (\<forall>k \<in> set keys. \<exists>u \<in> set us. ExtractUserKey k = Some u)"
proof (induction keys)
  case (Cons k keys)
  then obtain us where us: "extract_all keys = Some us" "length us = length keys" "\<forall>u \<in> set us. ok u"
    "\<forall>k \<in> set keys. \<exists>u \<in> set us. ExtractUserKey k = Some u" by auto
  obtain u where "ExtractUserKey k = Some u" "ok u" using Cons.prems by (auto simp: ik_ok_def ExtractUserKey_def)
  then show ?case using us by auto
qed simp

context filter_policy begin

lemma internal_policy: "filter_policy (InternalFilterPolicy pol) (ik_ok ok)"
proof
  fix keys dst
  assume keys: "keys \<noteq> []" "\<forall>k \<in> set keys. ik_ok ok k"
  from extract_all_ok [OF this(2)] obtain us where
    us: "extract_all keys = Some us" "length us = length keys" "\<forall>u \<in> set us. ok u"
    "\<forall>k \<in> set keys. \<exists>u \<in> set us. ExtractUserKey k = Some u" by blast
  have "us \<noteq> []" using us(2) keys(1) by auto
  from create [OF this us(3), of dst] obtain f where
    "fp_CreateFilter pol us dst = Some (dst @ f)" "\<forall>k \<in> set us. fp_KeyMayMatch pol k f = Some True" by blast
  then show "\<exists>f. fp_CreateFilter (InternalFilterPolicy pol) keys dst = Some (dst @ f) \<and>
      (\<forall>k \<in> set keys. fp_KeyMayMatch (InternalFilterPolicy pol) k f = Some True)"
    using us by (fastforce simp: InternalFilterPolicy_def)
next
  fix k f
  assume "ik_ok ok k"
  then obtain u where "ExtractUserKey k = Some u" "ok u" by (auto simp: ik_ok_def ExtractUserKey_def)
  then show "\<exists>b. fp_KeyMayMatch (InternalFilterPolicy pol) k f = Some b"
    using match_total by (simp add: InternalFilterPolicy_def)
qed

end

interpretation ibloom: filter_policy "InternalFilterPolicy (NewBloomFilterPolicy bits)" "ik_ok (\<lambda>_. True)"
  by (rule bloom.internal_policy)

subsection \<open>Properties\<close>

text \<open>(C36) What a Bloom filter answers: \<open>CreateFilter\<close> appends a filter with at least \<open>bits_per_key\<close> bits per
  key, and \<open>KeyMayMatch\<close> answers "maybe" for a key exactly when each of its probes meets a probe of some
  key the filter was built from; so it always does for these keys, and for no key when there are none.\<close>

theorem bloom_filter_exact:
  "\<exists>f n. Bloom_CreateFilter (BloomFilterPolicy_new bits) keys dst = dst @ f \<and> length f = Suc n \<and>
    length keys * bits \<le> 8 * n \<and>
    (\<forall>key. Bloom_KeyMayMatch key f \<longleftrightarrow>
      (\<forall>i < bloom_k (BloomFilterPolicy_new bits). \<exists>key' \<in> set keys. \<exists>j < bloom_k (BloomFilterPolicy_new bits).
        bloom_probe (8 * n) key' j = bloom_probe (8 * n) key i)) \<and>
    (\<forall>key \<in> set keys. Bloom_KeyMayMatch key f) \<and> (keys = [] \<longrightarrow> (\<forall>key. \<not> Bloom_KeyMayMatch key f))"
proof -
  have b: "bits_per_key (BloomFilterPolicy_new bits) = bits" by (simp add: BloomFilterPolicy_new_def Let_def)
  have "0 < bloom_k (BloomFilterPolicy_new bits)" using BloomFilterPolicy_new_k(1) [of bits] by simp
  with bloom_matches [OF BloomFilterPolicy_new_k(2) [of bits], of keys dst] show ?thesis
    unfolding b by (elim exE) (rule exI, rule exI, auto)
qed

theorem bloom_filter_exact_witness:
  "\<exists>f. Bloom_CreateFilter (BloomFilterPolicy_new 10) [[1], [2, 3]] [9] = [9] @ f \<and> Bloom_KeyMayMatch [2, 3] f"
  using bloom_filter_exact [of 10 "[[1], [2, 3]]" "[9]"] by auto

end
