(* ===== verification/Ldb_Options.thy ===== *)
theory Ldb_Options
  imports Ldb_Bloom
begin

text \<open>
  \<open>include/leveldb/options.h\<close>, \<open>util/options.cc\<close> and \<open>SanitizeOptions\<close> of \<open>db/db_impl.cc\<close>: the options that
  tables and the write path use, their defaults, and how the store replaces the user's comparator and filter
  policy by the ones on internal keys and clips the sizes. \<open>size_t\<close> is a 64-bit word and \<open>int\<close> a 32-bit word.
\<close>

text \<open>A comparator is its three operations; a filter policy comes with its name. The environment, the
  logger, the cache and the flags of \<open>DB::Open\<close> are not part of the record.\<close>

record Options =
  o_cmp :: "slice \<Rightarrow> slice \<Rightarrow> int option"
  o_sep :: "slice \<Rightarrow> slice \<Rightarrow> slice option"
  o_succ :: "slice \<Rightarrow> slice option"
  o_paranoid_checks :: bool
  o_write_buffer_size :: u64
  o_max_open_files :: u32
  o_block_size :: u64
  o_restart_interval :: nat
  o_max_file_size :: u64
  o_compression :: byte
  o_filter :: "(FilterPolicy \<times> slice) option"

definition kNoCompression :: byte where
  "kNoCompression = 0"

definition kSnappyCompression :: byte where
  "kSnappyCompression = 1"

definition Options_new :: Options where
  "Options_new = \<lparr>o_cmp = Bytewise_Compare, o_sep = Bytewise_FindShortestSeparator, o_succ = Bytewise_FindShortSuccessor,
     o_paranoid_checks = False, o_write_buffer_size = push_bit 20 4, o_max_open_files = 1000, o_block_size = 4096,
     o_restart_interval = 16, o_max_file_size = push_bit 20 2, o_compression = kSnappyCompression, o_filter = None\<rparr>"

text \<open>\<open>ClipToRange<T, int>\<close>: the value is compared after a conversion to \<open>int\<close>.\<close>

definition ClipToRange :: "u64 \<Rightarrow> u32 \<Rightarrow> u32 \<Rightarrow> u64" where
  "ClipToRange v minvalue maxvalue =
     (let v1 = (if sint (ucast v :: u32) > sint maxvalue then scast maxvalue else v)
      in if sint (ucast v1 :: u32) < sint minvalue then scast minvalue else v1)"

definition ClipToRange_int :: "u32 \<Rightarrow> u32 \<Rightarrow> u32 \<Rightarrow> u32" where
  "ClipToRange_int v minvalue maxvalue =
     (let v1 = (if sint v > sint maxvalue then maxvalue else v)
      in if sint v1 < sint minvalue then minvalue else v1)"

definition kNumNonTableCacheFiles :: u32 where
  "kNumNonTableCacheFiles = 10"

text \<open>With the comparator and the policy that the constructor of \<open>DBImpl\<close> passes.\<close>

definition SanitizeOptions :: "Options \<Rightarrow> Options" where
  "SanitizeOptions src = src\<lparr>
     o_cmp := InternalKey_Compare (o_cmp src),
     o_sep := InternalKey_FindShortestSeparator (o_cmp src) (o_sep src),
     o_succ := InternalKey_FindShortSuccessor (o_cmp src) (o_succ src),
     o_filter := map_option (\<lambda>(pol, name). (InternalFilterPolicy pol, name)) (o_filter src),
     o_max_open_files := ClipToRange_int (o_max_open_files src) (64 + kNumNonTableCacheFiles) 50000,
     o_write_buffer_size := ClipToRange (o_write_buffer_size src) (push_bit 10 64) (push_bit 30 1),
     o_max_file_size := ClipToRange (o_max_file_size src) (push_bit 20 1) (push_bit 30 1),
     o_block_size := ClipToRange (o_block_size src) (push_bit 10 1) (push_bit 20 4)\<rparr>"

subsection \<open>The ranges\<close>

lemma sint_small: "unat (w :: u32) < 2 ^ 31 \<Longrightarrow> sint w = int (unat w)"
proof -
  assume n: "unat w < 2 ^ 31"
  have "sint (word_of_nat k :: u32) = int k" if "k < 2 ^ 31" for k
    using that by (simp add: signed_of_nat signed_take_bit_int_eq_self)
  from this [OF n] show ?thesis by simp
qed

lemma ClipToRange_clips:
  assumes "unat v < 2 ^ 31" and "unat lo \<le> unat hi" and "unat hi < 2 ^ 31"
  shows "unat (ClipToRange v lo hi) = max (unat lo) (min (unat hi) (unat v))"
proof -
  have u: "sint (ucast w :: u32) = int (unat w)" if "unat w < 2 ^ 31" for w :: u64
  proof -
    have "unat (ucast w :: u32) = unat w" using that by (simp add: unsigned_ucast_eq take_bit_nat_eq_self)
    then show ?thesis using sint_small [of "ucast w"] that by simp
  qed
  have s: "unat (scast w :: u64) = unat w" "sint w = int (unat w)" if "unat w < 2 ^ 31" for w :: u32
  proof -
    show "sint w = int (unat w)" by (rule sint_small [OF that])
    then have "(scast w :: u64) = word_of_nat (unat w)" by (metis of_int_of_nat_eq of_int_sint)
    then show "unat (scast w :: u64) = unat w" using that by (simp add: unat_of_nat)
  qed
  have lo: "unat lo < 2 ^ 31" using assms by simp
  show ?thesis using u [OF assms(1)] s [OF assms(3)] s [OF lo] u [of "scast hi"] assms
    by (auto simp: ClipToRange_def Let_def max_def min_def simp del: of_nat_unat)
qed

text \<open>A size of four gigabytes converts to zero and is clipped to the lower bound; one of a few bytes more
  than four gigabytes and a kilobyte passes unchanged.\<close>

lemma ClipToRange_wraps:
  "ClipToRange (push_bit 32 1) (push_bit 10 64) (push_bit 30 1) = push_bit 10 64"
  "ClipToRange (push_bit 32 1 + 2000) (push_bit 10 1) (push_bit 20 4) = push_bit 32 1 + 2000"
  by (simp_all add: ClipToRange_def Let_def)

lemma SanitizeOptions_block_size:
  "unat (o_block_size opt) < 2 ^ 31 \<Longrightarrow>
    unat (o_block_size (SanitizeOptions opt)) = max 1024 (min 4194304 (unat (o_block_size opt)))"
  using ClipToRange_clips [of "o_block_size opt" "push_bit 10 1" "push_bit 20 4"] by (simp add: SanitizeOptions_def)

end
