(* ===== verification/Ldb_Format.thy ===== *)
theory Ldb_Format
  imports Ldb_Env Ldb_Crc32c Ldb_Coding Ldb_Options
begin

unbundle bit_operations_syntax

text \<open>
  \<open>table/format.cc\<close>: block handles, the footer of a table file and \<open>ReadBlock\<close>, over random-access files:
  the interface of \<open>include/leveldb/env.h\<close> with its contract, interpreted on the two implementations of
  \<open>util/env_posix.cc\<close>. Reading outside of a buffer is \<open>None\<close>.
\<close>

subsection \<open>Random-access files\<close>

text \<open>\<open>Read offset n\<close> gives the status, the bytes, and whether they are in the scratch buffer of the caller.\<close>

record 'f RandomAccessFile =
  ra_Read :: "u64 \<Rightarrow> u64 \<Rightarrow> 'f \<Rightarrow> (Status \<times> slice \<times> bool) option"

text \<open>A file as the operating system presents it: its bytes, whether the descriptor is temporary, whether
  opening it again and reading it succeed, and the text of the error.\<close>

record posix_file =
  pf_data :: "byte list"
  pf_temporary_fd :: bool
  pf_open_ok :: bool
  pf_read_ok :: bool
  pf_strerror :: "byte list"

definition pread :: "u64 \<Rightarrow> u64 \<Rightarrow> posix_file \<Rightarrow> byte list option" where
  "pread n off f = (if pf_read_ok f \<and> 0 \<le> sint off then Some (take (unat n) (drop (unat off) (pf_data f))) else None)"

definition PosixRandomAccessFile_Read :: "slice \<Rightarrow> u64 \<Rightarrow> u64 \<Rightarrow> posix_file \<Rightarrow> (Status \<times> slice \<times> bool) option" where
  "PosixRandomAccessFile_Read filename off n f =
     (if pf_temporary_fd f \<and> \<not> pf_open_ok f then Some (Status_IOError filename (pf_strerror f), [], True)
      else (case pread n off f of
        None \<Rightarrow> Some (Status_IOError filename (pf_strerror f), [], True)
      | Some bs \<Rightarrow> Some (Status_OK, bs, True)))"

text \<open>The sum of the bounds check wraps around; a slice outside of the mapping has no bytes.\<close>

definition PosixMmapReadableFile_Read :: "slice \<Rightarrow> u64 \<Rightarrow> u64 \<Rightarrow> posix_file \<Rightarrow> (Status \<times> slice \<times> bool) option" where
  "PosixMmapReadableFile_Read filename off n f =
     (if off + n > word_of_nat (length (pf_data f)) then Some (Status_IOError filename (pf_strerror f), [], False)
      else if unat off + unat n \<le> length (pf_data f) then Some (Status_OK, take (unat n) (drop (unat off) (pf_data f)), False)
      else None)"

definition PosixRandomAccessFile :: "slice \<Rightarrow> posix_file RandomAccessFile" where
  "PosixRandomAccessFile filename = \<lparr>ra_Read = PosixRandomAccessFile_Read filename\<rparr>"

definition PosixMmapReadableFile :: "slice \<Rightarrow> posix_file RandomAccessFile" where
  "PosixMmapReadableFile filename = \<lparr>ra_Read = PosixMmapReadableFile_Read filename\<rparr>"

text \<open>What readers of tables rely on.\<close>

locale random_access_file =
  fixes rops :: "'f RandomAccessFile" and bytes :: "'f \<Rightarrow> byte list" and healthy :: "'f \<Rightarrow> bool"
  assumes ra_read: "healthy f \<Longrightarrow> unat off + unat n \<le> length (bytes f) \<Longrightarrow>
      \<exists>scratch. ra_Read rops off n f = Some (Status_OK, take (unat n) (drop (unat off) (bytes f)), scratch)"
    and ra_size: "healthy f \<Longrightarrow> length (bytes f) < 2 ^ 63"

definition pf_healthy :: "posix_file \<Rightarrow> bool" where
  "pf_healthy f \<longleftrightarrow> pf_open_ok f \<and> pf_read_ok f \<and> length (pf_data f) < 2 ^ 63"

lemma sint_nonneg: "unat (off :: u64) < 2 ^ 63 \<Longrightarrow> 0 \<le> sint off"
proof -
  assume n: "unat off < 2 ^ 63"
  have "0 \<le> sint (word_of_nat k :: u64)" if "k < 2 ^ 63" for k
    using that by (simp add: signed_of_nat signed_take_bit_int_eq_self)
  from this [OF n] show ?thesis by simp
qed

interpretation pread: random_access_file "PosixRandomAccessFile filename" pf_data pf_healthy
proof
  fix f and off n :: u64
  assume f: "pf_healthy f" and n: "unat off + unat n \<le> length (pf_data f)"
  then have "0 \<le> sint off" by (intro sint_nonneg) (simp add: pf_healthy_def)
  then show "\<exists>scratch. ra_Read (PosixRandomAccessFile filename) off n f = Some (Status_OK, take (unat n) (drop (unat off) (pf_data f)), scratch)"
    using f by (auto simp: PosixRandomAccessFile_def PosixRandomAccessFile_Read_def pread_def pf_healthy_def)
qed (simp add: pf_healthy_def)

interpretation mmap: random_access_file "PosixMmapReadableFile filename" pf_data pf_healthy
proof
  fix f and off n :: u64
  assume f: "pf_healthy f" and n: "unat off + unat n \<le> length (pf_data f)"
  then have lim: "length (pf_data f) < 2 ^ 63" by (simp add: pf_healthy_def)
  have "unat (off + n) = unat off + unat n" using n lim by (simp add: unat_word_ariths(1))
  then have "\<not> off + n > word_of_nat (length (pf_data f))" using n lim by (simp add: word_less_nat_alt unat_of_nat)
  then show "\<exists>scratch. ra_Read (PosixMmapReadableFile filename) off n f = Some (Status_OK, take (unat n) (drop (unat off) (pf_data f)), scratch)"
    using n by (auto simp: PosixMmapReadableFile_def PosixMmapReadableFile_Read_def)
qed (simp add: pf_healthy_def)

subsection \<open>Block handles and the footer\<close>

record BlockHandle =
  bh_offset :: u64
  bh_size :: u64

definition BlockHandle_new :: BlockHandle where
  "BlockHandle_new = \<lparr>bh_offset = NOT 0, bh_size = NOT 0\<rparr>"

definition kMaxEncodedLength :: nat where
  "kMaxEncodedLength = 10 + 10"

definition BlockHandle_EncodeTo :: "BlockHandle \<Rightarrow> byte list \<Rightarrow> byte list option" where
  "BlockHandle_EncodeTo h dst = (if bh_offset h \<noteq> NOT 0 \<and> bh_size h \<noteq> NOT 0
     then Some (PutVarint64 (PutVarint64 dst (bh_offset h)) (bh_size h)) else None)"

definition BlockHandle_DecodeFrom :: "slice \<Rightarrow> BlockHandle \<Rightarrow> Status \<times> BlockHandle \<times> slice" where
  "BlockHandle_DecodeFrom input h = (case GetVarint64 input of
     None \<Rightarrow> (Corruption ''bad block handle'', h, input)
   | Some (off, input1) \<Rightarrow> (case GetVarint64 input1 of
       None \<Rightarrow> (Corruption ''bad block handle'', h\<lparr>bh_offset := off\<rparr>, input1)
     | Some (siz, input2) \<Rightarrow> (Status_OK, \<lparr>bh_offset = off, bh_size = siz\<rparr>, input2)))"

record Footer =
  ft_metaindex_handle :: BlockHandle
  ft_index_handle :: BlockHandle

definition Footer_new :: Footer where
  "Footer_new = \<lparr>ft_metaindex_handle = BlockHandle_new, ft_index_handle = BlockHandle_new\<rparr>"

definition kTableMagicNumber :: u64 where
  "kTableMagicNumber = 0xdb4775248b80fb57"

definition Footer_kEncodedLength :: nat where
  "Footer_kEncodedLength = 2 * kMaxEncodedLength + 8"

definition resize :: "nat \<Rightarrow> byte list \<Rightarrow> byte list" where
  "resize n s = take n s @ replicate (n - length s) 0"

definition Footer_EncodeTo :: "Footer \<Rightarrow> byte list \<Rightarrow> byte list option" where
  "Footer_EncodeTo ft dst = do {
     let original_size = length dst;
     dst1 \<leftarrow> BlockHandle_EncodeTo (ft_metaindex_handle ft) dst;
     dst2 \<leftarrow> BlockHandle_EncodeTo (ft_index_handle ft) dst1;
     let dst3 = resize (2 * kMaxEncodedLength) dst2;
     let dst4 = PutFixed32 dst3 (ucast (kTableMagicNumber AND 0xffffffff));
     let dst5 = PutFixed32 dst4 (ucast (drop_bit 32 kTableMagicNumber));
     if length dst5 = original_size + Footer_kEncodedLength then Some dst5 else None }"

definition Footer_DecodeFrom :: "slice \<Rightarrow> Footer \<Rightarrow> (Status \<times> Footer \<times> slice) option" where
  "Footer_DecodeFrom input ft = do {
     magic_lo \<leftarrow> DecodeFixed32 (drop (Footer_kEncodedLength - 8) input);
     magic_hi \<leftarrow> DecodeFixed32 (drop (Footer_kEncodedLength - 4) input);
     let magic = push_bit 32 (ucast magic_hi) OR ucast magic_lo;
     if magic \<noteq> kTableMagicNumber then Some (Corruption ''not an sstable (bad magic number)'', ft, input)
     else let (s, mh, input1) = BlockHandle_DecodeFrom input (ft_metaindex_handle ft);
              ft1 = ft\<lparr>ft_metaindex_handle := mh\<rparr>
       in if \<not> Status_ok s then Some (s, ft1, input1)
          else let (s2, ih, input2) = BlockHandle_DecodeFrom input1 (ft_index_handle ft);
                   ft2 = ft1\<lparr>ft_index_handle := ih\<rparr>
            in if \<not> Status_ok s2 then Some (s2, ft2, input2)
               else Some (s2, ft2, drop Footer_kEncodedLength input) }"

subsection \<open>Reading a block\<close>

text \<open>Compression is the library \<open>snappy\<close> when the port is built with it: the result of \<open>Snappy_Compress\<close>, and
  of \<open>Snappy_GetUncompressedLength\<close> with \<open>Snappy_Uncompress\<close>. The pod is built without it.\<close>

record Snappy =
  Snappy_Compress :: "slice \<Rightarrow> slice option"
  Snappy_Uncompress :: "slice \<Rightarrow> slice option"

definition port_snappy :: Snappy where
  "port_snappy = \<lparr>Snappy_Compress = (\<lambda>_. None), Snappy_Uncompress = (\<lambda>_. None)\<rparr>"

definition kBlockTrailerSize :: nat where
  "kBlockTrailerSize = 5"

record BlockContents =
  bc_data :: slice
  bc_cachable :: bool
  bc_heap_allocated :: bool

text \<open>The length \<open>n + kBlockTrailerSize\<close> is a machine word and wraps around.\<close>

definition ReadBlock ::
  "'f RandomAccessFile \<Rightarrow> Snappy \<Rightarrow> bool \<Rightarrow> BlockHandle \<Rightarrow> 'f \<Rightarrow> (Status \<times> BlockContents) option" where
  "ReadBlock rops snappy verify_checksums handle f = do {
     let result = \<lparr>bc_data = [], bc_cachable = False, bc_heap_allocated = False\<rparr>;
     let n = bh_size handle;
     (s, contents, in_buf) \<leftarrow> ra_Read rops (bh_offset handle) (n + word_of_nat kBlockTrailerSize) f;
     if \<not> Status_ok s then Some (s, result)
     else if length contents \<noteq> unat (n + word_of_nat kBlockTrailerSize) then Some (Corruption ''truncated block read'', result)
     else do {
       good \<leftarrow> (if verify_checksums then do {
           crc \<leftarrow> DecodeFixed32 (drop (unat n + 1) contents);
           actual \<leftarrow> (if unat n + 1 \<le> length contents then crc32c_Value 0 (take (unat n + 1) contents) else None);
           Some (actual = crc_Unmask crc) } else Some True);
       if \<not> good then Some (Corruption ''block checksum mismatch'', result)
       else if unat n \<ge> length contents then None
       else let type = contents ! unat n in
         if type = kNoCompression then
           if \<not> in_buf then Some (Status_OK, \<lparr>bc_data = take (unat n) contents, bc_cachable = False, bc_heap_allocated = False\<rparr>)
           else Some (Status_OK, \<lparr>bc_data = take (unat n) contents, bc_cachable = True, bc_heap_allocated = True\<rparr>)
         else if type = kSnappyCompression then
           (case Snappy_Uncompress snappy (take (unat n) contents) of
              None \<Rightarrow> Some (Corruption ''corrupted compressed block contents'', result)
            | Some u \<Rightarrow> Some (Status_OK, \<lparr>bc_data = u, bc_cachable = True, bc_heap_allocated = True\<rparr>))
         else Some (Corruption ''bad block type'', result) } }"

subsection \<open>Round trips\<close>

lemma BlockHandle_Decode_Encode:
  "BlockHandle_EncodeTo h [] = Some bs \<Longrightarrow> BlockHandle_DecodeFrom (bs @ rest) h' = (Status_OK, h, rest)"
  by (auto simp: BlockHandle_EncodeTo_def BlockHandle_DecodeFrom_def PutVarint64_def split: if_splits)

lemma BlockHandle_Encode_append:
  "BlockHandle_EncodeTo h dst = map_option ((@) dst) (BlockHandle_EncodeTo h [])"
  by (simp add: BlockHandle_EncodeTo_def PutVarint64_def)

lemma BlockHandle_Encode_length: "BlockHandle_EncodeTo h [] = Some bs \<Longrightarrow> length bs \<le> kMaxEncodedLength"
  using length_EncodeVarint64 [of "bh_offset h"] length_EncodeVarint64 [of "bh_size h"]
  by (auto simp: BlockHandle_EncodeTo_def PutVarint64_def kMaxEncodedLength_def split: if_splits)

definition handle_ok :: "BlockHandle \<Rightarrow> bool" where
  "handle_ok h \<longleftrightarrow> bh_offset h \<noteq> NOT 0 \<and> bh_size h \<noteq> NOT 0"

lemma BlockHandle_Encode_ok: "handle_ok h \<Longrightarrow> \<exists>bs. BlockHandle_EncodeTo h [] = Some bs"
  by (simp add: handle_ok_def BlockHandle_EncodeTo_def)

lemma Footer_roundtrip_aux:
  assumes "handle_ok (ft_metaindex_handle ft)" and "handle_ok (ft_index_handle ft)"
  shows "\<exists>bs. Footer_EncodeTo ft [] = Some bs \<and> length bs = Footer_kEncodedLength \<and>
    (\<forall>rest ft'. Footer_DecodeFrom (bs @ rest) ft' = Some (Status_OK, ft, rest))"
proof -
  obtain m i where m: "BlockHandle_EncodeTo (ft_metaindex_handle ft) [] = Some m" and i: "BlockHandle_EncodeTo (ft_index_handle ft) [] = Some i"
    using BlockHandle_Encode_ok assms by blast
  let ?pad = "replicate (40 - (length m + length i)) 0 :: byte list"
  let ?magic = "EncodeFixed32 (ucast (kTableMagicNumber AND 0xffffffff)) @ EncodeFixed32 (ucast (drop_bit 32 kTableMagicNumber))"
  have len: "length m + length i \<le> 40"
    using BlockHandle_Encode_length [OF m] BlockHandle_Encode_length [OF i] by (simp add: kMaxEncodedLength_def)
  have e: "Footer_EncodeTo ft [] = Some ((m @ i @ ?pad) @ ?magic)"
    using m i len BlockHandle_Encode_append [of "ft_index_handle ft" m]
    by (simp add: Footer_EncodeTo_def Let_def resize_def kMaxEncodedLength_def Footer_kEncodedLength_def PutFixed32_def)
  define B where "B = (m @ i @ ?pad) @ ?magic"
  have mg: "push_bit 32 (ucast (ucast (drop_bit 32 kTableMagicNumber) :: u32)) OR
      ucast (ucast (kTableMagicNumber AND 0xffffffff) :: u32) = kTableMagicNumber"
    unfolding kTableMagicNumber_def by code_simp
  have "Footer_DecodeFrom (B @ rest) ft' = Some (Status_OK, ft, rest)" for rest ft'
  proof -
    define R where "R = B @ rest"
    have "length (m @ i @ ?pad) = 40" using len by simp
    then obtain A where A: "R = A @ ?magic @ rest" "length A = 40" unfolding R_def B_def by (metis append.assoc)
    then have d: "DecodeFixed32 (drop 40 R) = Some (ucast (kTableMagicNumber AND 0xffffffff))"
      "DecodeFixed32 (drop 44 R) = Some (ucast (drop_bit 32 kTableMagicNumber))" "drop 48 R = rest" by simp_all
    obtain Q P where h: "\<And>h. BlockHandle_DecodeFrom R h = (Status_OK, ft_metaindex_handle ft, Q)"
      "\<And>h. BlockHandle_DecodeFrom Q h = (Status_OK, ft_index_handle ft, P)"
      using BlockHandle_Decode_Encode [OF m, of "i @ ?pad @ ?magic @ rest"] BlockHandle_Decode_Encode [OF i, of "?pad @ ?magic @ rest"]
      by (simp add: R_def B_def)
    show ?thesis unfolding R_def [symmetric]
      by (simp add: Footer_DecodeFrom_def Footer_kEncodedLength_def kMaxEncodedLength_def d mg h Let_def)
  qed
  then show ?thesis using e len unfolding B_def [symmetric] by (simp add: B_def Footer_kEncodedLength_def kMaxEncodedLength_def)
qed

subsection \<open>Stored blocks\<close>

text \<open>The bytes \<open>data\<close> of a file hold, at a handle, a block whose contents are \<open>raw\<close>.\<close>

definition trailer :: "slice \<Rightarrow> byte \<Rightarrow> byte list" where
  "trailer stored type = type # EncodeFixed32 (crc_Mask (crc_spec 0 (stored @ [type])))"

definition has_block :: "Snappy \<Rightarrow> byte list \<Rightarrow> BlockHandle \<Rightarrow> slice \<Rightarrow> bool" where
  "has_block snappy data h raw \<longleftrightarrow> (\<exists>pre stored type post. data = pre @ stored @ trailer stored type @ post \<and>
     length data < 2 ^ 63 \<and> unat (bh_offset h) = length pre \<and> unat (bh_size h) = length stored \<and>
     (type = kNoCompression \<and> raw = stored \<or> type = kSnappyCompression \<and> Snappy_Uncompress snappy stored = Some raw))"

lemma has_block_append: "has_block snappy data h raw \<Longrightarrow> length (data @ rest) < 2 ^ 63 \<Longrightarrow> has_block snappy (data @ rest) h raw"
  by (fastforce simp: has_block_def)

lemma length_trailer [simp]: "length (trailer stored type) = 5"
  by (simp add: trailer_def)

context random_access_file begin

lemma ReadBlock_has_block:
  assumes h: "has_block snappy (bytes f) h raw" and f: "healthy f"
  shows "\<exists>c. ReadBlock rops snappy verify h f = Some (Status_OK, c) \<and> bc_data c = raw"
proof -
  obtain pre stored type post where d: "bytes f = pre @ stored @ trailer stored type @ post" "length (bytes f) < 2 ^ 63"
    "unat (bh_offset h) = length pre" "unat (bh_size h) = length stored"
    and t: "type = kNoCompression \<and> raw = stored \<or> type = kSnappyCompression \<and> Snappy_Uncompress snappy stored = Some raw"
    using h by (auto simp: has_block_def)
  have n: "unat (bh_size h + word_of_nat kBlockTrailerSize) = length stored + 5"
    using d by (simp add: unat_word_ariths(1) kBlockTrailerSize_def)
  define C where "C = stored @ trailer stored type"
  obtain b where r: "ra_Read rops (bh_offset h) (bh_size h + word_of_nat kBlockTrailerSize) f = Some (Status_OK, C, b)"
    using ra_read [OF f, of "bh_offset h" "bh_size h + word_of_nat kBlockTrailerSize"] n d by (auto simp: C_def)
  have C: "length C = length stored + 5" "DecodeFixed32 (drop (length stored + 1) C) = Some (crc_Mask (crc_spec 0 (stored @ [type])))"
    "take (length stored + 1) C = stored @ [type]" "C ! length stored = type" "take (length stored) C = stored"
    by (simp_all add: C_def trailer_def)
  have "ReadBlock rops snappy verify h f = (if type = kNoCompression
      then Some (Status_OK, \<lparr>bc_data = stored, bc_cachable = b, bc_heap_allocated = b\<rparr>)
      else if type = kSnappyCompression then
        (case Snappy_Uncompress snappy stored of
           None \<Rightarrow> Some (Corruption ''corrupted compressed block contents'', \<lparr>bc_data = [], bc_cachable = False, bc_heap_allocated = False\<rparr>)
         | Some u \<Rightarrow> Some (Status_OK, \<lparr>bc_data = u, bc_cachable = True, bc_heap_allocated = True\<rparr>))
      else Some (Corruption ''bad block type'', \<lparr>bc_data = [], bc_cachable = False, bc_heap_allocated = False\<rparr>))"
    unfolding ReadBlock_def Let_def d(4) n r using C
    by (cases verify; cases b) (simp_all add: crc32c_Value_def Extend_eq crc_Unmask_Mask split: option.split)
  then show ?thesis using t by (auto simp: kNoCompression_def kSnappyCompression_def)
qed

end

subsection \<open>Properties\<close>

text \<open>(C37) \<open>Footer::DecodeFrom\<close> reads back the handles \<open>Footer::EncodeTo\<close> wrote and consumes exactly the 48 bytes
  of the footer, for handles that have been set.\<close>

theorem footer_roundtrip:
  assumes "bh_offset m \<noteq> NOT 0" and "bh_size m \<noteq> NOT 0" and "bh_offset i \<noteq> NOT 0" and "bh_size i \<noteq> NOT 0"
  shows "\<exists>bs. Footer_EncodeTo \<lparr>ft_metaindex_handle = m, ft_index_handle = i\<rparr> [] = Some bs \<and> length bs = 48 \<and>
    (\<forall>rest. Footer_DecodeFrom (bs @ rest) Footer_new = Some (Status_OK, \<lparr>ft_metaindex_handle = m, ft_index_handle = i\<rparr>, rest))"
  using Footer_roundtrip_aux [of "\<lparr>ft_metaindex_handle = m, ft_index_handle = i\<rparr>"] assms
  by (auto simp: handle_ok_def Footer_kEncodedLength_def kMaxEncodedLength_def)

theorem footer_roundtrip_witness:
  "\<exists>bs. Footer_EncodeTo \<lparr>ft_metaindex_handle = \<lparr>bh_offset = 3, bh_size = 300\<rparr>, ft_index_handle = \<lparr>bh_offset = 308, bh_size = 0\<rparr>\<rparr> [] = Some bs \<and>
    length bs = 48 \<and>
    (\<forall>rest. Footer_DecodeFrom (bs @ rest) Footer_new =
      Some (Status_OK, \<lparr>ft_metaindex_handle = \<lparr>bh_offset = 3, bh_size = 300\<rparr>, ft_index_handle = \<lparr>bh_offset = 308, bh_size = 0\<rparr>\<rparr>, rest))"
  by (rule footer_roundtrip; code_simp)

end
