(* ===== verification/Ldb_FilterBlock.thy ===== *)
theory Ldb_FilterBlock
  imports Ldb_Bloom
begin

unbundle bit_operations_syntax

text \<open>
  \<open>table/filter_block.cc\<close>: the block of a table file that holds one filter for every 2 KiB of data
  blocks, its builder and its reader. The builder's contract with any filter policy is proved inside
  the locale \<open>filter_policy\<close> and used for the Bloom filter on internal keys.
\<close>

subsection \<open>The builder\<close>

definition kFilterBaseLg :: nat where
  "kFilterBaseLg = 11"

definition kFilterBase :: nat where
  "kFilterBase = 2 ^ kFilterBaseLg"

record FilterBlockBuilder =
  fb_keys :: "byte list"
  fb_start :: "nat list"
  fb_result :: "byte list"
  fb_filter_offsets :: "u32 list"

definition FilterBlockBuilder_new :: FilterBlockBuilder where
  "FilterBlockBuilder_new = \<lparr>fb_keys = [], fb_start = [], fb_result = [], fb_filter_offsets = []\<rparr>"

definition GenerateFilter :: "FilterPolicy \<Rightarrow> FilterBlockBuilder \<Rightarrow> FilterBlockBuilder option" where
  "GenerateFilter pol b = (let num_keys = length (fb_start b); offsets = fb_filter_offsets b @ [word_of_nat (length (fb_result b))] in
     if num_keys = 0 then Some (b\<lparr>fb_filter_offsets := offsets\<rparr>)
     else let start = fb_start b @ [length (fb_keys b)];
              tmp_keys = map (\<lambda>i. take (start ! (i + 1) - start ! i) (drop (start ! i) (fb_keys b))) [0..<num_keys]
       in do {
         result \<leftarrow> fp_CreateFilter pol tmp_keys (fb_result b);
         Some \<lparr>fb_keys = [], fb_start = [], fb_result = result, fb_filter_offsets = offsets\<rparr> })"

lemma GenerateFilter_offsets:
  "GenerateFilter pol b = Some b' \<Longrightarrow> length (fb_filter_offsets b') = Suc (length (fb_filter_offsets b))"
  by (auto simp: GenerateFilter_def Let_def bind_eq_Some_conv split: if_splits)

function StartBlock_loop :: "FilterPolicy \<Rightarrow> nat \<Rightarrow> FilterBlockBuilder \<Rightarrow> FilterBlockBuilder option" where
  "StartBlock_loop pol filter_index b =
     (if filter_index > length (fb_filter_offsets b) then
        (case GenerateFilter pol b of None \<Rightarrow> None | Some b1 \<Rightarrow> StartBlock_loop pol filter_index b1)
      else Some b)"
  by pat_completeness auto
termination
  by (relation "measure (\<lambda>(_, filter_index, b). filter_index - length (fb_filter_offsets b))")
    (auto dest: GenerateFilter_offsets)

declare StartBlock_loop.simps [simp del]

definition StartBlock :: "FilterPolicy \<Rightarrow> u64 \<Rightarrow> FilterBlockBuilder \<Rightarrow> FilterBlockBuilder option" where
  "StartBlock pol block_offset b = (let filter_index = unat block_offset div kFilterBase in
     if filter_index \<ge> length (fb_filter_offsets b) then StartBlock_loop pol filter_index b else None)"

definition AddKey :: "slice \<Rightarrow> FilterBlockBuilder \<Rightarrow> FilterBlockBuilder" where
  "AddKey key b = b\<lparr>fb_start := fb_start b @ [length (fb_keys b)], fb_keys := fb_keys b @ key\<rparr>"

definition FilterBlock_Finish :: "FilterPolicy \<Rightarrow> FilterBlockBuilder \<Rightarrow> (slice \<times> FilterBlockBuilder) option" where
  "FilterBlock_Finish pol b = do {
     b1 \<leftarrow> (if fb_start b \<noteq> [] then GenerateFilter pol b else Some b);
     let array_offset = (word_of_nat (length (fb_result b1)) :: u32);
     let result = PutFixed32 (foldl PutFixed32 (fb_result b1) (fb_filter_offsets b1)) array_offset @ [word_of_nat kFilterBaseLg];
     Some (result, b1\<lparr>fb_result := result\<rparr>) }"

subsection \<open>The reader\<close>

record FilterBlockReader =
  fr_data :: slice
  fr_offset :: nat
  fr_num :: nat
  fr_base_lg :: nat

text \<open>An early return leaves \<open>num_\<close> zero, so that nothing is read through the null pointers.\<close>

definition FilterBlockReader_new :: "slice \<Rightarrow> FilterBlockReader option" where
  "FilterBlockReader_new contents = (let n = length contents; r = \<lparr>fr_data = [], fr_offset = 0, fr_num = 0, fr_base_lg = 0\<rparr> in
     if n < 5 then Some r
     else let base_lg = unat (scast (contents ! (n - 1)) :: u64) in do {
       last_word \<leftarrow> DecodeFixed32 (drop (n - 5) contents);
       if unat last_word > n - 5 then Some (r\<lparr>fr_base_lg := base_lg\<rparr>)
       else Some \<lparr>fr_data = contents, fr_offset = unat last_word, fr_num = (n - 5 - unat last_word) div 4,
                  fr_base_lg = base_lg\<rparr> })"

text \<open>Shifting a 64-bit number by 64 or more is undefined: such a block has no answer here.\<close>

definition FilterBlock_KeyMayMatch :: "FilterPolicy \<Rightarrow> FilterBlockReader \<Rightarrow> u64 \<Rightarrow> slice \<Rightarrow> bool option" where
  "FilterBlock_KeyMayMatch pol r block_offset key =
     (if fr_base_lg r \<ge> 64 then None
      else let index = unat (drop_bit (fr_base_lg r) block_offset) in
        if index < fr_num r then do {
          start \<leftarrow> DecodeFixed32 (drop (fr_offset r + index * 4) (fr_data r));
          limit \<leftarrow> DecodeFixed32 (drop (fr_offset r + index * 4 + 4) (fr_data r));
          if start \<le> limit \<and> unat limit \<le> fr_offset r then
            fp_KeyMayMatch pol key (take (unat limit - unat start) (drop (unat start) (fr_data r)))
          else if start = limit then Some False else Some True }
        else Some True)"

subsection \<open>Building and querying\<close>

text \<open>The calls of a table builder: for every data block \<open>StartBlock\<close> with its offset, then its keys.\<close>

primrec add_blocks :: "FilterPolicy \<Rightarrow> (u64 \<times> slice list) list \<Rightarrow> FilterBlockBuilder \<Rightarrow> FilterBlockBuilder option" where
  "add_blocks pol [] b = Some b"
| "add_blocks pol (blk # blks) b = do {
     b1 \<leftarrow> StartBlock pol (fst blk) b;
     add_blocks pol blks (fold AddKey (snd blk) b1) }"

text \<open>The offsets at which the parts of a concatenation start, and its length.\<close>

definition starts :: "'a list list \<Rightarrow> nat list" where
  "starts xss = map (\<lambda>i. length (concat (take i xss))) [0..<length xss]"

lemma length_starts [simp]: "length (starts xss) = length xss"
  by (simp add: starts_def)

lemma starts_snoc: "starts (xss @ [xs]) = starts xss @ [length (concat xss)]"
  by (simp add: starts_def)

lemma starts_nth: "i \<le> length xss \<Longrightarrow> (starts xss @ [length (concat xss)]) ! i = length (concat (take i xss))"
  by (cases "i = length xss") (simp_all add: starts_def nth_append)

lemma concat_part:
  assumes "i < length xss"
  shows "take (length (concat (take (Suc i) xss)) - length (concat (take i xss))) (drop (length (concat (take i xss))) (concat xss @ rest)) = xss ! i"
proof -
  have "concat xss = concat (take i xss) @ xss ! i @ concat (drop (Suc i) xss)"
    by (subst id_take_nth_drop [OF assms]) simp
  then show ?thesis using assms by (simp add: take_Suc_conv_app_nth)
qed

lemma cut_keys:
  "map (\<lambda>i. take ((starts xss @ [length (concat xss)]) ! (i + 1) - (starts xss @ [length (concat xss)]) ! i)
     (drop ((starts xss @ [length (concat xss)]) ! i) (concat xss))) [0..<length xss] = xss"
  by (rule nth_equalityI) (use concat_part [where rest = "[]"] in \<open>simp_all add: starts_nth\<close>)

text \<open>The builder after the keys of \<open>blks\<close>: the filters \<open>fs\<close> are complete, the keys \<open>pend\<close> wait for the
  next one.\<close>

definition fb_inv :: "FilterPolicy \<Rightarrow> (slice \<Rightarrow> bool) \<Rightarrow> FilterBlockBuilder \<Rightarrow> byte list list \<Rightarrow> slice list \<Rightarrow> (u64 \<times> slice list) list \<Rightarrow> bool" where
  "fb_inv pol ok b fs pend blks \<longleftrightarrow> fb_keys b = concat pend \<and> fb_start b = starts pend \<and> fb_result b = concat fs \<and>
     fb_filter_offsets b = map word_of_nat (starts fs) \<and> (\<forall>k \<in> set pend. ok k) \<and>
     (\<forall>(off, keys) \<in> set blks. \<forall>k \<in> set keys.
        unat off div kFilterBase < length fs \<and> fp_KeyMayMatch pol k (fs ! (unat off div kFilterBase)) = Some True \<or>
        unat off div kFilterBase = length fs \<and> k \<in> set pend)"

lemma fb_inv_new: "fb_inv pol ok FilterBlockBuilder_new [] [] []"
  by (simp add: fb_inv_def FilterBlockBuilder_new_def starts_def)

context filter_policy begin

lemma GenerateFilter_inv:
  assumes "fb_inv pol ok b fs pend blks"
  shows "\<exists>b' f. GenerateFilter pol b = Some b' \<and> fb_inv pol ok b' (fs @ [f]) [] blks"
proof -
  obtain f where f: "(if pend = [] then Some (concat fs) else fp_CreateFilter pol pend (concat fs)) = Some (concat fs @ f)"
    "\<forall>k \<in> set pend. fp_KeyMayMatch pol k f = Some True"
    using create [of pend "concat fs"] assms by (cases "pend = []") (auto simp: fb_inv_def)
  have b: "fb_keys b = concat pend" "fb_start b = starts pend" "fb_result b = concat fs"
    "fb_filter_offsets b = map word_of_nat (starts fs)" using assms by (auto simp: fb_inv_def)
  have "pend = [] \<longleftrightarrow> starts pend = []" by (simp add: starts_def)
  then have "GenerateFilter pol b = Some \<lparr>fb_keys = [], fb_start = [], fb_result = concat fs @ f,
      fb_filter_offsets = map word_of_nat (starts (fs @ [f]))\<rparr>"
    using f(1) b cut_keys [of pend] by (cases "pend = []") (simp_all add: GenerateFilter_def Let_def starts_snoc)
  moreover have "fb_inv pol ok \<lparr>fb_keys = [], fb_start = [], fb_result = concat fs @ f,
      fb_filter_offsets = map word_of_nat (starts (fs @ [f]))\<rparr> (fs @ [f]) [] blks"
    using assms f(2) by (fastforce simp: fb_inv_def starts_def [of "[]"] nth_append)
  ultimately show ?thesis by blast
qed

lemma StartBlock_loop_inv:
  assumes "fb_inv pol ok b fs pend blks" and "length fs \<le> n"
  shows "\<exists>b' fs' pend'. StartBlock_loop pol n b = Some b' \<and> fb_inv pol ok b' fs' pend' blks \<and> length fs' = n"
  using assms
proof (induction "n - length fs" arbitrary: b fs pend)
  case 0
  then show ?case by (subst StartBlock_loop.simps) (auto simp: fb_inv_def)
next
  case (Suc m)
  from GenerateFilter_inv [OF Suc.prems(1)] obtain b1 f where
    g: "GenerateFilter pol b = Some b1" "fb_inv pol ok b1 (fs @ [f]) [] blks" by blast
  from Suc.hyps(1) [OF _ g(2)] Suc.hyps(2) have
    "\<exists>b' fs' pend'. StartBlock_loop pol n b1 = Some b' \<and> fb_inv pol ok b' fs' pend' blks \<and> length fs' = n" by auto
  moreover have "length (fb_filter_offsets b) < n" using Suc.prems Suc.hyps(2) by (simp add: fb_inv_def)
  ultimately show ?case by (subst StartBlock_loop.simps) (simp add: g(1))
qed

lemma AddKeys_inv:
  assumes "fb_inv pol ok b fs pend ((off, done) # blks)" and "unat off div kFilterBase = length fs" and "\<forall>k \<in> set keys. ok k"
  shows "\<exists>pend'. fb_inv pol ok (fold AddKey keys b) fs pend' ((off, done @ keys) # blks)"
  using assms
proof (induction keys arbitrary: b pend "done")
  case (Cons k keys)
  have "fb_inv pol ok (AddKey k b) fs (pend @ [k]) ((off, done @ [k]) # blks)"
    using Cons.prems by (auto simp: fb_inv_def AddKey_def starts_snoc)
  from Cons.IH [OF this] Cons.prems show ?case by auto
qed auto

lemma add_blocks_inv:
  assumes "fb_inv pol ok b fs pend blks0" and "sorted (map fst (blks :: (u64 \<times> slice list) list))"
    and "\<forall>blk \<in> set blks. length fs \<le> unat (fst blk) div kFilterBase \<and> (\<forall>k \<in> set (snd blk). ok k)"
  shows "\<exists>b' fs' pend'. add_blocks pol blks b = Some b' \<and> fb_inv pol ok b' fs' pend' (rev blks @ blks0)"
  using assms
proof (induction blks arbitrary: b fs pend blks0)
  case (Cons blk blks)
  let ?n = "unat (fst blk) div kFilterBase"
  have "length fs \<le> ?n" using Cons.prems(3) by simp
  from StartBlock_loop_inv [OF Cons.prems(1) this] obtain b1 fs1 pend1 where
    b1: "StartBlock_loop pol ?n b = Some b1" "fb_inv pol ok b1 fs1 pend1 blks0" "length fs1 = ?n" by blast
  have "fb_inv pol ok b1 fs1 pend1 ((fst blk, []) # blks0)" using b1(2) by (simp add: fb_inv_def)
  from AddKeys_inv [OF this] obtain pend2 where
    b2: "fb_inv pol ok (fold AddKey (snd blk) b1) fs1 pend2 ((fst blk, snd blk) # blks0)"
    using b1(3) Cons.prems(3) [THEN bspec, of blk] by (metis append_Nil list.set_intros(1))
  have "?n \<le> unat (fst blk') div kFilterBase" if "blk' \<in> set blks" for blk'
    using Cons.prems(2) that by (auto simp: word_le_nat_alt intro!: div_le_mono)
  then have "\<forall>blk' \<in> set blks. length fs1 \<le> unat (fst blk') div kFilterBase \<and> (\<forall>k \<in> set (snd blk'). ok k)"
    using b1(3) Cons.prems(3) by simp
  from Cons.IH [OF b2 _ this] Cons.prems(2) obtain b' fs' pend' where
    "add_blocks pol blks (fold AddKey (snd blk) b1) = Some b'"
    "fb_inv pol ok b' fs' pend' (rev blks @ (fst blk, snd blk) # blks0)" by auto
  moreover have "StartBlock pol (fst blk) b = Some b1"
    using b1(1) Cons.prems(1) \<open>length fs \<le> ?n\<close> by (simp add: StartBlock_def Let_def fb_inv_def)
  ultimately show ?case by auto
qed auto

lemma Finish_inv:
  assumes "fb_inv pol ok b fs pend blks"
  shows "\<exists>b' fs'. FilterBlock_Finish pol b = Some (concat fs' @
      concat (map EncodeFixed32 (map word_of_nat (starts fs' @ [length (concat fs')]))) @ [11], b') \<and>
    (\<forall>(off, keys) \<in> set blks. \<forall>k \<in> set keys. unat off div kFilterBase < length fs' \<and>
      fp_KeyMayMatch pol k (fs' ! (unat off div kFilterBase)) = Some True)"
proof -
  have "\<exists>b1 fs1. (if fb_start b \<noteq> [] then GenerateFilter pol b else Some b) = Some b1 \<and> fb_inv pol ok b1 fs1 [] blks"
  proof (cases "pend = []")
    case True
    then have "fb_start b = []" using assms by (simp add: fb_inv_def starts_def)
    then show ?thesis using assms True by auto
  next
    case False
    then have "fb_start b \<noteq> []" using assms by (simp add: fb_inv_def starts_def)
    then show ?thesis using GenerateFilter_inv [OF assms] by auto
  qed
  then obtain b1 fs1 where b1: "(if fb_start b \<noteq> [] then GenerateFilter pol b else Some b) = Some b1"
    "fb_inv pol ok b1 fs1 [] blks" by blast
  then show ?thesis
    by (intro exI [of _ "b1\<lparr>fb_result := concat fs1 @
        concat (map EncodeFixed32 (map word_of_nat (starts fs1 @ [length (concat fs1)]))) @ [11]\<rparr>"] exI [of _ fs1])
      (auto simp: Let_def FilterBlock_Finish_def foldl_PutFixed32 PutFixed32_def fb_inv_def kFilterBaseLg_def)
qed

end

subsection \<open>The reader finds the filters\<close>

lemma reader_finds:
  fixes fs :: "byte list list"
  defines "c \<equiv> concat fs @ concat (map EncodeFixed32 (map word_of_nat (starts fs @ [length (concat fs)]))) @ [11]"
  assumes lim: "length (concat fs) < 2 ^ 32" and i: "unat off div kFilterBase < length fs"
  shows "\<exists>r. FilterBlockReader_new c = Some r \<and>
    FilterBlock_KeyMayMatch pol r off key = fp_KeyMayMatch pol key (fs ! (unat off div kFilterBase))"
proof -
  let ?xs = "map word_of_nat (starts fs @ [length (concat fs)]) :: u32 list" and ?i = "unat off div kFilterBase"
  have len: "length c = length (concat fs) + 4 * length fs + 5" by (simp add: c_def del: map_map map_append)
  have u: "unat (?xs ! j) = length (concat (take j fs))" "?xs ! j = word_of_nat (length (concat (take j fs)))" if "j \<le> length fs" for j
  proof -
    show "?xs ! j = word_of_nat (length (concat (take j fs)))" using that starts_nth [OF that] by (simp del: map_append)
    moreover have "length (concat (take j fs)) \<le> length (concat fs)"
      by (metis append_take_drop_id concat_append le_add1 length_append)
    ultimately show "unat (?xs ! j) = length (concat (take j fs))" using lim by (simp add: unat_of_nat del: map_append)
  qed
  have dec: "DecodeFixed32 (drop (length (concat fs) + 4 * j) c) = Some (?xs ! j)" if "j \<le> length fs" for j
    unfolding c_def by (rule DecodeFixed32_array) (use that in simp_all)
  have r: "FilterBlockReader_new c = Some \<lparr>fr_data = c, fr_offset = length (concat fs), fr_num = length fs, fr_base_lg = 11\<rparr>"
  proof -
    have "c ! (length c - 1) = 11" by (simp add: c_def nth_append)
    moreover have "DecodeFixed32 (drop (length c - 5) c) = Some (?xs ! length fs)"
      using dec [of "length fs"] by (simp add: len)
    ultimately show ?thesis using u(1) [of "length fs"] len by (simp add: FilterBlockReader_new_def Let_def)
  qed
  have "unat (drop_bit 11 off) = ?i" by (simp add: kFilterBase_def kFilterBaseLg_def drop_bit_eq_div unat_div_distrib)
  moreover have "length (concat (take ?i fs)) \<le> length (concat (take (Suc ?i) fs))"
    using i by (simp add: take_Suc_conv_app_nth)
  moreover have "length (concat (take (Suc ?i) fs)) \<le> length (concat fs)"
    by (metis append_take_drop_id concat_append le_add1 length_append)
  moreover have "take (length (concat (take (Suc ?i) fs)) - length (concat (take ?i fs))) (drop (length (concat (take ?i fs))) c) = fs ! ?i"
    unfolding c_def by (rule concat_part [OF i])
  ultimately show ?thesis
    using i dec [of ?i] dec [of "Suc ?i"] u [of ?i] u [of "Suc ?i"]
    by (simp add: r FilterBlock_KeyMayMatch_def word_le_nat_alt ac_simps del: map_append)
qed

context filter_policy begin

lemma Finish_reader:
  assumes "fb_inv pol ok b fs pend blks"
  shows "\<exists>c b'. FilterBlock_Finish pol b = Some (c, b') \<and> (length c < 2 ^ 32 \<longrightarrow> (\<exists>r. FilterBlockReader_new c = Some r \<and>
    (\<forall>blk \<in> set blks. \<forall>k \<in> set (snd blk). FilterBlock_KeyMayMatch pol r (fst blk) k = Some True)))"
proof -
  from Finish_inv [OF assms] obtain b' fs' c where
    c: "FilterBlock_Finish pol b = Some (c, b')"
    "c = concat fs' @ concat (map EncodeFixed32 (map word_of_nat (starts fs' @ [length (concat fs')]))) @ [11]"
    and m: "\<forall>(off, keys) \<in> set blks. \<forall>k \<in> set keys. unat off div kFilterBase < length fs' \<and>
      fp_KeyMayMatch pol k (fs' ! (unat off div kFilterBase)) = Some True" by blast
  have "\<exists>r. FilterBlockReader_new c = Some r \<and>
      (\<forall>blk \<in> set blks. \<forall>k \<in> set (snd blk). FilterBlock_KeyMayMatch pol r (fst blk) k = Some True)" if "length c < 2 ^ 32"
  proof (cases "FilterBlockReader_new c")
    case None
    moreover have "5 \<le> length c" by (simp add: c(2))
    ultimately show ?thesis by (auto simp: FilterBlockReader_new_def Let_def DecodeFixed32_def split: if_splits)
  next
    case (Some r)
    have "length (concat fs') < 2 ^ 32" using that by (simp add: c(2))
    note f = reader_finds [OF this, of _ pol, folded c(2)]
    show ?thesis
    proof (intro exI [of _ r] conjI ballI Some)
      fix blk k
      assume "blk \<in> set blks" "k \<in> set (snd blk)"
      then have "unat (fst blk) div kFilterBase < length fs'"
        "fp_KeyMayMatch pol k (fs' ! (unat (fst blk) div kFilterBase)) = Some True" using m by fastforce+
      then show "FilterBlock_KeyMayMatch pol r (fst blk) k = Some True" using f [of "fst blk" k] Some by simp
    qed
  qed
  then show ?thesis using c(1) by blast
qed

lemma filter_block_complete:
  assumes "sorted (map fst (blks :: (u64 \<times> slice list) list))" and "\<forall>blk \<in> set blks. \<forall>k \<in> set (snd blk). ok k"
  shows "\<exists>b c b'. add_blocks pol blks FilterBlockBuilder_new = Some b \<and> FilterBlock_Finish pol b = Some (c, b') \<and>
    (length c < 2 ^ 32 \<longrightarrow> (\<exists>r. FilterBlockReader_new c = Some r \<and>
      (\<forall>blk \<in> set blks. \<forall>k \<in> set (snd blk). FilterBlock_KeyMayMatch pol r (fst blk) k = Some True)))"
proof -
  from add_blocks_inv [OF fb_inv_new assms(1)] assms(2) obtain b fs pend where
    b: "add_blocks pol blks FilterBlockBuilder_new = Some b" "fb_inv pol ok b fs pend (rev blks)" by auto
  from Finish_reader [OF b(2)] show ?thesis using b(1) by simp
qed

end

text \<open>(C11) A filter block never excludes a key: for data blocks at increasing offsets, with any internal keys,
  the builder succeeds, and a reader of the finished block answers "maybe" for every key at the offset
  of the block that holds it, as long as the filter block is smaller than 4 GiB (its offsets are 32-bit
  numbers).\<close>

theorem filter_block_no_false_negative:
  fixes bits
  defines "pol \<equiv> InternalFilterPolicy (NewBloomFilterPolicy bits)"
  assumes "sorted (map fst (blks :: (u64 \<times> slice list) list))" and "\<forall>blk \<in> set blks. \<forall>k \<in> set (snd blk). 8 \<le> length k"
  shows "\<exists>b c b'. add_blocks pol blks FilterBlockBuilder_new = Some b \<and> FilterBlock_Finish pol b = Some (c, b') \<and>
    (length c < 2 ^ 32 \<longrightarrow> (\<exists>r. FilterBlockReader_new c = Some r \<and>
      (\<forall>blk \<in> set blks. \<forall>k \<in> set (snd blk). FilterBlock_KeyMayMatch pol r (fst blk) k = Some True)))"
  unfolding pol_def using assms(2,3) by (intro ibloom.filter_block_complete) (simp_all add: ik_ok_def)

theorem filter_block_no_false_negative_witness:
  "\<exists>b c b'. add_blocks (InternalFilterPolicy (NewBloomFilterPolicy 10)) [(0, [[1, 2, 3, 4, 5, 6, 7, 8, 9]]), (5000, [])] FilterBlockBuilder_new = Some b \<and>
    FilterBlock_Finish (InternalFilterPolicy (NewBloomFilterPolicy 10)) b = Some (c, b') \<and>
    (length c < 2 ^ 32 \<longrightarrow> (\<exists>r. FilterBlockReader_new c = Some r \<and>
      (\<forall>blk \<in> set [(0, [[1, 2, 3, 4, 5, 6, 7, 8, 9]]), (5000, [])]. \<forall>k \<in> set (snd blk).
        FilterBlock_KeyMayMatch (InternalFilterPolicy (NewBloomFilterPolicy 10)) r (fst blk) k = Some True)))"
  by (rule filter_block_no_false_negative) simp_all

end
