(* ===== verification/Ldb_Block.thy ===== *)
theory Ldb_Block
  imports Ldb_Dbformat
begin

unbundle bit_operations_syntax

text \<open>
  \<open>table/block_builder.cc\<close> and \<open>table/block.cc\<close>: blocks of sorted keys with prefix compression and restart
  points. The block is a byte sequence and pointers into it are offsets; reading outside of it and
  failing an assertion are \<open>None\<close>. Loops that end only on well-formed blocks are \<open>partial_function\<close>s, so
  that every theorem about their results also says that they end.
\<close>

subsection \<open>Building\<close>

record BlockBuilder =
  bb_buffer :: "byte list"
  bb_restarts :: "u32 list"
  bb_counter :: nat
  bb_finished :: bool
  bb_last_key :: "byte list"

definition BlockBuilder_Reset :: BlockBuilder where
  "BlockBuilder_Reset = \<lparr>bb_buffer = [], bb_restarts = [0], bb_counter = 0, bb_finished = False, bb_last_key = []\<rparr>"

definition BlockBuilder_new :: "nat \<Rightarrow> BlockBuilder option" where
  "BlockBuilder_new interval = (if interval \<ge> 1 then Some BlockBuilder_Reset else None)"

definition CurrentSizeEstimate :: "BlockBuilder \<Rightarrow> nat" where
  "CurrentSizeEstimate b = length (bb_buffer b) + length (bb_restarts b) * 4 + 4"

definition BlockBuilder_empty :: "BlockBuilder \<Rightarrow> bool" where
  "BlockBuilder_empty b \<longleftrightarrow> bb_buffer b = []"

definition BlockBuilder_Finish :: "BlockBuilder \<Rightarrow> slice \<times> BlockBuilder" where
  "BlockBuilder_Finish b = (let buffer = PutFixed32 (foldl PutFixed32 (bb_buffer b) (bb_restarts b)) (word_of_nat (length (bb_restarts b)))
     in (buffer, b\<lparr>bb_buffer := buffer, bb_finished := True\<rparr>))"

definition BlockBuilder_Add ::
  "(slice \<Rightarrow> slice \<Rightarrow> int option) \<Rightarrow> nat \<Rightarrow> slice \<Rightarrow> slice \<Rightarrow> BlockBuilder \<Rightarrow> BlockBuilder option" where
  "BlockBuilder_Add cmp interval key val b = do {
     greater \<leftarrow> (if bb_buffer b = [] then Some True else do { r \<leftarrow> cmp key (bb_last_key b); Some (r > 0) });
     if bb_finished b \<or> bb_counter b > interval \<or> \<not> greater then None
     else let (shared, restarts, counter) =
            (if bb_counter b < interval then (common_prefix_length (bb_last_key b) key, bb_restarts b, bb_counter b)
             else (0, bb_restarts b @ [word_of_nat (length (bb_buffer b))], 0));
          non_shared = length key - shared;
          buffer = PutVarint32 (PutVarint32 (PutVarint32 (bb_buffer b) (word_of_nat shared)) (word_of_nat non_shared)) (word_of_nat (length val))
            @ take non_shared (drop shared key) @ val;
          last_key = take shared (bb_last_key b) @ take non_shared (drop shared key)
       in if last_key \<noteq> key then None
          else Some (b\<lparr>bb_buffer := buffer, bb_restarts := restarts, bb_counter := counter + 1, bb_last_key := last_key\<rparr>) }"

subsection \<open>Blocks\<close>

record Block =
  blk_data :: slice
  blk_size :: nat
  blk_restart_offset :: u32

definition NumRestarts :: "slice \<Rightarrow> nat \<Rightarrow> u32 option" where
  "NumRestarts data siz = (if siz \<ge> 4 then DecodeFixed32 (drop (siz - 4) data) else None)"

text \<open>\<open>restart_offset_\<close> is not initialised on the error paths; it is not read there either.\<close>

definition Block_new :: "slice \<Rightarrow> Block option" where
  "Block_new contents = (let siz = length contents; bad = \<lparr>blk_data = contents, blk_size = 0, blk_restart_offset = 0\<rparr> in
     if siz < 4 then Some bad
     else do {
       n \<leftarrow> NumRestarts contents siz;
       if unat n > (siz - 4) div 4 then Some bad
       else Some \<lparr>blk_data = contents, blk_size = siz, blk_restart_offset = word_of_nat (siz - unat (1 + n) * 4)\<rparr> })"

text \<open>\<open>None\<close> is the null pointer, that is a bad entry; otherwise the three numbers and the offset of the key
  bytes.\<close>

definition DecodeEntry :: "slice \<Rightarrow> nat \<Rightarrow> nat \<Rightarrow> (u32 \<times> u32 \<times> u32 \<times> nat) option" where
  "DecodeEntry data p limit = (let s = drop p (take limit data) in
     if length s < 3 then None
     else do {
       (shared, non_shared, value_length, q) \<leftarrow>
         (if (ucast (s ! 0) :: u32) OR ucast (s ! 1) OR ucast (s ! 2) < 128 then Some (ucast (s ! 0), ucast (s ! 1), ucast (s ! 2), drop 3 s)
          else do {
            (shared, s1) \<leftarrow> GetVarint32Ptr s;
            (non_shared, s2) \<leftarrow> GetVarint32Ptr s1;
            (value_length, s3) \<leftarrow> GetVarint32Ptr s2;
            Some (shared, non_shared, value_length, s3) });
       if (word_of_nat (length q) :: u32) < non_shared + value_length then None
       else Some (shared, non_shared, value_length, limit - length q) })"

subsection \<open>The iterator of a block\<close>

text \<open>\<open>bi_value\<close> is the extent of \<open>value_\<close> in the block, \<open>None\<close> for a slice that does not point into it.\<close>

record BlockIter =
  bi_data :: slice
  bi_restarts :: u32
  bi_num_restarts :: u32
  bi_current :: u32
  bi_restart_index :: u32
  bi_key :: "byte list"
  bi_value :: "(nat \<times> nat) option"
  bi_status :: Status

definition BlockIter_new :: "slice \<Rightarrow> u32 \<Rightarrow> u32 \<Rightarrow> BlockIter option" where
  "BlockIter_new data restarts num_restarts = (if num_restarts > 0 then Some
     \<lparr>bi_data = data, bi_restarts = restarts, bi_num_restarts = num_restarts, bi_current = restarts,
      bi_restart_index = num_restarts, bi_key = [], bi_value = None, bi_status = Status_OK\<rparr> else None)"

definition BlockIter_Valid :: "BlockIter \<Rightarrow> bool" where
  "BlockIter_Valid it \<longleftrightarrow> bi_current it < bi_restarts it"

definition read_bytes :: "slice \<Rightarrow> nat \<Rightarrow> nat \<Rightarrow> slice option" where
  "read_bytes data off n = (if off + n \<le> length data then Some (take n (drop off data)) else None)"

definition BlockIter_key :: "BlockIter \<Rightarrow> slice option" where
  "BlockIter_key it = (if BlockIter_Valid it then Some (bi_key it) else None)"

definition BlockIter_value :: "BlockIter \<Rightarrow> slice option" where
  "BlockIter_value it = (if BlockIter_Valid it then
     (case bi_value it of None \<Rightarrow> Some [] | Some (off, n) \<Rightarrow> read_bytes (bi_data it) off n) else None)"

definition NextEntryOffset :: "BlockIter \<Rightarrow> u32 option" where
  "NextEntryOffset it = map_option (\<lambda>(off, n). word_of_nat (off + n)) (bi_value it)"

definition GetRestartPoint :: "u32 \<Rightarrow> BlockIter \<Rightarrow> u32 option" where
  "GetRestartPoint index it = (if index < bi_num_restarts it
     then DecodeFixed32 (drop (unat (bi_restarts it) + unat index * 4) (bi_data it)) else None)"

definition SeekToRestartPoint :: "u32 \<Rightarrow> BlockIter \<Rightarrow> BlockIter option" where
  "SeekToRestartPoint index it = do {
     offset \<leftarrow> GetRestartPoint index it;
     Some (it\<lparr>bi_key := [], bi_restart_index := index, bi_value := Some (unat offset, 0)\<rparr>) }"

definition CorruptionError :: "BlockIter \<Rightarrow> BlockIter" where
  "CorruptionError it = it\<lparr>bi_current := bi_restarts it, bi_restart_index := bi_num_restarts it,
     bi_status := Corruption ''bad entry in block'', bi_key := [], bi_value := None\<rparr>"

text \<open>The loop that advances \<open>restart_index_\<close>.\<close>

function bump_restart :: "BlockIter \<Rightarrow> u32 \<Rightarrow> u32 option" where
  "bump_restart it index = (if index + 1 < bi_num_restarts it then
     (case GetRestartPoint (index + 1) it of
        None \<Rightarrow> None
      | Some p \<Rightarrow> if p < bi_current it then bump_restart it (index + 1) else Some index)
     else Some index)"
  by pat_completeness auto
termination
proof (relation "measure (\<lambda>(it, index). unat (bi_num_restarts it - (index + 1)))")
  fix it :: BlockIter and index p
  assume "index + 1 < bi_num_restarts it"
  then have "bi_num_restarts it - (index + 1) \<noteq> 0" by auto
  then have "unat (bi_num_restarts it - (index + 1) - 1) < unat (bi_num_restarts it - (index + 1))"
    using measure_unat by blast
  then show "((it, index + 1), it, index) \<in> measure (\<lambda>(it, index). unat (bi_num_restarts it - (index + 1)))"
    by (simp add: algebra_simps)
qed simp

declare bump_restart.simps [simp del]

definition ParseNextKey :: "BlockIter \<Rightarrow> (bool \<times> BlockIter) option" where
  "ParseNextKey it0 = do {
     current \<leftarrow> NextEntryOffset it0;
     let it = it0\<lparr>bi_current := current\<rparr>;
     if current \<ge> bi_restarts it
     then Some (False, it\<lparr>bi_current := bi_restarts it, bi_restart_index := bi_num_restarts it\<rparr>)
     else (case DecodeEntry (bi_data it) (unat current) (unat (bi_restarts it)) of
       None \<Rightarrow> Some (False, CorruptionError it)
     | Some (shared, non_shared, value_length, p) \<Rightarrow>
         if length (bi_key it) < unat shared then Some (False, CorruptionError it)
         else do {
           delta \<leftarrow> read_bytes (bi_data it) p (unat non_shared);
           let it1 = it\<lparr>bi_key := take (unat shared) (bi_key it) @ delta,
                        bi_value := Some (p + unat non_shared, unat value_length)\<rparr>;
           index \<leftarrow> bump_restart it1 (bi_restart_index it1);
           Some (True, it1\<lparr>bi_restart_index := index\<rparr>) }) }"

definition BlockIter_Next :: "BlockIter \<Rightarrow> BlockIter option" where
  "BlockIter_Next it = (if BlockIter_Valid it then map_option snd (ParseNextKey it) else None)"

text \<open>\<open>Prev\<close>: the search for a restart point before the current entry, where \<open>Inl\<close> is the early return.\<close>

partial_function (option) prev_restart :: "u32 \<Rightarrow> BlockIter \<Rightarrow> (BlockIter + BlockIter) option" where
  "prev_restart original it = do {
     p \<leftarrow> GetRestartPoint (bi_restart_index it) it;
     if p \<ge> original then
       if bi_restart_index it = 0 then Some (Inl (it\<lparr>bi_current := bi_restarts it, bi_restart_index := bi_num_restarts it\<rparr>))
       else prev_restart original (it\<lparr>bi_restart_index := bi_restart_index it - 1\<rparr>)
     else Some (Inr it) }"

text \<open>The loops of \<open>Prev\<close> and \<open>SeekToLast\<close> over the entries that end before \<open>stop\<close>.\<close>

partial_function (option) parse_until :: "u32 \<Rightarrow> BlockIter \<Rightarrow> BlockIter option" where
  "parse_until stop it = do {
     (more, it1) \<leftarrow> ParseNextKey it;
     if \<not> more then Some it1
     else do {
       next \<leftarrow> NextEntryOffset it1;
       if next < stop then parse_until stop it1 else Some it1 } }"

definition BlockIter_Prev :: "BlockIter \<Rightarrow> BlockIter option" where
  "BlockIter_Prev it = (if BlockIter_Valid it then do {
       r \<leftarrow> prev_restart (bi_current it) it;
       (case r of
          Inl it1 \<Rightarrow> Some it1
        | Inr it1 \<Rightarrow> do { it2 \<leftarrow> SeekToRestartPoint (bi_restart_index it1) it1; parse_until (bi_current it) it2 }) }
     else None)"

text \<open>\<open>Seek\<close>: the binary search over the restart points returns \<open>None\<close> in the inner option when an entry is
  bad.\<close>

partial_function (option) seek_restart ::
  "(slice \<Rightarrow> slice \<Rightarrow> int option) \<Rightarrow> slice \<Rightarrow> BlockIter \<Rightarrow> u32 \<Rightarrow> u32 \<Rightarrow> u32 option option" where
  "seek_restart cmp target it left right =
     (if left < right then do {
        let mid = (left + right + 1) div 2;
        region_offset \<leftarrow> GetRestartPoint mid it;
        (case DecodeEntry (bi_data it) (unat region_offset) (unat (bi_restarts it)) of
           None \<Rightarrow> Some None
         | Some (shared, non_shared, value_length, p) \<Rightarrow>
             if shared \<noteq> 0 then Some None
             else do {
               mid_key \<leftarrow> read_bytes (bi_data it) p (unat non_shared);
               r \<leftarrow> cmp mid_key target;
               if r < 0 then seek_restart cmp target it mid right
               else seek_restart cmp target it left (mid - 1) }) }
      else Some (Some left))"

partial_function (option) seek_linear ::
  "(slice \<Rightarrow> slice \<Rightarrow> int option) \<Rightarrow> slice \<Rightarrow> BlockIter \<Rightarrow> BlockIter option" where
  "seek_linear cmp target it = do {
     (more, it1) \<leftarrow> ParseNextKey it;
     if \<not> more then Some it1
     else do {
       r \<leftarrow> cmp (bi_key it1) target;
       if r \<ge> 0 then Some it1 else seek_linear cmp target it1 } }"

definition BlockIter_Seek :: "(slice \<Rightarrow> slice \<Rightarrow> int option) \<Rightarrow> slice \<Rightarrow> BlockIter \<Rightarrow> BlockIter option" where
  "BlockIter_Seek cmp target it = do {
     l \<leftarrow> seek_restart cmp target it 0 (bi_num_restarts it - 1);
     (case l of
        None \<Rightarrow> Some (CorruptionError it)
      | Some left \<Rightarrow> do { it1 \<leftarrow> SeekToRestartPoint left it; seek_linear cmp target it1 }) }"

definition BlockIter_SeekToFirst :: "BlockIter \<Rightarrow> BlockIter option" where
  "BlockIter_SeekToFirst it = do { it1 \<leftarrow> SeekToRestartPoint 0 it; map_option snd (ParseNextKey it1) }"

definition BlockIter_SeekToLast :: "BlockIter \<Rightarrow> BlockIter option" where
  "BlockIter_SeekToLast it = do {
     it1 \<leftarrow> SeekToRestartPoint (bi_num_restarts it - 1) it;
     parse_until (bi_restarts it) it1 }"

text \<open>\<open>NewIterator\<close>: the three kinds of iterators it may return.\<close>

datatype BlockIterator = ErrorIterator Status | EmptyIterator | EntryIterator BlockIter

definition Block_NewIterator :: "Block \<Rightarrow> BlockIterator option" where
  "Block_NewIterator b =
     (if blk_size b < 4 then Some (ErrorIterator (Corruption ''bad block contents''))
      else do {
        num_restarts \<leftarrow> NumRestarts (blk_data b) (blk_size b);
        if num_restarts = 0 then Some EmptyIterator
        else map_option EntryIterator (BlockIter_new (blk_data b) (blk_restart_offset b) num_restarts) })"

end
