(* ===== verification/Ldb_BlockLayout.thy ===== *)
theory Ldb_BlockLayout
  imports Ldb_Block
begin

unbundle bit_operations_syntax

text \<open>
  The layout of a well-formed block and the primitive steps of its iterator: entries with shared
  prefixes, restart points, decoding an entry, moving from an entry to the next.
\<close>

subsection \<open>Decoding an entry without the fast path\<close>

lemma u32_less_128: "(x :: u32) < 128 \<longleftrightarrow> drop_bit 7 x = 0"
proof -
  have "drop_bit 7 x = 0 \<longleftrightarrow> unat x div 2 ^ 7 = 0" unfolding unat_drop_bit_u32 [symmetric] unat_0_iff ..
  then show ?thesis by (simp add: word_less_nat_alt div_eq_0_iff)
qed

lemma unat_ucast_byte: "unat (ucast (b :: byte) :: u32) = unat b"
  using unsigned_less [where 'a = nat, of b] by (simp add: unsigned_ucast_eq take_bit_nat_eq_self)

lemma or_less_128: "(ucast (a :: byte) :: u32) OR ucast (b :: byte) OR ucast (c :: byte) < 128 \<longleftrightarrow>
    unat a < 128 \<and> unat b < 128 \<and> unat c < 128"
proof -
  have u: "(ucast (b :: byte) :: u32) < 128 \<longleftrightarrow> unat b < 128" for b by (simp add: word_less_nat_alt unat_ucast_byte)
  show ?thesis unfolding u [symmetric] u32_less_128 by (simp add: drop_bit_or or_eq_0_iff)
qed

lemma GetVarint32Ptr_small: "unat b < 128 \<Longrightarrow> GetVarint32Ptr (b # p) = Some (ucast b, p)"
  by (simp add: GetVarint32Ptr_def ucast_and_128)

lemma DecodeEntry_slow:
  "DecodeEntry data p limit = (let s = drop p (take limit data) in
     if length s < 3 then None
     else do {
       (shared, s1) \<leftarrow> GetVarint32Ptr s;
       (non_shared, s2) \<leftarrow> GetVarint32Ptr s1;
       (value_length, s3) \<leftarrow> GetVarint32Ptr s2;
       if (word_of_nat (length s3) :: u32) < non_shared + value_length then None
       else Some (shared, non_shared, value_length, limit - length s3) })"
proof -
  define s where "s = drop p (take limit data)"
  show ?thesis
  proof (cases "3 \<le> length s \<and> (ucast (s ! 0) :: u32) OR ucast (s ! 1) OR ucast (s ! 2) < 128")
    case True
    then obtain a b c r where s: "s = a # b # c # r"
      by (metis Suc_le_length_iff numeral_3_eq_3)
    then show ?thesis using True unfolding DecodeEntry_def s_def [symmetric]
      by (auto simp: Let_def or_less_128 GetVarint32Ptr_small)
  next
    case False
    then show ?thesis unfolding DecodeEntry_def s_def [symmetric]
      by (auto simp: Let_def split: Option.bind_split)
  qed
qed

subsection \<open>The layout\<close>

text \<open>An entry: the number of bytes shared with the key before it, the key and the value.\<close>

type_synonym ent = "nat \<times> slice \<times> slice"

abbreviation e_shared :: "ent \<Rightarrow> nat" where "e_shared e \<equiv> fst e"
abbreviation e_key :: "ent \<Rightarrow> slice" where "e_key e \<equiv> fst (snd e)"
abbreviation e_val :: "ent \<Rightarrow> slice" where "e_val e \<equiv> snd (snd e)"

definition enc_head :: "ent \<Rightarrow> byte list" where
  "enc_head e = EncodeVarint32 (word_of_nat (e_shared e)) @ EncodeVarint32 (word_of_nat (length (e_key e) - e_shared e)) @
     EncodeVarint32 (word_of_nat (length (e_val e)))"

definition enc_entry :: "ent \<Rightarrow> byte list" where
  "enc_entry e = enc_head e @ drop (e_shared e) (e_key e) @ e_val e"

primrec chain :: "slice \<Rightarrow> ent list \<Rightarrow> bool" where
  "chain prev [] \<longleftrightarrow> True"
| "chain prev (e # es) \<longleftrightarrow> e_shared e \<le> length prev \<and> e_shared e \<le> length (e_key e) \<and>
     take (e_shared e) prev = take (e_shared e) (e_key e) \<and> chain (e_key e) es"

definition offs :: "ent list \<Rightarrow> nat \<Rightarrow> nat" where
  "offs ents i = length (concat (map enc_entry (take i ents)))"

definition block_rep :: "ent list \<Rightarrow> nat list \<Rightarrow> byte list" where
  "block_rep ents ris = concat (map enc_entry ents) @
     concat (map EncodeFixed32 (map (\<lambda>r. word_of_nat (offs ents r)) ris)) @ EncodeFixed32 (word_of_nat (length ris))"

definition blk_wf :: "ent list \<Rightarrow> nat list \<Rightarrow> bool" where
  "blk_wf ents ris \<longleftrightarrow> chain [] ents \<and> ris \<noteq> [] \<and> hd ris = 0 \<and> (\<forall>r \<in> set (tl ris). r < length ents) \<and>
     (\<forall>r \<in> set ris. r < length ents \<longrightarrow> e_shared (ents ! r) = 0) \<and> length (block_rep ents ris) < 2 ^ 32"

lemma offs_0 [simp]: "offs ents 0 = 0"
  by (simp add: offs_def)

lemma offs_Suc: "i < length ents \<Longrightarrow> offs ents (Suc i) = offs ents i + length (enc_entry (ents ! i))"
  by (simp add: offs_def take_Suc_conv_app_nth)

lemma EncodeVarint32_pos: "1 \<le> length (EncodeVarint32 v)"
  by (simp add: EncodeVarint32_def Let_def)

lemma enc_head_ge: "3 \<le> length (enc_head e)"
  using EncodeVarint32_pos [of "word_of_nat (e_shared e)"] EncodeVarint32_pos [of "word_of_nat (length (e_key e) - e_shared e)"]
    EncodeVarint32_pos [of "word_of_nat (length (e_val e))"] by (simp add: enc_head_def)

lemma length_enc_entry: "length (enc_entry e) = length (enc_head e) + (length (e_key e) - e_shared e) + length (e_val e)"
  by (simp add: enc_entry_def)

lemma offs_less: "i < j \<Longrightarrow> j \<le> length ents \<Longrightarrow> offs ents i < offs ents j"
proof (induction j)
  case (Suc j)
  have "offs ents j < offs ents (Suc j)"
    using Suc.prems(2) enc_head_ge [of "ents ! j"] by (auto simp: offs_Suc length_enc_entry)
  then show ?case using Suc by (cases "i = j") auto
qed simp

lemma offs_less_iff: "i \<le> length ents \<Longrightarrow> j \<le> length ents \<Longrightarrow> offs ents i < offs ents j \<longleftrightarrow> i < j"
  by (metis linorder_neqE_nat offs_less order_less_asym order_less_irrefl)

lemma offs_le_iff: "i \<le> length ents \<Longrightarrow> j \<le> length ents \<Longrightarrow> offs ents i \<le> offs ents j \<longleftrightarrow> i \<le> j"
  by (meson linorder_not_less offs_less_iff)

lemma offs_length: "offs ents (length ents) = length (concat (map enc_entry ents))"
  by (simp add: offs_def)

lemma length_block_rep: "length (block_rep ents ris) = offs ents (length ents) + 4 * length ris + 4"
  by (simp add: block_rep_def offs_length del: map_map)

lemma concat_at: "i < length ents \<Longrightarrow>
  concat (map enc_entry ents) = concat (map enc_entry (take i ents)) @ enc_entry (ents ! i) @ concat (map enc_entry (drop (Suc i) ents))"
  by (metis append_take_drop_id concat_append Cons_nth_drop_Suc list.map(2) concat.simps(2) map_append)

lemma chain_nth: "chain prev ents \<Longrightarrow> i < length ents \<Longrightarrow>
  e_shared (ents ! i) \<le> length (e_key (ents ! i)) \<and>
  (let p = (if i = 0 then prev else e_key (ents ! (i - 1))) in
    e_shared (ents ! i) \<le> length p \<and> take (e_shared (ents ! i)) p = take (e_shared (ents ! i)) (e_key (ents ! i)))"
proof (induction ents arbitrary: prev i)
  case (Cons e ents)
  show ?case
  proof (cases i)
    case (Suc j)
    then show ?thesis using Cons.IH [of "e_key e" j] Cons.prems by (cases j) auto
  qed (use Cons.prems in auto)
qed simp

lemma chain_key_length: "chain [] ents \<Longrightarrow> i < length ents \<Longrightarrow> length (e_key (ents ! i)) \<le> offs ents (Suc i)"
proof (induction i)
  case 0
  then show ?case using chain_nth [OF 0(1,2)] by (simp add: offs_Suc length_enc_entry Let_def)
next
  case (Suc i)
  have "length (e_key (ents ! i)) \<le> offs ents (Suc i)" using Suc by simp
  moreover have "e_shared (ents ! Suc i) \<le> length (e_key (ents ! i))"
    using chain_nth [OF Suc.prems] by (simp add: Let_def)
  ultimately show ?case using offs_Suc [OF Suc.prems(2)] unfolding length_enc_entry by linarith
qed

lemma chain_bounds:
  assumes "blk_wf ents ris" and "i < length ents"
  shows "e_shared (ents ! i) \<le> length (e_key (ents ! i))" "length (e_key (ents ! i)) < 2 ^ 32"
proof -
  have c: "chain [] ents" using assms(1) by (simp add: blk_wf_def)
  show "e_shared (ents ! i) \<le> length (e_key (ents ! i))" using chain_nth [OF c assms(2)] by simp
  have "length (e_key (ents ! i)) \<le> offs ents (length ents)"
    using chain_key_length [OF c assms(2)] offs_le_iff [of "Suc i" ents "length ents"] assms(2) by simp
  then show "length (e_key (ents ! i)) < 2 ^ 32" using assms(1) by (simp add: blk_wf_def length_block_rep)
qed

lemma unat_offs: "blk_wf ents ris \<Longrightarrow> i \<le> length ents \<Longrightarrow> unat (word_of_nat (offs ents i) :: u32) = offs ents i"
  using offs_le_iff [of i ents "length ents"] by (simp add: blk_wf_def length_block_rep unat_of_nat)

lemma unat_ris: "blk_wf ents ris \<Longrightarrow> j \<le> length ris \<Longrightarrow> unat (word_of_nat j :: u32) = j"
  by (simp add: blk_wf_def length_block_rep unat_of_nat)

lemma ris_le: "blk_wf ents ris \<Longrightarrow> j < length ris \<Longrightarrow> ris ! j \<le> length ents"
  by (cases ris; cases j) (auto simp: blk_wf_def less_imp_le)

lemma ris_less: "blk_wf ents ris \<Longrightarrow> j < length ris \<Longrightarrow> 0 < j \<Longrightarrow> ris ! j < length ents"
  by (cases ris; cases j) (auto simp: blk_wf_def)

lemma ris_0: "blk_wf ents ris \<Longrightarrow> ris ! 0 = 0 \<and> 0 < length ris"
  by (cases ris) (auto simp: blk_wf_def)

lemma ris_shared: "blk_wf ents ris \<Longrightarrow> j < length ris \<Longrightarrow> ris ! j < length ents \<Longrightarrow> e_shared (ents ! (ris ! j)) = 0"
  by (auto simp: blk_wf_def)

lemma DecodeEntry_at:
  assumes wf: "blk_wf ents ris" and i: "i < length ents"
  defines "e \<equiv> ents ! i" and "p \<equiv> offs ents i + length (enc_head (ents ! i))"
  shows "DecodeEntry (block_rep ents ris) (offs ents i) (offs ents (length ents)) =
      Some (word_of_nat (e_shared e), word_of_nat (length (e_key e) - e_shared e), word_of_nat (length (e_val e)), p)"
    and "read_bytes (block_rep ents ris) p (length (e_key e) - e_shared e) = Some (drop (e_shared e) (e_key e))"
    and "read_bytes (block_rep ents ris) (p + (length (e_key e) - e_shared e)) (length (e_val e)) = Some (e_val e)"
    and "p + (length (e_key e) - e_shared e) + length (e_val e) = offs ents (Suc i)"
proof -
  let ?A = "concat (map enc_entry (take i ents))" and ?B = "concat (map enc_entry (drop (Suc i) ents))"
  obtain R where rep: "block_rep ents ris = ?A @ enc_head e @ drop (e_shared e) (e_key e) @ e_val e @ ?B @ R"
    using concat_at [OF i] by (simp add: block_rep_def enc_entry_def e_def)
  have A: "length ?A = offs ents i" by (simp add: offs_def)
  have off: "offs ents (Suc i) = p + (length (e_key e) - e_shared e) + length (e_val e)"
    using offs_Suc [OF i] by (simp add: p_def e_def length_enc_entry)
  then show "p + (length (e_key e) - e_shared e) + length (e_val e) = offs ents (Suc i)" by simp
  show "read_bytes (block_rep ents ris) p (length (e_key e) - e_shared e) = Some (drop (e_shared e) (e_key e))"
    using A by (simp add: read_bytes_def rep p_def e_def)
  show "read_bytes (block_rep ents ris) (p + (length (e_key e) - e_shared e)) (length (e_val e)) = Some (e_val e)"
    using A by (simp add: read_bytes_def rep p_def e_def)
  let ?s = "enc_head e @ drop (e_shared e) (e_key e) @ e_val e @ ?B"
  have lim: "offs ents (length ents) = length (?A @ ?s)"
    unfolding offs_length concat_at [OF i] by (simp add: enc_entry_def e_def)
  have s: "drop (offs ents i) (take (offs ents (length ents)) (block_rep ents ris)) = ?s"
    unfolding lim by (simp add: rep A)
  have "offs ents (length ents) < 2 ^ 32" using wf by (simp add: blk_wf_def length_block_rep)
  then have small: "length ?s < 2 ^ 32" unfolding lim by simp
  have "e_shared e < 2 ^ 32" using chain_bounds [OF wf i] by (simp add: e_def)
  moreover have "length (e_key e) - e_shared e < 2 ^ 32" "length (e_val e) < 2 ^ 32" using small by simp_all
  moreover have "3 \<le> length ?s" using enc_head_ge [of e] by simp
  moreover have "\<not> (word_of_nat (length (drop (e_shared e) (e_key e) @ e_val e @ ?B)) :: u32) <
      word_of_nat (length (e_key e) - e_shared e) + word_of_nat (length (e_val e))"
    using small by (simp add: word_less_nat_alt unat_of_nat flip: of_nat_add)
  moreover have "length (?A @ ?s) - length (drop (e_shared e) (e_key e) @ e_val e @ ?B) = p"
    using A by (simp add: p_def e_def)
  ultimately show "DecodeEntry (block_rep ents ris) (offs ents i) (offs ents (length ents)) =
      Some (word_of_nat (e_shared e), word_of_nat (length (e_key e) - e_shared e), word_of_nat (length (e_val e)), p)"
    unfolding DecodeEntry_slow s
    by (simp add: Let_def enc_head_def GetVarint32_def [symmetric] lim del: length_append)
qed

subsection \<open>Positions of the iterator\<close>

definition it_on :: "ent list \<Rightarrow> nat list \<Rightarrow> BlockIter \<Rightarrow> bool" where
  "it_on ents ris it \<longleftrightarrow> bi_data it = block_rep ents ris \<and> bi_restarts it = word_of_nat (offs ents (length ents)) \<and>
     bi_num_restarts it = word_of_nat (length ris) \<and> bi_status it = Status_OK"

text \<open>At an entry; before an entry that is about to be parsed; past the last entry.\<close>

definition idx_ok :: "nat list \<Rightarrow> nat \<Rightarrow> u32 \<Rightarrow> bool" where
  "idx_ok ris i index \<longleftrightarrow> (\<exists>j < length ris. index = word_of_nat j \<and> ris ! j \<le> i)"

definition it_at :: "ent list \<Rightarrow> nat list \<Rightarrow> nat \<Rightarrow> BlockIter \<Rightarrow> bool" where
  "it_at ents ris i it \<longleftrightarrow> it_on ents ris it \<and> i < length ents \<and> bi_current it = word_of_nat (offs ents i) \<and>
     bi_key it = e_key (ents ! i) \<and>
     bi_value it = Some (offs ents (Suc i) - length (e_val (ents ! i)), length (e_val (ents ! i))) \<and>
     idx_ok ris i (bi_restart_index it)"

definition it_pre :: "ent list \<Rightarrow> nat list \<Rightarrow> nat \<Rightarrow> BlockIter \<Rightarrow> bool" where
  "it_pre ents ris i it \<longleftrightarrow> it_on ents ris it \<and> i \<le> length ents \<and>
     (\<exists>off n. bi_value it = Some (off, n) \<and> off + n = offs ents i) \<and>
     (i < length ents \<longrightarrow> e_shared (ents ! i) \<le> length (bi_key it) \<and>
        take (e_shared (ents ! i)) (bi_key it) = take (e_shared (ents ! i)) (e_key (ents ! i))) \<and>
     idx_ok ris i (bi_restart_index it)"

definition it_end :: "ent list \<Rightarrow> nat list \<Rightarrow> BlockIter \<Rightarrow> bool" where
  "it_end ents ris it \<longleftrightarrow> it_on ents ris it \<and> bi_current it = bi_restarts it"

lemma it_at_on: "it_at ents ris i it \<Longrightarrow> it_on ents ris it"
  by (simp add: it_at_def)

lemma it_end_on: "it_end ents ris it \<Longrightarrow> it_on ents ris it"
  by (simp add: it_end_def)

lemma word_offs_less:
  assumes "blk_wf ents ris" "i \<le> length ents" "j \<le> length ents"
  shows "(word_of_nat (offs ents i) :: u32) < word_of_nat (offs ents j) \<longleftrightarrow> i < j"
  using assms by (simp add: word_less_nat_alt unat_offs offs_less_iff)

lemma it_at_observe:
  assumes "blk_wf ents ris" and "it_at ents ris i it"
  shows "BlockIter_Valid it" "BlockIter_key it = Some (e_key (ents ! i))" "BlockIter_value it = Some (e_val (ents ! i))"
proof -
  have i: "i < length ents" using assms(2) by (simp add: it_at_def)
  show v: "BlockIter_Valid it"
    using assms word_offs_less [OF assms(1), of i "length ents"] by (simp add: BlockIter_Valid_def it_at_def it_on_def)
  show "BlockIter_key it = Some (e_key (ents ! i))" using v assms(2) by (simp add: BlockIter_key_def it_at_def)
  note d = DecodeEntry_at(3,4) [OF assms(1) i]
  have "offs ents (Suc i) - length (e_val (ents ! i)) =
      offs ents i + length (enc_head (ents ! i)) + (length (e_key (ents ! i)) - e_shared (ents ! i))" using d(2) by simp
  then show "BlockIter_value it = Some (e_val (ents ! i))"
    using v assms(2) d(1) by (simp add: BlockIter_value_def it_at_def it_on_def)
qed

lemma it_end_observe: "it_end ents ris it \<Longrightarrow> \<not> BlockIter_Valid it"
  by (simp add: it_end_def BlockIter_Valid_def)

lemma GetRestartPoint_on:
  assumes "blk_wf ents ris" and "bi_data it = block_rep ents ris" and "bi_restarts it = word_of_nat (offs ents (length ents))"
    and "bi_num_restarts it = word_of_nat (length ris)" and "j < length ris"
  shows "GetRestartPoint (word_of_nat j) it = Some (word_of_nat (offs ents (ris ! j)))"
proof -
  have "DecodeFixed32 (drop (offs ents (length ents) + j * 4) (block_rep ents ris)) =
      Some (map (\<lambda>r. word_of_nat (offs ents r)) ris ! j)"
    unfolding block_rep_def by (rule DecodeFixed32_array) (use assms(5) in \<open>simp_all add: offs_length\<close>)
  moreover have "(word_of_nat j :: u32) < word_of_nat (length ris)"
    using assms(1,5) by (simp add: word_less_nat_alt unat_ris [OF assms(1)])
  ultimately show ?thesis
    using assms by (simp add: GetRestartPoint_def unat_offs unat_ris)
qed

lemma bump_restart_ok:
  assumes wf: "blk_wf ents ris" and it: "bi_data it = block_rep ents ris" "bi_restarts it = word_of_nat (offs ents (length ents))"
    "bi_num_restarts it = word_of_nat (length ris)" "bi_current it = word_of_nat (offs ents i)" and i: "i < length ents"
    and ix: "idx_ok ris i index"
  shows "\<exists>index'. bump_restart it index = Some index' \<and> idx_ok ris i index'"
proof -
  obtain j where "j < length ris" "index = word_of_nat j" "ris ! j \<le> i" using ix by (auto simp: idx_ok_def)
  then show ?thesis
  proof (induction "length ris - j" arbitrary: j index)
    case (Suc n)
    have plus: "index + 1 = word_of_nat (Suc j)" using Suc.prems(2) by simp
    have here: "idx_ok ris i index" using Suc.prems by (auto simp: idx_ok_def)
    have lt: "index + 1 < bi_num_restarts it \<longleftrightarrow> Suc j < length ris"
      using Suc.prems(1) unfolding plus it(3) by (simp add: word_less_nat_alt unat_ris [OF wf] del: of_nat_Suc)
    show ?case
    proof (cases "Suc j < length ris")
      case False
      then show ?thesis using here lt by (subst bump_restart.simps) simp
    next
      case True
      have p: "GetRestartPoint (index + 1) it = Some (word_of_nat (offs ents (ris ! Suc j)))"
        unfolding plus by (rule GetRestartPoint_on [OF wf it(1-3) True])
      have c: "(word_of_nat (offs ents (ris ! Suc j)) :: u32) < bi_current it \<longleftrightarrow> ris ! Suc j < i"
        using ris_le [OF wf True] i by (simp add: it(4) word_offs_less [OF wf])
      show ?thesis
      proof (cases "ris ! Suc j < i")
        case True
        with Suc.hyps(1) [of "Suc j" "index + 1"] Suc.hyps(2) \<open>Suc j < length ris\<close> plus
        have "\<exists>index'. bump_restart it (index + 1) = Some index' \<and> idx_ok ris i index'" by (simp add: add.commute)
        then show ?thesis using lt p c True \<open>Suc j < length ris\<close> by (subst bump_restart.simps) simp
      next
        case False
        then show ?thesis using here lt p c by (subst bump_restart.simps) simp
      qed
    qed
  qed simp
qed

lemma Next_offset_pre: "it_pre ents ris i it \<Longrightarrow> NextEntryOffset it = Some (word_of_nat (offs ents i))"
  by (auto simp: it_pre_def NextEntryOffset_def simp del: of_nat_add)

lemma ParseNextKey_at:
  assumes wf: "blk_wf ents ris" and pre: "it_pre ents ris i it" and i: "i < length ents"
  shows "\<exists>it'. ParseNextKey it = Some (True, it') \<and> it_at ents ris i it'"
proof -
  let ?e = "ents ! i" and ?p = "offs ents i + length (enc_head (ents ! i))"
  let ?it1 = "it\<lparr>bi_current := word_of_nat (offs ents i), bi_key := e_key ?e,
    bi_value := Some (?p + (length (e_key ?e) - e_shared ?e), length (e_val ?e))\<rparr>"
  note on = pre [unfolded it_pre_def it_on_def]
  from bump_restart_ok [OF wf, of ?it1 i "bi_restart_index it"] on i obtain index where
    ix: "bump_restart ?it1 (bi_restart_index it) = Some index" "idx_ok ris i index" by auto
  note d = DecodeEntry_at [OF wf i]
  have b: "e_shared ?e \<le> length (e_key ?e)" "e_shared ?e < 2 ^ 32" "length (e_key ?e) - e_shared ?e < 2 ^ 32"
    using chain_bounds [OF wf i] by auto
  have "length (e_val ?e) \<le> offs ents (Suc i)" using d(4) by simp
  also have "\<dots> \<le> offs ents (length ents)" using i offs_le_iff [of "Suc i" ents "length ents"] by simp
  also have "\<dots> < 2 ^ 32" using wf by (simp add: blk_wf_def length_block_rep)
  finally have v: "length (e_val ?e) < 2 ^ 32" .
  have u: "unat (word_of_nat (e_shared ?e) :: u32) = e_shared ?e" "unat (word_of_nat (length (e_val ?e)) :: u32) = length (e_val ?e)"
    "unat (word_of_nat (length (e_key ?e) - e_shared ?e) :: u32) = length (e_key ?e) - e_shared ?e"
    using b v by (simp_all add: unat_of_nat del: of_nat_diff)
  have key: "take (e_shared ?e) (bi_key it) @ drop (e_shared ?e) (e_key ?e) = e_key ?e" "\<not> length (bi_key it) < e_shared ?e"
    using on i by auto
  have lim: "\<not> bi_restarts it \<le> word_of_nat (offs ents i)"
    using on i word_offs_less [OF wf, of i "length ents"] by (simp add: not_le)
  have "ParseNextKey it = Some (True, ?it1\<lparr>bi_restart_index := index\<rparr>)"
    using on lim d(1,2) key ix(1) i
    by (simp add: ParseNextKey_def Next_offset_pre [OF pre] unat_offs [OF wf] u)
  moreover have "it_at ents ris i (?it1\<lparr>bi_restart_index := index\<rparr>)"
    using on i ix(2) d(4) by (simp add: it_at_def it_on_def)
  ultimately show ?thesis by blast
qed

lemma ParseNextKey_end:
  assumes wf: "blk_wf ents ris" and pre: "it_pre ents ris (length ents) it"
  shows "\<exists>it'. ParseNextKey it = Some (False, it') \<and> it_end ents ris it'"
  using pre by (simp add: ParseNextKey_def Next_offset_pre [OF pre] it_pre_def it_on_def it_end_def)

lemma it_at_pre:
  assumes wf: "blk_wf ents ris" and at: "it_at ents ris i it"
  shows "it_pre ents ris (Suc i) it"
proof -
  have i: "i < length ents" using at by (simp add: it_at_def)
  have "length (e_val (ents ! i)) \<le> offs ents (Suc i)" using DecodeEntry_at(4) [OF wf i] by simp
  moreover have "Suc i < length ents \<Longrightarrow> e_shared (ents ! Suc i) \<le> length (e_key (ents ! i)) \<and>
      take (e_shared (ents ! Suc i)) (e_key (ents ! i)) = take (e_shared (ents ! Suc i)) (e_key (ents ! Suc i))"
    using chain_nth [of "[]" ents "Suc i"] wf by (simp add: blk_wf_def Let_def)
  ultimately show ?thesis using at i by (fastforce simp: it_at_def it_pre_def idx_ok_def)
qed

lemma SeekToRestartPoint_pre:
  assumes wf: "blk_wf ents ris" and on: "it_on ents ris it" and j: "j < length ris"
  shows "\<exists>it'. SeekToRestartPoint (word_of_nat j) it = Some it' \<and> it_pre ents ris (ris ! j) it'"
  using GetRestartPoint_on [OF wf _ _ _ j, of it] on j ris_le [OF wf j] ris_shared [OF wf j]
  by (auto simp: SeekToRestartPoint_def it_on_def it_pre_def unat_offs [OF wf] idx_ok_def)

end
