(* ===== verification/Ldb_BlockIter.thy ===== *)
theory Ldb_BlockIter
  imports Ldb_BlockLayout
begin

text \<open>
  The iterator of a block refines a cursor over a sorted list, and the builder makes well-formed
  blocks: together, whatever calls a client makes on an iterator of a block that was built from sorted
  entries, it sees exactly these entries.
\<close>

subsection \<open>The cursor\<close>

text \<open>The calls of a client of \<open>Iterator\<close>, and what they do on a sorted list of entries. A position is the
  index of an entry or \<open>None\<close> (not valid); the outer \<open>None\<close> is a failed assertion.\<close>

datatype iter_op = OpNext | OpPrev | OpSeek slice | OpSeekToFirst | OpSeekToLast

definition mk_pos :: "nat \<Rightarrow> nat \<Rightarrow> nat option" where
  "mk_pos n i = (if i < n then Some i else None)"

fun cursor_step :: "(slice \<Rightarrow> slice \<Rightarrow> int option) \<Rightarrow> (slice \<times> slice) list \<Rightarrow> iter_op \<Rightarrow> nat option \<Rightarrow> nat option option" where
  "cursor_step cmp kvs OpNext pos = map_option (\<lambda>i. mk_pos (length kvs) (Suc i)) pos"
| "cursor_step cmp kvs OpPrev pos = map_option (\<lambda>i. if i = 0 then None else Some (i - 1)) pos"
| "cursor_step cmp kvs (OpSeek t) pos = Some (mk_pos (length kvs) (length (takeWhile (\<lambda>kv. cmp_lt cmp (fst kv) t) kvs)))"
| "cursor_step cmp kvs OpSeekToFirst pos = Some (mk_pos (length kvs) 0)"
| "cursor_step cmp kvs OpSeekToLast pos = Some (if kvs = [] then None else Some (length kvs - 1))"

primrec cursor_run :: "(slice \<Rightarrow> slice \<Rightarrow> int option) \<Rightarrow> (slice \<times> slice) list \<Rightarrow> iter_op list \<Rightarrow> nat option \<Rightarrow> nat option option" where
  "cursor_run cmp kvs [] pos = Some pos"
| "cursor_run cmp kvs (c # cs) pos = do { pos1 \<leftarrow> cursor_step cmp kvs c pos; cursor_run cmp kvs cs pos1 }"

text \<open>The same calls on the iterator of a block.\<close>

fun block_step :: "(slice \<Rightarrow> slice \<Rightarrow> int option) \<Rightarrow> iter_op \<Rightarrow> BlockIter \<Rightarrow> BlockIter option" where
  "block_step cmp OpNext it = BlockIter_Next it"
| "block_step cmp OpPrev it = BlockIter_Prev it"
| "block_step cmp (OpSeek t) it = BlockIter_Seek cmp t it"
| "block_step cmp OpSeekToFirst it = BlockIter_SeekToFirst it"
| "block_step cmp OpSeekToLast it = BlockIter_SeekToLast it"

primrec block_run :: "(slice \<Rightarrow> slice \<Rightarrow> int option) \<Rightarrow> iter_op list \<Rightarrow> BlockIter \<Rightarrow> BlockIter option" where
  "block_run cmp [] it = Some it"
| "block_run cmp (c # cs) it = do { it1 \<leftarrow> block_step cmp c it; block_run cmp cs it1 }"

subsection \<open>The steps that need no comparison\<close>

definition it_rel :: "ent list \<Rightarrow> nat list \<Rightarrow> nat option \<Rightarrow> BlockIter \<Rightarrow> bool" where
  "it_rel ents ris pos it \<longleftrightarrow> (case pos of None \<Rightarrow> it_end ents ris it | Some i \<Rightarrow> it_at ents ris i it)"

lemma it_rel_on: "it_rel ents ris pos it \<Longrightarrow> it_on ents ris it"
  by (auto simp: it_rel_def it_at_on it_end_on split: option.splits)

lemma ParseNextKey_rel:
  assumes "blk_wf ents ris" and "it_pre ents ris i it"
  shows "\<exists>it'. ParseNextKey it = Some (i < length ents, it') \<and> it_rel ents ris (mk_pos (length ents) i) it'"
proof (cases "i < length ents")
  case True
  then show ?thesis using ParseNextKey_at [OF assms True] by (simp add: it_rel_def mk_pos_def)
next
  case False
  then have "i = length ents" using assms(2) by (simp add: it_pre_def)
  then show ?thesis using ParseNextKey_end [OF assms(1)] assms(2) by (simp add: it_rel_def mk_pos_def)
qed

lemma Next_rel:
  assumes "blk_wf ents ris" and "it_at ents ris i it"
  shows "\<exists>it'. BlockIter_Next it = Some it' \<and> it_rel ents ris (mk_pos (length ents) (Suc i)) it'"
  using ParseNextKey_rel [OF assms(1) it_at_pre [OF assms]] it_at_observe(1) [OF assms] by (auto simp: BlockIter_Next_def)

lemma parse_until_rel:
  assumes wf: "blk_wf ents ris" and "it_pre ents ris i it" and "i < m" and m: "m \<le> length ents"
  shows "\<exists>it'. parse_until (word_of_nat (offs ents m)) it = Some it' \<and> it_at ents ris (m - 1) it'"
  using assms(2,3)
proof (induction "m - i" arbitrary: i it)
  case (Suc n)
  obtain it1 where p: "ParseNextKey it = Some (True, it1)" "it_at ents ris i it1"
    using ParseNextKey_at [OF wf Suc.prems(1)] Suc.prems(2) m by auto
  note pre1 = it_at_pre [OF wf p(2)]
  have nxt: "NextEntryOffset it1 = Some (word_of_nat (offs ents (Suc i)))" by (rule Next_offset_pre [OF pre1])
  have lt: "(word_of_nat (offs ents (Suc i)) :: u32) < word_of_nat (offs ents m) \<longleftrightarrow> Suc i < m"
    using Suc.prems(2) m by (simp add: word_offs_less [OF wf])
  show ?case
  proof (cases "Suc i < m")
    case True
    from Suc.hyps(1) [OF _ pre1 True] Suc.hyps(2) show ?thesis
      using p(1) nxt lt True by (subst parse_until.simps) simp
  next
    case False
    then have "i = m - 1" using Suc.prems(2) by simp
    then show ?thesis using p nxt lt False by (subst parse_until.simps) simp
  qed
qed simp

lemma prev_restart_rel:
  assumes wf: "blk_wf ents ris" and i: "i \<le> length ents"
    and "it_on ents ris it" and "bi_restart_index it = word_of_nat j" and "j < length ris"
  shows "(i = 0 \<longrightarrow> (\<exists>it'. prev_restart (word_of_nat (offs ents i)) it = Some (Inl it') \<and> it_end ents ris it')) \<and>
    (0 < i \<longrightarrow> (\<exists>it' k. prev_restart (word_of_nat (offs ents i)) it = Some (Inr it') \<and> it_on ents ris it' \<and>
      bi_restart_index it' = word_of_nat k \<and> k < length ris \<and> ris ! k < i))"
  using assms(3-5)
proof (induction j arbitrary: it)
  case 0
  have p: "GetRestartPoint (bi_restart_index it) it = Some (word_of_nat (offs ents 0))"
    using GetRestartPoint_on [OF wf, of it 0] 0 ris_0 [OF wf] by (simp add: it_on_def)
  have "(word_of_nat (offs ents 0) :: u32) < word_of_nat (offs ents i) \<longleftrightarrow> 0 < i" using word_offs_less [OF wf, of 0 i] i by simp
  then show ?case using p 0 ris_0 [OF wf]
    by (subst (1 2) prev_restart.simps) (auto simp: not_less it_end_def it_on_def intro!: exI [of _ "0 :: nat"])
next
  case (Suc j)
  have p: "GetRestartPoint (bi_restart_index it) it = Some (word_of_nat (offs ents (ris ! Suc j)))"
    using GetRestartPoint_on [OF wf, of it "Suc j"] Suc.prems by (simp add: it_on_def)
  have lt: "(word_of_nat (offs ents (ris ! Suc j)) :: u32) < word_of_nat (offs ents i) \<longleftrightarrow> ris ! Suc j < i"
    using word_offs_less [OF wf ris_le [OF wf Suc.prems(3)] i] .
  have nz: "bi_restart_index it \<noteq> 0" using Suc.prems(2,3) unat_ris [OF wf, of "Suc j"] by (metis less_imp_le nat.distinct(1) unat_0)
  have minus: "bi_restart_index it - 1 = word_of_nat j" using Suc.prems(2) by simp
  let ?it = "it\<lparr>bi_restart_index := word_of_nat j\<rparr>"
  show ?case
  proof (cases "ris ! Suc j < i")
    case True
    then have "prev_restart (word_of_nat (offs ents i)) it = Some (Inr it)"
      using p lt by (subst prev_restart.simps) (simp add: not_le [symmetric])
    then show ?thesis using Suc.prems True by blast
  next
    case False
    then have e: "prev_restart (word_of_nat (offs ents i)) it = prev_restart (word_of_nat (offs ents i)) ?it"
      using p lt nz minus by (subst prev_restart.simps) (simp add: not_less)
    have "it_on ents ris ?it" using Suc.prems(1) by (simp add: it_on_def)
    then show ?thesis unfolding e using Suc.IH [of ?it] Suc.prems(3) by simp
  qed
qed

lemma Prev_rel:
  assumes wf: "blk_wf ents ris" and at: "it_at ents ris i it"
  shows "\<exists>it'. BlockIter_Prev it = Some it' \<and> it_rel ents ris (if i = 0 then None else Some (i - 1)) it'"
proof -
  have c: "bi_current it = word_of_nat (offs ents i)" "i \<le> length ents" "it_on ents ris it"
    using at by (auto simp: it_at_def)
  obtain j where j: "j < length ris" "bi_restart_index it = word_of_nat j" using at by (auto simp: it_at_def idx_ok_def)
  note r = prev_restart_rel [OF wf c(2,3) j(2,1)]
  show ?thesis
  proof (cases "i = 0")
    case True
    then show ?thesis using r it_at_observe(1) [OF wf at] by (auto simp: BlockIter_Prev_def c(1) it_rel_def)
  next
    case False
    with r obtain it1 k where k: "prev_restart (bi_current it) it = Some (Inr it1)" "it_on ents ris it1"
      "bi_restart_index it1 = word_of_nat k" "k < length ris" "ris ! k < i" by (auto simp: c(1))
    from SeekToRestartPoint_pre [OF wf k(2,4)] obtain it2 where
      s: "SeekToRestartPoint (word_of_nat k) it1 = Some it2" "it_pre ents ris (ris ! k) it2" by blast
    from parse_until_rel [OF wf s(2) k(5) c(2)] show ?thesis
      using False k(1,3) s(1) it_at_observe(1) [OF wf at] by (auto simp: BlockIter_Prev_def c(1) it_rel_def)
  qed
qed

lemma SeekToFirst_rel:
  assumes wf: "blk_wf ents ris" and on: "it_on ents ris it"
  shows "\<exists>it'. BlockIter_SeekToFirst it = Some it' \<and> it_rel ents ris (mk_pos (length ents) 0) it'"
proof -
  obtain it1 where s: "SeekToRestartPoint 0 it = Some it1" "it_pre ents ris 0 it1"
    using SeekToRestartPoint_pre [OF wf on, of 0] ris_0 [OF wf] by auto
  from ParseNextKey_rel [OF wf s(2)] show ?thesis using s(1) by (auto simp: BlockIter_SeekToFirst_def)
qed

lemma SeekToLast_rel:
  assumes wf: "blk_wf ents ris" and on: "it_on ents ris it"
  shows "\<exists>it'. BlockIter_SeekToLast it = Some it' \<and> it_rel ents ris (if ents = [] then None else Some (length ents - 1)) it'"
proof -
  let ?j = "length ris - 1"
  have j: "?j < length ris" using ris_0 [OF wf] by simp
  have w: "bi_num_restarts it - 1 = word_of_nat ?j" using on ris_0 [OF wf] by (simp add: it_on_def of_nat_diff Suc_le_eq)
  obtain it1 where s: "SeekToRestartPoint (word_of_nat ?j) it = Some it1" "it_pre ents ris (ris ! ?j) it1"
    using SeekToRestartPoint_pre [OF wf on j] by blast
  have res: "bi_restarts it = word_of_nat (offs ents (length ents))" using on by (simp add: it_on_def)
  show ?thesis
  proof (cases "ents = []")
    case True
    have "ris ! ?j = length ents" using True ris_le [OF wf j] by simp
    then have "it_pre ents ris (length ents) it1" using s(2) by simp
    then obtain it2 where "ParseNextKey it1 = Some (False, it2)" "it_end ents ris it2" using ParseNextKey_end [OF wf] by blast
    moreover from this have "parse_until (bi_restarts it) it1 = Some it2" by (subst parse_until.simps) simp
    ultimately show ?thesis using True s(1) w by (simp add: BlockIter_SeekToLast_def it_rel_def)
  next
    case False
    then have "ris ! ?j < length ents" using ris_less [OF wf j] ris_0 [OF wf] by (cases "?j = 0") auto
    from parse_until_rel [OF wf s(2) this order_refl] show ?thesis using False s(1) w res
      by (auto simp: BlockIter_SeekToLast_def it_rel_def)
  qed
qed

subsection \<open>Searching\<close>

lemma takeWhile_from:
  "i \<le> length xs \<Longrightarrow> \<forall>x \<in> set (take i xs). P x \<Longrightarrow>
   length (takeWhile P xs) = i + length (takeWhile P (drop i xs))"
  by (metis (no_types, lifting) append_take_drop_id length_append length_take min.absorb2 takeWhile_append2)

lemma in_take: "x \<in> set (take n xs) \<Longrightarrow> \<exists>k < n. x = xs ! k"
  by (auto simp: in_set_conv_nth)

lemma mid_bounds:
  assumes "blk_wf ents ris" and "l < r" and "r < length ris"
  shows "(word_of_nat l + word_of_nat r + 1 :: u32) div 2 = word_of_nat ((l + r + 1) div 2)"
    "l < (l + r + 1) div 2" "(l + r + 1) div 2 \<le> r"
proof -
  have lim: "l + r + 1 < 2 ^ 32" using assms by (simp add: blk_wf_def length_block_rep)
  have "(word_of_nat (l + r + 1) :: u32) div word_of_nat 2 = word_of_nat ((l + r + 1) div 2)"
    using lim by (intro word_unat_eq_iff [THEN iffD2]) (simp add: unat_div_distrib unat_of_nat del: of_nat_add of_nat_Suc)
  then show "(word_of_nat l + word_of_nat r + 1 :: u32) div 2 = word_of_nat ((l + r + 1) div 2)" by (simp add: ac_simps)
  show "l < (l + r + 1) div 2" "(l + r + 1) div 2 \<le> r" using assms(2) by linarith+
qed

context slice_comparator begin

lemma seek_restart_rel:
  assumes wf: "blk_wf ents ris" and on: "it_on ents ris it" and oks: "\<forall>e \<in> set ents. ok (e_key e)" and t: "ok t"
    and "l \<le> r" and "r < length ris" and "l = 0 \<or> cmp_lt cmp (e_key (ents ! (ris ! l))) t"
  shows "\<exists>l'. seek_restart cmp t it (word_of_nat l) (word_of_nat r) = Some (Some (word_of_nat l')) \<and> l' < length ris \<and>
    (l' = 0 \<or> cmp_lt cmp (e_key (ents ! (ris ! l'))) t)"
  using assms(5-7)
proof (induction "r - l" arbitrary: l r rule: less_induct)
  case less
  show ?case
  proof (cases "l = r")
    case True
    then show ?thesis using less.prems by (subst seek_restart.simps) auto
  next
    case False
    define m where "m = (l + r + 1) div 2"
    have lr: "l < r" using False less.prems(1) by simp
    note m = mid_bounds [OF wf lr less.prems(2), folded m_def]
    have mr: "m < length ris" "ris ! m < length ents" using m less.prems(2) ris_less [OF wf, of m] by auto
    have lw: "(word_of_nat l :: u32) < word_of_nat r"
      using lr less.prems(2) by (simp add: word_less_nat_alt unat_ris [OF wf])
    have p: "GetRestartPoint (word_of_nat m) it = Some (word_of_nat (offs ents (ris ! m)))"
      using GetRestartPoint_on [OF wf _ _ _ mr(1), of it] on by (simp add: it_on_def)
    let ?e = "ents ! (ris ! m)"
    have sh: "e_shared ?e = 0" by (rule ris_shared [OF wf mr])
    have len: "unat (word_of_nat (length (e_key ?e)) :: u32) = length (e_key ?e)"
      using chain_bounds(2) [OF wf mr(2)] by (simp add: unat_of_nat)
    note d = DecodeEntry_at [OF wf mr(2), unfolded sh]
    have dat: "bi_data it = block_rep ents ris" "unat (bi_restarts it) = offs ents (length ents)"
      "unat (word_of_nat (offs ents (ris ! m)) :: u32) = offs ents (ris ! m)"
      using on mr(2) by (simp_all add: it_on_def unat_offs [OF wf])
    obtain c where c: "cmp (e_key ?e) t = Some c" using cmp_flip [of "e_key ?e" t] oks t mr(2) by (metis nth_mem)
    have w: "(word_of_nat m :: u32) - 1 = word_of_nat (m - 1)" using m(2) by (simp add: of_nat_diff Suc_le_eq)
    have step: "seek_restart cmp t it (word_of_nat l) (word_of_nat r) =
        (if c < 0 then seek_restart cmp t it (word_of_nat m) (word_of_nat r)
         else seek_restart cmp t it (word_of_nat l) (word_of_nat (m - 1)))"
      using lw p d(1,2) c w by (subst seek_restart.simps) (simp add: m(1) Let_def dat len del: of_nat_add of_nat_Suc)
    show ?thesis
    proof (cases "c < 0")
      case True
      then have "cmp_lt cmp (e_key ?e) t" using c by (simp add: cmp_lt_def)
      then show ?thesis unfolding step using True less.hyps [of r m] m less.prems(2) lr by simp
    next
      case False
      then show ?thesis unfolding step using less.hyps [of "m - 1" l] m less.prems(2,3) lr by simp
    qed
  qed
qed

lemma seek_linear_rel:
  assumes wf: "blk_wf ents ris" and oks: "\<forall>e \<in> set ents. ok (e_key e)" and t: "ok t" and "it_pre ents ris i it"
  shows "\<exists>it'. seek_linear cmp t it = Some it' \<and>
    it_rel ents ris (mk_pos (length ents) (i + length (takeWhile (\<lambda>e. cmp_lt cmp (e_key e) t) (drop i ents)))) it'"
  using assms(4)
proof (induction "length ents - i" arbitrary: i it)
  case 0
  then have "i = length ents" by (simp add: it_pre_def)
  then show ?case using ParseNextKey_rel [OF wf 0(2)] by (subst seek_linear.simps) (auto simp: mk_pos_def)
next
  case (Suc n)
  then have i: "i < length ents" by simp
  obtain it1 where p: "ParseNextKey it = Some (True, it1)" "it_at ents ris i it1"
    using ParseNextKey_at [OF wf Suc.prems i] by blast
  have k: "bi_key it1 = e_key (ents ! i)" using p(2) by (simp add: it_at_def)
  obtain c where c: "cmp (e_key (ents ! i)) t = Some c" using cmp_flip [of "e_key (ents ! i)" t] oks t i by (metis nth_mem)
  have d: "drop i ents = ents ! i # drop (Suc i) ents" using i by (simp add: Cons_nth_drop_Suc)
  show ?case
  proof (cases "c < 0")
    case True
    from Suc.hyps(1) [OF _ it_at_pre [OF wf p(2)]] Suc.hyps(2) show ?thesis
      using p(1) k c True by (subst seek_linear.simps) (simp add: d cmp_lt_def)
  next
    case False
    then show ?thesis using p k c i by (subst seek_linear.simps) (simp add: d cmp_lt_def it_rel_def mk_pos_def)
  qed
qed

lemma Seek_rel:
  assumes wf: "blk_wf ents ris" and on: "it_on ents ris it" and oks: "\<forall>e \<in> set ents. ok (e_key e)" and t: "ok t"
    and sorted: "sorted_wrt (\<lambda>a b. cmp_lt cmp (e_key a) (e_key b)) ents"
  shows "\<exists>it'. BlockIter_Seek cmp t it = Some it' \<and>
    it_rel ents ris (mk_pos (length ents) (length (takeWhile (\<lambda>e. cmp_lt cmp (e_key e) t) ents))) it'"
proof -
  let ?r = "length ris - 1" and ?P = "\<lambda>e. cmp_lt cmp (e_key e) t"
  have r: "0 \<le> ?r" "?r < length ris" using ris_0 [OF wf] by simp_all
  have w: "bi_num_restarts it - 1 = word_of_nat ?r" using on ris_0 [OF wf] by (simp add: it_on_def of_nat_diff Suc_le_eq)
  from seek_restart_rel [OF wf on oks t r disjI1 [OF refl]] obtain l where
    l: "seek_restart cmp t it (word_of_nat 0) (word_of_nat ?r) = Some (Some (word_of_nat l))" "l < length ris" "l = 0 \<or> ?P (ents ! (ris ! l))"
    by blast
  from SeekToRestartPoint_pre [OF wf on l(2)] obtain it1 where
    s: "SeekToRestartPoint (word_of_nat l) it = Some it1" "it_pre ents ris (ris ! l) it1" by blast
  have "?P e" if e: "e \<in> set (take (ris ! l) ents)" for e
  proof -
    have "ris ! l \<noteq> 0" using e by (cases "ris ! l") auto
    then have l0: "0 < l" using ris_0 [OF wf] by (cases l) auto
    have rl: "ris ! l < length ents" by (rule ris_less [OF wf l(2) l0])
    obtain k where k: "k < ris ! l" "e = ents ! k" using in_take [OF e] by blast
    have "cmp_lt cmp (e_key e) (e_key (ents ! (ris ! l)))" using sorted_wrt_nth_less [OF sorted k(1) rl] k(2) by simp
    then show ?thesis
      using l(3) l0 oks t k rl cmp_lt_trans [of "e_key e" "e_key (ents ! (ris ! l))" t] by (simp add: nth_mem)
  qed
  then have "length (takeWhile ?P ents) = ris ! l + length (takeWhile ?P (drop (ris ! l) ents))"
    using takeWhile_from [of "ris ! l" ents ?P] ris_le [OF wf l(2)] by blast
  then show ?thesis using seek_linear_rel [OF wf oks t s(2)] l(1) s(1) by (auto simp: BlockIter_Seek_def w)
qed

text \<open>Every call refines the call of the cursor.\<close>

lemma block_step_rel:
  assumes wf: "blk_wf ents ris" and oks: "\<forall>e \<in> set ents. ok (e_key e)"
    and sorted: "sorted_wrt (\<lambda>a b. cmp_lt cmp (e_key a) (e_key b)) ents"
    and rel: "it_rel ents ris pos it" and c: "\<forall>t. c = OpSeek t \<longrightarrow> ok t"
  shows "case cursor_step cmp (map snd ents) c pos of None \<Rightarrow> block_step cmp c it = None
    | Some pos' \<Rightarrow> \<exists>it'. block_step cmp c it = Some it' \<and> it_rel ents ris pos' it'"
proof -
  note on = it_rel_on [OF rel]
  have inv: "pos = None \<Longrightarrow> \<not> BlockIter_Valid it" using rel by (simp add: it_rel_def it_end_observe)
  have at: "pos = Some i \<Longrightarrow> it_at ents ris i it" for i using rel by (simp add: it_rel_def)
  have m: "length (takeWhile (\<lambda>kv. cmp_lt cmp (fst kv) t) (map snd ents)) = length (takeWhile (\<lambda>e. cmp_lt cmp (e_key e) t) ents)" for t
    by (simp add: takeWhile_map comp_def)
  show ?thesis
  proof (cases c)
    case OpNext
    then show ?thesis using Next_rel [OF wf at] inv by (cases pos) (auto simp: BlockIter_Next_def)
  next
    case OpPrev
    then show ?thesis using Prev_rel [OF wf at] inv by (cases pos) (auto simp: BlockIter_Prev_def)
  next
    case (OpSeek t)
    then show ?thesis using Seek_rel [OF wf on oks _ sorted, of t] c m [of t] by simp
  next
    case OpSeekToFirst
    then show ?thesis using SeekToFirst_rel [OF wf on] by simp
  next
    case OpSeekToLast
    then show ?thesis using SeekToLast_rel [OF wf on] by auto
  qed
qed

lemma block_run_rel:
  assumes wf: "blk_wf ents ris" and oks: "\<forall>e \<in> set ents. ok (e_key e)"
    and sorted: "sorted_wrt (\<lambda>a b. cmp_lt cmp (e_key a) (e_key b)) ents"
    and "it_rel ents ris pos it" and "\<forall>t. OpSeek t \<in> set cs \<longrightarrow> ok t"
  shows "case cursor_run cmp (map snd ents) cs pos of None \<Rightarrow> block_run cmp cs it = None
    | Some pos' \<Rightarrow> \<exists>it'. block_run cmp cs it = Some it' \<and> it_rel ents ris pos' it'"
  using assms(4,5)
proof (induction cs arbitrary: pos it)
  case (Cons c cs)
  have "\<forall>t. c = OpSeek t \<longrightarrow> ok t" using Cons.prems(2) by auto
  note step = block_step_rel [OF wf oks sorted Cons.prems(1) this]
  show ?case
  proof (cases "cursor_step cmp (map snd ents) c pos")
    case None
    then show ?thesis using step by simp
  next
    case (Some pos1)
    then obtain it1 where it1: "block_step cmp c it = Some it1" "it_rel ents ris pos1 it1" using step by auto
    show ?thesis using Cons.IH [OF it1(2)] Cons.prems(2) Some it1(1) by (auto split: option.splits)
  qed
qed simp

end

subsection \<open>Building well-formed blocks\<close>

primrec add_entries ::
  "(slice \<Rightarrow> slice \<Rightarrow> int option) \<Rightarrow> nat \<Rightarrow> (slice \<times> slice) list \<Rightarrow> BlockBuilder \<Rightarrow> BlockBuilder option" where
  "add_entries cmp interval [] b = Some b"
| "add_entries cmp interval (kv # kvs) b = do {
     b1 \<leftarrow> BlockBuilder_Add cmp interval (fst kv) (snd kv) b;
     add_entries cmp interval kvs b1 }"

definition bb_inv :: "nat \<Rightarrow> BlockBuilder \<Rightarrow> ent list \<Rightarrow> nat list \<Rightarrow> bool" where
  "bb_inv interval b ents ris \<longleftrightarrow> bb_buffer b = concat (map enc_entry ents) \<and>
     bb_restarts b = map (\<lambda>r. word_of_nat (offs ents r)) ris \<and> \<not> bb_finished b \<and>
     bb_last_key b = (if ents = [] then [] else e_key (last ents)) \<and> bb_counter b \<le> interval \<and>
     (ents = [] \<longrightarrow> bb_counter b = 0) \<and> 1 \<le> interval \<and> chain [] ents \<and> ris \<noteq> [] \<and> hd ris = 0 \<and>
     (\<forall>r \<in> set (tl ris). r < length ents) \<and> (\<forall>r \<in> set ris. r < length ents \<longrightarrow> e_shared (ents ! r) = 0)"

lemma bb_inv_new: "1 \<le> interval \<Longrightarrow> bb_inv interval BlockBuilder_Reset [] [0]"
  by (simp add: bb_inv_def BlockBuilder_Reset_def)

lemma offs_append: "r \<le> length ents \<Longrightarrow> offs (ents @ es) r = offs ents r"
  by (simp add: offs_def)

lemma chain_snoc: "chain prev (ents @ [e]) \<longleftrightarrow> chain prev ents \<and> chain (if ents = [] then prev else e_key (last ents)) [e]"
  by (induction ents arbitrary: prev) auto

lemma common_prefix_le: "common_prefix_length a b \<le> length a" "common_prefix_length a b \<le> length b"
    "take (common_prefix_length a b) a = take (common_prefix_length a b) b"
  by (induction a b rule: common_prefix_length.induct) auto

lemma bb_inv_ris: "bb_inv interval b ents ris \<Longrightarrow> r \<in> set ris \<Longrightarrow> r \<le> length ents"
  by (cases ris) (auto simp: bb_inv_def less_imp_le)

lemma bb_inv_empty: "bb_inv interval b ents ris \<Longrightarrow> bb_buffer b = [] \<longleftrightarrow> ents = []"
proof -
  have "enc_entry e \<noteq> []" for e using enc_head_ge [of e] by (auto simp: enc_entry_def)
  then show "bb_inv interval b ents ris \<Longrightarrow> ?thesis" by (cases ents) (simp_all add: bb_inv_def)
qed

context slice_comparator begin

lemma BlockBuilder_Add_inv:
  assumes inv: "bb_inv interval b ents ris"
    and less: "ents \<noteq> [] \<Longrightarrow> ok k \<and> ok (e_key (last ents)) \<and> cmp_lt cmp (e_key (last ents)) k"
  shows "\<exists>b' sh ris'. BlockBuilder_Add cmp interval k v b = Some b' \<and> bb_inv interval b' (ents @ [(sh, k, v)]) ris'"
proof -
  note i = inv [unfolded bb_inv_def]
  define sh where "sh = (if bb_counter b < interval then common_prefix_length (bb_last_key b) k else 0)"
  define ris' where "ris' = (if bb_counter b < interval then ris else ris @ [length ents])"
  have sh: "sh \<le> length (bb_last_key b)" "sh \<le> length k" "take sh (bb_last_key b) = take sh k"
    using common_prefix_le [of "bb_last_key b" k] by (auto simp: sh_def)
  have gt: "(if bb_buffer b = [] then Some True else do { r \<leftarrow> cmp k (bb_last_key b); Some (r > 0) }) = Some True"
  proof (cases "ents = []")
    case False
    then have l: "ok k" "ok (bb_last_key b)" "cmp_lt cmp (bb_last_key b) k" using less i by auto
    then obtain r where "cmp k (bb_last_key b) = Some r" "r > 0"
      by (cases rule: cmp_cases [OF l(1,2)]) auto
    then show ?thesis by simp
  qed (use bb_inv_empty [OF inv] in simp)
  have new: "map (\<lambda>r. word_of_nat (offs (ents @ [(sh, k, v)]) r)) ris' =
      (if bb_counter b < interval then bb_restarts b else bb_restarts b @ [word_of_nat (length (bb_buffer b))] :: u32 list)"
    using i bb_inv_ris [OF inv] by (auto simp: ris'_def offs_append offs_def)
  have "BlockBuilder_Add cmp interval k v b = Some (b\<lparr>bb_buffer := bb_buffer b @ enc_entry (sh, k, v),
      bb_restarts := map (\<lambda>r. word_of_nat (offs (ents @ [(sh, k, v)]) r)) ris',
      bb_counter := (if bb_counter b < interval then bb_counter b else 0) + 1, bb_last_key := k\<rparr>)"
    using gt i sh unfolding new
    by (auto simp: BlockBuilder_Add_def Let_def PutVarint32_def enc_entry_def enc_head_def sh_def)
  moreover have "bb_inv interval (b\<lparr>bb_buffer := bb_buffer b @ enc_entry (sh, k, v),
      bb_restarts := map (\<lambda>r. word_of_nat (offs (ents @ [(sh, k, v)]) r)) ris',
      bb_counter := (if bb_counter b < interval then bb_counter b else 0) + 1, bb_last_key := k\<rparr>) (ents @ [(sh, k, v)]) ris'"
  proof -
    have "chain [] (ents @ [(sh, k, v)])" using i sh by (simp add: chain_snoc)
    moreover have "\<forall>r \<in> set ris'. r < length (ents @ [(sh, k, v)]) \<longrightarrow> e_shared ((ents @ [(sh, k, v)]) ! r) = 0"
    proof (cases "ents = []")
      case False
      then have "r < length ents" if "r \<in> set ris" for r using i that by (cases ris) auto
      then show ?thesis using i by (auto simp: ris'_def nth_append sh_def)
    qed (use i in \<open>auto simp: ris'_def sh_def\<close>)
    moreover have "ris' \<noteq> []" "hd ris' = 0" "\<forall>r \<in> set (tl ris'). r < length (ents @ [(sh, k, v)])"
      using i by (auto simp: ris'_def less_SucI)
    ultimately show ?thesis using i by (auto simp: bb_inv_def)
  qed
  ultimately show ?thesis by blast
qed

lemma add_entries_inv:
  assumes "bb_inv interval b ents ris" and "\<forall>kv \<in> set kvs. ok (fst kv)"
    and "sorted_wrt (\<lambda>a b. cmp_lt cmp (fst a) (fst b)) kvs"
    and "ents \<noteq> [] \<Longrightarrow> ok (e_key (last ents)) \<and> (\<forall>kv \<in> set kvs. cmp_lt cmp (e_key (last ents)) (fst kv))"
  shows "\<exists>b' ents' ris'. add_entries cmp interval kvs b = Some b' \<and> bb_inv interval b' (ents @ ents') ris' \<and> map snd ents' = kvs"
  using assms
proof (induction kvs arbitrary: b ents ris)
  case Nil
  then show ?case by (auto intro: exI [of _ "[]"])
next
  case (Cons kv kvs)
  obtain b1 sh ris1 where b1: "BlockBuilder_Add cmp interval (fst kv) (snd kv) b = Some b1"
    "bb_inv interval b1 (ents @ [(sh, kv)]) ris1"
    using BlockBuilder_Add_inv [OF Cons.prems(1), of "fst kv" "snd kv"] Cons.prems(2,4) by auto
  from Cons.IH [OF b1(2)] Cons.prems(2,3) obtain b' ents' ris' where
    "add_entries cmp interval kvs b1 = Some b'" "bb_inv interval b' (ents @ (sh, kv) # ents') ris'" "map snd ents' = kvs" by auto
  then show ?case using b1(1) by (intro exI [of _ b'] exI [of _ "(sh, kv) # ents'"] exI [of _ ris']) simp
qed

end

lemma Finish_rep: "bb_inv interval b ents ris \<Longrightarrow> \<exists>b'. BlockBuilder_Finish b = (block_rep ents ris, b')"
  by (simp add: BlockBuilder_Finish_def bb_inv_def foldl_PutFixed32 PutFixed32_def block_rep_def Let_def)

lemma NewIterator_rep:
  assumes wf: "blk_wf ents ris"
  shows "\<exists>blk it. Block_new (block_rep ents ris) = Some blk \<and> Block_NewIterator blk = Some (EntryIterator it) \<and>
    it_rel ents ris None it"
proof -
  let ?c = "block_rep ents ris" and ?n = "word_of_nat (length ris) :: u32"
  have len: "length ?c = offs ents (length ents) + 4 * length ris + 4" by (rule length_block_rep)
  have n: "NumRestarts ?c (length ?c) = Some ?n"
    unfolding NumRestarts_def len by (simp add: block_rep_def offs_length del: map_map)
  have u: "unat ?n = length ris" "unat (1 + ?n) = Suc (length ris)"
  proof -
    have "length ris < 2 ^ 32 - 1" using wf by (simp add: blk_wf_def len)
    then show "unat ?n = length ris" "unat (1 + ?n) = Suc (length ris)"
      by (simp_all add: unat_of_nat flip: of_nat_Suc)
  qed
  have pos: "0 < ?n" using ris_0 [OF wf] u(1) by (simp add: word_less_nat_alt)
  have b: "Block_new ?c = Some \<lparr>blk_data = ?c, blk_size = length ?c, blk_restart_offset = word_of_nat (offs ents (length ents))\<rparr>"
    using n u by (simp add: Block_new_def Let_def len)
  have "Block_NewIterator \<lparr>blk_data = ?c, blk_size = length ?c, blk_restart_offset = word_of_nat (offs ents (length ents))\<rparr> =
      Some (EntryIterator \<lparr>bi_data = ?c, bi_restarts = word_of_nat (offs ents (length ents)), bi_num_restarts = ?n,
        bi_current = word_of_nat (offs ents (length ents)), bi_restart_index = ?n, bi_key = [], bi_value = None, bi_status = Status_OK\<rparr>)"
    using n pos by (auto simp: Block_NewIterator_def BlockIter_new_def len)
  then show ?thesis using b by (simp add: it_rel_def it_end_def it_on_def)
qed

subsection \<open>What a client sees\<close>

definition block_obs :: "BlockIter \<Rightarrow> slice option \<times> slice option \<times> Status" where
  "block_obs it = (BlockIter_key it, BlockIter_value it, bi_status it)"

definition cursor_obs :: "(slice \<times> slice) list \<Rightarrow> nat option \<Rightarrow> slice option \<times> slice option \<times> Status" where
  "cursor_obs kvs pos = (map_option (\<lambda>i. fst (kvs ! i)) pos, map_option (\<lambda>i. snd (kvs ! i)) pos, Status_OK)"

lemma it_rel_obs:
  assumes "blk_wf ents ris" and "it_rel ents ris pos it"
  shows "block_obs it = cursor_obs (map snd ents) pos"
proof (cases pos)
  case None
  then show ?thesis using assms it_end_observe [of ents ris it]
    by (auto simp: it_rel_def block_obs_def cursor_obs_def BlockIter_key_def BlockIter_value_def it_end_def it_on_def)
next
  case (Some i)
  then have at: "it_at ents ris i it" using assms(2) by (simp add: it_rel_def)
  then show ?thesis using Some it_at_observe [OF assms(1) at]
    by (simp add: block_obs_def cursor_obs_def it_at_def it_on_def)
qed

context slice_comparator begin

lemma block_refines:
  assumes kvs: "sorted_wrt (\<lambda>a b. cmp_lt cmp (fst a) (fst b)) kvs" "\<forall>kv \<in> set kvs. ok (fst kv)"
    and "1 \<le> interval"
  shows "\<exists>b0 b c b'. BlockBuilder_new interval = Some b0 \<and> add_entries cmp interval kvs b0 = Some b \<and>
    BlockBuilder_Finish b = (c, b') \<and> (length c < 2 ^ 32 \<longrightarrow> (\<exists>blk it. Block_new c = Some blk \<and>
      Block_NewIterator blk = Some (EntryIterator it) \<and>
      (\<forall>cs. (\<forall>t. OpSeek t \<in> set cs \<longrightarrow> ok t) \<longrightarrow>
        map_option block_obs (block_run cmp cs it) = map_option (cursor_obs kvs) (cursor_run cmp kvs cs None))))"
proof -
  obtain b ents ris where
    b: "add_entries cmp interval kvs BlockBuilder_Reset = Some b" "bb_inv interval b ents ris" "map snd ents = kvs"
    using add_entries_inv [OF bb_inv_new [OF assms(3)] kvs(2,1)] by auto
  obtain b' where f: "BlockBuilder_Finish b = (block_rep ents ris, b')" using Finish_rep [OF b(2)] by blast
  have "\<exists>blk it. Block_new (block_rep ents ris) = Some blk \<and> Block_NewIterator blk = Some (EntryIterator it) \<and>
      (\<forall>cs. (\<forall>t. OpSeek t \<in> set cs \<longrightarrow> ok t) \<longrightarrow>
        map_option block_obs (block_run cmp cs it) = map_option (cursor_obs kvs) (cursor_run cmp kvs cs None))"
    if "length (block_rep ents ris) < 2 ^ 32"
  proof -
    have wf: "blk_wf ents ris" using b(2) that by (simp add: bb_inv_def blk_wf_def)
    from NewIterator_rep [OF wf] obtain blk it where
      it: "Block_new (block_rep ents ris) = Some blk" "Block_NewIterator blk = Some (EntryIterator it)" "it_rel ents ris None it"
      by blast
    have oks: "\<forall>e \<in> set ents. ok (e_key e)" using kvs(2) unfolding b(3) [symmetric] by auto
    have "sorted_wrt (\<lambda>a b. cmp_lt cmp (e_key a) (e_key b)) ents" using kvs(1) unfolding b(3) [symmetric] by (simp add: sorted_wrt_map)
    note run = block_run_rel [OF wf oks this it(3), unfolded b(3)]
    have "map_option block_obs (block_run cmp cs it) = map_option (cursor_obs kvs) (cursor_run cmp kvs cs None)"
      if "\<forall>t. OpSeek t \<in> set cs \<longrightarrow> ok t" for cs
      using run [OF that] it_rel_obs [OF wf] by (auto simp: b(3) split: option.splits)
    then show ?thesis using it(1,2) by blast
  qed
  then show ?thesis using b(1) f assms(3) by (auto simp: BlockBuilder_new_def)
qed

end

text \<open>(C10) A block iterator shows exactly the entries the block was built from. For entries with increasing
  internal keys and any restart interval, the builder's assertions hold and, if the block is smaller
  than 4 GiB, every sequence of calls (\<open>Next\<close>, \<open>Prev\<close>, \<open>Seek\<close> of any internal key, \<open>SeekToFirst\<close>,
  \<open>SeekToLast\<close>) on an iterator of the finished block returns and leaves it where the same calls leave a
  cursor over the list of entries: same validity, key, value and an OK status, and the same calls fail
  their assertions. \<open>Seek\<close> of the cursor stops at the first key that is not smaller than its target.\<close>

theorem block_iterator_refines_cursor:
  assumes "sorted_wrt (\<lambda>a b. cmp_lt (InternalKey_Compare Bytewise_Compare) (fst a) (fst b)) kvs"
    and "\<forall>kv \<in> set kvs. 8 \<le> length (fst kv)" and "1 \<le> interval"
  shows "\<exists>b0 b c b'. BlockBuilder_new interval = Some b0 \<and>
    add_entries (InternalKey_Compare Bytewise_Compare) interval kvs b0 = Some b \<and>
    BlockBuilder_Finish b = (c, b') \<and> (length c < 2 ^ 32 \<longrightarrow> (\<exists>blk it. Block_new c = Some blk \<and>
      Block_NewIterator blk = Some (EntryIterator it) \<and>
      (\<forall>cs. (\<forall>t. OpSeek t \<in> set cs \<longrightarrow> 8 \<le> length t) \<longrightarrow>
        map_option block_obs (block_run (InternalKey_Compare Bytewise_Compare) cs it) =
        map_option (cursor_obs kvs) (cursor_run (InternalKey_Compare Bytewise_Compare) kvs cs None))))"
  using ikbw.block_refines [OF assms(1) _ assms(3)] assms(2) by (auto simp: ik_ok_def)

theorem block_iterator_refines_cursor_witness:
  "\<exists>b0 b c b'. BlockBuilder_new 1 = Some b0 \<and>
    add_entries (InternalKey_Compare Bytewise_Compare) 1 [([1] @ EncodeFixed64 7, [3]), ([2] @ EncodeFixed64 5, [])] b0 = Some b \<and>
    BlockBuilder_Finish b = (c, b') \<and> (length c < 2 ^ 32 \<longrightarrow> (\<exists>blk it. Block_new c = Some blk \<and>
      Block_NewIterator blk = Some (EntryIterator it) \<and>
      (\<forall>cs. (\<forall>t. OpSeek t \<in> set cs \<longrightarrow> 8 \<le> length t) \<longrightarrow>
        map_option block_obs (block_run (InternalKey_Compare Bytewise_Compare) cs it) =
        map_option (cursor_obs [([1] @ EncodeFixed64 7, [3]), ([2] @ EncodeFixed64 5, [])])
          (cursor_run (InternalKey_Compare Bytewise_Compare) [([1] @ EncodeFixed64 7, [3]), ([2] @ EncodeFixed64 5, [])] cs None))))"
  by (rule block_iterator_refines_cursor)
    (simp_all add: cmp_lt_def InternalKey_Compare_split Bytewise_Compare_def del: append_Cons append_Nil)

end
