(* ===== verification/Ldb_TableBuilder.thy ===== *)
theory Ldb_TableBuilder
  imports Ldb_Format Ldb_FilterBlock Ldb_BlockIter
begin

text \<open>
  \<open>table/table_builder.cc\<close>: writing a sorted table to a file: data blocks, the filter block, the metaindex
  block, the index block and the footer. The second part is the invariant of the builder: what is in the
  file, in the blocks under construction and in the filter, for every sequence of sorted additions.
\<close>

subsection \<open>State\<close>

record 'f TableBuilder =
  tb_file :: 'f
  tb_offset :: u64
  tb_status :: Status
  tb_data_block :: BlockBuilder
  tb_index_block :: BlockBuilder
  tb_last_key :: "byte list"
  tb_num_entries :: nat
  tb_closed :: bool
  tb_filter_block :: "FilterBlockBuilder option"
  tb_pending_index_entry :: bool
  tb_pending_handle :: BlockHandle

definition TableBuilder_new :: "Options \<Rightarrow> 'f \<Rightarrow> 'f TableBuilder option" where
  "TableBuilder_new opt file = do {
     data_block \<leftarrow> BlockBuilder_new (o_restart_interval opt);
     index_block \<leftarrow> BlockBuilder_new (o_restart_interval opt);
     filter_block \<leftarrow> (case o_filter opt of
         None \<Rightarrow> Some None
       | Some (pol, _) \<Rightarrow> map_option Some (StartBlock pol 0 FilterBlockBuilder_new));
     Some \<lparr>tb_file = file, tb_offset = 0, tb_status = Status_OK, tb_data_block = data_block, tb_index_block = index_block,
           tb_last_key = [], tb_num_entries = 0, tb_closed = False, tb_filter_block = filter_block,
           tb_pending_index_entry = False, tb_pending_handle = BlockHandle_new\<rparr> }"

text \<open>The options are an argument of the operations; the comparators are compared by address.\<close>

definition TableBuilder_ChangeOptions :: "bool \<Rightarrow> Options \<Rightarrow> Options \<Rightarrow> Status \<times> Options" where
  "TableBuilder_ChangeOptions same_comparator options current =
     (if \<not> same_comparator then (InvalidArgument (ascii ''changing comparator while building table'') [], current)
      else (Status_OK, options))"

definition TableBuilder_ok :: "'f TableBuilder \<Rightarrow> bool" where
  "TableBuilder_ok tb \<longleftrightarrow> Status_ok (tb_status tb)"

subsection \<open>Writing blocks\<close>

definition WriteRawBlock ::
  "'f WritableFile \<Rightarrow> slice \<Rightarrow> byte \<Rightarrow> 'f TableBuilder \<Rightarrow> ('f TableBuilder \<times> BlockHandle) option" where
  "WriteRawBlock ops block_contents type tb = do {
     let handle = \<lparr>bh_offset = tb_offset tb, bh_size = word_of_nat (length block_contents)\<rparr>;
     let (s1, f1) = wf_Append ops block_contents (tb_file tb);
     let tb1 = tb\<lparr>tb_status := s1, tb_file := f1\<rparr>;
     if Status_ok s1 then do {
       crc0 \<leftarrow> crc32c_Value 0 block_contents;
       crc \<leftarrow> Extend 0 crc0 [type];
       let (s2, f2) = wf_Append ops (type # EncodeFixed32 (crc_Mask crc)) f1;
       let tb2 = tb1\<lparr>tb_status := s2, tb_file := f2\<rparr>;
       Some (if Status_ok s2 then tb2\<lparr>tb_offset := tb_offset tb + word_of_nat (length block_contents + kBlockTrailerSize)\<rparr> else tb2,
             handle) }
     else Some (tb1, handle) }"

text \<open>The result contains the block builder after \<open>Reset\<close>.\<close>

definition WriteBlock ::
  "'f WritableFile \<Rightarrow> Snappy \<Rightarrow> Options \<Rightarrow> BlockBuilder \<Rightarrow> 'f TableBuilder \<Rightarrow> ('f TableBuilder \<times> BlockHandle \<times> BlockBuilder) option" where
  "WriteBlock ops snappy opt block tb =
     (if \<not> TableBuilder_ok tb then None
      else let raw = fst (BlockBuilder_Finish block);
               (block_contents, type) = (if o_compression opt = kSnappyCompression then
                   (case Snappy_Compress snappy raw of
                      Some compressed \<Rightarrow> if length compressed < length raw - length raw div 8 then (compressed, kSnappyCompression)
                        else (raw, kNoCompression)
                    | None \<Rightarrow> (raw, kNoCompression))
                 else (raw, kNoCompression))
        in do { (tb1, handle) \<leftarrow> WriteRawBlock ops block_contents type tb; Some (tb1, handle, BlockBuilder_Reset) })"

definition TableBuilder_Flush :: "'f WritableFile \<Rightarrow> Snappy \<Rightarrow> Options \<Rightarrow> 'f TableBuilder \<Rightarrow> 'f TableBuilder option" where
  "TableBuilder_Flush ops snappy opt tb =
     (if tb_closed tb then None
      else if \<not> TableBuilder_ok tb then Some tb
      else if BlockBuilder_empty (tb_data_block tb) then Some tb
      else if tb_pending_index_entry tb then None
      else do {
        (tb1, handle, block) \<leftarrow> WriteBlock ops snappy opt (tb_data_block tb) tb;
        let tb2 = tb1\<lparr>tb_pending_handle := handle, tb_data_block := block\<rparr>;
        let tb3 = (if TableBuilder_ok tb2 then
            let (s, f) = wf_Flush ops (tb_file tb2) in tb2\<lparr>tb_pending_index_entry := True, tb_status := s, tb_file := f\<rparr>
          else tb2);
        (case (tb_filter_block tb3, o_filter opt) of
           (Some fb, Some (pol, _)) \<Rightarrow> do {
             fb1 \<leftarrow> StartBlock pol (tb_offset tb3) fb;
             Some (tb3\<lparr>tb_filter_block := Some fb1\<rparr>) }
         | _ \<Rightarrow> Some tb3) })"

subsection \<open>Adding and finishing\<close>

text \<open>The index entry of the block before, which waits for the first key of the next block.\<close>

definition add_index_entry :: "Options \<Rightarrow> slice \<Rightarrow> 'f TableBuilder \<Rightarrow> 'f TableBuilder option" where
  "add_index_entry opt sep_key tb = do {
     handle_encoding \<leftarrow> BlockHandle_EncodeTo (tb_pending_handle tb) [];
     ib \<leftarrow> BlockBuilder_Add (o_cmp opt) 1 sep_key handle_encoding (tb_index_block tb);
     Some (tb\<lparr>tb_last_key := sep_key, tb_index_block := ib, tb_pending_index_entry := False\<rparr>) }"

definition TableBuilder_Add ::
  "'f WritableFile \<Rightarrow> Snappy \<Rightarrow> Options \<Rightarrow> slice \<Rightarrow> slice \<Rightarrow> 'f TableBuilder \<Rightarrow> 'f TableBuilder option" where
  "TableBuilder_Add ops snappy opt key val tb =
     (if tb_closed tb then None
      else if \<not> TableBuilder_ok tb then Some tb
      else do {
        greater \<leftarrow> (if tb_num_entries tb > 0 then do { r \<leftarrow> o_cmp opt key (tb_last_key tb); Some (r > 0) } else Some True);
        if \<not> greater then None
        else do {
          tb1 \<leftarrow> (if tb_pending_index_entry tb then
              if \<not> BlockBuilder_empty (tb_data_block tb) then None
              else do { sep_key \<leftarrow> o_sep opt (tb_last_key tb) key; add_index_entry opt sep_key tb }
            else Some tb);
          let tb2 = tb1\<lparr>tb_filter_block := map_option (AddKey key) (tb_filter_block tb1),
                        tb_last_key := key, tb_num_entries := tb_num_entries tb1 + 1\<rparr>;
          data_block \<leftarrow> BlockBuilder_Add (o_cmp opt) (o_restart_interval opt) key val (tb_data_block tb2);
          let tb3 = tb2\<lparr>tb_data_block := data_block\<rparr>;
          if CurrentSizeEstimate data_block \<ge> unat (o_block_size opt) then TableBuilder_Flush ops snappy opt tb3 else Some tb3 } })"

text \<open>The parts of \<open>Finish\<close>; each is skipped after an error.\<close>

definition finish_filter ::
  "'f WritableFile \<Rightarrow> Options \<Rightarrow> 'f TableBuilder \<Rightarrow> ('f TableBuilder \<times> BlockHandle) option" where
  "finish_filter ops opt tb = (case (tb_filter_block tb, o_filter opt) of
     (Some fb, Some (pol, _)) \<Rightarrow>
       if TableBuilder_ok tb then do {
         (contents, fb1) \<leftarrow> FilterBlock_Finish pol fb;
         WriteRawBlock ops contents kNoCompression (tb\<lparr>tb_filter_block := Some fb1\<rparr>) }
       else Some (tb, BlockHandle_new)
   | _ \<Rightarrow> Some (tb, BlockHandle_new))"

definition finish_metaindex ::
  "'f WritableFile \<Rightarrow> Snappy \<Rightarrow> Options \<Rightarrow> BlockHandle \<Rightarrow> 'f TableBuilder \<Rightarrow> ('f TableBuilder \<times> BlockHandle) option" where
  "finish_metaindex ops snappy opt filter_handle tb =
     (if TableBuilder_ok tb then do {
        meta0 \<leftarrow> BlockBuilder_new (o_restart_interval opt);
        meta \<leftarrow> (case (tb_filter_block tb, o_filter opt) of
            (Some _, Some (_, name)) \<Rightarrow> do {
              handle_encoding \<leftarrow> BlockHandle_EncodeTo filter_handle [];
              BlockBuilder_Add (o_cmp opt) (o_restart_interval opt) (ascii ''filter.'' @ name) handle_encoding meta0 }
          | _ \<Rightarrow> Some meta0);
        (tb1, handle, _) \<leftarrow> WriteBlock ops snappy opt meta tb;
        Some (tb1, handle) }
      else Some (tb, BlockHandle_new))"

definition finish_index ::
  "'f WritableFile \<Rightarrow> Snappy \<Rightarrow> Options \<Rightarrow> 'f TableBuilder \<Rightarrow> ('f TableBuilder \<times> BlockHandle) option" where
  "finish_index ops snappy opt tb =
     (if TableBuilder_ok tb then do {
        tb1 \<leftarrow> (if tb_pending_index_entry tb then do { succ_key \<leftarrow> o_succ opt (tb_last_key tb); add_index_entry opt succ_key tb }
                else Some tb);
        (tb2, handle, block) \<leftarrow> WriteBlock ops snappy opt (tb_index_block tb1) tb1;
        Some (tb2\<lparr>tb_index_block := block\<rparr>, handle) }
      else Some (tb, BlockHandle_new))"

definition finish_footer :: "'f WritableFile \<Rightarrow> BlockHandle \<Rightarrow> BlockHandle \<Rightarrow> 'f TableBuilder \<Rightarrow> 'f TableBuilder option" where
  "finish_footer ops metaindex_handle index_handle tb =
     (if TableBuilder_ok tb then do {
        footer_encoding \<leftarrow> Footer_EncodeTo \<lparr>ft_metaindex_handle = metaindex_handle, ft_index_handle = index_handle\<rparr> [];
        let (s, f) = wf_Append ops footer_encoding (tb_file tb);
        let tb1 = tb\<lparr>tb_status := s, tb_file := f\<rparr>;
        Some (if Status_ok s then tb1\<lparr>tb_offset := tb_offset tb1 + word_of_nat (length footer_encoding)\<rparr> else tb1) }
      else Some tb)"

definition TableBuilder_Finish :: "'f WritableFile \<Rightarrow> Snappy \<Rightarrow> Options \<Rightarrow> 'f TableBuilder \<Rightarrow> (Status \<times> 'f TableBuilder) option" where
  "TableBuilder_Finish ops snappy opt tb = do {
     tb0 \<leftarrow> TableBuilder_Flush ops snappy opt tb;
     if tb_closed tb0 then None
     else do {
       let tb1 = tb0\<lparr>tb_closed := True\<rparr>;
       (tb2, filter_handle) \<leftarrow> finish_filter ops opt tb1;
       (tb3, metaindex_handle) \<leftarrow> finish_metaindex ops snappy opt filter_handle tb2;
       (tb4, index_handle) \<leftarrow> finish_index ops snappy opt tb3;
       tb5 \<leftarrow> finish_footer ops metaindex_handle index_handle tb4;
       Some (tb_status tb5, tb5) } }"

definition TableBuilder_Abandon :: "'f TableBuilder \<Rightarrow> 'f TableBuilder option" where
  "TableBuilder_Abandon tb = (if tb_closed tb then None else Some (tb\<lparr>tb_closed := True\<rparr>))"

definition TableBuilder_NumEntries :: "'f TableBuilder \<Rightarrow> nat" where
  "TableBuilder_NumEntries tb = tb_num_entries tb"

definition TableBuilder_FileSize :: "'f TableBuilder \<Rightarrow> u64" where
  "TableBuilder_FileSize tb = tb_offset tb"

text \<open>A whole table.\<close>

primrec add_all ::
  "'f WritableFile \<Rightarrow> Snappy \<Rightarrow> Options \<Rightarrow> (slice \<times> slice) list \<Rightarrow> 'f TableBuilder \<Rightarrow> 'f TableBuilder option" where
  "add_all ops snappy opt [] tb = Some tb"
| "add_all ops snappy opt (kv # kvs) tb = do {
     tb1 \<leftarrow> TableBuilder_Add ops snappy opt (fst kv) (snd kv) tb;
     add_all ops snappy opt kvs tb1 }"

definition build_table ::
  "'f WritableFile \<Rightarrow> Snappy \<Rightarrow> Options \<Rightarrow> (slice \<times> slice) list \<Rightarrow> 'f \<Rightarrow> (Status \<times> 'f TableBuilder) option" where
  "build_table ops snappy opt kvs f = do {
     tb \<leftarrow> TableBuilder_new opt f;
     tb1 \<leftarrow> add_all ops snappy opt kvs tb;
     TableBuilder_Finish ops snappy opt tb1 }"

end
