(* ===== verification/Ldb_TableInv.thy ===== *)
theory Ldb_TableInv
  imports Ldb_TableBuilder
begin

text \<open>
  What a table builder has written. The file is any that keeps the contract \<open>appending_file\<close>, whose calls
  may fail at any time, so that every error path of the builder is covered; the builder never fails an assertion on
  sorted keys, and when \<open>Finish\<close> returns OK the file holds the blocks, the index, the filter and the footer
  that readers rely on.
\<close>

subsection \<open>What is stored\<close>

text \<open>A block that was built from the entries \<open>ks\<close>.\<close>

definition blk_src :: "(slice \<times> slice) list \<Rightarrow> slice \<Rightarrow> bool" where
  "blk_src ks raw \<longleftrightarrow> (\<exists>interval b ents ris. bb_inv interval b ents ris \<and> map snd ents = ks \<and> raw = block_rep ents ris)"

definition stored_at :: "byte list \<Rightarrow> BlockHandle \<Rightarrow> (slice \<times> slice) list \<Rightarrow> bool" where
  "stored_at data h ks \<longleftrightarrow> (\<exists>raw. has_block port_snappy data h raw \<and> blk_src ks raw)"

lemma stored_at_append: "stored_at data h ks \<Longrightarrow> length (data @ rest) < 2 ^ 63 \<Longrightarrow> stored_at (data @ rest) h ks"
  unfolding stored_at_def using has_block_append by blast

lemma has_block_handle_ok: "has_block snappy data h raw \<Longrightarrow> handle_ok h"
proof -
  have "unat (NOT 0 :: u64) = 2 ^ 64 - 1" by code_simp
  then have "h' \<noteq> NOT 0" if "unat (h' :: u64) < 2 ^ 63" for h' using that by auto
  moreover assume "has_block snappy data h raw"
  ultimately show ?thesis by (force simp: has_block_def handle_ok_def)
qed

lemma stored_at_handle_ok: "stored_at data h ks \<Longrightarrow> handle_ok h"
  by (auto simp: stored_at_def has_block_handle_ok)

lemma stored_at_offset: "stored_at data h ks \<Longrightarrow> unat (bh_offset h) < length data"
  by (auto simp: stored_at_def has_block_def)

text \<open>Writing a block to a file either fails or appends the block and its trailer.\<close>

context appending_file begin

lemma WriteRawBlock_cases:
  assumes tb: "tb_offset tb = word_of_nat (length (contents (tb_file tb)))" and g: "good (tb_file tb)"
  obtains (fail) s f h where "WriteRawBlock ops c kNoCompression tb = Some (tb\<lparr>tb_status := s, tb_file := f\<rparr>, h)" "\<not> Status_ok s"
  | (ok) f h where "WriteRawBlock ops c kNoCompression tb =
      Some (tb\<lparr>tb_status := Status_OK, tb_file := f, tb_offset := word_of_nat (length (contents f))\<rparr>, h)"
      "good f" "contents f = contents (tb_file tb) @ c @ trailer c kNoCompression" "has_block port_snappy (contents f) h c"
      "bh_offset h = tb_offset tb"
proof -
  let ?t = "trailer c kNoCompression" and ?h = "\<lparr>bh_offset = tb_offset tb, bh_size = word_of_nat (length c)\<rparr>"
  have crc: "crc32c_Value 0 c = Some (crc_spec 0 c)" "Extend 0 (crc_spec 0 c) [kNoCompression] = Some (crc_spec 0 (c @ [kNoCompression]))"
    by (simp_all add: crc32c_Value_def Extend_eq crc_spec_append)
  have t: "kNoCompression # EncodeFixed32 (crc_Mask (crc_spec 0 (c @ [kNoCompression]))) = ?t" by (simp add: trailer_def)
  obtain s1 f1 where a1: "wf_Append ops c (tb_file tb) = (s1, f1)" by fastforce
  obtain s2 f2 where a2: "wf_Append ops ?t f1 = (s2, f2)" by fastforce
  show thesis
  proof (cases "Status_ok s1 \<and> Status_ok s2")
    case False
    then consider "\<not> Status_ok s1" | "Status_ok s1" "\<not> Status_ok s2" by blast
    then show thesis
    proof cases
      case 1
      then show thesis by (intro fail [where s = s1 and f = f1 and h = ?h]) (simp_all add: WriteRawBlock_def a1)
    next
      case 2
      then show thesis by (intro fail [where s = s2 and f = f2 and h = ?h]) (simp_all add: WriteRawBlock_def a1 a2 crc t Let_def)
    qed
  next
    case True
    then have s: "s1 = Status_OK" "s2 = Status_OK" by (simp_all add: Status_ok_def Status_OK_def)
    from append_ok [OF g a1 [unfolded s]] have f1: "good f1" "contents f1 = contents (tb_file tb) @ c" by blast+
    from append_ok [OF f1(1) a2 [unfolded s]] have f2: "good f2" "contents f2 = contents (tb_file tb) @ c @ ?t" using f1(2) by simp_all
    have len: "length (contents f2) < 2 ^ 32" by (rule good_size [OF f2(1)])
    have "tb_offset tb + word_of_nat (length c + kBlockTrailerSize) = word_of_nat (length (contents f2))"
      by (simp add: tb f2(2) kBlockTrailerSize_def)
    then have "WriteRawBlock ops c kNoCompression tb =
        Some (tb\<lparr>tb_status := Status_OK, tb_file := f2, tb_offset := word_of_nat (length (contents f2))\<rparr>, ?h)"
      by (simp add: WriteRawBlock_def a1 a2 s crc t Let_def del: of_nat_add)
    moreover have "has_block port_snappy (contents f2) ?h c" unfolding has_block_def
      using len tb f2(2) by (intro exI [of _ "contents (tb_file tb)"] exI [of _ c] exI [of _ kNoCompression] exI [of _ "[]"]) (simp add: unat_of_nat)
    ultimately show thesis using f2 by (intro ok [of f2 ?h]) simp_all
  qed
qed

end

lemma WriteBlock_raw:
  "TableBuilder_ok tb \<Longrightarrow> WriteBlock ops port_snappy opt block tb =
    do { (tb1, h) \<leftarrow> WriteRawBlock ops (fst (BlockBuilder_Finish block)) kNoCompression tb; Some (tb1, h, BlockBuilder_Reset) }"
  by (simp add: WriteBlock_def port_snappy_def Let_def)

subsection \<open>The invariant\<close>

text \<open>Index entries between the blocks \<open>bs\<close>: the separator and the handle of the block before it.\<close>

definition idx_rel :: "Options \<Rightarrow> BlockHandle list \<Rightarrow> (slice \<times> slice) list list \<Rightarrow> (slice \<times> slice) list \<Rightarrow> bool" where
  "idx_rel opt hs bs es \<longleftrightarrow> length es = length bs - 1 \<and> (\<forall>i < length es.
     o_sep opt (fst (last (bs ! i))) (fst (hd (bs ! Suc i))) = Some (fst (es ! i)) \<and>
     BlockHandle_EncodeTo (hs ! i) [] = Some (snd (es ! i)))"

lemma idx_rel_more: "idx_rel opt hs bs es \<Longrightarrow> length bs - 1 \<le> length hs \<Longrightarrow> idx_rel opt (hs @ hs') bs es"
  by (simp add: idx_rel_def nth_append)

lemma idx_rel_cong:
  assumes "idx_rel opt hs bs es" and "length bs' = length bs"
    and "\<And>i. Suc i < length bs \<Longrightarrow> last (bs' ! i) = last (bs ! i)" and "\<And>i. Suc i < length bs \<Longrightarrow> hd (bs' ! Suc i) = hd (bs ! Suc i)"
  shows "idx_rel opt hs bs' es"
  using assms by (simp add: idx_rel_def)

definition blocks_of :: "(BlockHandle \<times> (slice \<times> slice) list) list \<Rightarrow> (slice \<times> slice) list \<Rightarrow> (slice \<times> slice) list list" where
  "blocks_of dn cur = map snd dn @ (if cur = [] then [] else [cur])"

definition flt_inv :: "Options \<Rightarrow> (slice \<Rightarrow> bool) \<Rightarrow> u64 \<Rightarrow> FilterBlockBuilder option \<Rightarrow>
    (BlockHandle \<times> (slice \<times> slice) list) list \<Rightarrow> (slice \<times> slice) list \<Rightarrow> bool" where
  "flt_inv opt ok off flt dn cur \<longleftrightarrow> (case (flt, o_filter opt) of
     (None, None) \<Rightarrow> True
   | (Some fb, Some (pol, _)) \<Rightarrow> (\<exists>fs pend. length fs = unat off div kFilterBase \<and>
       fb_inv pol ok fb fs pend ((off, map fst cur) # map (\<lambda>(h, ks). (bh_offset h, map fst ks)) (rev dn)))
   | _ \<Rightarrow> False)"

definition tb_inv :: "('f \<Rightarrow> byte list) \<Rightarrow> ('f \<Rightarrow> bool) \<Rightarrow> Options \<Rightarrow> (slice \<Rightarrow> bool) \<Rightarrow> 'f TableBuilder \<Rightarrow>
    (BlockHandle \<times> (slice \<times> slice) list) list \<Rightarrow> (slice \<times> slice) list \<Rightarrow> bool" where
  "tb_inv contents good opt ok tb dn cur \<longleftrightarrow> tb_status tb = Status_OK \<and> good (tb_file tb) \<and>
     tb_offset tb = word_of_nat (length (contents (tb_file tb))) \<and>
     (\<exists>ents ris. bb_inv (o_restart_interval opt) (tb_data_block tb) ents ris \<and> map snd ents = cur) \<and>
     (\<forall>(h, ks) \<in> set dn. ks \<noteq> [] \<and> stored_at (contents (tb_file tb)) h ks) \<and> distinct (map (bh_offset \<circ> fst) dn) \<and>
     (\<exists>ients iris. bb_inv 1 (tb_index_block tb) ients iris \<and> idx_rel opt (map fst dn) (blocks_of dn cur) (map snd ients)) \<and>
     tb_pending_index_entry tb = (dn \<noteq> [] \<and> cur = []) \<and> (dn \<noteq> [] \<and> cur = [] \<longrightarrow> tb_pending_handle tb = fst (last dn)) \<and>
     tb_num_entries tb = length (concat (blocks_of dn cur)) \<and>
     (blocks_of dn cur \<noteq> [] \<longrightarrow> tb_last_key tb = fst (last (concat (blocks_of dn cur)))) \<and>
     (\<forall>kv \<in> set (concat (blocks_of dn cur)). ok (fst kv)) \<and>
     sorted_wrt (\<lambda>a b. cmp_lt (o_cmp opt) (fst a) (fst b)) (concat (blocks_of dn cur)) \<and>
     flt_inv opt ok (tb_offset tb) (tb_filter_block tb) dn cur"

text \<open>The options a table can be built and read with: the comparator shortens keys within the order, and the
  filter policy, if there is one, keeps its contract.\<close>

lemma sorted_concat_blocks:
  "sorted_wrt R (concat bs) \<Longrightarrow> i < j \<Longrightarrow> j < length bs \<Longrightarrow> x \<in> set (bs ! i) \<Longrightarrow> y \<in> set (bs ! j) \<Longrightarrow> R x y"
proof (induction bs arbitrary: i j)
  case (Cons b bs)
  show ?case
  proof (cases i)
    case 0
    then have "y \<in> set (concat bs)" using Cons.prems by (cases j) (auto dest: nth_mem)
    then show ?thesis using Cons.prems 0 by (auto simp: sorted_wrt_append)
  next
    case (Suc i')
    then show ?thesis using Cons.IH [of i' "j - 1"] Cons.prems by (cases j) (auto simp: sorted_wrt_append)
  qed
qed simp

locale table_options = separating_comparator "o_cmp opt" ok "o_sep opt" "o_succ opt"
  for opt :: Options and ok +
  assumes policy: "o_filter opt = Some (pol, nm) \<Longrightarrow> filter_policy pol ok"
begin

lemma flt_StartBlock:
  assumes inv: "flt_inv opt ok off flt dn cur" and le: "unat off \<le> unat off'"
  shows "case (flt, o_filter opt) of (None, None) \<Rightarrow> True
    | (Some fb, Some (pol, _)) \<Rightarrow> (\<exists>fb1 fs pend. StartBlock pol off' fb = Some fb1 \<and> length fs = unat off' div kFilterBase \<and>
       fb_inv pol ok fb1 fs pend ((off, map fst cur) # map (\<lambda>(h, ks). (bh_offset h, map fst ks)) (rev dn)))
    | _ \<Rightarrow> False"
proof (cases flt)
  case (Some fb)
  obtain pol nm where pol: "o_filter opt = Some (pol, nm)" using inv Some by (cases "o_filter opt") (auto simp: flt_inv_def)
  then obtain fs pend where fs: "length fs = unat off div kFilterBase"
      "fb_inv pol ok fb fs pend ((off, map fst cur) # map (\<lambda>(h, ks). (bh_offset h, map fst ks)) (rev dn))"
    using inv Some by (auto simp: flt_inv_def)
  have "length fs \<le> unat off' div kFilterBase" unfolding fs(1) using le by (rule div_le_mono)
  with filter_policy.StartBlock_loop_inv [OF policy [OF pol] fs(2) this] have
    "\<exists>fb1 fs pend. StartBlock pol off' fb = Some fb1 \<and> length fs = unat off' div kFilterBase \<and>
       fb_inv pol ok fb1 fs pend ((off, map fst cur) # map (\<lambda>(h, ks). (bh_offset h, map fst ks)) (rev dn))"
    using fs(2) by (auto simp: StartBlock_def Let_def fb_inv_def)
  then show ?thesis using Some pol by simp
qed (use inv in \<open>auto simp: flt_inv_def split: option.splits\<close>)

lemma flt_StartBlock_builder:
  assumes inv: "flt_inv opt ok off (tb_filter_block tb) dn cur" and le: "unat off \<le> unat off'"
  shows "\<exists>flt'. (case (tb_filter_block tb, o_filter opt) of
        (Some fb, Some (pol, _)) \<Rightarrow> do { fb1 \<leftarrow> StartBlock pol off' fb; Some (tb\<lparr>tb_filter_block := Some fb1\<rparr>) }
      | _ \<Rightarrow> Some tb) = Some (tb\<lparr>tb_filter_block := flt'\<rparr>) \<and>
    (\<forall>h. bh_offset h = off \<longrightarrow> flt_inv opt ok off' flt' (dn @ [(h, cur)]) [])"
proof (cases "tb_filter_block tb")
  case None
  then have "o_filter opt = None" using inv by (cases "o_filter opt") (auto simp: flt_inv_def)
  then show ?thesis using None by (intro exI [of _ None]) (simp add: flt_inv_def)
next
  case (Some fb)
  obtain pol nm where pol: "o_filter opt = Some (pol, nm)" using inv Some by (cases "o_filter opt") (auto simp: flt_inv_def)
  obtain fb1 fs pend where fb1: "StartBlock pol off' fb = Some fb1" "length fs = unat off' div kFilterBase"
    "fb_inv pol ok fb1 fs pend ((off, map fst cur) # map (\<lambda>(h, ks). (bh_offset h, map fst ks)) (rev dn))"
    using flt_StartBlock [OF inv le] Some pol by auto
  have "fb_inv pol ok fb1 fs pend ((off', []) # map (\<lambda>(h, ks). (bh_offset h, map fst ks)) (rev (dn @ [(h, cur)])))"
    if "bh_offset h = off" for h
    using fb1(3) that by (simp add: fb_inv_def)
  then have "flt_inv opt ok off' (Some fb1) (dn @ [(h, cur)]) []" if "bh_offset h = off" for h
    using pol fb1(2) that by (auto simp: flt_inv_def)
  then show ?thesis using Some pol fb1(1) by auto
qed

end

locale table_writer = table_options opt ok + appending_file ops contents good
  for opt ok and ops :: "'f WritableFile" and contents good
begin

text \<open>A block is complete: what the invariant says after it was written.\<close>

lemma flushed_inv:
  assumes inv: "tb_inv contents good opt ok tb dn cur" and cur: "cur \<noteq> []"
    and e: "bb_inv (o_restart_interval opt) (tb_data_block tb) ents ris" "map snd ents = cur"
    and f: "good f" "contents f = contents (tb_file tb) @ rest" and h: "has_block port_snappy (contents f) h (block_rep ents ris)"
      "bh_offset h = tb_offset tb"
    and flt: "flt_inv opt ok (word_of_nat (length (contents f))) flt' (dn @ [(h, cur)]) []"
  shows "tb_inv contents good opt ok (tb\<lparr>tb_offset := word_of_nat (length (contents f)), tb_pending_handle := h,
      tb_data_block := BlockBuilder_Reset, tb_pending_index_entry := True, tb_status := Status_OK, tb_file := f, tb_filter_block := flt'\<rparr>)
    (dn @ [(h, cur)]) []"
proof -
  have "stored_at (contents f) h cur" unfolding stored_at_def blk_src_def using h(1) e by blast
  moreover have "distinct (map (bh_offset \<circ> fst) (dn @ [(h, cur)]))"
  proof -
    have "length (contents (tb_file tb)) < 2 ^ 32" using good_size [OF f(1)] by (simp add: f(2))
    then have o: "unat (bh_offset h) = length (contents (tb_file tb))" using inv h(2) by (simp add: tb_inv_def unat_of_nat)
    have "unat (bh_offset h') < length (contents (tb_file tb))" if "(h', ks') \<in> set dn" for h' ks'
      using that inv stored_at_offset unfolding tb_inv_def by blast
    then have "bh_offset h \<notin> (bh_offset \<circ> fst) ` set dn" using o by fastforce
    then show ?thesis using inv by (simp add: tb_inv_def)
  qed
  moreover have "stored_at (contents f) h' ks'" if "(h', ks') \<in> set dn" for h' ks'
    using that inv good_size [OF f(1)] stored_at_append [of "contents (tb_file tb)" h' ks' rest] by (auto simp: tb_inv_def f(2))
  moreover have "blocks_of (dn @ [(h, cur)]) [] = blocks_of dn cur" using cur by (simp add: blocks_of_def)
  moreover have "bb_inv (o_restart_interval opt) BlockBuilder_Reset [] [0]" using e(1) by (intro bb_inv_new) (simp add: bb_inv_def)
  moreover have "idx_rel opt (map fst (dn @ [(h, cur)])) (blocks_of dn cur) es" if "idx_rel opt (map fst dn) (blocks_of dn cur) es" for es
    using idx_rel_more [OF that, of "[h]"] by (simp add: blocks_of_def)
  ultimately show ?thesis using inv f(1) flt cur unfolding tb_inv_def by auto
qed

lemma Flush_inv:
  assumes inv: "tb_inv contents good opt ok tb dn cur" and opn: "\<not> tb_closed tb"
  shows "\<exists>tb'. TableBuilder_Flush ops port_snappy opt tb = Some tb' \<and> \<not> tb_closed tb' \<and>
    (\<not> TableBuilder_ok tb' \<or> (\<exists>dn'. tb_inv contents good opt ok tb' dn' [] \<and> concat (map snd dn') = concat (map snd dn) @ cur))"
proof (cases "cur = []")
  case True
  have "BlockBuilder_empty (tb_data_block tb)" "TableBuilder_ok tb"
    using inv True bb_inv_empty by (fastforce simp: tb_inv_def BlockBuilder_empty_def TableBuilder_ok_def)+
  then show ?thesis using inv opn True by (auto simp: TableBuilder_Flush_def)
next
  case False
  obtain ents ris where e: "bb_inv (o_restart_interval opt) (tb_data_block tb) ents ris" "map snd ents = cur"
    using inv by (auto simp: tb_inv_def)
  have ne: "\<not> BlockBuilder_empty (tb_data_block tb)" using bb_inv_empty [OF e(1)] e(2) False by (auto simp: BlockBuilder_empty_def)
  have tok: "TableBuilder_ok tb" and np: "\<not> tb_pending_index_entry tb" using inv False by (auto simp: tb_inv_def TableBuilder_ok_def)
  have off: "tb_offset tb = word_of_nat (length (contents (tb_file tb)))" "good (tb_file tb)" using inv by (auto simp: tb_inv_def)
  have fin: "fst (BlockBuilder_Finish (tb_data_block tb)) = block_rep ents ris" using Finish_rep [OF e(1)] by auto
  have flt: "flt_inv opt ok (tb_offset tb) (tb_filter_block tb) dn cur" using inv unfolding tb_inv_def by blast
  define st where "st tb3 = (case (tb_filter_block tb3, o_filter opt) of
      (Some fb, Some (pol, _)) \<Rightarrow> do { fb1 \<leftarrow> StartBlock pol (tb_offset tb3) fb; Some (tb3\<lparr>tb_filter_block := Some fb1\<rparr>) }
    | _ \<Rightarrow> Some tb3)" for tb3 :: "'f TableBuilder"
  have st: "\<exists>flt'. st tb3 = Some (tb3\<lparr>tb_filter_block := flt'\<rparr>) \<and>
      (\<forall>h. bh_offset h = tb_offset tb \<longrightarrow> flt_inv opt ok (tb_offset tb3) flt' (dn @ [(h, cur)]) [])"
    if "tb_filter_block tb3 = tb_filter_block tb" "unat (tb_offset tb) \<le> unat (tb_offset tb3)" for tb3
    unfolding st_def using flt_StartBlock_builder [OF flt [folded that(1)] that(2)] .
  from off show ?thesis
  proof (cases rule: WriteRawBlock_cases [where c = "block_rep ents ris"])
    case (fail s f h)
    let ?tb = "tb\<lparr>tb_status := s, tb_file := f, tb_pending_handle := h, tb_data_block := BlockBuilder_Reset\<rparr>"
    have "TableBuilder_Flush ops port_snappy opt tb = st ?tb"
      using opn tok ne np fail by (simp add: TableBuilder_Flush_def WriteBlock_raw fin TableBuilder_ok_def Let_def st_def split: option.split)
    then show ?thesis using st [of ?tb] opn fail(2) by (auto simp: TableBuilder_ok_def)
  next
    case (ok f h)
    obtain s f2 where fl: "wf_Flush ops f = (s, f2)" by fastforce
    let ?tb = "tb\<lparr>tb_offset := word_of_nat (length (contents f)), tb_pending_handle := h, tb_data_block := BlockBuilder_Reset,
        tb_pending_index_entry := True, tb_status := s, tb_file := f2\<rparr>"
    have eq: "TableBuilder_Flush ops port_snappy opt tb = st ?tb"
      using opn tok ne np ok(1) fl by (simp add: TableBuilder_Flush_def WriteBlock_raw fin TableBuilder_ok_def Let_def st_def split: option.split)
    have "length (contents (tb_file tb)) \<le> length (contents f)" using ok(3) by simp
    then have "unat (tb_offset tb) \<le> unat (word_of_nat (length (contents f)) :: u64)"
      using good_size [OF ok(2)] by (simp add: off(1) unat_of_nat)
    then obtain flt' where flt': "st ?tb = Some (?tb\<lparr>tb_filter_block := flt'\<rparr>)"
        "flt_inv opt ok (word_of_nat (length (contents f))) flt' (dn @ [(h, cur)]) []"
      using st [of ?tb] ok(5) by auto
    show ?thesis
    proof (cases "Status_ok s")
      case False
      then show ?thesis using eq flt'(1) opn by (simp add: TableBuilder_ok_def)
    next
      case True
      then have s: "s = Status_OK" by (simp add: Status_ok_def Status_OK_def)
      from flush_ok [OF ok(2) fl [unfolded s]] have f2: "good f2" "contents f2 = contents f" by blast+
      have "tb_inv contents good opt ok (?tb\<lparr>tb_filter_block := flt'\<rparr>) (dn @ [(h, cur)]) []"
        using flushed_inv [OF inv False e f2(1), of "block_rep ents ris @ trailer (block_rep ents ris) kNoCompression" h flt'] ok(3-5) flt'(2)
        by (simp add: f2(2) s)
      then show ?thesis using eq flt'(1) opn by (intro exI [of _ "?tb\<lparr>tb_filter_block := flt'\<rparr>"]) auto
    qed
  qed
qed

text \<open>Separators lie between their blocks.\<close>

lemma idx_sep:
  assumes rel: "idx_rel opt hs bs es" and i: "i < length es" and ne: "\<forall>b \<in> set bs. b \<noteq> []"
    and oks: "\<forall>kv \<in> set (concat bs). ok (fst kv)" and sorted: "sorted_wrt (\<lambda>a b. cmp_lt (o_cmp opt) (fst a) (fst b)) (concat bs)"
  shows "ok (fst (es ! i)) \<and> \<not> cmp_lt (o_cmp opt) (fst (es ! i)) (fst (last (bs ! i))) \<and>
    cmp_lt (o_cmp opt) (fst (es ! i)) (fst (hd (bs ! Suc i)))"
proof -
  have j: "Suc i < length bs" using rel i by (auto simp: idx_rel_def)
  then have m: "last (bs ! i) \<in> set (bs ! i)" "hd (bs ! Suc i) \<in> set (bs ! Suc i)" using ne by (simp_all add: nth_mem)
  have "cmp_lt (o_cmp opt) (fst (last (bs ! i))) (fst (hd (bs ! Suc i)))"
    using sorted_concat_blocks [OF sorted lessI j m] .
  moreover have "ok (fst (last (bs ! i)))" "ok (fst (hd (bs ! Suc i)))"
    using oks m nth_mem [of i bs] nth_mem [OF j] j by auto
  ultimately show ?thesis using sep_range rel i by (fastforce simp: idx_rel_def)
qed

lemma add_index_entry_inv:
  assumes inv: "tb_inv contents good opt ok tb dn []" and dn: "dn \<noteq> []" and t: "ok t" "\<not> cmp_lt (o_cmp opt) t (fst (last (snd (last dn))))"
  shows "\<exists>ib ients iris es enc. add_index_entry opt t tb = Some (tb\<lparr>tb_last_key := t, tb_index_block := ib, tb_pending_index_entry := False\<rparr>) \<and>
    bb_inv 1 ib ients iris \<and> map snd ients = es @ [(t, enc)] \<and> idx_rel opt (map fst dn) (map snd dn) es \<and>
    BlockHandle_EncodeTo (fst (last dn)) [] = Some enc"
proof -
  let ?C = "o_cmp opt"
  obtain ients iris where ix: "bb_inv 1 (tb_index_block tb) ients iris" "idx_rel opt (map fst dn) (map snd dn) (map snd ients)"
    using inv by (auto simp: tb_inv_def blocks_of_def)
  have blk: "\<forall>b \<in> set (map snd dn). b \<noteq> []" "\<forall>kv \<in> set (concat (map snd dn)). ok (fst kv)"
    "sorted_wrt (\<lambda>a b. cmp_lt ?C (fst a) (fst b)) (concat (map snd dn))" "tb_pending_handle tb = fst (last dn)"
    using inv dn by (auto simp: tb_inv_def blocks_of_def)
  have "handle_ok (fst (last dn))" using inv last_in_set [OF dn] stored_at_handle_ok by (fastforce simp: tb_inv_def)
  then obtain enc where enc: "BlockHandle_EncodeTo (fst (last dn)) [] = Some enc" using BlockHandle_Encode_ok by blast
  have "ok (e_key (last ients)) \<and> cmp_lt ?C (e_key (last ients)) t" if ne: "ients \<noteq> []"
  proof -
    let ?i = "length ients - 1"
    have i: "?i < length (map snd ients)" "Suc ?i = length dn - 1" using ne length_greater_0_conv [of ients] ix(2) unfolding idx_rel_def length_map by linarith+
    from idx_sep [OF ix(2) i(1) blk(1-3)] have s: "ok (e_key (last ients))"
      "cmp_lt ?C (e_key (last ients)) (fst (hd (snd (last dn))))"
      using ne i dn by (simp_all add: last_conv_nth)
    have m: "snd (last dn) \<noteq> []" "last dn \<in> set dn" using blk(1) dn by simp_all
    then have oks: "ok (fst (hd (snd (last dn))))" "ok (fst (last (snd (last dn))))" using blk(2) by force+
    have "concat (map snd dn) = concat (map snd (butlast dn)) @ snd (last dn)"
      by (subst append_butlast_last_id [OF dn, symmetric]) (simp del: append_butlast_last_id)
    then have "sorted_wrt (\<lambda>a b. cmp_lt ?C (fst a) (fst b)) (snd (last dn))"
      using blk(3) by (simp add: sorted_wrt_append)
    then have "\<not> cmp_lt ?C (fst (last (snd (last dn)))) (fst (hd (snd (last dn))))"
      using m(1) oks cmp_lt_asym [of "fst (hd (snd (last dn)))" "fst (last (snd (last dn)))"] cmp_lt_irrefl
      by (cases "snd (last dn)") (auto split: if_splits)
    then have "cmp_lt ?C (e_key (last ients)) (fst (last (snd (last dn))))"
      by (rule cmp_lt_not_lt [OF s(1) oks s(2)])
    from cmp_lt_not_lt [OF s(1) oks(2) t(1) this t(2)] show ?thesis using s(1) by blast
  qed
  from BlockBuilder_Add_inv [OF ix(1), of t enc] this t(1) obtain ib sh iris' where
    "BlockBuilder_Add ?C 1 t enc (tb_index_block tb) = Some ib" "bb_inv 1 ib (ients @ [(sh, t, enc)]) iris'" by auto
  then show ?thesis using enc blk(4) ix(2)
    by (intro exI [of _ ib] exI [of _ "ients @ [(sh, t, enc)]"] exI [of _ iris'] exI [of _ "map snd ients"] exI [of _ enc])
      (simp add: add_index_entry_def)
qed

end

subsection \<open>Adding\<close>

lemma blocks_of_concat: "concat (blocks_of dn cur) = concat (map snd dn) @ cur"
  by (simp add: blocks_of_def)

lemma blocks_of_last: "cur \<noteq> [] \<Longrightarrow> last (concat (blocks_of dn cur)) = last cur"
  by (simp add: blocks_of_concat)

lemma idx_rel_grow:
  assumes "idx_rel opt hs (blocks_of dn cur) es" and "cur \<noteq> []"
  shows "idx_rel opt hs (blocks_of dn (cur @ [kv])) es"
proof -
  have "idx_rel opt hs (map snd dn @ [cur @ [kv]]) es"
  proof (rule idx_rel_cong)
    show "idx_rel opt hs (map snd dn @ [cur]) es" using assms by (simp add: blocks_of_def)
  qed (use assms(2) in \<open>auto simp: nth_append less_Suc_eq\<close>)
  then show ?thesis by (simp add: blocks_of_def)
qed

lemma idx_rel_snoc:
  assumes rel: "idx_rel opt hs bs es" and "bs \<noteq> []" and "o_sep opt (fst (last (last bs))) (fst (hd b)) = Some t"
    and "BlockHandle_EncodeTo (hs ! (length bs - 1)) [] = Some enc"
  shows "idx_rel opt hs (bs @ [b]) (es @ [(t, enc)])"
proof -
  have l: "Suc (length es) = length bs" using rel assms(2) by (simp add: idx_rel_def Suc_leI)
  have "o_sep opt (fst (last ((bs @ [b]) ! i))) (fst (hd ((bs @ [b]) ! Suc i))) = Some (fst ((es @ [(t, enc)]) ! i)) \<and>
      BlockHandle_EncodeTo (hs ! i) [] = Some (snd ((es @ [(t, enc)]) ! i))" if "i < Suc (length es)" for i
  proof (cases "i < length es")
    case True
    then show ?thesis using rel l by (simp add: idx_rel_def nth_append)
  next
    case False
    then have i: "i = length es" "length bs - 1 = length es" using that l by auto
    then have "bs ! i = last bs" using last_conv_nth [OF assms(2)] by simp
    with i show ?thesis using assms(3,4) l by (simp add: nth_append)
  qed
  then show ?thesis using l by (simp add: idx_rel_def)
qed

lemma idx_rel_sep:
  assumes "idx_rel opt (map fst dn) (map snd dn) es" and "dn \<noteq> []" and "o_sep opt (fst (last (snd (last dn)))) (fst kv) = Some t"
    and "BlockHandle_EncodeTo (fst (last dn)) [] = Some enc"
  shows "idx_rel opt (map fst dn) (blocks_of dn [kv]) (es @ [(t, enc)])"
proof -
  have "map fst dn ! (length (map snd dn) - 1) = fst (last dn)" "last (map snd dn) = snd (last dn)"
    using assms(2) by (simp_all add: last_conv_nth last_map)
  then show ?thesis using idx_rel_snoc [OF assms(1), of "[kv]" t enc] assms by (simp add: blocks_of_def)
qed

context table_writer begin

lemma add_step_index:
  assumes inv: "tb_inv contents good opt ok tb dn cur" and k: "ok (fst kv)" and less: "\<forall>e \<in> set (concat (blocks_of dn cur)). cmp_lt (o_cmp opt) (fst e) (fst kv)"
  shows "\<exists>lk ib ients iris. (if tb_pending_index_entry tb then
        if \<not> BlockBuilder_empty (tb_data_block tb) then None
        else do { sep_key \<leftarrow> o_sep opt (tb_last_key tb) (fst kv); add_index_entry opt sep_key tb }
      else Some tb) = Some (tb\<lparr>tb_last_key := lk, tb_index_block := ib, tb_pending_index_entry := False\<rparr>) \<and>
    bb_inv 1 ib ients iris \<and> idx_rel opt (map fst dn) (blocks_of dn (cur @ [kv])) (map snd ients)"
proof -
  obtain ients iris where ix: "bb_inv 1 (tb_index_block tb) ients iris" "idx_rel opt (map fst dn) (blocks_of dn cur) (map snd ients)"
    using inv by (auto simp: tb_inv_def)
  have p: "tb_pending_index_entry tb \<longleftrightarrow> dn \<noteq> [] \<and> cur = []" using inv unfolding tb_inv_def by blast
  show ?thesis
  proof (cases "dn \<noteq> [] \<and> cur = []")
    case True
    then have inv': "tb_inv contents good opt ok tb dn []" using inv by simp
    have e: "BlockBuilder_empty (tb_data_block tb)" using inv' bb_inv_empty by (fastforce simp: tb_inv_def BlockBuilder_empty_def)
    have l: "last dn \<in> set dn" using True by simp
    then have l: "last dn \<in> set dn" "snd (last dn) \<noteq> []" using inv unfolding tb_inv_def by (force, force)
    then have m: "last (snd (last dn)) \<in> set (concat (blocks_of dn cur))" by (force simp: blocks_of_def)
    obtain dn' d where dn: "dn = dn' @ [d]" using True by (cases dn rule: rev_cases) auto
    have lk: "tb_last_key tb = fst (last (snd (last dn)))"
      using inv' dn l(2) by (simp add: tb_inv_def blocks_of_def)
    have "ok (fst (last (snd (last dn))))" using inv m unfolding tb_inv_def by blast
    from sep_range [OF this k] m less obtain t where
      t: "o_sep opt (fst (last (snd (last dn)))) (fst kv) = Some t" "ok t" "\<not> cmp_lt (o_cmp opt) t (fst (last (snd (last dn))))" by blast
    from add_index_entry_inv [OF inv' _ t(2,3)] True obtain ib ients' iris' es enc where
      a: "add_index_entry opt t tb = Some (tb\<lparr>tb_last_key := t, tb_index_block := ib, tb_pending_index_entry := False\<rparr>)"
      "bb_inv 1 ib ients' iris'" "map snd ients' = es @ [(t, enc)]" "idx_rel opt (map fst dn) (map snd dn) es"
      "BlockHandle_EncodeTo (fst (last dn)) [] = Some enc" by blast
    have "idx_rel opt (map fst dn) (blocks_of dn (cur @ [kv])) (map snd ients')"
      using idx_rel_sep [OF a(4) _ t(1) a(5)] True by (simp add: a(3))
    then show ?thesis using p True e lk t(1) a(1,2) by (auto simp del: map_map)
  next
    case False
    then have "idx_rel opt (map fst dn) (blocks_of dn (cur @ [kv])) (map snd ients)"
      using ix(2) idx_rel_grow [OF ix(2), of kv] by (cases "cur = []") (auto simp: idx_rel_def blocks_of_def)
    moreover have "tb = tb\<lparr>tb_last_key := tb_last_key tb, tb_index_block := tb_index_block tb, tb_pending_index_entry := False\<rparr>"
      using p False by (cases tb) simp
    ultimately show ?thesis using p False ix(1) by metis
  qed
qed

lemma flt_AddKey:
  assumes "flt_inv opt ok off flt dn cur" and "ok (fst kv)"
  shows "flt_inv opt ok off (map_option (AddKey (fst kv)) flt) dn (cur @ [kv])"
proof (cases flt)
  case (Some fb)
  obtain pol nm where pol: "o_filter opt = Some (pol, nm)" using assms Some by (cases "o_filter opt") (auto simp: flt_inv_def)
  then obtain fs pend where fs: "length fs = unat off div kFilterBase"
      "fb_inv pol ok fb fs pend ((off, map fst cur) # map (\<lambda>(h, ks). (bh_offset h, map fst ks)) (rev dn))"
    using assms(1) Some by (auto simp: flt_inv_def)
  from filter_policy.AddKeys_inv [OF policy [OF pol] fs(2), of "[fst kv]"] fs(1) assms(2) obtain pend' where
    "fb_inv pol ok (AddKey (fst kv) fb) fs pend' ((off, map fst (cur @ [kv])) # map (\<lambda>(h, ks). (bh_offset h, map fst ks)) (rev dn))" by auto
  then show ?thesis using Some pol fs(1) by (auto simp: flt_inv_def)
qed (use assms in \<open>auto simp: flt_inv_def split: option.splits\<close>)

lemma Add_inv:
  assumes inv: "tb_inv contents good opt ok tb dn cur" and opn: "\<not> tb_closed tb" and k: "ok (fst kv)"
    and less: "\<forall>e \<in> set (concat (blocks_of dn cur)). cmp_lt (o_cmp opt) (fst e) (fst kv)"
  shows "\<exists>tb'. TableBuilder_Add ops port_snappy opt (fst kv) (snd kv) tb = Some tb' \<and> \<not> tb_closed tb' \<and>
    (\<not> TableBuilder_ok tb' \<or> (\<exists>dn' cur'. tb_inv contents good opt ok tb' dn' cur' \<and> concat (blocks_of dn' cur') = concat (blocks_of dn cur) @ [kv]))"
proof -
  let ?C = "o_cmp opt"
  have ok: "TableBuilder_ok tb" using inv by (simp add: tb_inv_def TableBuilder_ok_def)
  have gt: "(if tb_num_entries tb > 0 then do { r \<leftarrow> ?C (fst kv) (tb_last_key tb); Some (r > 0) } else Some True) = Some True"
  proof (cases "concat (blocks_of dn cur) = []")
    case False
    then have l: "last (concat (blocks_of dn cur)) \<in> set (concat (blocks_of dn cur))" "blocks_of dn cur \<noteq> []"
      using last_in_set [OF False] by auto
    then have lk: "tb_last_key tb = fst (last (concat (blocks_of dn cur)))" "ok (fst (last (concat (blocks_of dn cur))))"
      using inv unfolding tb_inv_def by blast+
    have "cmp_lt ?C (tb_last_key tb) (fst kv)" using less l(1) unfolding lk(1) by blast
    then obtain r where "?C (fst kv) (tb_last_key tb) = Some r" "r > 0"
      using lk by (cases rule: cmp_cases [OF k, of "tb_last_key tb"]) auto
    then show ?thesis by simp
  qed (use inv in \<open>simp add: tb_inv_def\<close>)
  from add_step_index [OF inv k less] obtain lk ib ients iris where
    ix: "(if tb_pending_index_entry tb then
        if \<not> BlockBuilder_empty (tb_data_block tb) then None
        else do { sep_key \<leftarrow> o_sep opt (tb_last_key tb) (fst kv); add_index_entry opt sep_key tb }
      else Some tb) = Some (tb\<lparr>tb_last_key := lk, tb_index_block := ib, tb_pending_index_entry := False\<rparr>)"
    "bb_inv 1 ib ients iris" "idx_rel opt (map fst dn) (blocks_of dn (cur @ [kv])) (map snd ients)" by blast
  obtain ents ris where e: "bb_inv (o_restart_interval opt) (tb_data_block tb) ents ris" "map snd ents = cur"
    using inv by (auto simp: tb_inv_def)
  have "ok (e_key (last ents)) \<and> cmp_lt ?C (e_key (last ents)) (fst kv)" if "ents \<noteq> []"
  proof -
    have "snd (last ents) \<in> set (concat (blocks_of dn cur))" using that e(2) by (force simp: blocks_of_concat)
    then show ?thesis using inv less unfolding tb_inv_def by blast
  qed
  from BlockBuilder_Add_inv [OF e(1), of "fst kv" "snd kv"] this k obtain db sh ris' where
    db: "BlockBuilder_Add ?C (o_restart_interval opt) (fst kv) (snd kv) (tb_data_block tb) = Some db"
    "bb_inv (o_restart_interval opt) db (ents @ [(sh, fst kv, snd kv)]) ris'" by auto
  define tb3 where "tb3 = tb\<lparr>tb_index_block := ib, tb_pending_index_entry := False,
    tb_filter_block := map_option (AddKey (fst kv)) (tb_filter_block tb), tb_last_key := fst kv, tb_num_entries := tb_num_entries tb + 1, tb_data_block := db\<rparr>"
  have inv3: "tb_inv contents good opt ok tb3 dn (cur @ [kv])"
  proof -
    have "flt_inv opt ok (tb_offset tb) (map_option (AddKey (fst kv)) (tb_filter_block tb)) dn (cur @ [kv])"
      using flt_AddKey [OF _ k] inv unfolding tb_inv_def by blast
    moreover have "sorted_wrt (\<lambda>a b. cmp_lt ?C (fst a) (fst b)) (concat (blocks_of dn cur) @ [kv])"
      using inv less by (auto simp: tb_inv_def sorted_wrt_append)
    moreover have "\<exists>ents ris. bb_inv (o_restart_interval opt) db ents ris \<and> map snd ents = cur @ [kv]"
      using db(2) e(2) by (intro exI [of _ "ents @ [(sh, fst kv, snd kv)]"] exI [of _ ris']) simp
    ultimately show ?thesis using inv ix(2,3) k unfolding tb_inv_def tb3_def by (auto simp: blocks_of_concat)
  qed
  have add: "TableBuilder_Add ops port_snappy opt (fst kv) (snd kv) tb =
      (if CurrentSizeEstimate db \<ge> unat (o_block_size opt) then TableBuilder_Flush ops port_snappy opt tb3 else Some tb3)"
    using opn ok gt ix(1) db(1) by (simp add: TableBuilder_Add_def tb3_def Let_def)
  have opn3: "\<not> tb_closed tb3" using opn by (simp add: tb3_def)
  have c: "concat (map snd dn) @ cur @ [kv] = concat (blocks_of dn cur) @ [kv]" by (simp add: blocks_of_concat)
  show ?thesis
  proof (cases "CurrentSizeEstimate db \<ge> unat (o_block_size opt)")
    case True
    from Flush_inv [OF inv3 opn3] obtain tb' where t: "TableBuilder_Flush ops port_snappy opt tb3 = Some tb'"
      "\<not> tb_closed tb'" "\<not> TableBuilder_ok tb' \<or> (\<exists>dn'. tb_inv contents good opt ok tb' dn' [] \<and> concat (map snd dn') = concat (map snd dn) @ cur @ [kv])" by blast
    have "\<not> TableBuilder_ok tb' \<or> (\<exists>dn' cur'. tb_inv contents good opt ok tb' dn' cur' \<and> concat (blocks_of dn' cur') = concat (blocks_of dn cur) @ [kv])"
      using t(3) unfolding c by (metis append_Nil2 blocks_of_concat)
    then show ?thesis using add True t(1,2) by simp
  next
    case False
    then show ?thesis using add inv3 opn3 by (auto simp: blocks_of_concat)
  qed
qed

lemma add_all_inv:
  assumes "tb_inv contents good opt ok tb dn cur" and "\<not> tb_closed tb" and "\<forall>kv \<in> set kvs. ok (fst kv)"
    and "sorted_wrt (\<lambda>a b. cmp_lt (o_cmp opt) (fst a) (fst b)) (concat (blocks_of dn cur) @ kvs)"
  shows "\<exists>tb'. add_all ops port_snappy opt kvs tb = Some tb' \<and> \<not> tb_closed tb' \<and>
    (\<not> TableBuilder_ok tb' \<or> (\<exists>dn' cur'. tb_inv contents good opt ok tb' dn' cur' \<and> concat (blocks_of dn' cur') = concat (blocks_of dn cur) @ kvs))"
proof -
  have skip: "add_all ops port_snappy opt kvs tb = Some tb" if "\<not> TableBuilder_ok tb" "\<not> tb_closed tb"
    for tb and kvs
    using that by (induction kvs) (simp_all add: TableBuilder_Add_def)
  show ?thesis using assms
  proof (induction kvs arbitrary: tb dn cur)
    case Nil
    then show ?case by auto
  next
    case (Cons kv kvs)
    have "\<forall>e \<in> set (concat (blocks_of dn cur)). cmp_lt (o_cmp opt) (fst e) (fst kv)"
      using Cons.prems(4) by (auto simp: sorted_wrt_append)
    from Add_inv [OF Cons.prems(1) Cons.prems(2) _ this] Cons.prems(3) obtain tb1 where
      a: "TableBuilder_Add ops port_snappy opt (fst kv) (snd kv) tb = Some tb1" "\<not> tb_closed tb1"
      "\<not> TableBuilder_ok tb1 \<or> (\<exists>dn' cur'. tb_inv contents good opt ok tb1 dn' cur' \<and> concat (blocks_of dn' cur') = concat (blocks_of dn cur) @ [kv])"
      by auto
    show ?case
    proof (cases "TableBuilder_ok tb1")
      case False
      then show ?thesis using a(1,2) skip [OF False a(2), of kvs] by simp
    next
      case True
      then obtain dn1 cur1 where t: "tb_inv contents good opt ok tb1 dn1 cur1" "concat (blocks_of dn1 cur1) = concat (blocks_of dn cur) @ [kv]"
        using a(3) by blast
      show ?thesis using Cons.IH [OF t(1) a(2)] Cons.prems(3,4) a(1) by (simp add: t(2))
    qed
  qed
qed

end

subsection \<open>The options of the store\<close>

lemma table_options_Sanitize:
  assumes "separating_comparator (o_cmp opt) ok (o_sep opt) (o_succ opt)"
    and "\<And>pol nm. o_filter opt = Some (pol, nm) \<Longrightarrow> filter_policy pol ok"
  shows "table_options (SanitizeOptions opt) (ik_ok ok)"
proof (intro table_options.intro table_options_axioms.intro)
  show "separating_comparator (o_cmp (SanitizeOptions opt)) (ik_ok ok) (o_sep (SanitizeOptions opt)) (o_succ (SanitizeOptions opt))"
    using separating_comparator.ik_separating [OF assms(1)] by (simp add: SanitizeOptions_def)
next
  fix pol nm
  assume "o_filter (SanitizeOptions opt) = Some (pol, nm)"
  then show "filter_policy pol (ik_ok ok)"
    using assms(2) filter_policy.internal_policy by (auto simp: SanitizeOptions_def)
qed

text \<open>The default comparator, any sizes, and no filter or a Bloom filter.\<close>

definition user_options :: "nat option \<Rightarrow> u64 \<Rightarrow> nat \<Rightarrow> byte \<Rightarrow> bool \<Rightarrow> Options" where
  "user_options bloom_bits block_size interval compression paranoid = Options_new\<lparr>
     o_block_size := block_size, o_restart_interval := interval, o_compression := compression, o_paranoid_checks := paranoid,
     o_filter := map_option (\<lambda>bits. (NewBloomFilterPolicy bits, ascii ''leveldb.BuiltinBloomFilter2'')) bloom_bits\<rparr>"

interpretation tbl: table_options "SanitizeOptions (user_options bloom_bits block_size interval compression paranoid)" "ik_ok (\<lambda>_. True)"
proof (rule table_options_Sanitize)
  show "separating_comparator (o_cmp (user_options bloom_bits block_size interval compression paranoid)) (\<lambda>_. True)
      (o_sep (user_options bloom_bits block_size interval compression paranoid))
      (o_succ (user_options bloom_bits block_size interval compression paranoid))"
    using bw.separating_comparator_axioms by (simp add: user_options_def Options_new_def)
qed (auto simp: user_options_def bloom.filter_policy_axioms)

end
