(* ===== verification/Ldb_TableRep.thy ===== *)
theory Ldb_TableRep
  imports Ldb_TableInv
begin

text \<open>
  What a finished table file holds. The predicate \<open>table_rep\<close> is the contract between the builder and its
  readers: data blocks, an index block with one separator and handle per data block, a metaindex block that
  points to the filter, and the footer. \<open>Finish\<close> establishes it whenever it returns OK.
\<close>

subsection \<open>The contract\<close>

text \<open>The index of a finished table: a separator after each block but the last, a successor after the last.\<close>

definition idx_final :: "Options \<Rightarrow> (BlockHandle \<times> (slice \<times> slice) list) list \<Rightarrow> (slice \<times> slice) list \<Rightarrow> bool" where
  "idx_final opt dn es \<longleftrightarrow> length es = length dn \<and> (\<forall>i < length dn.
     BlockHandle_EncodeTo (fst (dn ! i)) [] = Some (snd (es ! i)) \<and>
     (if Suc i < length dn then o_sep opt (fst (last (snd (dn ! i)))) (fst (hd (snd (dn ! Suc i))))
      else o_succ opt (fst (last (snd (dn ! i))))) = Some (fst (es ! i)))"

definition flt_contents :: "Options \<Rightarrow> (BlockHandle \<times> (slice \<times> slice) list) list \<Rightarrow> byte list \<Rightarrow> BlockHandle \<Rightarrow> bool" where
  "flt_contents opt dn data fh \<longleftrightarrow> (case o_filter opt of
     None \<Rightarrow> True
   | Some (pol, _) \<Rightarrow> \<exists>c r. has_block port_snappy data fh c \<and> FilterBlockReader_new c = Some r \<and>
       (\<forall>(h, ks) \<in> set dn. \<forall>kv \<in> set ks. FilterBlock_KeyMayMatch pol r (bh_offset h) (fst kv) = Some True))"

definition flt_final :: "Options \<Rightarrow> (BlockHandle \<times> (slice \<times> slice) list) list \<Rightarrow> byte list \<Rightarrow> BlockHandle \<Rightarrow> bool" where
  "flt_final opt dn data mh \<longleftrightarrow> (\<exists>fh meta. stored_at data mh meta \<and> flt_contents opt dn data fh \<and> (case o_filter opt of
     None \<Rightarrow> meta = []
   | Some (_, nm) \<Rightarrow> \<exists>enc. BlockHandle_EncodeTo fh [] = Some enc \<and> meta = [(ascii ''filter.'' @ nm, enc)]))"

definition table_rep :: "Options \<Rightarrow> byte list \<Rightarrow> (slice \<times> slice) list \<Rightarrow> bool" where
  "table_rep opt data kvs \<longleftrightarrow> length data < 2 ^ 32 \<and> (\<exists>dn es mh ih body foot.
     data = body @ foot \<and> length foot = Footer_kEncodedLength \<and>
     (\<forall>ft. Footer_DecodeFrom foot ft = Some (Status_OK, \<lparr>ft_metaindex_handle = mh, ft_index_handle = ih\<rparr>, [])) \<and>
     concat (map snd dn) = kvs \<and> distinct (map (bh_offset \<circ> fst) dn) \<and> (\<forall>(h, ks) \<in> set dn. ks \<noteq> [] \<and> stored_at data h ks) \<and>
     idx_final opt dn es \<and> stored_at data ih es \<and> flt_final opt dn data mh)"

lemma idx_final_snoc:
  assumes "idx_rel opt (map fst dn) (map snd dn) es" and "dn \<noteq> []"
    and "o_succ opt (fst (last (snd (last dn)))) = Some t" and "BlockHandle_EncodeTo (fst (last dn)) [] = Some enc"
  shows "idx_final opt dn (es @ [(t, enc)])"
proof -
  have l: "length es = length dn - 1" using assms(1) by (simp add: idx_rel_def)
  have "BlockHandle_EncodeTo (fst (dn ! i)) [] = Some (snd ((es @ [(t, enc)]) ! i)) \<and>
      (if Suc i < length dn then o_sep opt (fst (last (snd (dn ! i)))) (fst (hd (snd (dn ! Suc i))))
       else o_succ opt (fst (last (snd (dn ! i))))) = Some (fst ((es @ [(t, enc)]) ! i))" if i: "i < length dn" for i
  proof (cases "Suc i < length dn")
    case True
    then have "i < length es" using l by simp
    then show ?thesis using assms(1) True l by (simp add: idx_rel_def nth_append)
  next
    case False
    then have "i = length es" using i l by linarith
    moreover from this have "dn ! i = last dn" using l assms(2) by (simp add: last_conv_nth)
    ultimately have "i = length es" "dn ! i = last dn" by blast+
    then show ?thesis using assms(3,4) False by simp
  qed
  then show ?thesis using l assms(2) by (simp add: idx_final_def Suc_leI)
qed

lemma flt_contents_append: "flt_contents opt dn data fh \<Longrightarrow> length (data @ rest) < 2 ^ 63 \<Longrightarrow> flt_contents opt dn (data @ rest) fh"
  unfolding flt_contents_def using has_block_append by (fastforce split: option.splits)

lemma flt_final_append: "flt_final opt dn data mh \<Longrightarrow> length (data @ rest) < 2 ^ 63 \<Longrightarrow> flt_final opt dn (data @ rest) mh"
  unfolding flt_final_def by (blast intro: flt_contents_append stored_at_append)

subsection \<open>Steps of \<open>Finish\<close>\<close>

text \<open>A later state of the builder: more bytes in the file, the same pending index entry.\<close>

definition tb_ext :: "('f \<Rightarrow> byte list) \<Rightarrow> ('f \<Rightarrow> bool) \<Rightarrow> 'f TableBuilder \<Rightarrow> 'f TableBuilder \<Rightarrow> bool" where
  "tb_ext contents good tb tb' \<longleftrightarrow> TableBuilder_ok tb' \<and> good (tb_file tb') \<and>
     tb_offset tb' = word_of_nat (length (contents (tb_file tb'))) \<and> (\<exists>rest. contents (tb_file tb') = contents (tb_file tb) @ rest) \<and>
     tb_index_block tb' = tb_index_block tb \<and> tb_pending_index_entry tb' = tb_pending_index_entry tb \<and>
     tb_pending_handle tb' = tb_pending_handle tb \<and> tb_last_key tb' = tb_last_key tb"

lemma tb_ext_trans: "tb_ext contents good a b \<Longrightarrow> tb_ext contents good b c \<Longrightarrow> tb_ext contents good a c"
  by (auto simp: tb_ext_def)

lemma tb_inv_closed: "tb_inv contents good opt ok (tb\<lparr>tb_closed := c\<rparr>) dn cur = tb_inv contents good opt ok tb dn cur"
  by (simp add: tb_inv_def)

lemma finish_skip:
  assumes "\<not> TableBuilder_ok tb"
  shows "finish_filter ops opt tb = Some (tb, BlockHandle_new)" "finish_metaindex ops snappy opt fh tb = Some (tb, BlockHandle_new)"
    "finish_index ops snappy opt tb = Some (tb, BlockHandle_new)" "finish_footer ops mh ih tb = Some tb"
  using assms by (auto simp: finish_filter_def finish_metaindex_def finish_index_def finish_footer_def split: option.splits)

lemma add_index_entry_cong:
  assumes "add_index_entry opt t a = Some (a\<lparr>tb_last_key := t, tb_index_block := ib, tb_pending_index_entry := False\<rparr>)"
    and "tb_index_block b = tb_index_block a" and "tb_pending_handle b = tb_pending_handle a"
  shows "add_index_entry opt t b = Some (b\<lparr>tb_last_key := t, tb_index_block := ib, tb_pending_index_entry := False\<rparr>)"
proof -
  from assms(1) obtain enc ib' where e: "BlockHandle_EncodeTo (tb_pending_handle a) [] = Some enc"
    "BlockBuilder_Add (o_cmp opt) 1 t enc (tb_index_block a) = Some ib'"
    "a\<lparr>tb_last_key := t, tb_index_block := ib', tb_pending_index_entry := False\<rparr> =
     a\<lparr>tb_last_key := t, tb_index_block := ib, tb_pending_index_entry := False\<rparr>"
    by (auto simp: add_index_entry_def bind_eq_Some_conv)
  from arg_cong [OF e(3), of tb_index_block] have "ib' = ib" by simp
  then show ?thesis using e(1,2) assms(2,3) by (simp add: add_index_entry_def)
qed

context table_writer begin

lemma WriteRawBlock_ext:
  assumes "tb_ext contents good tb0 tb"
  shows "\<exists>tb' h. WriteRawBlock ops c kNoCompression tb = Some (tb', h) \<and>
    tb_filter_block tb' = tb_filter_block tb \<and>
    (\<not> TableBuilder_ok tb' \<or> (tb_ext contents good tb tb' \<and> has_block port_snappy (contents (tb_file tb')) h c))"
proof -
  have "tb_offset tb = word_of_nat (length (contents (tb_file tb)))" "good (tb_file tb)" using assms by (auto simp: tb_ext_def)
  then show ?thesis
    by (cases rule: WriteRawBlock_cases [where c = c]) (auto simp: tb_ext_def TableBuilder_ok_def)
qed

lemma WriteBlock_ext:
  assumes tb: "tb_ext contents good tb0 tb" and b: "bb_inv interval b ents ris"
  shows "\<exists>tb' h. WriteBlock ops port_snappy opt b tb = Some (tb', h, BlockBuilder_Reset) \<and>
    tb_filter_block tb' = tb_filter_block tb \<and>
    (\<not> TableBuilder_ok tb' \<or> (tb_ext contents good tb tb' \<and> stored_at (contents (tb_file tb')) h (map snd ents)))"
proof -
  have ok: "TableBuilder_ok tb" using tb by (simp add: tb_ext_def)
  have c: "fst (BlockBuilder_Finish b) = block_rep ents ris" using Finish_rep [OF b] by auto
  have "blk_src (map snd ents) (block_rep ents ris)" unfolding blk_src_def using b by blast
  then show ?thesis using WriteRawBlock_ext [OF tb, of "block_rep ents ris"] WriteBlock_raw [OF ok, of ops opt b]
    unfolding c stored_at_def by auto
qed

lemma finish_filter_ext:
  assumes tb: "tb_ext contents good tb0 tb" and flt: "flt_inv opt ok (tb_offset tb) (tb_filter_block tb) dn []"
  shows "\<exists>tb' fh. finish_filter ops opt tb = Some (tb', fh) \<and> (\<not> TableBuilder_ok tb' \<or>
    (tb_ext contents good tb tb' \<and> (tb_filter_block tb' = None) = (o_filter opt = None) \<and>
     flt_contents opt dn (contents (tb_file tb')) fh \<and> (o_filter opt \<noteq> None \<longrightarrow> handle_ok fh)))"
proof (cases "tb_filter_block tb")
  case None
  then have "o_filter opt = None" using flt by (cases "o_filter opt") (auto simp: flt_inv_def)
  moreover have "tb_ext contents good tb tb" using tb by (simp add: tb_ext_def)
  ultimately show ?thesis using None by (auto simp: finish_filter_def flt_contents_def)
next
  case (Some fb)
  obtain pol nm where pol: "o_filter opt = Some (pol, nm)" using flt Some by (cases "o_filter opt") (auto simp: flt_inv_def)
  have tok: "TableBuilder_ok tb" using tb by (simp add: tb_ext_def)
  obtain fs pend where "fb_inv pol ok fb fs pend ((tb_offset tb, []) # map (\<lambda>(h, ks). (bh_offset h, map fst ks)) (rev dn))"
    using flt Some pol by (auto simp: flt_inv_def)
  from filter_policy.Finish_reader [OF policy [OF pol] this] obtain c fb1 where c: "FilterBlock_Finish pol fb = Some (c, fb1)"
    "length c < 2 ^ 32 \<Longrightarrow> \<exists>r. FilterBlockReader_new c = Some r \<and>
      (\<forall>(h, ks) \<in> set dn. \<forall>kv \<in> set ks. FilterBlock_KeyMayMatch pol r (bh_offset h) (fst kv) = Some True)" by fastforce
  have "tb_ext contents good tb (tb\<lparr>tb_filter_block := Some fb1\<rparr>)" using tb by (auto simp: tb_ext_def TableBuilder_ok_def)
  from WriteRawBlock_ext [OF this, of c] obtain tb' fh where w: "WriteRawBlock ops c kNoCompression (tb\<lparr>tb_filter_block := Some fb1\<rparr>) = Some (tb', fh)"
    "tb_filter_block tb' = Some fb1" "\<not> TableBuilder_ok tb' \<or> (tb_ext contents good tb tb' \<and> has_block port_snappy (contents (tb_file tb')) fh c)"
    by (auto simp: tb_ext_def)
  have fin: "finish_filter ops opt tb = Some (tb', fh)" using Some pol tok c(1) w(1) by (simp add: finish_filter_def)
  show ?thesis
  proof (cases "TableBuilder_ok tb'")
    case True
    then have t: "tb_ext contents good tb tb'" "has_block port_snappy (contents (tb_file tb')) fh c" using w(3) by blast+
    have "good (tb_file tb')" using t(1) by (simp add: tb_ext_def)
    from good_size [OF this] have "length c < 2 ^ 32" using t(2) by (auto simp: has_block_def port_snappy_def)
    then have "flt_contents opt dn (contents (tb_file tb')) fh" using c(2) t(2) pol by (auto simp: flt_contents_def)
    then show ?thesis using fin t w(2) pol has_block_handle_ok [OF t(2)] by auto
  qed (use fin in simp)
qed

lemma finish_metaindex_ext:
  assumes tb: "tb_ext contents good tb0 tb" and flt: "(tb_filter_block tb = None) = (o_filter opt = None)"
    "flt_contents opt dn (contents (tb_file tb)) fh" "o_filter opt \<noteq> None \<Longrightarrow> handle_ok fh" and i: "1 \<le> o_restart_interval opt"
  shows "\<exists>tb' mh. finish_metaindex ops port_snappy opt fh tb = Some (tb', mh) \<and> (\<not> TableBuilder_ok tb' \<or>
    (tb_ext contents good tb tb' \<and> flt_final opt dn (contents (tb_file tb')) mh))"
proof -
  have tok: "TableBuilder_ok tb" using tb by (simp add: tb_ext_def)
  have new: "BlockBuilder_new (o_restart_interval opt) = Some BlockBuilder_Reset" using i by (simp add: BlockBuilder_new_def)
  have "\<exists>meta ents ris. (case (tb_filter_block tb, o_filter opt) of
            (Some _, Some (_, name)) \<Rightarrow> do {
              handle_encoding \<leftarrow> BlockHandle_EncodeTo fh [];
              BlockBuilder_Add (o_cmp opt) (o_restart_interval opt) (ascii ''filter.'' @ name) handle_encoding BlockBuilder_Reset }
          | _ \<Rightarrow> Some BlockBuilder_Reset) = Some meta \<and> bb_inv (o_restart_interval opt) meta ents ris \<and> (case o_filter opt of
     None \<Rightarrow> map snd ents = []
   | Some (_, nm) \<Rightarrow> \<exists>enc. BlockHandle_EncodeTo fh [] = Some enc \<and> map snd ents = [(ascii ''filter.'' @ nm, enc)])"
  proof (cases "o_filter opt")
    case None
    then show ?thesis using bb_inv_new [OF i] flt(1) by (auto intro: exI [of _ "[]"])
  next
    case (Some p)
    obtain pol nm where p: "p = (pol, nm)" by fastforce
    obtain enc where "BlockHandle_EncodeTo fh [] = Some enc" using BlockHandle_Encode_ok flt(3) Some by blast
    moreover obtain b' sh ris' where
      "BlockBuilder_Add (o_cmp opt) (o_restart_interval opt) (ascii ''filter.'' @ nm) enc BlockBuilder_Reset = Some b'"
      "bb_inv (o_restart_interval opt) b' [(sh, ascii ''filter.'' @ nm, enc)] ris'"
      using BlockBuilder_Add_inv [OF bb_inv_new [OF i], of "ascii ''filter.'' @ nm" enc] by auto
    ultimately show ?thesis using Some flt(1) p
      by (intro exI [of _ b'] exI [of _ "[(sh, ascii ''filter.'' @ nm, enc)]"] exI [of _ ris']) (auto split: option.split)
  qed
  then obtain meta ents ris where m: "(case (tb_filter_block tb, o_filter opt) of
            (Some _, Some (_, name)) \<Rightarrow> do {
              handle_encoding \<leftarrow> BlockHandle_EncodeTo fh [];
              BlockBuilder_Add (o_cmp opt) (o_restart_interval opt) (ascii ''filter.'' @ name) handle_encoding BlockBuilder_Reset }
          | _ \<Rightarrow> Some BlockBuilder_Reset) = Some meta" "bb_inv (o_restart_interval opt) meta ents ris"
    "case o_filter opt of None \<Rightarrow> map snd ents = []
     | Some (_, nm) \<Rightarrow> \<exists>enc. BlockHandle_EncodeTo fh [] = Some enc \<and> map snd ents = [(ascii ''filter.'' @ nm, enc)]" by blast
  from WriteBlock_ext [OF tb m(2)] obtain tb' mh where w: "WriteBlock ops port_snappy opt meta tb = Some (tb', mh, BlockBuilder_Reset)"
    "\<not> TableBuilder_ok tb' \<or> (tb_ext contents good tb tb' \<and> stored_at (contents (tb_file tb')) mh (map snd ents))" by blast
  have fin: "finish_metaindex ops port_snappy opt fh tb = Some (tb', mh)" using tok new m(1) w(1) by (simp add: finish_metaindex_def)
  show ?thesis
  proof (cases "TableBuilder_ok tb'")
    case True
    then have t: "tb_ext contents good tb tb'" "stored_at (contents (tb_file tb')) mh (map snd ents)" using w(2) by blast+
    then obtain rest where r: "contents (tb_file tb') = contents (tb_file tb) @ rest" "good (tb_file tb')" by (auto simp: tb_ext_def)
    have "flt_contents opt dn (contents (tb_file tb')) fh" using flt_contents_append [OF flt(2), of rest] good_size [OF r(2)] by (simp add: r(1))
    then have "flt_final opt dn (contents (tb_file tb')) mh" unfolding flt_final_def using t(2) m(3) by blast
    then show ?thesis using fin t(1) by blast
  qed (use fin in simp)
qed

lemma finish_index_ext:
  assumes inv: "tb_inv contents good opt ok tb0 dn []" and tb: "tb_ext contents good tb0 tb"
  shows "\<exists>tb' ih es. finish_index ops port_snappy opt tb = Some (tb', ih) \<and> (\<not> TableBuilder_ok tb' \<or>
    (TableBuilder_ok tb' \<and> good (tb_file tb') \<and> (\<exists>rest. contents (tb_file tb') = contents (tb_file tb) @ rest) \<and>
     idx_final opt dn es \<and> stored_at (contents (tb_file tb')) ih es))"
proof -
  have tok: "TableBuilder_ok tb" using tb by (simp add: tb_ext_def)
  obtain ients iris where ix: "bb_inv 1 (tb_index_block tb) ients iris" "idx_rel opt (map fst dn) (map snd dn) (map snd ients)"
    using inv tb by (auto simp: tb_inv_def tb_ext_def blocks_of_def)
  have p: "tb_pending_index_entry tb \<longleftrightarrow> dn \<noteq> []" using inv tb by (auto simp: tb_inv_def tb_ext_def)
  have "\<exists>tb1 ents ris. (if tb_pending_index_entry tb then do { succ_key \<leftarrow> o_succ opt (tb_last_key tb); add_index_entry opt succ_key tb }
      else Some tb) = Some tb1 \<and> tb_ext contents good tb1 tb1 \<and> tb_file tb1 = tb_file tb \<and> bb_inv 1 (tb_index_block tb1) ents ris \<and>
    idx_final opt dn (map snd ents)"
  proof (cases "dn = []")
    case True
    then have "ients = []" using ix(2) by (simp add: idx_rel_def)
    then have "idx_final opt dn (map snd ients)" using True by (simp add: idx_final_def)
    then show ?thesis using True p ix(1) tb by (auto simp: tb_ext_def)
  next
    case False
    have b: "snd (last dn) \<noteq> []" using inv last_in_set [OF False] unfolding tb_inv_def by fastforce
    have m: "last (snd (last dn)) \<in> set (concat (blocks_of dn []))" using b last_in_set [OF False] by (force simp: blocks_of_def)
    have lk: "tb_last_key tb = fst (last (snd (last dn)))"
      using inv tb b False append_butlast_last_id [OF False] by (cases dn rule: rev_cases) (auto simp: tb_inv_def tb_ext_def blocks_of_def)
    have "ok (fst (last (snd (last dn))))" using inv m unfolding tb_inv_def by blast
    from succ_range [OF this] obtain t where
      t: "o_succ opt (fst (last (snd (last dn)))) = Some t" "ok t" "\<not> cmp_lt (o_cmp opt) t (fst (last (snd (last dn))))" by blast
    from add_index_entry_inv [OF inv False t(2,3)] obtain ib ients' iris' es enc where
      a: "add_index_entry opt t tb0 = Some (tb0\<lparr>tb_last_key := t, tb_index_block := ib, tb_pending_index_entry := False\<rparr>)"
      "bb_inv 1 ib ients' iris'" "map snd ients' = es @ [(t, enc)]" "idx_rel opt (map fst dn) (map snd dn) es"
      "BlockHandle_EncodeTo (fst (last dn)) [] = Some enc" by blast
    have "add_index_entry opt t tb = Some (tb\<lparr>tb_last_key := t, tb_index_block := ib, tb_pending_index_entry := False\<rparr>)"
      using add_index_entry_cong [OF a(1), of tb] tb unfolding tb_ext_def by blast
    moreover have "idx_final opt dn (map snd ients')" using idx_final_snoc [OF a(4) False t(1) a(5)] by (simp add: a(3))
    ultimately show ?thesis using p False lk t(1) a(2) tb
      by (intro exI [of _ "tb\<lparr>tb_last_key := t, tb_index_block := ib, tb_pending_index_entry := False\<rparr>"]) (auto simp: tb_ext_def TableBuilder_ok_def)
  qed
  then obtain tb1 ents ris where t1: "(if tb_pending_index_entry tb then do { succ_key \<leftarrow> o_succ opt (tb_last_key tb); add_index_entry opt succ_key tb }
      else Some tb) = Some tb1" "tb_ext contents good tb1 tb1" "tb_file tb1 = tb_file tb" "bb_inv 1 (tb_index_block tb1) ents ris"
    "idx_final opt dn (map snd ents)" by blast
  from WriteBlock_ext [OF t1(2,4)] obtain tb2 ih where w: "WriteBlock ops port_snappy opt (tb_index_block tb1) tb1 = Some (tb2, ih, BlockBuilder_Reset)"
    "\<not> TableBuilder_ok tb2 \<or> (tb_ext contents good tb1 tb2 \<and> stored_at (contents (tb_file tb2)) ih (map snd ents))" by blast
  have "finish_index ops port_snappy opt tb = Some (tb2\<lparr>tb_index_block := BlockBuilder_Reset\<rparr>, ih)"
    using tok t1(1) w(1) by (simp add: finish_index_def)
  then show ?thesis using w(2) t1(3,5)
    by (intro exI [of _ "tb2\<lparr>tb_index_block := BlockBuilder_Reset\<rparr>"] exI [of _ ih] exI [of _ "map snd ents"])
      (auto simp: tb_ext_def TableBuilder_ok_def)
qed

lemma finish_footer_ext:
  assumes "good (tb_file tb)" and ok: "TableBuilder_ok tb" and "handle_ok mh" and "handle_ok ih"
  shows "\<exists>tb'. finish_footer ops mh ih tb = Some tb' \<and> (\<not> TableBuilder_ok tb' \<or> (good (tb_file tb') \<and> tb_status tb' = Status_OK \<and>
    (\<exists>foot. contents (tb_file tb') = contents (tb_file tb) @ foot \<and> length foot = Footer_kEncodedLength \<and>
      (\<forall>ft. Footer_DecodeFrom foot ft = Some (Status_OK, \<lparr>ft_metaindex_handle = mh, ft_index_handle = ih\<rparr>, [])))))"
proof -
  obtain foot where foot: "Footer_EncodeTo \<lparr>ft_metaindex_handle = mh, ft_index_handle = ih\<rparr> [] = Some foot" "length foot = Footer_kEncodedLength"
    "\<And>rest ft. Footer_DecodeFrom (foot @ rest) ft = Some (Status_OK, \<lparr>ft_metaindex_handle = mh, ft_index_handle = ih\<rparr>, rest)"
    using Footer_roundtrip_aux [of "\<lparr>ft_metaindex_handle = mh, ft_index_handle = ih\<rparr>"] assms(3,4) by auto
  obtain s f where a: "wf_Append ops foot (tb_file tb) = (s, f)" by fastforce
  show ?thesis
  proof (cases "Status_ok s")
    case False
    then show ?thesis using ok foot(1) a by (simp add: finish_footer_def TableBuilder_ok_def)
  next
    case True
    then have s: "s = Status_OK" by (simp add: Status_ok_def Status_OK_def)
    have "\<forall>ft. Footer_DecodeFrom foot ft = Some (Status_OK, \<lparr>ft_metaindex_handle = mh, ft_index_handle = ih\<rparr>, [])"
      using foot(3) [of "[]"] by simp
    then show ?thesis using append_ok [OF assms(1) a [unfolded s]] ok foot(1,2) a s
      by (auto simp: finish_footer_def TableBuilder_ok_def Let_def)
  qed
qed

lemma finish_meta_ext:
  assumes inv: "tb_inv contents good opt ok tb dn []"
  shows "\<exists>tb2 fh tb3 mh. finish_filter ops opt tb = Some (tb2, fh) \<and> finish_metaindex ops port_snappy opt fh tb2 = Some (tb3, mh) \<and>
    (\<not> TableBuilder_ok tb3 \<or> (tb_ext contents good tb tb3 \<and> flt_final opt dn (contents (tb_file tb3)) mh))"
proof -
  have e: "tb_ext contents good tb tb" using inv by (simp add: tb_inv_def tb_ext_def TableBuilder_ok_def)
  have i: "1 \<le> o_restart_interval opt" using inv by (auto simp: tb_inv_def bb_inv_def)
  have "flt_inv opt ok (tb_offset tb) (tb_filter_block tb) dn []" using inv unfolding tb_inv_def by blast
  from finish_filter_ext [OF e this] obtain tb2 fh where s2: "finish_filter ops opt tb = Some (tb2, fh)" "\<not> TableBuilder_ok tb2 \<or>
    (tb_ext contents good tb tb2 \<and> (tb_filter_block tb2 = None) = (o_filter opt = None) \<and>
     flt_contents opt dn (contents (tb_file tb2)) fh \<and> (o_filter opt \<noteq> None \<longrightarrow> handle_ok fh))"
    by (elim exE conjE) (rule that)
  show ?thesis
  proof (cases "TableBuilder_ok tb2")
    case False
    then show ?thesis using s2(1) finish_skip(2) [OF False] by blast
  next
    case True
    then have e2: "tb_ext contents good tb tb2" using s2(2) by blast
    from finish_metaindex_ext [OF e2, of dn fh] s2 True i tb_ext_trans [OF e2] show ?thesis by blast
  qed
qed

lemma finish_tail_ext:
  assumes inv: "tb_inv contents good opt ok tb dn []" and e: "tb_ext contents good tb tb3"
    and f: "flt_final opt dn (contents (tb_file tb3)) mh"
  shows "\<exists>tb4 ih tb5. finish_index ops port_snappy opt tb3 = Some (tb4, ih) \<and> finish_footer ops mh ih tb4 = Some tb5 \<and>
    (\<not> TableBuilder_ok tb5 \<or> (good (tb_file tb5) \<and> table_rep opt (contents (tb_file tb5)) (concat (map snd dn))))"
proof -
  from finish_index_ext [OF inv e] obtain tb4 ih es where s4: "finish_index ops port_snappy opt tb3 = Some (tb4, ih)"
    "\<not> TableBuilder_ok tb4 \<or> (TableBuilder_ok tb4 \<and> good (tb_file tb4) \<and> (\<exists>rest. contents (tb_file tb4) = contents (tb_file tb3) @ rest) \<and>
     idx_final opt dn es \<and> stored_at (contents (tb_file tb4)) ih es)" by blast
  show ?thesis
  proof (cases "TableBuilder_ok tb4")
    case False
    then show ?thesis using s4(1) finish_skip(4) [OF False] by blast
  next
    case True
    then obtain rest where f4: "good (tb_file tb4)" "contents (tb_file tb4) = contents (tb_file tb3) @ rest" "idx_final opt dn es"
      "stored_at (contents (tb_file tb4)) ih es" using s4(2) by blast
    have "handle_ok mh" "handle_ok ih" using f f4(4) stored_at_handle_ok by (auto simp: flt_final_def)
    from finish_footer_ext [OF f4(1) True this] obtain tb5 where s5: "finish_footer ops mh ih tb4 = Some tb5"
      "\<not> TableBuilder_ok tb5 \<or> (good (tb_file tb5) \<and> tb_status tb5 = Status_OK \<and>
        (\<exists>foot. contents (tb_file tb5) = contents (tb_file tb4) @ foot \<and> length foot = Footer_kEncodedLength \<and>
          (\<forall>ft. Footer_DecodeFrom foot ft = Some (Status_OK, \<lparr>ft_metaindex_handle = mh, ft_index_handle = ih\<rparr>, []))))" by blast
    have "table_rep opt (contents (tb_file tb5)) (concat (map snd dn))" if "TableBuilder_ok tb5"
    proof -
      obtain foot where ft: "good (tb_file tb5)" "contents (tb_file tb5) = contents (tb_file tb4) @ foot" "length foot = Footer_kEncodedLength"
        "\<forall>ft. Footer_DecodeFrom foot ft = Some (Status_OK, \<lparr>ft_metaindex_handle = mh, ft_index_handle = ih\<rparr>, [])"
        using s5(2) \<open>TableBuilder_ok tb5\<close> by blast
      obtain pre where pre: "contents (tb_file tb3) = contents (tb_file tb) @ pre" using e by (auto simp: tb_ext_def)
      have g: "length (contents (tb_file tb5)) < 2 ^ 32" using good_size [OF ft(1)] .
      have "stored_at (contents (tb_file tb5)) h ks" if "stored_at (contents (tb_file tb)) h ks" for h ks
        using stored_at_append [OF that, of "pre @ rest @ foot"] g by (simp add: ft(2) f4(2) pre)
      then have "\<forall>(h, ks) \<in> set dn. ks \<noteq> [] \<and> stored_at (contents (tb_file tb5)) h ks"
        using inv unfolding tb_inv_def by blast
      moreover have "stored_at (contents (tb_file tb5)) ih es" using stored_at_append [OF f4(4), of foot] g by (simp add: ft(2))
      moreover have "flt_final opt dn (contents (tb_file tb5)) mh" using flt_final_append [OF f, of "rest @ foot"] g by (simp add: ft(2) f4(2))
      moreover have "distinct (map (bh_offset \<circ> fst) dn)" using inv unfolding tb_inv_def by blast
      ultimately show ?thesis unfolding table_rep_def using g ft(2-4) f4(3) by blast
    qed
    then show ?thesis using s4(1) s5 by blast
  qed
qed

lemma Finish_table_rep:
  assumes inv: "tb_inv contents good opt ok tb dn cur" and opn: "\<not> tb_closed tb"
  shows "\<exists>s tb'. TableBuilder_Finish ops port_snappy opt tb = Some (s, tb') \<and>
    (\<not> Status_ok s \<or> (good (tb_file tb') \<and> table_rep opt (contents (tb_file tb')) (concat (blocks_of dn cur))))"
proof -
  from Flush_inv [OF inv opn] obtain tb0 where t0: "TableBuilder_Flush ops port_snappy opt tb = Some tb0" "\<not> tb_closed tb0"
    "\<not> TableBuilder_ok tb0 \<or> (\<exists>dn'. tb_inv contents good opt ok tb0 dn' [] \<and> concat (map snd dn') = concat (map snd dn) @ cur)" by blast
  define tb1 where "tb1 = tb0\<lparr>tb_closed := True\<rparr>"
  have fin: "TableBuilder_Finish ops port_snappy opt tb = do {
       (tb2, filter_handle) \<leftarrow> finish_filter ops opt tb1;
       (tb3, metaindex_handle) \<leftarrow> finish_metaindex ops port_snappy opt filter_handle tb2;
       (tb4, index_handle) \<leftarrow> finish_index ops port_snappy opt tb3;
       tb5 \<leftarrow> finish_footer ops metaindex_handle index_handle tb4;
       Some (tb_status tb5, tb5) }"
    using t0(1,2) by (simp add: TableBuilder_Finish_def tb1_def)
  show ?thesis
  proof (cases "TableBuilder_ok tb1")
    case False
    then show ?thesis by (simp add: fin finish_skip TableBuilder_ok_def)
  next
    case True
    then obtain dn' where inv0: "tb_inv contents good opt ok tb0 dn' []" and dn': "concat (map snd dn') = concat (blocks_of dn cur)"
      using t0(3) by (auto simp: tb1_def TableBuilder_ok_def blocks_of_concat)
    have inv1: "tb_inv contents good opt ok tb1 dn' []" using inv0 by (simp add: tb1_def tb_inv_closed)
    from finish_meta_ext [OF inv1] obtain tb2 fh tb3 mh where m: "finish_filter ops opt tb1 = Some (tb2, fh)"
      "finish_metaindex ops port_snappy opt fh tb2 = Some (tb3, mh)"
      "\<not> TableBuilder_ok tb3 \<or> (tb_ext contents good tb1 tb3 \<and> flt_final opt dn' (contents (tb_file tb3)) mh)" by blast
    show ?thesis
    proof (cases "TableBuilder_ok tb3")
      case False
      then show ?thesis using m(1,2) by (simp add: fin finish_skip TableBuilder_ok_def)
    next
      case ok3: True
      with m(3) finish_tail_ext [OF inv1] obtain tb4 ih tb5 where
        "finish_index ops port_snappy opt tb3 = Some (tb4, ih)" "finish_footer ops mh ih tb4 = Some tb5"
        "\<not> TableBuilder_ok tb5 \<or> (good (tb_file tb5) \<and> table_rep opt (contents (tb_file tb5)) (concat (blocks_of dn cur)))"
        unfolding dn' by blast
      then show ?thesis using m(1,2) by (simp add: fin TableBuilder_ok_def)
    qed
  qed
qed

subsection \<open>Whole tables\<close>

lemma TableBuilder_new_inv:
  assumes f: "good f" "contents f = []" and i: "1 \<le> o_restart_interval opt"
  shows "\<exists>tb. TableBuilder_new opt f = Some tb \<and> \<not> tb_closed tb \<and> tb_inv contents good opt ok tb [] []"
proof -
  have b: "BlockBuilder_new (o_restart_interval opt) = Some BlockBuilder_Reset" using i by (simp add: BlockBuilder_new_def)
  have inv: "\<exists>ents ris. bb_inv (o_restart_interval opt) BlockBuilder_Reset ents ris \<and> map snd ents = []"
    "\<exists>ients iris. bb_inv 1 BlockBuilder_Reset ients iris \<and> idx_rel opt [] [] (map snd ients)"
    using bb_inv_new [OF i] bb_inv_new [of 1] by (auto simp: idx_rel_def intro: exI [of _ "[]"])
  have "\<exists>flt. (case o_filter opt of None \<Rightarrow> Some None | Some (pol, _) \<Rightarrow> map_option Some (StartBlock pol 0 FilterBlockBuilder_new)) = Some flt \<and>
      flt_inv opt ok 0 flt [] []"
  proof (cases "o_filter opt")
    case (Some p)
    obtain pol nm where p: "p = (pol, nm)" by fastforce
    have fb: "fb_inv pol ok FilterBlockBuilder_new [] [] []"
      by (rule fb_inv_new)
    have "StartBlock pol 0 FilterBlockBuilder_new = Some FilterBlockBuilder_new"
      by (simp add: StartBlock_def StartBlock_loop.simps FilterBlockBuilder_new_def Let_def)
    moreover have "fb_inv pol ok FilterBlockBuilder_new [] [] [(0, [])]" using fb by (simp add: fb_inv_def)
    ultimately show ?thesis using Some p by (auto simp: flt_inv_def intro: exI [of _ "[]"])
  qed (simp add: flt_inv_def)
  then obtain flt where flt: "(case o_filter opt of None \<Rightarrow> Some None | Some (pol, _) \<Rightarrow> map_option Some (StartBlock pol 0 FilterBlockBuilder_new)) = Some flt"
    "flt_inv opt ok 0 flt [] []" by blast
  show ?thesis using f inv flt(2) by (simp add: TableBuilder_new_def b flt(1) tb_inv_def blocks_of_def)
qed

lemma build_table_rep:
  assumes "good f" and "contents f = []" and "1 \<le> o_restart_interval opt" and "\<forall>kv \<in> set kvs. ok (fst kv)"
    and "sorted_wrt (\<lambda>a b. cmp_lt (o_cmp opt) (fst a) (fst b)) kvs"
  shows "\<exists>s tb. build_table ops port_snappy opt kvs f = Some (s, tb) \<and>
    (\<not> Status_ok s \<or> (good (tb_file tb) \<and> table_rep opt (contents (tb_file tb)) kvs))"
proof -
  from TableBuilder_new_inv [OF assms(1-3)] obtain tb0 where t0: "TableBuilder_new opt f = Some tb0" "\<not> tb_closed tb0"
    "tb_inv contents good opt ok tb0 [] []" by blast
  from add_all_inv [OF t0(3,2) assms(4)] assms(5) obtain tb1 where t1: "add_all ops port_snappy opt kvs tb0 = Some tb1" "\<not> tb_closed tb1"
    "\<not> TableBuilder_ok tb1 \<or> (\<exists>dn cur. tb_inv contents good opt ok tb1 dn cur \<and> concat (blocks_of dn cur) = kvs)" by (auto simp: blocks_of_def)
  show ?thesis
  proof (cases "TableBuilder_ok tb1")
    case False
    then show ?thesis using t0(1) t1(1,2)
      by (simp add: build_table_def TableBuilder_Finish_def TableBuilder_Flush_def finish_skip TableBuilder_ok_def)
  next
    case True
    then obtain dn cur where "tb_inv contents good opt ok tb1 dn cur" "concat (blocks_of dn cur) = kvs" using t1(3) by blast
    with Finish_table_rep [OF this(1) t1(2)] show ?thesis using t0(1) t1(1) by (simp add: build_table_def)
  qed
qed

end

end
