(* ===== verification/Ldb_Cache.thy ===== *)
theory Ldb_Cache
  imports Ldb_Bloom "HOL-Library.Multiset"
begin

unbundle bit_operations_syntax

text \<open>
  \<open>include/leveldb/cache.h\<close> and \<open>util/cache.cc\<close>: the interface of a cache with its contract as a locale, and the
  sharded LRU cache: a chained hash table, the list of entries in use and the list of entries that may be
  evicted, and reference counts.
\<close>

subsection \<open>The interface\<close>

text \<open>\<open>None\<close> is a failed assertion or the use of a handle that has been freed.\<close>

record ('v, 'h, 'c) Cache =
  c_Insert :: "slice \<Rightarrow> 'v \<Rightarrow> nat \<Rightarrow> 'c \<Rightarrow> ('h \<times> 'c) option"
  c_Lookup :: "slice \<Rightarrow> 'c \<Rightarrow> ('h option \<times> 'c) option"
  c_Release :: "'h \<Rightarrow> 'c \<Rightarrow> 'c option"
  c_Value :: "'h \<Rightarrow> 'c \<Rightarrow> 'v option"
  c_Erase :: "slice \<Rightarrow> 'c \<Rightarrow> 'c option"
  c_NewId :: "'c \<Rightarrow> u64 \<times> 'c"
  c_Prune :: "'c \<Rightarrow> 'c option"
  c_TotalCharge :: "'c \<Rightarrow> nat"

text \<open>What clients rely on. \<open>cached c k v\<close>: a lookup of \<open>k\<close> finds \<open>v\<close>; \<open>pins c\<close>: the handles that have not been
  released. Entries appear only by insertion, they may disappear at any time, and the value of a handle
  does not change before its release.\<close>

locale lookup_cache =
  fixes cops :: "('v, 'h, 'c) Cache" and cinv :: "'c \<Rightarrow> bool" and cached :: "'c \<Rightarrow> slice \<Rightarrow> 'v \<Rightarrow> bool"
    and pins :: "'c \<Rightarrow> 'h multiset"
  assumes lookup_hit: "cinv c \<Longrightarrow> \<exists>r c'. c_Lookup cops k c = Some (r, c') \<and> cinv c' \<and> cached c' = cached c \<and>
      (\<forall>h \<in># pins c. c_Value cops h c' = c_Value cops h c) \<and>
      (case r of None \<Rightarrow> pins c' = pins c \<and> (\<forall>v. \<not> cached c k v)
       | Some h \<Rightarrow> pins c' = add_mset h (pins c) \<and> (\<exists>v. cached c k v \<and> c_Value cops h c' = Some v))"
    and insert_new: "cinv c \<Longrightarrow> \<exists>h c'. c_Insert cops k v n c = Some (h, c') \<and> cinv c' \<and> pins c' = add_mset h (pins c) \<and>
      c_Value cops h c' = Some v \<and> (\<forall>h \<in># pins c. c_Value cops h c' = c_Value cops h c) \<and>
      (\<forall>k' v'. cached c' k' v' \<longrightarrow> (if k' = k then v' = v else cached c k' v'))"
    and new_id: "cinv c \<Longrightarrow> c_NewId cops c = (i, c') \<Longrightarrow> cinv c' \<and> cached c' = cached c \<and> pins c' = pins c \<and>
      (\<forall>h \<in># pins c. c_Value cops h c' = c_Value cops h c)"
    and release: "cinv c \<Longrightarrow> h \<in># pins c \<Longrightarrow> \<exists>c'. c_Release cops h c = Some c' \<and> cinv c' \<and> pins c' = pins c - {#h#} \<and>
      (\<forall>h' \<in># pins c'. c_Value cops h' c' = c_Value cops h' c) \<and> cached c' = cached c"

subsection \<open>Handles and the hash table\<close>

text \<open>Handles are addresses in a heap; a freed handle has no contents, and a new one is at a fresh address. The
  reference count includes the reference of the cache. Calling the deleter is dropping the value.\<close>

record 'v LRUHandle =
  lh_value :: 'v
  lh_charge :: nat
  lh_in_cache :: bool
  lh_refs :: nat
  lh_hash :: u32
  lh_key :: slice

type_synonym 'v heap = "'v LRUHandle option list"

definition deref :: "'v heap \<Rightarrow> nat \<Rightarrow> 'v LRUHandle option" where
  "deref hp e = (if e < length hp then hp ! e else None)"

text \<open>The chains that \<open>next_hash\<close> links are lists; \<open>length_\<close> is the number of chains.\<close>

record HandleTable =
  ht_elems :: nat
  ht_list :: "nat list list"

text \<open>The position of the slot in its chain; a position past the end is the trailing slot.\<close>

primrec find_slot :: "'v heap \<Rightarrow> slice \<Rightarrow> u32 \<Rightarrow> nat list \<Rightarrow> nat option" where
  "find_slot hp key hash [] = Some 0"
| "find_slot hp key hash (e # es) = do {
     h \<leftarrow> deref hp e;
     if lh_hash h \<noteq> hash \<or> key \<noteq> lh_key h then map_option Suc (find_slot hp key hash es) else Some 0 }"

definition ht_bucket :: "u32 \<Rightarrow> nat \<Rightarrow> nat" where
  "ht_bucket hash len = unat (hash AND (word_of_nat len - 1))"

definition FindPointer :: "'v heap \<Rightarrow> slice \<Rightarrow> u32 \<Rightarrow> HandleTable \<Rightarrow> (nat \<times> nat) option" where
  "FindPointer hp key hash t = (let b = ht_bucket hash (length (ht_list t)) in
     if b < length (ht_list t) then map_option (Pair b) (find_slot hp key hash (ht_list t ! b)) else None)"

definition HandleTable_Lookup :: "'v heap \<Rightarrow> slice \<Rightarrow> u32 \<Rightarrow> HandleTable \<Rightarrow> nat option option" where
  "HandleTable_Lookup hp key hash t = do {
     (b, p) \<leftarrow> FindPointer hp key hash t;
     let chain = ht_list t ! b;
     Some (if p < length chain then Some (chain ! p) else None) }"

function grow_length :: "nat \<Rightarrow> nat \<Rightarrow> nat" where
  "grow_length new_length elems = (if 0 < new_length \<and> new_length < elems then grow_length (new_length * 2) elems else new_length)"
  by pat_completeness auto
termination by (relation "measure (\<lambda>(n, m). m - n)") auto

declare grow_length.simps [simp del]

primrec rehash :: "'v heap \<Rightarrow> nat list \<Rightarrow> nat list list \<Rightarrow> nat list list option" where
  "rehash hp [] new_list = Some new_list"
| "rehash hp (e # es) new_list = do {
     h \<leftarrow> deref hp e;
     let b = ht_bucket (lh_hash h) (length new_list);
     if b < length new_list then rehash hp es (new_list[b := e # new_list ! b]) else None }"

definition HandleTable_Resize :: "'v heap \<Rightarrow> HandleTable \<Rightarrow> HandleTable option" where
  "HandleTable_Resize hp t = do {
     new_list \<leftarrow> rehash hp (concat (ht_list t)) (replicate (grow_length 4 (ht_elems t)) []);
     if ht_elems t = length (concat (ht_list t)) then Some (t\<lparr>ht_list := new_list\<rparr>) else None }"

definition HandleTable_new :: "HandleTable option" where
  "HandleTable_new = HandleTable_Resize ([] :: unit heap) \<lparr>ht_elems = 0, ht_list = []\<rparr>"

definition HandleTable_Insert :: "'v heap \<Rightarrow> nat \<Rightarrow> HandleTable \<Rightarrow> (nat option \<times> HandleTable) option" where
  "HandleTable_Insert hp e t = do {
     h \<leftarrow> deref hp e;
     (b, p) \<leftarrow> FindPointer hp (lh_key h) (lh_hash h) t;
     let chain = ht_list t ! b;
     if p < length chain then Some (Some (chain ! p), t\<lparr>ht_list := (ht_list t)[b := chain[p := e]]\<rparr>)
     else let t1 = t\<lparr>ht_elems := ht_elems t + 1, ht_list := (ht_list t)[b := chain @ [e]]\<rparr> in
       if ht_elems t1 > length (ht_list t1) then map_option (Pair None) (HandleTable_Resize hp t1) else Some (None, t1) }"

definition HandleTable_Remove :: "'v heap \<Rightarrow> slice \<Rightarrow> u32 \<Rightarrow> HandleTable \<Rightarrow> (nat option \<times> HandleTable) option" where
  "HandleTable_Remove hp key hash t = do {
     (b, p) \<leftarrow> FindPointer hp key hash t;
     let chain = ht_list t ! b;
     Some (if p < length chain then
         (Some (chain ! p), t\<lparr>ht_elems := ht_elems t - 1, ht_list := (ht_list t)[b := take p chain @ drop (Suc p) chain]\<rparr>)
       else (None, t)) }"

subsection \<open>One shard\<close>

text \<open>The circular lists are the sequences of their entries, the oldest first. The counters (\<open>refs\<close>, \<open>usage_\<close>, \<open>elems_\<close>)
  are natural numbers: a cache of a store has far fewer than \<open>2 ^ 32\<close> entries and references. The mutex
  makes the operations atomic.\<close>

record LRUCache =
  lc_capacity :: nat
  lc_usage :: nat
  lc_lru :: "nat list"
  lc_in_use :: "nat list"
  lc_table :: HandleTable

definition LRU_Remove :: "nat \<Rightarrow> LRUCache \<Rightarrow> LRUCache" where
  "LRU_Remove e c = c\<lparr>lc_lru := remove1 e (lc_lru c), lc_in_use := remove1 e (lc_in_use c)\<rparr>"

definition LRU_Ref :: "nat \<Rightarrow> 'v heap \<Rightarrow> LRUCache \<Rightarrow> ('v heap \<times> LRUCache) option" where
  "LRU_Ref e hp c = do {
     h \<leftarrow> deref hp e;
     let c1 = (if lh_refs h = 1 \<and> lh_in_cache h
       then let c0 = LRU_Remove e c in c0\<lparr>lc_in_use := lc_in_use c0 @ [e]\<rparr> else c);
     Some (hp[e := Some (h\<lparr>lh_refs := lh_refs h + 1\<rparr>)], c1) }"

definition LRU_Unref :: "nat \<Rightarrow> 'v heap \<Rightarrow> LRUCache \<Rightarrow> ('v heap \<times> LRUCache) option" where
  "LRU_Unref e hp c = do {
     h \<leftarrow> deref hp e;
     if lh_refs h = 0 then None
     else let h1 = h\<lparr>lh_refs := lh_refs h - 1\<rparr> in
       if lh_refs h1 = 0 then if lh_in_cache h1 then None else Some (hp[e := None], c)
       else if lh_in_cache h1 \<and> lh_refs h1 = 1 then
         let c0 = LRU_Remove e c in Some (hp[e := Some h1], c0\<lparr>lc_lru := lc_lru c0 @ [e]\<rparr>)
       else Some (hp[e := Some h1], c) }"

definition FinishErase :: "nat option \<Rightarrow> 'v heap \<Rightarrow> LRUCache \<Rightarrow> (bool \<times> 'v heap \<times> LRUCache) option" where
  "FinishErase eo hp c = (case eo of
     None \<Rightarrow> Some (False, hp, c)
   | Some e \<Rightarrow> do {
       h \<leftarrow> deref hp e;
       if \<not> lh_in_cache h then None
       else do {
         let c1 = LRU_Remove e c;
         let hp1 = hp[e := Some (h\<lparr>lh_in_cache := False\<rparr>)];
         (hp2, c2) \<leftarrow> LRU_Unref e hp1 (c1\<lparr>lc_usage := lc_usage c1 - lh_charge h\<rparr>);
         Some (True, hp2, c2) } })"

definition LRU_Lookup :: "slice \<Rightarrow> u32 \<Rightarrow> 'v heap \<Rightarrow> LRUCache \<Rightarrow> (nat option \<times> 'v heap \<times> LRUCache) option" where
  "LRU_Lookup key hash hp c = do {
     eo \<leftarrow> HandleTable_Lookup hp key hash (lc_table c);
     (case eo of
        None \<Rightarrow> Some (None, hp, c)
      | Some e \<Rightarrow> do { (hp1, c1) \<leftarrow> LRU_Ref e hp c; Some (Some e, hp1, c1) }) }"

definition LRU_Release :: "nat \<Rightarrow> 'v heap \<Rightarrow> LRUCache \<Rightarrow> ('v heap \<times> LRUCache) option" where
  "LRU_Release e hp c = LRU_Unref e hp c"

text \<open>The oldest entry that is not in use leaves the cache.\<close>

definition evict_oldest :: "'v heap \<Rightarrow> LRUCache \<Rightarrow> ('v heap \<times> LRUCache) option" where
  "evict_oldest hp c = do {
     let old = hd (lc_lru c);
     h \<leftarrow> deref hp old;
     if lh_refs h \<noteq> 1 then None
     else do {
       (r, t) \<leftarrow> HandleTable_Remove hp (lh_key h) (lh_hash h) (lc_table c);
       (erased, hp1, c1) \<leftarrow> FinishErase r hp (c\<lparr>lc_table := t\<rparr>);
       if erased then Some (hp1, c1) else None } }"

text \<open>The loops of \<open>Insert\<close> and of \<open>Prune\<close>.\<close>

partial_function (option) evict_loop :: "nat \<Rightarrow> 'v heap \<Rightarrow> LRUCache \<Rightarrow> ('v heap \<times> LRUCache) option" where
  "evict_loop capacity hp c = (if lc_usage c > capacity \<and> lc_lru c \<noteq> []
     then do { (hp1, c1) \<leftarrow> evict_oldest hp c; evict_loop capacity hp1 c1 } else Some (hp, c))"

partial_function (option) prune_loop :: "'v heap \<Rightarrow> LRUCache \<Rightarrow> ('v heap \<times> LRUCache) option" where
  "prune_loop hp c = (if lc_lru c \<noteq> []
     then do { (hp1, c1) \<leftarrow> evict_oldest hp c; prune_loop hp1 c1 } else Some (hp, c))"

text \<open>The part of \<open>Insert\<close> before the eviction, at the new handle \<open>length hp\<close>.\<close>

definition insert_entry :: "slice \<Rightarrow> u32 \<Rightarrow> 'v \<Rightarrow> nat \<Rightarrow> 'v heap \<Rightarrow> LRUCache \<Rightarrow> ('v heap \<times> LRUCache) option" where
  "insert_entry key hash val charge hp c = (let e = length hp;
       h = \<lparr>lh_value = val, lh_charge = charge, lh_in_cache = False, lh_refs = 1, lh_hash = hash, lh_key = key\<rparr> in
     if lc_capacity c > 0 then do {
       let hp0 = hp @ [Some (h\<lparr>lh_refs := 2, lh_in_cache := True\<rparr>)];
       let c0 = c\<lparr>lc_in_use := lc_in_use c @ [e], lc_usage := lc_usage c + charge\<rparr>;
       (old, t) \<leftarrow> HandleTable_Insert hp0 e (lc_table c0);
       (_, hp1, c1) \<leftarrow> FinishErase old hp0 (c0\<lparr>lc_table := t\<rparr>);
       Some (hp1, c1) }
     else Some (hp @ [Some h], c))"

definition LRU_Insert :: "slice \<Rightarrow> u32 \<Rightarrow> 'v \<Rightarrow> nat \<Rightarrow> 'v heap \<Rightarrow> LRUCache \<Rightarrow> (nat \<times> 'v heap \<times> LRUCache) option" where
  "LRU_Insert key hash val charge hp c = do {
     (hp1, c1) \<leftarrow> insert_entry key hash val charge hp c;
     (hp2, c2) \<leftarrow> evict_loop (lc_capacity c1) hp1 c1;
     Some (length hp, hp2, c2) }"

definition LRU_Erase :: "slice \<Rightarrow> u32 \<Rightarrow> 'v heap \<Rightarrow> LRUCache \<Rightarrow> ('v heap \<times> LRUCache) option" where
  "LRU_Erase key hash hp c = do {
     (r, t) \<leftarrow> HandleTable_Remove hp key hash (lc_table c);
     (_, hp1, c1) \<leftarrow> FinishErase r hp (c\<lparr>lc_table := t\<rparr>);
     Some (hp1, c1) }"

definition LRU_Prune :: "'v heap \<Rightarrow> LRUCache \<Rightarrow> ('v heap \<times> LRUCache) option" where
  "LRU_Prune hp c = prune_loop hp c"

text \<open>The destructor: it asserts that no client holds a handle and frees the entries.\<close>

primrec free_entries :: "nat list \<Rightarrow> 'v heap \<Rightarrow> LRUCache \<Rightarrow> 'v heap option" where
  "free_entries [] hp c = Some hp"
| "free_entries (e # es) hp c = do {
     h \<leftarrow> deref hp e;
     if \<not> lh_in_cache h \<or> lh_refs h \<noteq> 1 then None
     else do {
       (hp1, c1) \<leftarrow> LRU_Unref e (hp[e := Some (h\<lparr>lh_in_cache := False\<rparr>)]) c;
       free_entries es hp1 c1 } }"

definition LRUCache_delete :: "'v heap \<Rightarrow> LRUCache \<Rightarrow> 'v heap option" where
  "LRUCache_delete hp c = (if lc_in_use c \<noteq> [] then None else free_entries (lc_lru c) hp c)"

subsection \<open>The sharded cache\<close>

definition kNumShardBits :: nat where
  "kNumShardBits = 4"

definition kNumShards :: nat where
  "kNumShards = 2 ^ kNumShardBits"

record 'v ShardedLRUCache =
  sc_heap :: "'v heap"
  sc_shard :: "LRUCache list"
  sc_last_id :: u64

definition HashSlice :: "slice \<Rightarrow> u32" where
  "HashSlice s = Hash s 0"

definition Shard :: "u32 \<Rightarrow> nat" where
  "Shard hash = unat (drop_bit (32 - kNumShardBits) hash)"

definition ShardedLRUCache_new :: "nat \<Rightarrow> 'v ShardedLRUCache option" where
  "ShardedLRUCache_new capacity = do {
     let per_shard = (capacity + (kNumShards - 1)) div kNumShards;
     t \<leftarrow> HandleTable_new;
     Some \<lparr>sc_heap = [],
       sc_shard = replicate kNumShards \<lparr>lc_capacity = per_shard, lc_usage = 0, lc_lru = [], lc_in_use = [], lc_table = t\<rparr>,
       sc_last_id = 0\<rparr> }"

definition on_shard :: "nat \<Rightarrow> ('v heap \<Rightarrow> LRUCache \<Rightarrow> ('a \<times> 'v heap \<times> LRUCache) option) \<Rightarrow> 'v ShardedLRUCache \<Rightarrow> ('a \<times> 'v ShardedLRUCache) option" where
  "on_shard s f sc = (if s < length (sc_shard sc) then do {
     (r, hp, c) \<leftarrow> f (sc_heap sc) (sc_shard sc ! s);
     Some (r, sc\<lparr>sc_heap := hp, sc_shard := (sc_shard sc)[s := c]\<rparr>) } else None)"

definition Sharded_Insert :: "slice \<Rightarrow> 'v \<Rightarrow> nat \<Rightarrow> 'v ShardedLRUCache \<Rightarrow> (nat \<times> 'v ShardedLRUCache) option" where
  "Sharded_Insert key val charge = (let hash = HashSlice key in on_shard (Shard hash) (LRU_Insert key hash val charge))"

definition Sharded_Lookup :: "slice \<Rightarrow> 'v ShardedLRUCache \<Rightarrow> (nat option \<times> 'v ShardedLRUCache) option" where
  "Sharded_Lookup key = (let hash = HashSlice key in on_shard (Shard hash) (LRU_Lookup key hash))"

definition Sharded_Release :: "nat \<Rightarrow> 'v ShardedLRUCache \<Rightarrow> 'v ShardedLRUCache option" where
  "Sharded_Release handle sc = do {
     h \<leftarrow> deref (sc_heap sc) handle;
     map_option snd (on_shard (Shard (lh_hash h)) (\<lambda>hp c. map_option (Pair ()) (LRU_Release handle hp c)) sc) }"

definition Sharded_Erase :: "slice \<Rightarrow> 'v ShardedLRUCache \<Rightarrow> 'v ShardedLRUCache option" where
  "Sharded_Erase key sc = (let hash = HashSlice key in
     map_option snd (on_shard (Shard hash) (\<lambda>hp c. map_option (Pair ()) (LRU_Erase key hash hp c)) sc))"

definition Sharded_Value :: "nat \<Rightarrow> 'v ShardedLRUCache \<Rightarrow> 'v option" where
  "Sharded_Value handle sc = map_option lh_value (deref (sc_heap sc) handle)"

definition Sharded_NewId :: "'v ShardedLRUCache \<Rightarrow> u64 \<times> 'v ShardedLRUCache" where
  "Sharded_NewId sc = (sc_last_id sc + 1, sc\<lparr>sc_last_id := sc_last_id sc + 1\<rparr>)"

primrec prune_shards :: "nat list \<Rightarrow> 'v ShardedLRUCache \<Rightarrow> 'v ShardedLRUCache option" where
  "prune_shards [] sc = Some sc"
| "prune_shards (s # ss) sc = do {
     (_, sc1) \<leftarrow> on_shard s (\<lambda>hp c. map_option (Pair ()) (LRU_Prune hp c)) sc;
     prune_shards ss sc1 }"

definition Sharded_Prune :: "'v ShardedLRUCache \<Rightarrow> 'v ShardedLRUCache option" where
  "Sharded_Prune sc = prune_shards [0..<kNumShards] sc"

definition Sharded_TotalCharge :: "'v ShardedLRUCache \<Rightarrow> nat" where
  "Sharded_TotalCharge sc = sum_list (map lc_usage (sc_shard sc))"

definition NewLRUCache :: "('v, nat, 'v ShardedLRUCache) Cache" where
  "NewLRUCache = \<lparr>c_Insert = Sharded_Insert, c_Lookup = Sharded_Lookup, c_Release = Sharded_Release, c_Value = Sharded_Value,
     c_Erase = Sharded_Erase, c_NewId = Sharded_NewId, c_Prune = Sharded_Prune, c_TotalCharge = Sharded_TotalCharge\<rparr>"

end
