(* ===== verification/Ldb_Table.thy ===== *)
theory Ldb_Table
  imports Ldb_TableRep Ldb_Cache
begin

text \<open>
  \<open>table/table.cc\<close>: opening a table file and looking up keys in it, over any random-access file and any
  cache; with the iterators of \<open>table/iterator.cc\<close>. \<open>Ldb_TableGet\<close> and \<open>Ldb_TableStore\<close> connect it with the
  builder: what was added is what is found.
\<close>

subsection \<open>Iterators over a block\<close>

text \<open>\<open>EmptyIterator\<close> of \<open>iterator.cc\<close> stands behind \<open>NewEmptyIterator\<close> and \<open>NewErrorIterator\<close>.\<close>

fun Iter_Valid :: "BlockIterator \<Rightarrow> bool" where
  "Iter_Valid (EntryIterator it) = BlockIter_Valid it"
| "Iter_Valid _ = False"

fun Iter_key :: "BlockIterator \<Rightarrow> slice option" where
  "Iter_key (EntryIterator it) = BlockIter_key it"
| "Iter_key _ = None"

fun Iter_value :: "BlockIterator \<Rightarrow> slice option" where
  "Iter_value (EntryIterator it) = BlockIter_value it"
| "Iter_value _ = None"

fun Iter_status :: "BlockIterator \<Rightarrow> Status" where
  "Iter_status (EntryIterator it) = bi_status it"
| "Iter_status EmptyIterator = Status_OK"
| "Iter_status (ErrorIterator s) = s"

fun Iter_Seek :: "(slice \<Rightarrow> slice \<Rightarrow> int option) \<Rightarrow> slice \<Rightarrow> BlockIterator \<Rightarrow> BlockIterator option" where
  "Iter_Seek cmp target (EntryIterator it) = map_option EntryIterator (BlockIter_Seek cmp target it)"
| "Iter_Seek cmp target it = Some it"

fun Iter_SeekToFirst :: "BlockIterator \<Rightarrow> BlockIterator option" where
  "Iter_SeekToFirst (EntryIterator it) = map_option EntryIterator (BlockIter_SeekToFirst it)"
| "Iter_SeekToFirst it = Some it"

fun Iter_SeekToLast :: "BlockIterator \<Rightarrow> BlockIterator option" where
  "Iter_SeekToLast (EntryIterator it) = map_option EntryIterator (BlockIter_SeekToLast it)"
| "Iter_SeekToLast it = Some it"

fun Iter_Next :: "BlockIterator \<Rightarrow> BlockIterator option" where
  "Iter_Next (EntryIterator it) = map_option EntryIterator (BlockIter_Next it)"
| "Iter_Next _ = None"

fun Iter_Prev :: "BlockIterator \<Rightarrow> BlockIterator option" where
  "Iter_Prev (EntryIterator it) = map_option EntryIterator (BlockIter_Prev it)"
| "Iter_Prev _ = None"

subsection \<open>Tables\<close>

record ReadOptions =
  ro_verify_checksums :: bool
  ro_fill_cache :: bool

definition ReadOptions_new :: ReadOptions where
  "ReadOptions_new = \<lparr>ro_verify_checksums = False, ro_fill_cache = True\<rparr>"

text \<open>The cache of a table is \<open>None\<close> when \<open>options.block_cache\<close> is null.\<close>

record 'f Table =
  t_options :: Options
  t_file :: 'f
  t_cache_id :: u64
  t_filter :: "FilterBlockReader option"
  t_metaindex_handle :: BlockHandle
  t_index_block :: Block

definition ReadFilter :: "'f RandomAccessFile \<Rightarrow> Snappy \<Rightarrow> slice \<Rightarrow> 'f Table \<Rightarrow> 'f Table option" where
  "ReadFilter rops snappy filter_handle_value t =
     (let (s, filter_handle, _) = BlockHandle_DecodeFrom filter_handle_value BlockHandle_new in
      if \<not> Status_ok s then Some t
      else do {
        (s2, block) \<leftarrow> ReadBlock rops snappy (o_paranoid_checks (t_options t)) filter_handle (t_file t);
        if \<not> Status_ok s2 then Some t
        else do { r \<leftarrow> FilterBlockReader_new (bc_data block); Some (t\<lparr>t_filter := Some r\<rparr>) } })"

definition ReadMeta :: "'f RandomAccessFile \<Rightarrow> Snappy \<Rightarrow> Footer \<Rightarrow> 'f Table \<Rightarrow> 'f Table option" where
  "ReadMeta rops snappy footer t = (case o_filter (t_options t) of
     None \<Rightarrow> Some t
   | Some (_, name) \<Rightarrow> do {
       (s, contents) \<leftarrow> ReadBlock rops snappy (o_paranoid_checks (t_options t)) (ft_metaindex_handle footer) (t_file t);
       if \<not> Status_ok s then Some t
       else do {
         meta \<leftarrow> Block_new (bc_data contents);
         iter0 \<leftarrow> Block_NewIterator meta;
         let key = ascii ''filter.'' @ name;
         iter \<leftarrow> Iter_Seek Bytewise_Compare key iter0;
         if Iter_Valid iter then do {
           k \<leftarrow> Iter_key iter;
           if k = key then do { v \<leftarrow> Iter_value iter; ReadFilter rops snappy v t } else Some t }
         else Some t } })"

definition Table_Open ::
  "'f RandomAccessFile \<Rightarrow> Snappy \<Rightarrow> (Block, 'h, 'c) Cache option \<Rightarrow> Options \<Rightarrow> 'f \<Rightarrow> u64 \<Rightarrow> 'c \<Rightarrow> (Status \<times> 'f Table option \<times> 'c) option" where
  "Table_Open rops snappy block_cache options file siz cache =
     (if siz < word_of_nat Footer_kEncodedLength then Some (Corruption ''file is too short to be an sstable'', None, cache)
      else do {
        (s, footer_input, _) \<leftarrow> ra_Read rops (siz - word_of_nat Footer_kEncodedLength) (word_of_nat Footer_kEncodedLength) file;
        if \<not> Status_ok s then Some (s, None, cache)
        else do {
          (s2, footer, _) \<leftarrow> Footer_DecodeFrom footer_input Footer_new;
          if \<not> Status_ok s2 then Some (s2, None, cache)
          else do {
            (s3, contents) \<leftarrow> ReadBlock rops snappy (o_paranoid_checks options) (ft_index_handle footer) file;
            if \<not> Status_ok s3 then Some (s3, None, cache)
            else do {
              index_block \<leftarrow> Block_new (bc_data contents);
              let (cache_id, cache1) = (case block_cache of None \<Rightarrow> (0, cache) | Some cops \<Rightarrow> c_NewId cops cache);
              t \<leftarrow> ReadMeta rops snappy footer
                \<lparr>t_options = options, t_file = file, t_cache_id = cache_id, t_filter = None,
                 t_metaindex_handle = ft_metaindex_handle footer, t_index_block = index_block\<rparr>;
              Some (s3, Some t, cache1) } } } })"

text \<open>\<open>BlockReader\<close>: an iterator, and the handle that its deletion releases.\<close>

definition BlockReader ::
  "'f RandomAccessFile \<Rightarrow> Snappy \<Rightarrow> (Block, 'h, 'c) Cache option \<Rightarrow> 'f Table \<Rightarrow> ReadOptions \<Rightarrow> slice \<Rightarrow> 'c \<Rightarrow>
    (BlockIterator \<times> 'h option \<times> 'c) option" where
  "BlockReader rops snappy block_cache t options index_value cache =
     (let (s, handle, _) = BlockHandle_DecodeFrom index_value BlockHandle_new in
      if \<not> Status_ok s then Some (ErrorIterator s, None, cache)
      else do {
        (s2, block, cache_handle, cache2) \<leftarrow> (case block_cache of
            Some cops \<Rightarrow> do {
              let key = EncodeFixed64 (t_cache_id t) @ EncodeFixed64 (bh_offset handle);
              (r, cache1) \<leftarrow> c_Lookup cops key cache;
              (case r of
                 Some h \<Rightarrow> do { b \<leftarrow> c_Value cops h cache1; Some (s, Some b, Some h, cache1) }
               | None \<Rightarrow> do {
                   (s1, contents) \<leftarrow> ReadBlock rops snappy (ro_verify_checksums options) handle (t_file t);
                   if Status_ok s1 then do {
                     b \<leftarrow> Block_new (bc_data contents);
                     if bc_cachable contents \<and> ro_fill_cache options then do {
                       (h, cache2) \<leftarrow> c_Insert cops key b (blk_size b) cache1;
                       Some (s1, Some b, Some h, cache2) }
                     else Some (s1, Some b, None, cache1) }
                   else Some (s1, None, None, cache1) }) }
          | None \<Rightarrow> do {
              (s1, contents) \<leftarrow> ReadBlock rops snappy (ro_verify_checksums options) handle (t_file t);
              if Status_ok s1 then do { b \<leftarrow> Block_new (bc_data contents); Some (s1, Some b, None, cache) }
              else Some (s1, None, None, cache) });
        (case block of
           Some b \<Rightarrow> do { iter \<leftarrow> Block_NewIterator b; Some (iter, cache_handle, cache2) }
         | None \<Rightarrow> Some (ErrorIterator s2, None, cache2)) })"

text \<open>Deleting an iterator runs its cleanup; a block that is not cached is freed.\<close>

definition iter_cleanup :: "(Block, 'h, 'c) Cache option \<Rightarrow> 'h option \<Rightarrow> 'c \<Rightarrow> 'c option" where
  "iter_cleanup block_cache cleanup cache = (case (block_cache, cleanup) of
     (Some cops, Some h) \<Rightarrow> c_Release cops h cache | _ \<Rightarrow> Some cache)"

text \<open>The result of \<open>InternalGet\<close> contains the arguments of the call of \<open>saver\<close>, if there is one.\<close>

definition InternalGet ::
  "'f RandomAccessFile \<Rightarrow> Snappy \<Rightarrow> (Block, 'h, 'c) Cache option \<Rightarrow> 'f Table \<Rightarrow> ReadOptions \<Rightarrow> slice \<Rightarrow> 'c \<Rightarrow>
    (Status \<times> (slice \<times> slice) option \<times> 'c) option" where
  "InternalGet rops snappy block_cache t options k cache = do {
     iiter0 \<leftarrow> Block_NewIterator (t_index_block t);
     iiter \<leftarrow> Iter_Seek (o_cmp (t_options t)) k iiter0;
     (s, saved, cache1) \<leftarrow> (if Iter_Valid iiter then do {
         handle_value \<leftarrow> Iter_value iiter;
         not_found \<leftarrow> (case (t_filter t, o_filter (t_options t)) of
             (Some flt, Some (pol, _)) \<Rightarrow>
               let (hs, handle, _) = BlockHandle_DecodeFrom handle_value BlockHandle_new in
               if Status_ok hs then map_option Not (FilterBlock_KeyMayMatch pol flt (bh_offset handle) k) else Some False
           | _ \<Rightarrow> Some False);
         if not_found then Some (Status_OK, None, cache)
         else do {
           (block_iter0, cleanup, cache1) \<leftarrow> BlockReader rops snappy block_cache t options handle_value cache;
           block_iter \<leftarrow> Iter_Seek (o_cmp (t_options t)) k block_iter0;
           saved \<leftarrow> (if Iter_Valid block_iter then do { key \<leftarrow> Iter_key block_iter; val \<leftarrow> Iter_value block_iter; Some (Some (key, val)) }
                    else Some None);
           cache2 \<leftarrow> iter_cleanup block_cache cleanup cache1;
           Some (Iter_status block_iter, saved, cache2) } }
       else Some (Status_OK, None, cache));
     Some (if Status_ok s then Iter_status iiter else s, saved, cache1) }"

definition ApproximateOffsetOf :: "'f Table \<Rightarrow> slice \<Rightarrow> u64 option" where
  "ApproximateOffsetOf t key = do {
     index_iter0 \<leftarrow> Block_NewIterator (t_index_block t);
     index_iter \<leftarrow> Iter_Seek (o_cmp (t_options t)) key index_iter0;
     if Iter_Valid index_iter then do {
       input \<leftarrow> Iter_value index_iter;
       let (s, handle, _) = BlockHandle_DecodeFrom input BlockHandle_new in
         Some (if Status_ok s then bh_offset handle else bh_offset (t_metaindex_handle t)) }
     else Some (bh_offset (t_metaindex_handle t)) }"

end
