(* ===== verification/Ldb_TableGet.thy ===== *)
theory Ldb_TableGet
  imports Ldb_Table
begin

text \<open>
  Lookups in a table find what the builder was given. A lookup of \<open>k\<close> looks for the first entry that is not
  smaller than \<open>k\<close>; it may miss that entry only when the entry does not answer a lookup of \<open>k\<close> (it belongs
  to another user key), because the separators of the index and the filter do not distinguish more.
\<close>

subsection \<open>First entries\<close>

lemma find_append: "find P (xs @ ys) = (case find P xs of None \<Rightarrow> find P ys | Some x \<Rightarrow> Some x)"
  by (induction xs) auto

lemma find_mk_pos:
  "find (\<lambda>x. \<not> P x) xs = map_option ((!) xs) (mk_pos (length xs) (length (takeWhile P xs)))"
  by (induction xs) (auto simp: mk_pos_def)

lemma find_None: "find P xs = None \<longleftrightarrow> (\<forall>x \<in> set xs. \<not> P x)"
  by (induction xs) auto

lemma find_Some_nth: "find P xs = Some x \<Longrightarrow> \<exists>i < length xs. x = xs ! i \<and> P x \<and> (\<forall>j < i. \<not> P (xs ! j))"
  by (auto simp: find_Some_iff)

lemma sorted_wrt_concat_nth: "sorted_wrt R (concat bs) \<Longrightarrow> i < length bs \<Longrightarrow> sorted_wrt R (bs ! i)"
  by (induction bs arbitrary: i) (auto simp: sorted_wrt_append nth_Cons split: nat.split)

lemma find_concat_at:
  assumes "i < length bs" and "\<forall>j < i. \<forall>x \<in> set (bs ! j). \<not> P x"
  shows "find P (concat bs) = (case find P (bs ! i) of None \<Rightarrow> find P (concat (drop (Suc i) bs)) | Some x \<Rightarrow> Some x)"
proof -
  have "find P (concat (take i bs)) = None" using assms by (fastforce simp: find_None in_set_conv_nth)
  moreover have "concat bs = concat (take i bs) @ bs ! i @ concat (drop (Suc i) bs)"
    by (subst id_take_nth_drop [OF assms(1)]) simp
  ultimately show ?thesis by (simp add: find_append)
qed

subsection \<open>Blocks\<close>

definition block_of :: "(slice \<times> slice) list \<Rightarrow> Block \<Rightarrow> bool" where
  "block_of kvs blk \<longleftrightarrow> (\<exists>it ents ris. blk_wf ents ris \<and> map snd ents = kvs \<and> Block_NewIterator blk = Some (EntryIterator it) \<and>
     it_rel ents ris None it)"

lemma stored_block:
  assumes "stored_at data h ks" and "length data < 2 ^ 32"
  shows "\<exists>raw blk. has_block port_snappy data h raw \<and> Block_new raw = Some blk \<and> block_of ks blk"
proof -
  obtain raw interval b ents ris where b: "has_block port_snappy data h raw" "bb_inv interval b ents ris" "map snd ents = ks"
    "raw = block_rep ents ris" using assms(1) by (auto simp: stored_at_def blk_src_def)
  have "length raw < 2 ^ 32" using b(1) assms(2) by (auto simp: has_block_def port_snappy_def)
  then have wf: "blk_wf ents ris" using b(2,4) by (simp add: bb_inv_def blk_wf_def)
  from NewIterator_rep [OF this] show ?thesis using b wf unfolding block_of_def by blast
qed

context slice_comparator begin

lemma block_Seek:
  assumes b: "block_of kvs blk" and "\<forall>kv \<in> set kvs. ok (fst kv)" and "sorted_wrt (\<lambda>a b. cmp_lt cmp (fst a) (fst b)) kvs" and "ok t"
  shows "\<exists>it0 it. Block_NewIterator blk = Some it0 \<and> Iter_Seek cmp t it0 = Some it \<and> Iter_status it = Status_OK \<and>
    (let r = find (\<lambda>kv. \<not> cmp_lt cmp (fst kv) t) kvs in
     Iter_Valid it = (r \<noteq> None) \<and> Iter_key it = map_option fst r \<and> Iter_value it = map_option snd r)"
proof -
  obtain it0 ents ris where e: "blk_wf ents ris" "map snd ents = kvs" "Block_NewIterator blk = Some (EntryIterator it0)" "it_rel ents ris None it0"
    using b by (auto simp: block_of_def)
  have oks: "\<forall>e \<in> set ents. ok (e_key e)" "sorted_wrt (\<lambda>a b. cmp_lt cmp (e_key a) (e_key b)) ents"
    using assms(2,3) unfolding e(2) [symmetric] by (auto simp: sorted_wrt_map)
  let ?pos = "mk_pos (length kvs) (length (takeWhile (\<lambda>kv. cmp_lt cmp (fst kv) t) kvs))"
  from block_step_rel [OF e(1) oks e(4), of "OpSeek t"] assms(4) obtain it where
    it: "BlockIter_Seek cmp t it0 = Some it" "it_rel ents ris ?pos it" by (auto simp: e(2))
  have f: "find (\<lambda>kv. \<not> cmp_lt cmp (fst kv) t) kvs = map_option ((!) kvs) ?pos" by (rule find_mk_pos)
  have "block_obs it = cursor_obs kvs ?pos" using it_rel_obs [OF e(1) it(2)] by (simp add: e(2))
  then have o: "BlockIter_key it = map_option fst (map_option ((!) kvs) ?pos)" "BlockIter_value it = map_option snd (map_option ((!) kvs) ?pos)"
      "bi_status it = Status_OK"
    by (auto simp: block_obs_def cursor_obs_def option.map_comp comp_def)
  moreover have "BlockIter_Valid it = (?pos \<noteq> None)"
    using it(2) it_end_observe [of ents ris it] it_at_observe [OF e(1)] by (cases ?pos) (auto simp: it_rel_def)
  ultimately show ?thesis using e(3) it(1) by (cases ?pos) (simp_all add: f Let_def)
qed

end

subsection \<open>The index\<close>

context table_options begin

abbreviation less_kv :: "slice \<times> slice \<Rightarrow> slice \<times> slice \<Rightarrow> bool" where
  "less_kv a b \<equiv> cmp_lt (o_cmp opt) (fst a) (fst b)"

lemma idx_key:
  assumes idx: "idx_final opt dn es" and i: "i < length dn" and ne: "\<forall>(h, ks) \<in> set dn. ks \<noteq> []"
    and oks: "\<forall>kv \<in> set (concat (map snd dn)). ok (fst kv)" and sorted: "sorted_wrt less_kv (concat (map snd dn))"
  shows "ok (fst (es ! i)) \<and> (\<forall>kv \<in> set (snd (dn ! i)). ok (fst kv) \<and> \<not> cmp_lt (o_cmp opt) (fst (es ! i)) (fst kv)) \<and>
    (Suc i < length dn \<longrightarrow> cmp_lt (o_cmp opt) (fst (es ! i)) (fst (hd (snd (dn ! Suc i)))))"
proof -
  let ?b = "snd (dn ! i)"
  note e = idx [unfolded idx_final_def, THEN conjunct2, rule_format, OF i, THEN conjunct2]
  have m: "?b \<noteq> []" "set ?b \<subseteq> set (concat (map snd dn))" using ne i nth_mem [OF i] by (auto simp: split_beta dest: nth_mem)
  have okb: "ok (fst kv)" if "kv \<in> set ?b" for kv using m(2) oks that by blast
  have t: "ok (fst (es ! i)) \<and> \<not> cmp_lt (o_cmp opt) (fst (es ! i)) (fst (last ?b)) \<and>
    (Suc i < length dn \<longrightarrow> cmp_lt (o_cmp opt) (fst (es ! i)) (fst (hd (snd (dn ! Suc i)))))"
  proof (cases "Suc i < length dn")
    case True
    have n: "snd (dn ! Suc i) \<noteq> []" "hd (snd (dn ! Suc i)) \<in> set (snd (dn ! Suc i))" using ne nth_mem [OF True] by (auto simp: split_beta)
    then have "cmp_lt (o_cmp opt) (fst (last ?b)) (fst (hd (snd (dn ! Suc i))))"
      using sorted_concat_blocks [OF sorted lessI, of i "last ?b" "hd (snd (dn ! Suc i))"] True m(1) by simp
    moreover have "ok (fst (hd (snd (dn ! Suc i))))" using oks n(2) nth_mem [OF True] by auto
    ultimately show ?thesis using sep_range [OF okb [OF last_in_set [OF m(1)]]] e True by fastforce
  next
    case False
    then show ?thesis using succ_range [OF okb [OF last_in_set [OF m(1)]]] e by auto
  qed
  have "\<not> cmp_lt (o_cmp opt) (fst (es ! i)) (fst kv)" if kv: "kv \<in> set ?b" for kv
  proof
    assume lt: "cmp_lt (o_cmp opt) (fst (es ! i)) (fst kv)"
    have "sorted_wrt less_kv ?b" using sorted_wrt_concat_nth [OF sorted, of i] i by simp
    then have "kv = last ?b \<or> less_kv kv (last ?b)" using kv m(1) by (cases ?b rule: rev_cases) (auto simp: sorted_wrt_append)
    then have "cmp_lt (o_cmp opt) (fst (es ! i)) (fst (last ?b))"
      using lt cmp_lt_trans [OF _ okb [OF kv] okb [OF last_in_set [OF m(1)]] lt] t by blast
    then show False using t by blast
  qed
  then show ?thesis using t okb by blast
qed

lemma idx_sorted:
  assumes idx: "idx_final opt dn es" and ne: "\<forall>(h, ks) \<in> set dn. ks \<noteq> []"
    and oks: "\<forall>kv \<in> set (concat (map snd dn)). ok (fst kv)" and sorted: "sorted_wrt less_kv (concat (map snd dn))"
  shows "sorted_wrt less_kv es \<and> (\<forall>kv \<in> set es. ok (fst kv))"
proof -
  note key = idx_key [OF idx _ ne oks sorted]
  have len: "length es = length dn" using idx by (simp add: idx_final_def)
  have "less_kv (es ! i) (es ! j)" if "i < j" "j < length es" for i j
  proof -
    have ij: "Suc i < length dn" "j < length dn" "i < length dn" using that len by simp_all
    let ?h = "hd (snd (dn ! Suc i))" and ?l = "hd (snd (dn ! j))"
    have h: "?h \<in> set (snd (dn ! Suc i))" "?l \<in> set (snd (dn ! j))" using ne nth_mem ij by (auto simp: split_beta)
    have okh: "ok (fst ?h)" "ok (fst ?l)" using key [OF ij(1)] key [OF ij(2)] h by blast+
    have "\<not> cmp_lt (o_cmp opt) (fst ?l) (fst ?h)"
    proof (cases "Suc i = j")
      case True
      then show ?thesis using cmp_lt_irrefl okh by simp
    next
      case False
      then have "cmp_lt (o_cmp opt) (fst ?h) (fst ?l)"
        using sorted_concat_blocks [OF sorted, of "Suc i" j ?h ?l] that ij h by simp
      then show ?thesis using cmp_lt_asym okh by blast
    qed
    moreover have "cmp_lt (o_cmp opt) (fst (es ! i)) (fst ?h)" "ok (fst (es ! i))" using key [OF ij(3)] ij(1) by blast+
    ultimately have "cmp_lt (o_cmp opt) (fst (es ! i)) (fst ?l)" using cmp_lt_not_lt okh by blast
    moreover have "\<not> cmp_lt (o_cmp opt) (fst (es ! j)) (fst ?l)" "ok (fst (es ! j))" using key [OF ij(2)] h(2) by blast+
    ultimately show ?thesis using cmp_lt_not_lt okh(2) \<open>ok (fst (es ! i))\<close> by blast
  qed
  moreover have "ok (fst kv)" if "kv \<in> set es" for kv
    using that len key by (auto simp: in_set_conv_nth simp del: split_paired_All)
  ultimately show ?thesis by (auto simp: sorted_wrt_iff_nth_less)
qed

end

subsection \<open>Where a lookup ends\<close>

lemma FilterBlock_KeyMayMatch_form:
  assumes "FilterBlock_KeyMayMatch pol r off k' = Some b'"
  shows "(\<exists>f. \<forall>k. FilterBlock_KeyMayMatch pol r off k = fp_KeyMayMatch pol k f) \<or> (\<forall>k. FilterBlock_KeyMayMatch pol r off k = Some b')"
proof -
  have lg: "\<not> fr_base_lg r \<ge> 64" using assms by (auto simp: FilterBlock_KeyMayMatch_def)
  define i where "i = unat (drop_bit (fr_base_lg r) off)"
  show ?thesis
  proof (cases "i < fr_num r")
    case True
    obtain s l where "DecodeFixed32 (drop (fr_offset r + i * 4) (fr_data r)) = Some s"
        "DecodeFixed32 (drop (fr_offset r + i * 4 + 4) (fr_data r)) = Some l"
      using assms lg True by (auto simp: FilterBlock_KeyMayMatch_def Let_def bind_eq_Some_conv simp flip: i_def)
    then have "FilterBlock_KeyMayMatch pol r off k = (if s \<le> l \<and> unat l \<le> fr_offset r
        then fp_KeyMayMatch pol k (take (unat l - unat s) (drop (unat s) (fr_data r)))
        else if s = l then Some False else Some True)" for k
      using lg True by (simp add: FilterBlock_KeyMayMatch_def Let_def flip: i_def)
    then show ?thesis using assms by auto
  next
    case False
    then show ?thesis using assms lg by (simp add: FilterBlock_KeyMayMatch_def Let_def flip: i_def)
  qed
qed

text \<open>\<open>same k k'\<close>: the entry \<open>k'\<close> may answer a lookup of \<open>k\<close>. Keys that a separator lies between, and keys that
  the filter distinguishes, are not the same.\<close>

locale lookup_options = table_options opt ok for opt ok +
  fixes same :: "slice \<Rightarrow> slice \<Rightarrow> bool"
  assumes sep_same: "ok s \<Longrightarrow> ok l \<Longrightarrow> ok k \<Longrightarrow> cmp_lt (o_cmp opt) s l \<Longrightarrow> o_sep opt s l = Some t \<Longrightarrow>
      cmp_lt (o_cmp opt) s k \<Longrightarrow> \<not> cmp_lt (o_cmp opt) t k \<Longrightarrow> \<not> same k l"
    and filter_same: "o_filter opt = Some (pol, nm) \<Longrightarrow> same k k' \<Longrightarrow> fp_KeyMayMatch pol k f = fp_KeyMayMatch pol k' f"
begin

abbreviation first_ge :: "slice \<Rightarrow> (slice \<times> slice) list \<Rightarrow> (slice \<times> slice) option" where
  "first_ge k kvs \<equiv> find (\<lambda>kv. \<not> cmp_lt (o_cmp opt) (fst kv) k) kvs"

text \<open>The answer to a lookup.\<close>

definition answers :: "(slice \<times> slice) list \<Rightarrow> slice \<Rightarrow> (slice \<times> slice) option \<Rightarrow> bool" where
  "answers kvs k saved \<longleftrightarrow> (saved = None \<or> saved = first_ge k kvs) \<and>
     (\<forall>kv. first_ge k kvs = Some kv \<and> same k (fst kv) \<longrightarrow> saved = Some kv)"

lemma index_end:
  assumes idx: "idx_final opt dn es" and ne: "\<forall>(h, ks) \<in> set dn. ks \<noteq> []"
    and oks: "\<forall>kv \<in> set (concat (map snd dn)). ok (fst kv)" and sorted: "sorted_wrt less_kv (concat (map snd dn))"
    and k: "ok k" and none: "first_ge k es = None"
  shows "first_ge k (concat (map snd dn)) = None"
proof -
  have "cmp_lt (o_cmp opt) (fst kv) k" if "i < length dn" "kv \<in> set (snd (dn ! i))" for i kv
  proof -
    have "es ! i \<in> set es" using idx that(1) by (simp add: idx_final_def)
    then have "cmp_lt (o_cmp opt) (fst (es ! i)) k" using none by (auto simp: find_None)
    then show ?thesis using idx_key [OF idx that(1) ne oks sorted] that(2) k cmp_not_lt_trans by blast
  qed
  then show ?thesis by (fastforce simp: find_None in_set_conv_nth)
qed

lemma index_hit:
  assumes idx: "idx_final opt dn es" and ne: "\<forall>(h, ks) \<in> set dn. ks \<noteq> []"
    and oks: "\<forall>kv \<in> set (concat (map snd dn)). ok (fst kv)" and sorted: "sorted_wrt less_kv (concat (map snd dn))"
    and k: "ok k" and hit: "first_ge k es = Some e"
  shows "\<exists>i < length dn. e = es ! i \<and> (case first_ge k (snd (dn ! i)) of
      Some kv \<Rightarrow> first_ge k (concat (map snd dn)) = Some kv
    | None \<Rightarrow> \<forall>kv. first_ge k (concat (map snd dn)) = Some kv \<longrightarrow> \<not> same k (fst kv))"
proof -
  note key = idx_key [OF idx _ ne oks sorted]
  from find_Some_nth [OF hit] obtain i where i: "i < length es" "e = es ! i" "\<not> cmp_lt (o_cmp opt) (fst e) k"
    "\<forall>j < i. cmp_lt (o_cmp opt) (fst (es ! j)) k" by auto
  have il: "i < length dn" using i(1) idx by (simp add: idx_final_def)
  have "\<not> (\<not> cmp_lt (o_cmp opt) (fst kv) k)" if "j < i" "kv \<in> set (snd (dn ! j))" for j kv
    using key [of j] that i(4) il k cmp_not_lt_trans [of "fst kv" "fst (es ! j)" k] by fastforce
  then have split: "first_ge k (concat (map snd dn)) =
      (case first_ge k (snd (dn ! i)) of None \<Rightarrow> first_ge k (concat (drop (Suc i) (map snd dn))) | Some x \<Rightarrow> Some x)"
    using find_concat_at [of i "map snd dn" "\<lambda>kv. \<not> cmp_lt (o_cmp opt) (fst kv) k"] il by simp
  have "\<not> same k (fst kv)" if none: "first_ge k (snd (dn ! i)) = None" and kv: "first_ge k (concat (drop (Suc i) (map snd dn))) = Some kv" for kv
  proof -
    have s: "Suc i < length dn" using kv by (cases "Suc i < length dn") auto
    let ?b = "snd (dn ! i)" and ?n = "snd (dn ! Suc i)"
    have b: "?b \<noteq> []" "?n \<noteq> []" using ne nth_mem [OF il] nth_mem [OF s] by (auto simp: split_beta)
    have okl: "ok (fst (last ?b))" "ok (fst (hd ?n))" "ok (fst e)" using key [OF il] key [OF s] b i(2) by simp_all
    have "cmp_lt (o_cmp opt) (fst e) (fst (hd ?n))" using key [OF il] s i(2) by blast
    then have "\<not> cmp_lt (o_cmp opt) (fst (hd ?n)) k" using i(3) okl k cmp_not_lt_trans cmp_lt_trans cmp_lt_asym by blast
    moreover have "concat (drop (Suc i) (map snd dn)) = ?n @ concat (drop (Suc (Suc i)) (map snd dn))"
      using s by (simp flip: Cons_nth_drop_Suc)
    ultimately have "kv = hd ?n" using kv b(2) by (cases ?n) auto
    moreover have "cmp_lt (o_cmp opt) (fst (last ?b)) k" using none b(1) by (simp add: find_None)
    moreover have "cmp_lt (o_cmp opt) (fst (last ?b)) (fst (hd ?n))"
      using sorted_concat_blocks [OF sorted lessI, of i "last ?b" "hd ?n"] s b by simp
    moreover have "o_sep opt (fst (last ?b)) (fst (hd ?n)) = Some (fst e)"
      using idx [unfolded idx_final_def, THEN conjunct2, rule_format, OF il] s i(2) by simp
    ultimately show ?thesis using sep_same okl k i(3) by blast
  qed
  then show ?thesis using il i(2) split by (auto split: option.splits)
qed

text \<open>A filter that denies \<open>k\<close> denies every key that is the same.\<close>

lemma KeyMayMatch_same:
  assumes "o_filter opt = Some (pol, nm)" and "same k k'"
  shows "FilterBlock_KeyMayMatch pol r off k = FilterBlock_KeyMayMatch pol r off k'"
proof -
  have "fp_KeyMayMatch pol k = fp_KeyMayMatch pol k'" using filter_same [OF assms] by (rule ext)
  then show ?thesis unfolding FilterBlock_KeyMayMatch_def by (elim ssubst) (rule refl)
qed

lemma KeyMayMatch_total:
  assumes "o_filter opt = Some (pol, nm)" and "FilterBlock_KeyMayMatch pol r off k' = Some b'" and "ok k"
  shows "\<exists>b. FilterBlock_KeyMayMatch pol r off k = Some b"
  using FilterBlock_KeyMayMatch_form [OF assms(2)] filter_policy.match_total [OF policy [OF assms(1)] assms(3)] by metis

end

subsection \<open>An open table\<close>

definition table_of :: "Options \<Rightarrow> byte list \<Rightarrow> (BlockHandle \<times> (slice \<times> slice) list) list \<Rightarrow> 'f Table \<Rightarrow> bool" where
  "table_of opt data dn t \<longleftrightarrow> length data < 2 ^ 32 \<and> distinct (map (bh_offset \<circ> fst) dn) \<and>
     (\<forall>(h, ks) \<in> set dn. ks \<noteq> [] \<and> stored_at data h ks) \<and> t_options t = opt \<and>
     (\<exists>es. idx_final opt dn es \<and> block_of es (t_index_block t)) \<and>
     (case (t_filter t, o_filter opt) of
        (Some r, Some (pol, _)) \<Rightarrow> \<forall>(h, ks) \<in> set dn. \<forall>kv \<in> set ks. FilterBlock_KeyMayMatch pol r (bh_offset h) (fst kv) = Some True
      | _ \<Rightarrow> True)"

text \<open>The cache holds, under the keys of this table, blocks of this table only.\<close>

definition cache_of ::
  "('c \<Rightarrow> slice \<Rightarrow> Block \<Rightarrow> bool) \<Rightarrow> (BlockHandle \<times> (slice \<times> slice) list) list \<Rightarrow> 'f Table \<Rightarrow> 'c \<Rightarrow> bool" where
  "cache_of cached dn t c \<longleftrightarrow> (\<forall>(h, ks) \<in> set dn. \<forall>b.
     cached c (EncodeFixed64 (t_cache_id t) @ EncodeFixed64 (bh_offset h)) b \<longrightarrow> block_of ks b)"

lemma cache_key_inj:
  "EncodeFixed64 i @ EncodeFixed64 a = EncodeFixed64 i @ EncodeFixed64 b \<longleftrightarrow> a = b"
  by (metis DecodeFixed64_Encode append_Nil2 option.inject same_append_eq)

lemma cache_of_insert:
  assumes "cache_of cached dn t c" and "distinct (map (bh_offset \<circ> fst) dn)" and "(h, ks) \<in> set dn" and "block_of ks b"
    and "\<forall>k' v'. cached c' k' v' \<longrightarrow>
      (if k' = EncodeFixed64 (t_cache_id t) @ EncodeFixed64 (bh_offset h) then v' = b else cached c k' v')"
  shows "cache_of cached dn t c'"
  unfolding cache_of_def
proof (clarify)
  fix h' ks' b'
  assume m: "(h', ks') \<in> set dn" and c: "cached c' (EncodeFixed64 (t_cache_id t) @ EncodeFixed64 (bh_offset h')) b'"
  show "block_of ks' b'"
  proof (cases "bh_offset h' = bh_offset h")
    case True
    then have "(h', ks') = (h, ks)" using assms(2,3) m inj_onD [of "bh_offset \<circ> fst" "set dn" "(h', ks')" "(h, ks)"]
      by (simp add: distinct_map)
    then show ?thesis using assms(4,5) c True by fastforce
  next
    case False
    then have "cached c (EncodeFixed64 (t_cache_id t) @ EncodeFixed64 (bh_offset h')) b'"
      using assms(5) c cache_key_inj by fastforce
    then show ?thesis using assms(1) m unfolding cache_of_def by blast
  qed
qed

locale table_reader = lookup_options opt ok same + random_access_file rops bytes healthy + lookup_cache cops cinv cached pins
  for opt ok same and rops :: "'f RandomAccessFile" and bytes healthy and cops :: "(Block, 'h, 'c) Cache" and cinv cached pins
begin

lemma read_stored:
  assumes "stored_at (bytes f) h ks" and "length (bytes f) < 2 ^ 32" and "healthy f"
  shows "\<exists>c blk. ReadBlock rops port_snappy verify h f = Some (Status_OK, c) \<and> Block_new (bc_data c) = Some blk \<and> block_of ks blk"
proof -
  obtain raw blk where "has_block port_snappy (bytes f) h raw" "Block_new raw = Some blk" "block_of ks blk"
    using stored_block [OF assms(1,2)] by blast
  then show ?thesis using ReadBlock_has_block [OF _ assms(3), of port_snappy h raw verify] by auto
qed

definition cstate :: "(Block, 'h, 'c) Cache option \<Rightarrow> (BlockHandle \<times> (slice \<times> slice) list) list \<Rightarrow> 'f Table \<Rightarrow> 'c \<Rightarrow> bool" where
  "cstate co dn t c \<longleftrightarrow> co = None \<or> co = Some cops \<and> cinv c \<and> cache_of cached dn t c"

lemma BlockReader_block:
  assumes t: "table_of opt (bytes (t_file t)) dn t" "healthy (t_file t)" and h: "(h, ks) \<in> set dn" "BlockHandle_EncodeTo h [] = Some enc"
    and c: "cstate co dn t c"
  shows "\<exists>blk it cl c'. BlockReader rops port_snappy co t ro enc c = Some (it, cl, c') \<and> block_of ks blk \<and>
    Block_NewIterator blk = Some it \<and> cstate co dn t c' \<and>
    (\<exists>c2. iter_cleanup co cl c' = Some c2 \<and> cstate co dn t c2 \<and> (co = None \<longrightarrow> c2 = c) \<and> (co \<noteq> None \<longrightarrow> pins c2 = pins c))"
proof -
  have s: "stored_at (bytes (t_file t)) h ks" and len: "length (bytes (t_file t)) < 2 ^ 32" and d: "distinct (map (bh_offset \<circ> fst) dn)"
    using t(1) h(1) unfolding table_of_def by blast+
  obtain ct blk where r: "ReadBlock rops port_snappy (ro_verify_checksums ro) h (t_file t) = Some (Status_OK, ct)"
    "Block_new (bc_data ct) = Some blk" "block_of ks blk" using read_stored [OF s len t(2)] by blast
  obtain it where it: "Block_NewIterator blk = Some it" using r(3) by (auto simp: block_of_def)
  have dec: "BlockHandle_DecodeFrom enc BlockHandle_new = (Status_OK, h, [])" using BlockHandle_Decode_Encode [OF h(2), of "[]"] by simp
  let ?key = "EncodeFixed64 (t_cache_id t) @ EncodeFixed64 (bh_offset h)"
  show ?thesis
  proof (cases co)
    case None
    then show ?thesis using r it by (auto simp: BlockReader_def dec iter_cleanup_def cstate_def)
  next
    case (Some cops')
    then have co: "co = Some cops" "cinv c" "cache_of cached dn t c" using c by (auto simp: cstate_def)
    obtain res c1 where l: "c_Lookup cops ?key c = Some (res, c1)" "cinv c1" "cached c1 = cached c"
      "case res of None \<Rightarrow> pins c1 = pins c \<and> (\<forall>v. \<not> cached c ?key v)
       | Some h \<Rightarrow> pins c1 = add_mset h (pins c) \<and> (\<exists>v. cached c ?key v \<and> c_Value cops h c1 = Some v)"
      using lookup_hit [OF co(2), of ?key] by blast
    have c1: "cache_of cached dn t c1" using co(3) l(3) by (simp add: cache_of_def)
    have rel: "\<exists>c2. c_Release cops hd c' = Some c2 \<and> cinv c2 \<and> cache_of cached dn t c2 \<and> pins c2 = pins c"
      if "cinv c'" "cache_of cached dn t c'" "pins c' = add_mset hd (pins c)" for c' hd
      using release [OF that(1), of hd] that by (auto simp: cache_of_def)
    show ?thesis
    proof (cases res)
      case hit: (Some hd)
      then obtain v where v: "cached c ?key v" "c_Value cops hd c1 = Some v" "pins c1 = add_mset hd (pins c)" using l(4) by auto
      have "block_of ks v" using co(3) h(1) v(1) unfolding cache_of_def by blast
      moreover from this obtain it' where "Block_NewIterator v = Some it'" by (auto simp: block_of_def)
      ultimately show ?thesis using l(1,2) hit v rel [OF l(2) c1 v(3)] c1
        by (auto simp: BlockReader_def dec co(1) iter_cleanup_def cstate_def)
    next
      case miss: None
      then have p1: "pins c1 = pins c" using l(4) by simp
      show ?thesis
      proof (cases "bc_cachable ct \<and> ro_fill_cache ro")
        case False
        then show ?thesis using l(1,2) miss r it c1 p1
          by (auto simp: BlockReader_def dec co(1) iter_cleanup_def cstate_def)
      next
        case True
        obtain hd c2 where i: "c_Insert cops ?key blk (blk_size blk) c1 = Some (hd, c2)" "cinv c2" "pins c2 = add_mset hd (pins c)"
          "\<forall>k' v'. cached c2 k' v' \<longrightarrow> (if k' = ?key then v' = blk else cached c1 k' v')"
          using insert_new [OF l(2), of ?key blk "blk_size blk"] p1 by metis
        have c2: "cache_of cached dn t c2" by (rule cache_of_insert [OF c1 d h(1) r(3) i(4)])
        show ?thesis using l(1) miss r it True i(1,2) c2 rel [OF i(2) c2 i(3)]
          by (auto simp: BlockReader_def dec co(1) iter_cleanup_def cstate_def)
      qed
    qed
  qed
qed

end

context lookup_options begin

lemma filter_answer:
  assumes t: "table_of opt data dn t" and m: "(h, ks) \<in> set dn" and k: "ok k"
    and dec: "BlockHandle_DecodeFrom v BlockHandle_new = (Status_OK, h, [])"
  shows "\<exists>nf. (case (t_filter t, o_filter (t_options t)) of
      (Some flt, Some (pol, _)) \<Rightarrow>
        let (hs, handle, _) = BlockHandle_DecodeFrom v BlockHandle_new in
        if Status_ok hs then map_option Not (FilterBlock_KeyMayMatch pol flt (bh_offset handle) k) else Some False
    | _ \<Rightarrow> Some False) = Some nf \<and> (nf \<longrightarrow> (\<forall>kv \<in> set ks. \<not> same k (fst kv)))"
proof (cases "\<exists>flt pol nm. t_filter t = Some flt \<and> o_filter opt = Some (pol, nm)")
  case True
  then obtain flt pol nm where f: "t_filter t = Some flt" "o_filter opt = Some (pol, nm)" by blast
  have topt: "t_options t = opt" and ne: "ks \<noteq> []" using t m unfolding table_of_def by blast+
  have match: "\<forall>kv \<in> set ks. FilterBlock_KeyMayMatch pol flt (bh_offset h) (fst kv) = Some True"
    using t m f by (auto simp: table_of_def)
  then obtain b where b: "FilterBlock_KeyMayMatch pol flt (bh_offset h) k = Some b"
    using KeyMayMatch_total [OF f(2) _ k] ne hd_in_set by blast
  have "b" if "kv \<in> set ks" "same k (fst kv)" for kv
    using match that KeyMayMatch_same [OF f(2) that(2)] b by auto
  then show ?thesis using f topt b dec by auto
next
  case False
  have topt: "t_options t = opt" using t unfolding table_of_def by blast
  show ?thesis using False topt by (auto split: option.split)
qed

end

context table_reader begin

lemma InternalGet_answers:
  assumes t: "table_of opt (bytes (t_file t)) dn t" "healthy (t_file t)" and c: "cstate co dn t c" and k: "ok k"
    and oks: "\<forall>kv \<in> set (concat (map snd dn)). ok (fst kv)" and sorted: "sorted_wrt less_kv (concat (map snd dn))"
  shows "\<exists>saved c'. InternalGet rops port_snappy co t ro k c = Some (Status_OK, saved, c') \<and>
    answers (concat (map snd dn)) k saved \<and> cstate co dn t c' \<and> (co \<noteq> None \<longrightarrow> pins c' = pins c)"
proof -
  let ?kvs = "concat (map snd dn)"
  have ne: "\<forall>(h, ks) \<in> set dn. ks \<noteq> []" and topt: "t_options t = opt" using t(1) unfolding table_of_def by blast+
  obtain es where es: "idx_final opt dn es" "block_of es (t_index_block t)" using t(1) unfolding table_of_def by blast
  note si = idx_sorted [OF es(1) ne oks sorted]
  obtain ii0 ii where ii: "Block_NewIterator (t_index_block t) = Some ii0" "Iter_Seek (o_cmp opt) k ii0 = Some ii" "Iter_status ii = Status_OK"
    "Iter_Valid ii = (first_ge k es \<noteq> None)" "Iter_value ii = map_option snd (first_ge k es)"
    using block_Seek [OF es(2) _ _ k] si by (auto simp: Let_def)
  show ?thesis
  proof (cases "first_ge k es")
    case None
    then have "answers ?kvs k None" using index_end [OF es(1) ne oks sorted k None] by (simp add: answers_def)
    then show ?thesis using ii None c topt by (simp add: InternalGet_def)
  next
    case (Some e)
    from index_hit [OF es(1) ne oks sorted k Some] obtain i where i: "i < length dn" "e = es ! i"
      "case first_ge k (snd (dn ! i)) of Some kv \<Rightarrow> first_ge k ?kvs = Some kv
       | None \<Rightarrow> \<forall>kv. first_ge k ?kvs = Some kv \<longrightarrow> \<not> same k (fst kv)" by blast
    obtain h ks where hk: "dn ! i = (h, ks)" by fastforce
    have m: "(h, ks) \<in> set dn" using nth_mem [OF i(1)] hk by simp
    have enc: "BlockHandle_EncodeTo h [] = Some (snd e)" using es(1) [unfolded idx_final_def, THEN conjunct2, rule_format, OF i(1)] i(2) hk by simp
    have dec: "BlockHandle_DecodeFrom (snd e) BlockHandle_new = (Status_OK, h, [])" using BlockHandle_Decode_Encode [OF enc, of "[]"] by simp
    have kvs: "set ks \<subseteq> set ?kvs" "sorted_wrt less_kv ks" using m sorted_wrt_concat_nth [OF sorted, of i] i(1) hk by auto
    from BlockReader_block [OF t m enc c, of ro] obtain blk bi0 cl c1 c2 where br:
      "BlockReader rops port_snappy co t ro (snd e) c = Some (bi0, cl, c1)" "block_of ks blk" "Block_NewIterator blk = Some bi0"
      "iter_cleanup co cl c1 = Some c2" "cstate co dn t c2" "co \<noteq> None \<longrightarrow> pins c2 = pins c" by blast
    have okk: "\<forall>kv \<in> set ks. ok (fst kv)" using kvs(1) oks by blast
    obtain bi where bi: "Iter_Seek (o_cmp opt) k bi0 = Some bi" "Iter_status bi = Status_OK" "Iter_Valid bi = (first_ge k ks \<noteq> None)"
      "Iter_key bi = map_option fst (first_ge k ks)" "Iter_value bi = map_option snd (first_ge k ks)"
      using block_Seek [OF br(2) okk kvs(2) k] br(3) by (auto simp: Let_def)
    have saved: "(if Iter_Valid bi then do { key \<leftarrow> Iter_key bi; val \<leftarrow> Iter_value bi; Some (Some (key, val)) } else Some None) = Some (first_ge k ks)"
      using bi(3-5) by (cases "first_ge k ks") auto
    have ans: "answers ?kvs k (first_ge k ks)" using i(3) hk by (auto simp: answers_def split: option.splits)
    from filter_answer [OF t(1) m k dec] obtain nf where nf: "(case (t_filter t, o_filter (t_options t)) of
             (Some flt, Some (pol, _)) \<Rightarrow>
               let (hs, handle, _) = BlockHandle_DecodeFrom (snd e) BlockHandle_new in
               if Status_ok hs then map_option Not (FilterBlock_KeyMayMatch pol flt (bh_offset handle) k) else Some False
           | _ \<Rightarrow> Some False) = Some nf" "nf \<Longrightarrow> \<forall>kv \<in> set ks. \<not> same k (fst kv)" by blast
    show ?thesis
    proof (cases nf)
      case True
      have "answers ?kvs k None"
      proof (cases "first_ge k ks")
        case hit: (Some kv)
        then have "kv \<in> set ks" "first_ge k ?kvs = Some kv" using i(3) hk find_Some_nth [OF hit] by auto
        then show ?thesis using nf(2) [OF True] by (simp add: answers_def)
      qed (use ans in simp)
      then show ?thesis using ii Some nf(1) True c topt by (simp add: InternalGet_def)
    next
      case False
      then show ?thesis using ii Some nf(1) br(1,4-6) bi(1,2) saved ans topt by (simp add: InternalGet_def)
    qed
  qed
qed

end

subsection \<open>Opening\<close>

context table_reader begin

lemma ReadMeta_filter:
  assumes t: "t_options t = opt" "t_filter t = None" and f: "healthy (t_file t)" "length (bytes (t_file t)) < 2 ^ 32"
    and flt: "flt_final opt dn (bytes (t_file t)) (ft_metaindex_handle ft)"
  shows "\<exists>r. ReadMeta rops port_snappy ft t = Some (t\<lparr>t_filter := r\<rparr>) \<and> (case (r, o_filter opt) of
        (Some r, Some (pol, _)) \<Rightarrow> \<forall>(h, ks) \<in> set dn. \<forall>kv \<in> set ks. FilterBlock_KeyMayMatch pol r (bh_offset h) (fst kv) = Some True
      | _ \<Rightarrow> True)"
proof (cases "o_filter opt")
  case None
  then show ?thesis using t by (intro exI [of _ None]) (simp add: ReadMeta_def)
next
  case (Some p)
  obtain pol nm where p: "o_filter opt = Some (pol, nm)" using Some by (cases p) auto
  obtain fh enc c r where fc: "stored_at (bytes (t_file t)) (ft_metaindex_handle ft) [(ascii ''filter.'' @ nm, enc)]"
    "BlockHandle_EncodeTo fh [] = Some enc" "has_block port_snappy (bytes (t_file t)) fh c" "FilterBlockReader_new c = Some r"
    "\<forall>(h, ks) \<in> set dn. \<forall>kv \<in> set ks. FilterBlock_KeyMayMatch pol r (bh_offset h) (fst kv) = Some True"
    using flt p by (auto simp: flt_final_def flt_contents_def)
  obtain mc meta where m: "ReadBlock rops port_snappy (o_paranoid_checks opt) (ft_metaindex_handle ft) (t_file t) = Some (Status_OK, mc)"
    "Block_new (bc_data mc) = Some meta" "block_of [(ascii ''filter.'' @ nm, enc)] meta" using read_stored [OF fc(1) f(2,1)] by blast
  obtain it0 it where it: "Block_NewIterator meta = Some it0" "Iter_Seek Bytewise_Compare (ascii ''filter.'' @ nm) it0 = Some it" "Iter_Valid it"
    "Iter_key it = Some (ascii ''filter.'' @ nm)" "Iter_value it = Some enc"
    using bw.block_Seek [OF m(3), of "ascii ''filter.'' @ nm"] bw.cmp_lt_irrefl [of "ascii ''filter.'' @ nm"]
    by (auto simp: Let_def simp del: cmp_lt_Bytewise)
  have dec: "BlockHandle_DecodeFrom enc BlockHandle_new = (Status_OK, fh, [])" using BlockHandle_Decode_Encode [OF fc(2), of "[]"] by simp
  obtain fb where "ReadBlock rops port_snappy (o_paranoid_checks opt) fh (t_file t) = Some (Status_OK, fb)" "bc_data fb = c"
    using ReadBlock_has_block [OF fc(3) f(1)] by blast
  then have "ReadMeta rops port_snappy ft t = Some (t\<lparr>t_filter := Some r\<rparr>)"
    using t p m it dec fc(4) by (simp add: ReadMeta_def ReadFilter_def)
  then show ?thesis using p fc(5) by auto
qed

lemma Open_table:
  assumes rep: "table_rep opt (bytes f) kvs" and f: "healthy f"
    and c: "co = None \<or> co = Some cops \<and> cinv c \<and> (\<forall>off b. \<not> cached c (EncodeFixed64 (fst (c_NewId cops c)) @ EncodeFixed64 off) b)"
  shows "\<exists>t c' dn. Table_Open rops port_snappy co opt f (word_of_nat (length (bytes f))) c = Some (Status_OK, Some t, c') \<and>
    t_file t = f \<and> table_of opt (bytes f) dn t \<and> concat (map snd dn) = kvs \<and> cstate co dn t c' \<and> (co \<noteq> None \<longrightarrow> pins c' = pins c)"
proof -
  obtain dn es mh ih body foot where r: "bytes f = body @ foot" "length foot = 48"
      "\<And>ft. Footer_DecodeFrom foot ft = Some (Status_OK, \<lparr>ft_metaindex_handle = mh, ft_index_handle = ih\<rparr>, [])"
      "concat (map snd dn) = kvs" "distinct (map (bh_offset \<circ> fst) dn)" "\<forall>(h, ks) \<in> set dn. ks \<noteq> [] \<and> stored_at (bytes f) h ks"
      "idx_final opt dn es" "stored_at (bytes f) ih es" "flt_final opt dn (bytes f) mh"
    using rep unfolding table_rep_def by (auto simp: Footer_kEncodedLength_def kMaxEncodedLength_def)
  have len: "length (bytes f) < 2 ^ 32" using rep by (simp add: table_rep_def)
  have kl: "Footer_kEncodedLength = 48" by (simp add: Footer_kEncodedLength_def kMaxEncodedLength_def)
  have off: "(word_of_nat (length (bytes f)) :: u64) - word_of_nat Footer_kEncodedLength = word_of_nat (length body)"
    by (simp add: r(1,2) kl)
  have u: "unat (word_of_nat (length body) :: u64) = length body" "unat (word_of_nat 48 :: u64) = 48"
    using len by (simp_all add: r(1) unat_of_nat)
  obtain b where rd: "ra_Read rops (word_of_nat (length body)) (word_of_nat 48) f = Some (Status_OK, foot, b)"
    using ra_read [OF f, of "word_of_nat (length body)" "word_of_nat 48"] u r(1,2) by (auto simp del: of_nat_numeral)
  have "\<not> (word_of_nat (length (bytes f)) :: u64) < word_of_nat Footer_kEncodedLength"
    using len by (simp add: r(1,2) kl word_less_nat_alt unat_of_nat del: of_nat_add of_nat_numeral)
  moreover obtain ct ib where ix: "ReadBlock rops port_snappy (o_paranoid_checks opt) ih f = Some (Status_OK, ct)"
    "Block_new (bc_data ct) = Some ib" "block_of es ib" using read_stored [OF r(8) len f] by blast
  moreover define id c1 where "id = fst (case co of None \<Rightarrow> (0, c) | Some cops \<Rightarrow> c_NewId cops c)"
    and "c1 = snd (case co of None \<Rightarrow> (0, c) | Some cops \<Rightarrow> c_NewId cops c)"
  moreover define t0 where "t0 = \<lparr>t_options = opt, t_file = f, t_cache_id = id, t_filter = None, t_metaindex_handle = mh, t_index_block = ib\<rparr>"
  moreover have "flt_final opt dn (bytes (t_file t0)) (ft_metaindex_handle \<lparr>ft_metaindex_handle = mh, ft_index_handle = ih\<rparr>)"
    using r(9) by (simp add: t0_def)
  from ReadMeta_filter [OF _ _ _ _ this] f len obtain fr where
    fr: "ReadMeta rops port_snappy \<lparr>ft_metaindex_handle = mh, ft_index_handle = ih\<rparr> t0 = Some (t0\<lparr>t_filter := fr\<rparr>)"
    "case (fr, o_filter opt) of
        (Some r, Some (pol, _)) \<Rightarrow> \<forall>(h, ks) \<in> set dn. \<forall>kv \<in> set ks. FilterBlock_KeyMayMatch pol r (bh_offset h) (fst kv) = Some True
      | _ \<Rightarrow> True" by (auto simp: t0_def)
  ultimately have "Table_Open rops port_snappy co opt f (word_of_nat (length (bytes f))) c = Some (Status_OK, Some (t0\<lparr>t_filter := fr\<rparr>), c1)"
    using rd r(3) off unfolding kl by (simp add: Table_Open_def kl split_beta del: of_nat_numeral)
  moreover have "table_of opt (bytes f) dn (t0\<lparr>t_filter := fr\<rparr>)"
    using len r(5-7) ix(3) fr(2) unfolding table_of_def by (auto simp: t0_def)
  moreover have "cstate co dn (t0\<lparr>t_filter := fr\<rparr>) c1 \<and> (co \<noteq> None \<longrightarrow> pins c1 = pins c)"
    using c new_id [of c id c1] by (auto simp: cstate_def cache_of_def t0_def id_def c1_def)
  ultimately show ?thesis using r(4) by (intro exI [of _ "t0\<lparr>t_filter := fr\<rparr>"]) (auto simp: t0_def)
qed

end

subsection \<open>Lookups of user keys\<close>

text \<open>An entry may answer a lookup when it has the user key of the lookup.\<close>

definition same_user_key :: "slice \<Rightarrow> slice \<Rightarrow> bool" where
  "same_user_key k k' \<longleftrightarrow> ExtractUserKey k = ExtractUserKey k'"

context separating_comparator begin

lemma ik_sep_same:
  assumes "ik_ok ok s" and "ik_ok ok l" and "ik_ok ok k" and "cmp_lt (InternalKey_Compare cmp) s l"
    and t: "InternalKey_FindShortestSeparator cmp sep s l = Some t"
    and k: "cmp_lt (InternalKey_Compare cmp) s k" "\<not> cmp_lt (InternalKey_Compare cmp) t k"
  shows "\<not> same_user_key k l"
proof
  assume "same_user_key k l"
  obtain u a v b w c where e: "s = u @ EncodeFixed64 a" "l = v @ EncodeFixed64 b" "k = w @ EncodeFixed64 c" "ok u" "ok v" "ok w"
    using assms(1-3) by (metis ik_okE)
  then have w: "w = v" using \<open>same_user_key k l\<close> by (simp add: same_user_key_def)
  have "cmp_lt cmp u v \<or> cmp_eq cmp u v" using assms(4) by (auto simp: e ik_lt_iff)
  with e(4,5) show False
  proof (cases rule: ik_sep_cases [where a = a and b = b])
    case same
    then have "t = s" using t e(1,2) by simp
    then show False using k by simp
  next
    case (cut t' tag)
    then have "t = t' @ EncodeFixed64 tag" using t e(1,2) by simp
    then show False using k(2) cut(4) by (simp add: e w ik_lt_iff)
  qed
qed

end

lemma lookup_options_Sanitize:
  assumes "separating_comparator (o_cmp opt) ok (o_sep opt) (o_succ opt)"
    and "\<And>pol nm. o_filter opt = Some (pol, nm) \<Longrightarrow> filter_policy pol ok"
  shows "lookup_options (SanitizeOptions opt) (ik_ok ok) same_user_key"
proof (intro lookup_options.intro lookup_options_axioms.intro)
  show "table_options (SanitizeOptions opt) (ik_ok ok)" by (rule table_options_Sanitize [OF assms])
next
  fix s l k t
  assume "ik_ok ok s" "ik_ok ok l" "ik_ok ok k" "cmp_lt (o_cmp (SanitizeOptions opt)) s l" "o_sep (SanitizeOptions opt) s l = Some t"
    "cmp_lt (o_cmp (SanitizeOptions opt)) s k" "\<not> cmp_lt (o_cmp (SanitizeOptions opt)) t k"
  then show "\<not> same_user_key k l"
    using separating_comparator.ik_sep_same [OF assms(1)] by (simp add: SanitizeOptions_def)
next
  fix pol nm k k' f
  assume "o_filter (SanitizeOptions opt) = Some (pol, nm)" "same_user_key k k'"
  then show "fp_KeyMayMatch pol k f = fp_KeyMayMatch pol k' f"
    by (auto simp: SanitizeOptions_def same_user_key_def InternalFilterPolicy_def)
qed

end
