(* ===== verification/Ldb_CacheInv.thy ===== *)
theory Ldb_CacheInv
  imports Ldb_Cache
begin

unbundle bit_operations_syntax

text \<open>
  The LRU cache keeps the contract of a cache. The invariant: the hash table holds exactly the handles in the
  cache, each in its chain; the two lists split them into those in use and those that may be evicted; the
  usage is the sum of the charges. Every operation returns, keeps the invariant and counts references.
\<close>

subsection \<open>The hash table\<close>

definition key_is :: "'v heap \<Rightarrow> slice \<Rightarrow> u32 \<Rightarrow> nat \<Rightarrow> bool" where
  "key_is hp key hash e \<longleftrightarrow> (\<exists>h. deref hp e = Some h \<and> lh_key h = key \<and> lh_hash h = hash)"

definition in_bucket :: "'v heap \<Rightarrow> nat \<Rightarrow> nat \<Rightarrow> nat \<Rightarrow> bool" where
  "in_bucket hp n b e \<longleftrightarrow> (\<exists>h. deref hp e = Some h \<and> ht_bucket (lh_hash h) n = b)"

definition ht_inv :: "'v heap \<Rightarrow> HandleTable \<Rightarrow> nat set \<Rightarrow> bool" where
  "ht_inv hp t es \<longleftrightarrow> finite es \<and> ht_list t \<noteq> [] \<and> mset (concat (ht_list t)) = mset_set es \<and> ht_elems t = card es \<and>
     (\<forall>b < length (ht_list t). \<forall>e \<in> set (ht_list t ! b). in_bucket hp (length (ht_list t)) b e)"

lemma ht_bucket_less: "0 < n \<Longrightarrow> ht_bucket hash n < n"
proof -
  assume n: "0 < n"
  have "hash AND (word_of_nat n - 1) \<le> word_of_nat n - 1" by (rule word_and_le1)
  then have "ht_bucket hash n \<le> unat (word_of_nat n - 1 :: u32)" by (simp add: ht_bucket_def word_le_nat_alt)
  moreover have "unat (word_of_nat n - 1 :: u32) \<le> n - 1"
  proof -
    have "(word_of_nat n - 1 :: u32) = word_of_nat (n - 1)" using n by (simp add: of_nat_diff Suc_le_eq)
    then show ?thesis by (simp add: unat_of_nat)
  qed
  ultimately show ?thesis using n by simp
qed

lemma find_slot_spec:
  "\<forall>e \<in> set es. \<exists>h. deref hp e = Some h \<Longrightarrow> \<exists>p. find_slot hp key hash es = Some p \<and> p \<le> length es \<and>
    (p < length es \<longrightarrow> key_is hp key hash (es ! p)) \<and> (\<forall>e \<in> set (take p es). \<not> key_is hp key hash e)"
proof (induction es)
  case (Cons e es)
  then obtain h p where h: "deref hp e = Some h" and p: "find_slot hp key hash es = Some p" "p \<le> length es"
    "p < length es \<longrightarrow> key_is hp key hash (es ! p)" "\<forall>e \<in> set (take p es). \<not> key_is hp key hash e" by auto
  show ?case
  proof (cases "lh_hash h \<noteq> hash \<or> key \<noteq> lh_key h")
    case True
    then have "\<not> key_is hp key hash e" using h by (auto simp: key_is_def)
    then show ?thesis using True h p by (intro exI [of _ "Suc p"]) auto
  next
    case False
    then show ?thesis using h by (intro exI [of _ 0]) (auto simp: key_is_def)
  qed
qed simp

lemma mset_concat_update: "b < length l \<Longrightarrow> mset (concat (l[b := x])) + mset (l ! b) = mset (concat l) + mset x"
proof (induction l arbitrary: b)
  case (Cons a l)
  then show ?case by (cases b) (simp_all add: ac_simps)
qed simp

lemma ht_inv_chain: "ht_inv hp t es \<Longrightarrow> b < length (ht_list t) \<Longrightarrow> set (ht_list t ! b) \<subseteq> es"
proof -
  assume inv: "ht_inv hp t es" and b: "b < length (ht_list t)"
  have "set (concat (ht_list t)) = es" using inv by (metis finite_set_mset_mset_set ht_inv_def set_mset_mset)
  then show ?thesis using nth_mem [OF b] by auto
qed

lemma ht_inv_member: "ht_inv hp t es \<Longrightarrow> e \<in> es \<Longrightarrow> \<exists>b < length (ht_list t). e \<in> set (ht_list t ! b)"
proof -
  assume inv: "ht_inv hp t es" and e: "e \<in> es"
  have "e \<in> set (concat (ht_list t))" using inv e by (metis finite_set_mset_mset_set ht_inv_def set_mset_mset)
  then obtain ch where "ch \<in> set (ht_list t)" "e \<in> set ch" by auto
  then show ?thesis by (metis in_set_conv_nth)
qed

lemma FindPointer_spec:
  assumes inv: "ht_inv hp t es"
  obtains p where "FindPointer hp key hash t = Some (ht_bucket hash (length (ht_list t)), p)"
    "ht_bucket hash (length (ht_list t)) < length (ht_list t)" "p \<le> length (ht_list t ! ht_bucket hash (length (ht_list t)))"
    "p < length (ht_list t ! ht_bucket hash (length (ht_list t))) \<Longrightarrow>
      key_is hp key hash (ht_list t ! ht_bucket hash (length (ht_list t)) ! p) \<and> ht_list t ! ht_bucket hash (length (ht_list t)) ! p \<in> es"
    "p = length (ht_list t ! ht_bucket hash (length (ht_list t))) \<Longrightarrow> \<forall>e \<in> es. \<not> key_is hp key hash e"
proof -
  let ?b = "ht_bucket hash (length (ht_list t))"
  have b: "?b < length (ht_list t)" using inv by (intro ht_bucket_less) (simp add: ht_inv_def)
  have "\<forall>e \<in> set (ht_list t ! ?b). \<exists>h. deref hp e = Some h" using inv b unfolding ht_inv_def in_bucket_def by blast
  from find_slot_spec [OF this, of key hash] obtain p where p: "find_slot hp key hash (ht_list t ! ?b) = Some p" "p \<le> length (ht_list t ! ?b)"
    "p < length (ht_list t ! ?b) \<longrightarrow> key_is hp key hash (ht_list t ! ?b ! p)" "\<forall>e \<in> set (take p (ht_list t ! ?b)). \<not> key_is hp key hash e" by blast
  have no: "\<not> key_is hp key hash e" if pl: "p = length (ht_list t ! ?b)" and ee: "e \<in> es" for e
  proof
    assume k: "key_is hp key hash e"
    obtain b' where b': "b' < length (ht_list t)" "e \<in> set (ht_list t ! b')" using ht_inv_member [OF inv ee] by blast
    then have "in_bucket hp (length (ht_list t)) b' e" using inv unfolding ht_inv_def by blast
    then have "b' = ?b" using k by (auto simp: in_bucket_def key_is_def)
    then show False using b'(2) p(4) pl k by simp
  qed
  show thesis using b p ht_inv_chain [OF inv b] no by (intro that [of p]) (auto simp: FindPointer_def Let_def)
qed

lemma HandleTable_Lookup_spec:
  assumes "ht_inv hp t es"
  shows "\<exists>r. HandleTable_Lookup hp key hash t = Some r \<and>
    (case r of None \<Rightarrow> \<forall>e \<in> es. \<not> key_is hp key hash e | Some e \<Rightarrow> e \<in> es \<and> key_is hp key hash e)"
  by (rule FindPointer_spec [OF assms, of key hash]) (auto simp: HandleTable_Lookup_def le_less)

lemma HandleTable_Remove_spec:
  assumes inv: "ht_inv hp t es"
  shows "\<exists>r t'. HandleTable_Remove hp key hash t = Some (r, t') \<and>
    (case r of None \<Rightarrow> t' = t \<and> (\<forall>e \<in> es. \<not> key_is hp key hash e)
     | Some e \<Rightarrow> e \<in> es \<and> key_is hp key hash e \<and> ht_inv hp t' (es - {e}))"
proof (rule FindPointer_spec [OF inv, of key hash])
  fix p
  let ?b = "ht_bucket hash (length (ht_list t))"
  let ?ch = "ht_list t ! ?b"
  assume f: "FindPointer hp key hash t = Some (?b, p)" and b: "?b < length (ht_list t)" "p \<le> length ?ch"
    and hit: "p < length ?ch \<Longrightarrow> key_is hp key hash (?ch ! p) \<and> ?ch ! p \<in> es" and miss: "p = length ?ch \<Longrightarrow> \<forall>e \<in> es. \<not> key_is hp key hash e"
  show ?thesis
  proof (cases "p < length ?ch")
    case True
    let ?x = "take p ?ch @ drop (Suc p) ?ch"
    let ?t = "t\<lparr>ht_elems := ht_elems t - 1, ht_list := (ht_list t)[?b := ?x]\<rparr>"
    have m: "mset ?ch = add_mset (?ch ! p) (mset ?x)" by (subst id_take_nth_drop [OF True]) simp
    have fin: "finite es" "mset (concat (ht_list t)) = mset_set es" using inv by (auto simp: ht_inv_def)
    have "mset (concat ((ht_list t)[?b := ?x])) = mset_set (es - {?ch ! p})"
      using mset_concat_update [OF b(1), of ?x] hit [OF True] fin
      by (simp add: m mset_set_Diff) (metis add_mset_remove_trivial)
    moreover have "set ?x \<subseteq> set ?ch" using set_take_subset [of p ?ch] set_drop_subset [of "Suc p" ?ch] by auto
    then have "\<forall>b' < length ((ht_list t)[?b := ?x]). \<forall>e \<in> set ((ht_list t)[?b := ?x] ! b'). in_bucket hp (length (ht_list t)) b' e"
      using inv b unfolding ht_inv_def by (auto simp: nth_list_update split: if_splits)
    ultimately have "ht_inv hp ?t (es - {?ch ! p})" using inv hit [OF True] by (simp add: ht_inv_def)
    then show ?thesis using f True hit by (simp add: HandleTable_Remove_def Let_def)
  next
    case False
    then show ?thesis using f b(2) miss by (simp add: HandleTable_Remove_def)
  qed
qed

lemma rehash_spec:
  assumes "\<forall>e \<in> set es. \<exists>h. deref hp e = Some h" and "l \<noteq> []" and "\<forall>b < length l. \<forall>e \<in> set (l ! b). in_bucket hp (length l) b e"
  shows "\<exists>l'. rehash hp es l = Some l' \<and> length l' = length l \<and> mset (concat l') = mset (concat l) + mset es \<and>
    (\<forall>b < length l'. \<forall>e \<in> set (l' ! b). in_bucket hp (length l') b e)"
  using assms
proof (induction es arbitrary: l)
  case (Cons e es)
  then obtain h where h: "deref hp e = Some h" by auto
  let ?b = "ht_bucket (lh_hash h) (length l)"
  have b: "?b < length l" using Cons.prems(2) by (intro ht_bucket_less) simp
  let ?l = "l[?b := e # l ! ?b]"
  have "mset (concat ?l) = add_mset e (mset (concat l))" using mset_concat_update [OF b, of "e # l ! ?b"] by simp
  moreover have "\<forall>b < length ?l. \<forall>e \<in> set (?l ! b). in_bucket hp (length ?l) b e"
    using Cons.prems(3) b h by (auto simp: nth_list_update in_bucket_def)
  ultimately show ?case using Cons.IH [of ?l] Cons.prems h b by (simp add: Let_def)
qed auto

lemma grow_length_pos: "0 < n \<Longrightarrow> 0 < grow_length n m"
  by (induction n m rule: grow_length.induct) (subst grow_length.simps, simp)

lemma Resize_spec:
  assumes "mset (concat (ht_list t)) = mset_set es" and "finite es" and "ht_elems t = card es" and "\<forall>e \<in> es. \<exists>h. deref hp e = Some h"
  shows "\<exists>t'. HandleTable_Resize hp t = Some t' \<and> ht_inv hp t' es"
proof -
  let ?n = "grow_length 4 (ht_elems t)"
  have n: "0 < ?n" by (rule grow_length_pos) simp
  have "set (concat (ht_list t)) = es" using assms(1,2) by (metis finite_set_mset_mset_set set_mset_mset)
  then have "\<forall>e \<in> set (concat (ht_list t)). \<exists>h. deref hp e = Some h" using assms(4) by blast
  from rehash_spec [OF this, of "replicate ?n []"] n obtain l' where l': "rehash hp (concat (ht_list t)) (replicate ?n []) = Some l'"
    "length l' = ?n" "mset (concat l') = mset (concat (ht_list t))" "\<forall>b < length l'. \<forall>e \<in> set (l' ! b). in_bucket hp (length l') b e" by auto
  have "length (concat (ht_list t)) = card es" using assms(1) by (metis size_mset size_mset_set)
  then show ?thesis using l' n assms by (auto simp: HandleTable_Resize_def ht_inv_def)
qed

lemma HandleTable_Insert_spec:
  assumes inv: "ht_inv hp t es" and e: "e \<notin> es" "deref hp e = Some h"
  shows "\<exists>r t'. HandleTable_Insert hp e t = Some (r, t') \<and>
    (case r of None \<Rightarrow> (\<forall>e \<in> es. \<not> key_is hp (lh_key h) (lh_hash h) e) \<and> ht_inv hp t' (insert e es)
     | Some old \<Rightarrow> old \<in> es \<and> key_is hp (lh_key h) (lh_hash h) old \<and> ht_inv hp t' (insert e (es - {old})))"
proof (rule FindPointer_spec [OF inv, of "lh_key h" "lh_hash h"])
  fix p
  let ?b = "ht_bucket (lh_hash h) (length (ht_list t))"
  let ?ch = "ht_list t ! ?b"
  assume f: "FindPointer hp (lh_key h) (lh_hash h) t = Some (?b, p)" and b: "?b < length (ht_list t)" "p \<le> length ?ch"
    and hit: "p < length ?ch \<Longrightarrow> key_is hp (lh_key h) (lh_hash h) (?ch ! p) \<and> ?ch ! p \<in> es"
    and miss: "p = length ?ch \<Longrightarrow> \<forall>e \<in> es. \<not> key_is hp (lh_key h) (lh_hash h) e"
  have fin: "finite es" "mset (concat (ht_list t)) = mset_set es" using inv by (auto simp: ht_inv_def)
  show ?thesis
  proof (cases "p < length ?ch")
    case True
    let ?old = "?ch ! p" and ?t = "t\<lparr>ht_list := (ht_list t)[?b := ?ch[p := e]]\<rparr>"
    have o: "?old \<in> es" "?old \<noteq> e" using hit [OF True] e(1) by auto
    obtain R where R: "mset ?ch = add_mset ?old R" "mset (?ch[p := e]) = add_mset e R"
      using True by (simp add: mset_update) (metis insert_DiffM nth_mem set_mset_mset)
    have "mset_set es = add_mset ?old (mset_set (es - {?old}))" using o(1) fin(1) by (metis mset_set.remove)
    then have "mset (concat ((ht_list t)[?b := ?ch[p := e]])) = add_mset e (mset_set (es - {?old}))"
      using mset_concat_update [OF b(1), of "?ch[p := e]"] fin(2) by (simp add: R)
    then have "mset (concat ((ht_list t)[?b := ?ch[p := e]])) = mset_set (insert e (es - {?old}))"
      using e(1) fin(1) by simp
    moreover have "\<forall>b' < length ((ht_list t)[?b := ?ch[p := e]]). \<forall>x \<in> set ((ht_list t)[?b := ?ch[p := e]] ! b'). in_bucket hp (length (ht_list t)) b' x"
      using inv b e(2) set_update_subset_insert [of ?ch p e] unfolding ht_inv_def by (auto simp: nth_list_update in_bucket_def split: if_splits)
    ultimately have "ht_inv hp ?t (insert e (es - {?old}))" using inv o e(1) fin(1) card_Suc_Diff1 [OF fin(1) o(1)] by (simp add: ht_inv_def)
    then show ?thesis using f True hit e(2) by (simp add: HandleTable_Insert_def Let_def)
  next
    case False
    let ?t = "t\<lparr>ht_elems := ht_elems t + 1, ht_list := (ht_list t)[?b := ?ch @ [e]]\<rparr>"
    have m: "mset (concat ((ht_list t)[?b := ?ch @ [e]])) = mset_set (insert e es)"
      using mset_concat_update [OF b(1), of "?ch @ [e]"] fin e(1) by simp
    have in_b: "\<forall>b' < length ((ht_list t)[?b := ?ch @ [e]]). \<forall>x \<in> set ((ht_list t)[?b := ?ch @ [e]] ! b'). in_bucket hp (length (ht_list t)) b' x"
      using inv b e(2) unfolding ht_inv_def by (auto simp: nth_list_update in_bucket_def split: if_splits)
    have "ht_inv hp ?t (insert e es)" using inv m in_b e(1) fin(1) by (simp add: ht_inv_def)
    moreover have "\<exists>t'. HandleTable_Resize hp ?t = Some t' \<and> ht_inv hp t' (insert e es)"
    proof (rule Resize_spec)
      show "\<forall>x \<in> insert e es. \<exists>h. deref hp x = Some h" using e(2) ht_inv_member [OF inv] inv unfolding ht_inv_def in_bucket_def by blast
    qed (use m fin(1) e(1) inv in \<open>auto simp: ht_inv_def\<close>)
    ultimately show ?thesis using f False b(2) miss e(2) by (auto simp: HandleTable_Insert_def Let_def)
  qed
qed

subsection \<open>The invariant of a shard\<close>

definition members :: "nat \<Rightarrow> 'v heap \<Rightarrow> nat set" where
  "members s hp = {e. \<exists>h. deref hp e = Some h \<and> Shard (lh_hash h) = s \<and> lh_in_cache h}"

definition hrefs :: "'v heap \<Rightarrow> nat \<Rightarrow> nat" where
  "hrefs hp e = (case deref hp e of None \<Rightarrow> 0 | Some h \<Rightarrow> lh_refs h)"

definition hcharge :: "'v heap \<Rightarrow> nat \<Rightarrow> nat" where
  "hcharge hp e = (case deref hp e of None \<Rightarrow> 0 | Some h \<Rightarrow> lh_charge h)"

definition hkey :: "'v heap \<Rightarrow> nat \<Rightarrow> slice" where
  "hkey hp e = (case deref hp e of None \<Rightarrow> [] | Some h \<Rightarrow> lh_key h)"

definition heap_ok :: "'v heap \<Rightarrow> bool" where
  "heap_ok hp \<longleftrightarrow> (\<forall>e h. deref hp e = Some h \<longrightarrow> 1 \<le> lh_refs h \<and> lh_hash h = HashSlice (lh_key h))"

definition lists_inv :: "nat \<Rightarrow> 'v heap \<Rightarrow> LRUCache \<Rightarrow> bool" where
  "lists_inv s hp c \<longleftrightarrow> distinct (lc_lru c) \<and> distinct (lc_in_use c) \<and> set (lc_lru c) = {e \<in> members s hp. hrefs hp e = 1} \<and>
     set (lc_in_use c) = {e \<in> members s hp. hrefs hp e \<noteq> 1} \<and> lc_usage c = (\<Sum>e \<in> members s hp. hcharge hp e) \<and>
     (lc_capacity c = 0 \<longrightarrow> members s hp = {})"

definition lru_inv :: "nat \<Rightarrow> 'v heap \<Rightarrow> LRUCache \<Rightarrow> bool" where
  "lru_inv s hp c \<longleftrightarrow> lists_inv s hp c \<and> ht_inv hp (lc_table c) (members s hp) \<and> inj_on (hkey hp) (members s hp)"

lemma deref_update: "deref hp e = Some h \<Longrightarrow> deref (hp[e := x]) e' = (if e' = e then x else deref hp e')"
  by (auto simp: deref_def split: if_splits)

lemma deref_append: "deref (hp @ [x]) e = (if e = length hp then x else deref hp e)"
  by (auto simp: deref_def nth_append)

lemma finite_members [simp]: "finite (members s hp)"
  by (rule finite_subset [of _ "{..<length hp}"]) (auto simp: members_def deref_def split: if_splits)

lemma members_update:
  assumes "deref hp e = Some h"
  shows "members s (hp[e := x]) =
    (case x of None \<Rightarrow> members s hp - {e}
     | Some h' \<Rightarrow> if Shard (lh_hash h') = s \<and> lh_in_cache h' then insert e (members s hp) else members s hp - {e})"
  using assms by (auto simp: members_def deref_update split: option.splits)

lemma hrefs_update: "deref hp e = Some h \<Longrightarrow>
    hrefs (hp[e := x]) e' = (if e' = e then case x of None \<Rightarrow> 0 | Some h' \<Rightarrow> lh_refs h' else hrefs hp e')"
  "deref hp e = Some h \<Longrightarrow> hcharge (hp[e := x]) e' = (if e' = e then case x of None \<Rightarrow> 0 | Some h' \<Rightarrow> lh_charge h' else hcharge hp e')"
  "deref hp e = Some h \<Longrightarrow> hkey (hp[e := x]) e' = (if e' = e then case x of None \<Rightarrow> [] | Some h' \<Rightarrow> lh_key h' else hkey hp e')"
  by (simp_all add: hrefs_def hcharge_def hkey_def deref_update)

lemma hrefs_Some [simp]: "deref hp e = Some h \<Longrightarrow> hrefs hp e = lh_refs h" "deref hp e = Some h \<Longrightarrow> hcharge hp e = lh_charge h"
  "deref hp e = Some h \<Longrightarrow> hkey hp e = lh_key h"
  by (simp_all add: hrefs_def hcharge_def hkey_def)

text \<open>The invariants look only at the handles of the shard.\<close>

lemma ht_inv_frame:
  assumes "ht_inv hp t es" and "\<forall>e \<in> es. \<forall>h. deref hp e = Some h \<longrightarrow> (\<exists>h'. deref hp' e = Some h' \<and> lh_hash h' = lh_hash h)"
  shows "ht_inv hp' t es"
proof -
  have "in_bucket hp' (length (ht_list t)) b e" if b: "b < length (ht_list t)" and e: "e \<in> set (ht_list t ! b)" for b e
  proof -
    obtain h where h: "deref hp e = Some h" "ht_bucket (lh_hash h) (length (ht_list t)) = b"
      using assms(1) b e unfolding ht_inv_def in_bucket_def by blast
    then show ?thesis using assms(2) ht_inv_chain [OF assms(1) b] e by (fastforce simp: in_bucket_def)
  qed
  then show ?thesis using assms(1) by (auto simp: ht_inv_def)
qed

definition only_shard :: "nat \<Rightarrow> 'v heap \<Rightarrow> 'v heap \<Rightarrow> bool" where
  "only_shard s hp hp' \<longleftrightarrow> (\<forall>e. deref hp' e \<noteq> deref hp e \<longrightarrow>
     (\<forall>h. deref hp e = Some h \<or> deref hp' e = Some h \<longrightarrow> Shard (lh_hash h) = s))"

lemma only_shard_refl [simp]: "only_shard s hp hp"
  by (simp add: only_shard_def)

lemma only_shard_trans: "only_shard s a b \<Longrightarrow> only_shard s b c \<Longrightarrow> only_shard s a c"
  unfolding only_shard_def by metis

lemma only_shard_update:
  "deref hp e = Some h \<Longrightarrow> Shard (lh_hash h) = s \<Longrightarrow> (\<forall>h'. x = Some h' \<longrightarrow> Shard (lh_hash h') = s) \<Longrightarrow> only_shard s hp (hp[e := x])"
  by (auto simp: only_shard_def deref_update)

lemma lru_inv_frame:
  assumes "lru_inv s' hp c" and only: "only_shard s hp hp'" and "s' \<noteq> s"
  shows "lru_inv s' hp' c"
proof -
  have eq: "deref hp' e = deref hp e" if "deref hp e = Some h \<or> deref hp' e = Some h" "Shard (lh_hash h) = s'" for e h
    using only that assms(3) unfolding only_shard_def by blast
  have m: "members s' hp' = members s' hp" unfolding members_def using eq by (metis (no_types, lifting))
  have d: "deref hp' e = deref hp e" if "e \<in> members s' hp" for e using that eq by (auto simp: members_def)
  then have e: "hrefs hp' e = hrefs hp e" "hcharge hp' e = hcharge hp e" "hkey hp' e = hkey hp e" if "e \<in> members s' hp" for e
    using that by (simp_all add: hrefs_def hcharge_def hkey_def)
  have "ht_inv hp' (lc_table c) (members s' hp)"
  proof (rule ht_inv_frame)
    show "ht_inv hp (lc_table c) (members s' hp)" using assms(1) by (simp add: lru_inv_def)
  qed (simp add: d)
  moreover have "inj_on (hkey hp') (members s' hp) \<longleftrightarrow> inj_on (hkey hp) (members s' hp)" by (rule inj_on_cong) (rule e(3))
  moreover have "(\<Sum>e \<in> members s' hp. hcharge hp' e) = (\<Sum>e \<in> members s' hp. hcharge hp e)" by (rule sum.cong) (simp_all add: e(2))
  moreover have "{e \<in> members s' hp. hrefs hp' e = 1} = {e \<in> members s' hp. hrefs hp e = 1}"
    "{e \<in> members s' hp. hrefs hp' e \<noteq> 1} = {e \<in> members s' hp. hrefs hp e \<noteq> 1}" using e(1) by auto
  ultimately have "lists_inv s' hp' c" "ht_inv hp' (lc_table c) (members s' hp)" "inj_on (hkey hp') (members s' hp)"
    using assms(1) by (simp_all add: lru_inv_def lists_inv_def m)
  then show ?thesis by (simp add: lru_inv_def m)
qed

subsection \<open>References\<close>

lemma Ref_inv:
  assumes inv: "lru_inv s hp c" "heap_ok hp" and e: "e \<in> members s hp" "deref hp e = Some h"
  shows "\<exists>c'. LRU_Ref e hp c = Some (hp[e := Some (h\<lparr>lh_refs := Suc (lh_refs h)\<rparr>)], c') \<and> lc_capacity c' = lc_capacity c \<and>
    lru_inv s (hp[e := Some (h\<lparr>lh_refs := Suc (lh_refs h)\<rparr>)]) c'"
proof -
  let ?hp = "hp[e := Some (h\<lparr>lh_refs := Suc (lh_refs h)\<rparr>)]"
  have h: "lh_in_cache h" "Shard (lh_hash h) = s" "1 \<le> lh_refs h" using e inv(2) by (auto simp: members_def heap_ok_def)
  have m: "members s ?hp = members s hp" using e h by (auto simp: members_update)
  have ht: "ht_inv ?hp (lc_table c) (members s hp)"
    by (rule ht_inv_frame [of hp]) (use inv(1) e(2) in \<open>auto simp: lru_inv_def deref_update [OF e(2)]\<close>)
  have k: "hkey ?hp = hkey hp" "hcharge ?hp = hcharge hp" using e(2) by (auto simp: hrefs_update [OF e(2)])
  have l: "distinct (lc_lru c)" "distinct (lc_in_use c)" "set (lc_lru c) = {e \<in> members s hp. hrefs hp e = 1}"
    "set (lc_in_use c) = {e \<in> members s hp. hrefs hp e \<noteq> 1}" using inv(1) by (auto simp: lru_inv_def lists_inv_def)
  show ?thesis
  proof (cases "lh_refs h = 1")
    case True
    let ?c = "c\<lparr>lc_lru := remove1 e (lc_lru c), lc_in_use := lc_in_use c @ [e]\<rparr>"
    have ni: "e \<notin> set (lc_in_use c)" using l(4) e True by auto
    have "set (remove1 e (lc_lru c)) = {x \<in> members s hp. hrefs ?hp x = 1}"
      unfolding set_remove1_eq [OF l(1)] l(3) using h True by (auto simp: hrefs_update [OF e(2)])
    moreover have "set (lc_in_use c @ [e]) = {x \<in> members s hp. hrefs ?hp x \<noteq> 1}"
      unfolding set_append l(4) using e(1) h by (auto simp: hrefs_update [OF e(2)])
    ultimately have "lists_inv s ?hp ?c" using inv(1) l(1,2) ni by (simp add: lists_inv_def lru_inv_def m k)
    then have "lru_inv s ?hp ?c" using inv(1) ht by (simp add: lru_inv_def m k)
    moreover have "LRU_Ref e hp c = Some (?hp, ?c)"
      using e True h ni by (simp add: LRU_Ref_def LRU_Remove_def remove1_idem)
    ultimately show ?thesis by simp
  next
    case False
    have "hrefs ?hp x = 1 \<longleftrightarrow> hrefs hp x = 1" for x using e False h by (auto simp: hrefs_update [OF e(2)])
    then have "lists_inv s ?hp c" using inv(1) by (simp add: lists_inv_def lru_inv_def m k)
    then have "lru_inv s ?hp c" using inv(1) ht by (simp add: lru_inv_def m k)
    then show ?thesis using e False by (simp add: LRU_Ref_def)
  qed
qed

text \<open>Dropping a reference of a client.\<close>

definition unref_handle :: "'v LRUHandle \<Rightarrow> 'v LRUHandle option" where
  "unref_handle h = (if lh_refs h = 1 then None else Some (h\<lparr>lh_refs := lh_refs h - 1\<rparr>))"

lemma Unref_inv:
  assumes inv: "lru_inv s hp c" "heap_ok hp" and e: "deref hp e = Some h" "Shard (lh_hash h) = s"
    and ext: "lh_in_cache h \<Longrightarrow> 2 \<le> lh_refs h"
  shows "\<exists>c'. LRU_Unref e hp c = Some (hp[e := unref_handle h], c') \<and> lc_capacity c' = lc_capacity c \<and> lru_inv s (hp[e := unref_handle h]) c'"
proof -
  let ?hp = "hp[e := unref_handle h]"
  have r: "1 \<le> lh_refs h" using inv(2) e by (auto simp: heap_ok_def)
  have m: "members s ?hp = members s hp" using e ext by (auto simp: members_def deref_update [OF e(1)] unref_handle_def split: if_splits)
  have ht: "ht_inv ?hp (lc_table c) (members s hp)"
    by (rule ht_inv_frame [of hp]) (use inv(1) ext e in \<open>auto simp: lru_inv_def deref_update [OF e(1)] unref_handle_def members_def\<close>)
  have k: "inj_on (hkey ?hp) (members s hp) = inj_on (hkey hp) (members s hp)"
    "(\<Sum>e \<in> members s hp. hcharge ?hp e) = (\<Sum>e \<in> members s hp. hcharge hp e)"
    by (rule inj_on_cong sum.cong; use e ext in \<open>auto simp: hrefs_update [OF e(1)] unref_handle_def members_def\<close>)+
  have l: "distinct (lc_lru c)" "distinct (lc_in_use c)" "set (lc_lru c) = {e \<in> members s hp. hrefs hp e = 1}"
    "set (lc_in_use c) = {e \<in> members s hp. hrefs hp e \<noteq> 1}" using inv(1) by (auto simp: lru_inv_def lists_inv_def)
  have mem: "e \<in> members s hp \<longleftrightarrow> lh_in_cache h" using e by (auto simp: members_def)
  show ?thesis
  proof (cases "lh_in_cache h \<and> lh_refs h = 2")
    case True
    let ?c = "c\<lparr>lc_lru := lc_lru c @ [e], lc_in_use := remove1 e (lc_in_use c)\<rparr>"
    have ni: "e \<notin> set (lc_lru c)" using l(3) e True by auto
    have "set (lc_lru c @ [e]) = {x \<in> members s hp. hrefs ?hp x = 1}"
      unfolding set_append l(3) using True mem by (auto simp: hrefs_update [OF e(1)] unref_handle_def)
    moreover have "set (remove1 e (lc_in_use c)) = {x \<in> members s hp. hrefs ?hp x \<noteq> 1}"
      unfolding set_remove1_eq [OF l(2)] l(4) using True by (auto simp: hrefs_update [OF e(1)] unref_handle_def)
    ultimately have "lists_inv s ?hp ?c" using inv(1) l(1,2) ni by (simp add: lists_inv_def lru_inv_def m k)
    then have "lru_inv s ?hp ?c" using inv(1) ht k by (simp add: lru_inv_def m)
    moreover have "LRU_Unref e hp c = Some (?hp, ?c)"
      using e True ni by (simp add: LRU_Unref_def LRU_Remove_def remove1_idem unref_handle_def)
    ultimately show ?thesis by simp
  next
    case False
    have "hrefs ?hp x = 1 \<longleftrightarrow> hrefs hp x = 1" if "x \<in> members s hp" for x
      using that e False mem ext r by (auto simp: hrefs_update [OF e(1)] unref_handle_def)
    then have "{x \<in> members s hp. hrefs ?hp x = 1} = {x \<in> members s hp. hrefs hp x = 1}"
      "{x \<in> members s hp. hrefs ?hp x \<noteq> 1} = {x \<in> members s hp. hrefs hp x \<noteq> 1}" by auto
    then have "lists_inv s ?hp c" using inv(1) by (simp add: lists_inv_def lru_inv_def m k)
    then have "lru_inv s ?hp c" using inv(1) ht k by (simp add: lru_inv_def m)
    moreover have "LRU_Unref e hp c = Some (?hp, c)" using e False ext r by (auto simp: LRU_Unref_def unref_handle_def Let_def)
    ultimately show ?thesis by simp
  qed
qed

subsection \<open>Leaving the cache\<close>

text \<open>A handle that leaves the cache loses the reference of the cache.\<close>

definition erase_handle :: "'v LRUHandle \<Rightarrow> 'v LRUHandle option" where
  "erase_handle h = (if lh_refs h = 1 then None else Some (h\<lparr>lh_in_cache := False, lh_refs := lh_refs h - 1\<rparr>))"

lemma members_erase: "deref hp e = Some h \<Longrightarrow> members s (hp[e := erase_handle h]) = members s hp - {e}"
  by (simp add: members_update erase_handle_def)

lemma FinishErase_inv:
  assumes li: "lists_inv s hp c" and ht: "ht_inv hp (lc_table c) (members s hp - {e})" and inj: "inj_on (hkey hp) (members s hp - {e})"
    and hp: "heap_ok hp" and e: "e \<in> members s hp" "deref hp e = Some h"
  shows "\<exists>c'. FinishErase (Some e) hp c = Some (True, hp[e := erase_handle h], c') \<and> lru_inv s (hp[e := erase_handle h]) c' \<and>
    lc_capacity c' = lc_capacity c \<and> lc_lru c' = remove1 e (lc_lru c) \<and> lc_in_use c' = remove1 e (lc_in_use c) \<and>
    lc_usage c' = lc_usage c - lh_charge h"
proof -
  let ?hp = "hp[e := erase_handle h]"
  let ?c = "c\<lparr>lc_lru := remove1 e (lc_lru c), lc_in_use := remove1 e (lc_in_use c), lc_usage := lc_usage c - lh_charge h\<rparr>"
  have h: "lh_in_cache h" "1 \<le> lh_refs h" using e hp by (auto simp: members_def heap_ok_def)
  have l: "distinct (lc_lru c)" "distinct (lc_in_use c)" "set (lc_lru c) = {e \<in> members s hp. hrefs hp e = 1}"
    "set (lc_in_use c) = {e \<in> members s hp. hrefs hp e \<noteq> 1}" "lc_usage c = (\<Sum>e \<in> members s hp. hcharge hp e)" using li by (auto simp: lists_inv_def)
  have same: "hrefs ?hp x = hrefs hp x" "hcharge ?hp x = hcharge hp x" "hkey ?hp x = hkey hp x" "deref ?hp x = deref hp x" if "x \<in> members s hp - {e}" for x
    using that by (simp_all add: hrefs_update [OF e(2)] deref_update [OF e(2)])
  have "set (remove1 e (lc_lru c)) = {x \<in> members s hp - {e}. hrefs ?hp x = 1}"
    unfolding set_remove1_eq [OF l(1)] l(3) using same(1) by auto
  moreover have "set (remove1 e (lc_in_use c)) = {x \<in> members s hp - {e}. hrefs ?hp x \<noteq> 1}"
    unfolding set_remove1_eq [OF l(2)] l(4) using same(1) by auto
  moreover have "lc_usage c - lh_charge h = (\<Sum>x \<in> members s hp - {e}. hcharge ?hp x)"
  proof -
    have "(\<Sum>x \<in> members s hp - {e}. hcharge ?hp x) = (\<Sum>x \<in> members s hp - {e}. hcharge hp x)" by (rule sum.cong) (simp_all add: same(2))
    then show ?thesis using sum.remove [OF finite_members e(1), of "hcharge hp"] e(2) by (simp add: l(5))
  qed
  ultimately have "lists_inv s ?hp ?c" using l(1,2) li e(1) by (auto simp: lists_inv_def members_erase [OF e(2)])
  moreover have "ht_inv ?hp (lc_table c) (members s hp - {e})" by (rule ht_inv_frame [OF ht]) (simp add: same(4))
  moreover have "inj_on (hkey ?hp) (members s hp - {e}) = inj_on (hkey hp) (members s hp - {e})" by (rule inj_on_cong) (rule same(3))
  ultimately have "lru_inv s ?hp ?c" using inj by (simp add: lru_inv_def members_erase [OF e(2)])
  moreover have "FinishErase (Some e) hp c = Some (True, ?hp, ?c)"
    using e(2) h by (auto simp: FinishErase_def LRU_Unref_def LRU_Remove_def Let_def deref_update [OF e(2)] erase_handle_def)
  ultimately show ?thesis by simp
qed

lemma key_is_members:
  assumes "heap_ok hp" and "inj_on (hkey hp) (members s hp)" and "e \<in> members s hp" and "e' \<in> members s hp" and "deref hp e = Some h"
    and "key_is hp (lh_key h) (lh_hash h) e'"
  shows "e' = e"
  using assms inj_onD [OF assms(2), of e' e] by (auto simp: key_is_def)

lemma evict_oldest_inv:
  assumes inv: "lru_inv s hp c" and hp: "heap_ok hp" and lru: "lc_lru c = e # es"
  shows "\<exists>c' h. deref hp e = Some h \<and> e \<in> members s hp \<and> lh_refs h = 1 \<and> evict_oldest hp c = Some (hp[e := None], c') \<and> lru_inv s (hp[e := None]) c' \<and>
    lc_capacity c' = lc_capacity c \<and> lc_lru c' = es \<and> lc_in_use c' = lc_in_use c \<and> lc_usage c' = lc_usage c - lh_charge h"
proof -
  have li: "lists_inv s hp c" "ht_inv hp (lc_table c) (members s hp)" "inj_on (hkey hp) (members s hp)" using inv by (auto simp: lru_inv_def)
  have "e \<in> set (lc_lru c)" using lru by simp
  then have e: "e \<in> members s hp" "hrefs hp e = 1" using li(1) by (auto simp: lists_inv_def)
  then obtain h where h: "deref hp e = Some h" by (auto simp: members_def)
  then have r1: "lh_refs h = 1" using e(2) by simp
  obtain r t where rm: "HandleTable_Remove hp (lh_key h) (lh_hash h) (lc_table c) = Some (r, t)"
    "case r of None \<Rightarrow> t = lc_table c \<and> (\<forall>e \<in> members s hp. \<not> key_is hp (lh_key h) (lh_hash h) e)
     | Some e \<Rightarrow> e \<in> members s hp \<and> key_is hp (lh_key h) (lh_hash h) e \<and> ht_inv hp t (members s hp - {e})"
    using HandleTable_Remove_spec [OF li(2)] by blast
  have "key_is hp (lh_key h) (lh_hash h) e" using h by (simp add: key_is_def)
  then obtain e' where e': "r = Some e'" using rm(2) e(1) by (cases r) auto
  then have "e' = e" using rm(2) key_is_members [OF hp li(3) e(1) _ h, of e'] by simp
  then have r: "r = Some e" "ht_inv hp t (members s hp - {e})" using e' rm(2) by simp_all
  have "lists_inv s hp (c\<lparr>lc_table := t\<rparr>)" using li(1) by (simp add: lists_inv_def)
  from FinishErase_inv [OF this _ inj_on_subset [OF li(3)] hp e(1) h] r(2) obtain c' where
    c': "FinishErase (Some e) hp (c\<lparr>lc_table := t\<rparr>) = Some (True, hp[e := erase_handle h], c')" "lru_inv s (hp[e := erase_handle h]) c'"
    "lc_capacity c' = lc_capacity c" "lc_lru c' = remove1 e (lc_lru c)" "lc_in_use c' = remove1 e (lc_in_use c)" "lc_usage c' = lc_usage c - lh_charge h" by auto
  have "e \<notin> set (lc_in_use c)" using li(1) e by (auto simp: lists_inv_def)
  then show ?thesis using c' h e(1) r1 rm(1) r(1) lru
    by (intro exI [of _ c'] exI [of _ h]) (simp add: evict_oldest_def erase_handle_def remove1_idem)
qed

text \<open>Eviction removes a prefix of the list of entries that are not in use, and no more than necessary.\<close>

definition evicted :: "nat \<Rightarrow> 'v heap \<Rightarrow> 'v heap \<Rightarrow> nat list \<Rightarrow> bool" where
  "evicted s hp hp' es \<longleftrightarrow> set es \<subseteq> {e \<in> members s hp. hrefs hp e = 1} \<and>
     (\<forall>e. deref hp' e = (if e \<in> set es then None else deref hp e))"

lemma evicted_Cons:
  assumes e: "deref hp e = Some h" "e \<in> members s hp" "lh_refs h = 1" and ev: "evicted s (hp[e := None]) hp' es"
  shows "evicted s hp hp' (e # es)"
proof -
  have "x \<in> members s hp \<and> hrefs hp x = 1" if "x \<in> set es" for x
  proof -
    have "x \<in> members s (hp[e := None])" "hrefs (hp[e := None]) x = 1" using ev that by (auto simp: evicted_def)
    then show ?thesis by (auto simp: members_update [OF e(1)] hrefs_update [OF e(1)] split: if_splits)
  qed
  moreover have "deref hp' x = (if x \<in> set (e # es) then None else deref hp x)" for x
    using ev by (simp add: evicted_def deref_update [OF e(1)])
  ultimately show ?thesis using e by (auto simp: evicted_def)
qed

lemma evict_loop_inv:
  assumes "lru_inv s hp c" and "heap_ok hp"
  shows "\<exists>hp' c' n. evict_loop cap hp c = Some (hp', c') \<and> lru_inv s hp' c' \<and> lc_capacity c' = lc_capacity c \<and> n \<le> length (lc_lru c) \<and>
    lc_lru c' = drop n (lc_lru c) \<and> lc_in_use c' = lc_in_use c \<and> evicted s hp hp' (take n (lc_lru c)) \<and> length hp' = length hp \<and>
    (lc_usage c' \<le> cap \<or> lc_lru c' = []) \<and> (\<forall>m < n. cap < lc_usage c - (\<Sum>e \<leftarrow> take m (lc_lru c). hcharge hp e)) \<and>
    lc_usage c' = lc_usage c - (\<Sum>e \<leftarrow> take n (lc_lru c). hcharge hp e)"
  using assms
proof (induction "lc_lru c" arbitrary: hp c)
  case Nil
  then show ?case by (subst evict_loop.simps) (simp add: evicted_def)
next
  case (Cons e es)
  from evict_oldest_inv [OF Cons.prems(1,2) Cons.hyps(2) [symmetric]] obtain c1 h where
    ev: "deref hp e = Some h" "e \<in> members s hp" "lh_refs h = 1" "evict_oldest hp c = Some (hp[e := None], c1)" "lru_inv s (hp[e := None]) c1"
    "lc_capacity c1 = lc_capacity c" "lc_lru c1 = es" "lc_in_use c1 = lc_in_use c" "lc_usage c1 = lc_usage c - lh_charge h" by blast
  have lru: "lc_lru c = e # es" using Cons.hyps(2) by simp
  have "distinct (e # es)" using Cons.prems(1) lru by (simp add: lru_inv_def lists_inv_def)
  then have ne: "e \<notin> set es" by simp
  have ch: "(\<Sum>x \<leftarrow> xs. hcharge (hp[e := None]) x) = (\<Sum>x \<leftarrow> xs. hcharge hp x)" if "set xs \<subseteq> set es" for xs
    by (rule arg_cong [of _ _ sum_list], rule map_cong) (use that ne in \<open>auto simp: hrefs_update [OF ev(1)]\<close>)
  show ?case
  proof (cases "lc_usage c > cap")
    case False
    then show ?thesis using Cons.prems by (subst evict_loop.simps) (auto intro!: exI [of _ "0 :: nat"] simp: evicted_def)
  next
    case True
    have ok1: "heap_ok (hp[e := None])" using Cons.prems(2) ev(1) by (auto simp: heap_ok_def deref_update split: if_splits)
    from Cons.hyps(1) [OF ev(7) [symmetric] ev(5) ok1] obtain hp' c' n where
      r: "evict_loop cap (hp[e := None]) c1 = Some (hp', c')" "lru_inv s hp' c'" "lc_capacity c' = lc_capacity c1" "n \<le> length es"
      "lc_lru c' = drop n es" "lc_in_use c' = lc_in_use c1" "evicted s (hp[e := None]) hp' (take n es)" "length hp' = length hp"
      "lc_usage c' \<le> cap \<or> lc_lru c' = []" "\<forall>m < n. cap < lc_usage c1 - (\<Sum>x \<leftarrow> take m es. hcharge (hp[e := None]) x)"
      "lc_usage c' = lc_usage c1 - (\<Sum>x \<leftarrow> take n es. hcharge (hp[e := None]) x)" unfolding ev(7) length_list_update by blast
    have "evicted s hp hp' (e # take n es)" by (rule evicted_Cons [OF ev(1-3) r(7)])
    moreover have "cap < lc_usage c - (\<Sum>x \<leftarrow> take m (e # es). hcharge hp x)" if "m < Suc n" for m
    proof (cases m)
      case (Suc m')
      then have "cap < lc_usage c1 - (\<Sum>x \<leftarrow> take m' es. hcharge (hp[e := None]) x)" using r(10) that by simp
      then show ?thesis using Suc ev(1,9) unfolding ch [OF set_take_subset, of m'] by (simp add: diff_diff_left)
    qed (use True in simp)
    moreover have "lc_usage c' = lc_usage c - (\<Sum>x \<leftarrow> e # take n es. hcharge hp x)"
      using r(11) ev(1,9) ch [OF set_take_subset, of n] by (simp add: diff_diff_left)
    moreover have "evict_loop cap hp c = Some (hp', c')" using True lru ev(4) r(1) by (subst evict_loop.simps) simp
    ultimately show ?thesis using r(2-6,8,9) ev(6-8) lru
      by (intro exI [of _ hp'] exI [of _ c'] exI [of _ "Suc n"]) simp
  qed
qed

subsection \<open>Insertion\<close>

lemma deref_end [simp]: "deref hp (length hp) = None"
  by (simp add: deref_def)

lemma only_shard_append: "Shard (lh_hash h) = s \<Longrightarrow> only_shard s hp (hp @ [Some h])"
  by (auto simp: only_shard_def deref_append)

lemma members_append: "members s (hp @ [Some h]) =
    (if Shard (lh_hash h) = s \<and> lh_in_cache h then insert (length hp) (members s hp) else members s hp)"
  by (auto simp: members_def deref_append)

lemma members_less: "e \<in> members s hp \<Longrightarrow> e < length hp"
  by (auto simp: members_def deref_def split: if_splits)

lemma append_same:
  assumes "e \<in> members s hp"
  shows "deref (hp @ [x]) e = deref hp e" "hrefs (hp @ [x]) e = hrefs hp e" "hcharge (hp @ [x]) e = hcharge hp e" "hkey (hp @ [x]) e = hkey hp e"
  using members_less [OF assms] by (simp_all add: hrefs_def hcharge_def hkey_def deref_append)

lemma ht_inv_append: "ht_inv hp t (members s hp) \<Longrightarrow> ht_inv (hp @ [x]) t (members s hp)"
  by (erule ht_inv_frame) (simp add: append_same)

lemma lists_inv_append_in:
  assumes inv: "lists_inv s hp c" and h: "Shard (lh_hash h) = s" "lh_in_cache h" "lh_refs h = 2" and cap: "0 < lc_capacity c"
  shows "lists_inv s (hp @ [Some h]) (c\<lparr>lc_in_use := lc_in_use c @ [length hp], lc_usage := lc_usage c + lh_charge h\<rparr>)"
proof -
  let ?hp = "hp @ [Some h]" and ?M = "members s hp"
  have l: "distinct (lc_lru c)" "distinct (lc_in_use c)" "set (lc_lru c) = {e \<in> ?M. hrefs hp e = 1}"
    "set (lc_in_use c) = {e \<in> ?M. hrefs hp e \<noteq> 1}" "lc_usage c = (\<Sum>e \<in> ?M. hcharge hp e)" using inv by (auto simp: lists_inv_def)
  have m: "members s ?hp = insert (length hp) ?M" and ne: "length hp \<notin> ?M" using h members_less by (auto simp: members_append)
  have new: "hrefs ?hp (length hp) = 2" "hcharge ?hp (length hp) = lh_charge h" using h by (simp_all add: hrefs_def hcharge_def deref_append)
  have "set (lc_lru c) = {e \<in> insert (length hp) ?M. hrefs ?hp e = 1}" unfolding l(3) using new append_same(2) [of _ s hp "Some h"] by auto
  moreover have "insert (length hp) (set (lc_in_use c)) = {e \<in> insert (length hp) ?M. hrefs ?hp e \<noteq> 1}" unfolding l(4) using new append_same(2) [of _ s hp "Some h"] by auto
  moreover have "(\<Sum>e \<in> ?M. hcharge ?hp e) = (\<Sum>e \<in> ?M. hcharge hp e)" by (rule sum.cong) (simp_all add: append_same(3))
  moreover have "length hp \<notin> set (lc_in_use c)" using l(4) ne by auto
  ultimately show ?thesis using l(1,2,5) ne cap new by (simp add: lists_inv_def m)
qed

lemma lru_inv_append_out:
  assumes inv: "lru_inv s hp c" and h: "\<not> lh_in_cache h"
  shows "lru_inv s (hp @ [Some h]) c"
proof -
  let ?hp = "hp @ [Some h]"
  have m: "members s ?hp = members s hp" using h by (simp add: members_append)
  have "(\<Sum>e \<in> members s hp. hcharge ?hp e) = (\<Sum>e \<in> members s hp. hcharge hp e)" by (rule sum.cong) (simp_all add: append_same(3))
  moreover have "inj_on (hkey ?hp) (members s hp) = inj_on (hkey hp) (members s hp)" by (rule inj_on_cong) (rule append_same(4))
  moreover have "{e \<in> members s hp. hrefs ?hp e = 1} = {e \<in> members s hp. hrefs hp e = 1}"
    "{e \<in> members s hp. hrefs ?hp e \<noteq> 1} = {e \<in> members s hp. hrefs hp e \<noteq> 1}" using append_same(2) [of _ s hp "Some h"] by auto
  ultimately show ?thesis using inv ht_inv_append [of hp "lc_table c" s "Some h"] by (simp add: lru_inv_def lists_inv_def m)
qed

text \<open>The new entry enters the cache; an older one of the same key leaves it.\<close>

lemma insert_cached_inv:
  assumes inv: "lru_inv s hp c" and hp: "heap_ok hp" and cap: "0 < lc_capacity c"
    and h: "Shard (lh_hash h) = s" "lh_in_cache h" "lh_refs h = 2" "lh_hash h = HashSlice (lh_key h)"
  shows "\<exists>old t b hp1 c1. HandleTable_Insert (hp @ [Some h]) (length hp) (lc_table c) = Some (old, t) \<and>
    FinishErase old (hp @ [Some h]) (c\<lparr>lc_in_use := lc_in_use c @ [length hp], lc_usage := lc_usage c + lh_charge h, lc_table := t\<rparr>) =
      Some (b, hp1, c1) \<and> lru_inv s hp1 c1 \<and> lc_capacity c1 = lc_capacity c \<and>
    (\<forall>e \<in> members s hp. hkey hp e = lh_key h \<longrightarrow> old = Some e) \<and>
    (case old of None \<Rightarrow> hp1 = hp @ [Some h]
     | Some e \<Rightarrow> e \<in> members s hp \<and> hp1 = (hp @ [Some h])[e := erase_handle (the (deref hp e))])"
proof -
  let ?hp = "hp @ [Some h]" and ?M = "members s hp"
  let ?c = "c\<lparr>lc_in_use := lc_in_use c @ [length hp], lc_usage := lc_usage c + lh_charge h\<rparr>"
  have li: "lists_inv s hp c" "ht_inv hp (lc_table c) ?M" "inj_on (hkey hp) ?M" using inv by (auto simp: lru_inv_def)
  have m: "members s ?hp = insert (length hp) ?M" and ne: "length hp \<notin> ?M" using h members_less by (auto simp: members_append)
  have okh: "heap_ok ?hp" using hp h by (auto simp: heap_ok_def deref_append split: if_splits)
  have d: "deref ?hp (length hp) = Some h" by (simp add: deref_append)
  have key: "key_is ?hp (lh_key h) (lh_hash h) e \<longleftrightarrow> hkey hp e = lh_key h" if e: "e \<in> ?M" for e
  proof -
    obtain h' where "deref hp e = Some h'" using e by (auto simp: members_def)
    then show ?thesis using append_same(1) [OF e] hp h(4) by (auto simp: key_is_def heap_ok_def)
  qed
  have injk: "inj_on (hkey ?hp) ?M" using li(3) inj_on_cong [of ?M "hkey ?hp" "hkey hp"] append_same(4) [of _ s hp "Some h"] by metis
  have kn: "hkey ?hp (length hp) = lh_key h" using d by simp
  from HandleTable_Insert_spec [OF ht_inv_append [OF li(2)] ne d] obtain old t where ins: "HandleTable_Insert ?hp (length hp) (lc_table c) = Some (old, t)"
    "case old of None \<Rightarrow> (\<forall>e \<in> ?M. \<not> key_is ?hp (lh_key h) (lh_hash h) e) \<and> ht_inv ?hp t (insert (length hp) ?M)
     | Some old \<Rightarrow> old \<in> ?M \<and> key_is ?hp (lh_key h) (lh_hash h) old \<and> ht_inv ?hp t (insert (length hp) (?M - {old}))" by blast
  have lt: "lists_inv s ?hp (?c\<lparr>lc_table := t\<rparr>)" using lists_inv_append_in [OF li(1) h(1-3) cap] by (simp add: lists_inv_def)
  show ?thesis
  proof (cases old)
    case None
    then have no: "\<forall>e \<in> ?M. hkey hp e \<noteq> lh_key h" "ht_inv ?hp t (insert (length hp) ?M)" using ins(2) key by auto
    have "inj_on (hkey ?hp) (insert (length hp) ?M)" using injk no(1) append_same(4) [of _ s hp "Some h"] ne kn by (auto simp: inj_on_insert)
    then have "lru_inv s ?hp (?c\<lparr>lc_table := t\<rparr>)" using lt no(2) by (simp add: lru_inv_def m)
    then show ?thesis using ins(1) None no(1) by (auto simp: FinishErase_def)
  next
    case (Some e)
    then have e: "e \<in> ?M" "hkey hp e = lh_key h" "ht_inv ?hp t (insert (length hp) (?M - {e}))" using ins(2) key by auto
    have uniq: "e' = e" if "e' \<in> ?M" "hkey hp e' = lh_key h" for e' using inj_onD [OF li(3), of e' e] that e(1,2) by simp
    obtain he where he: "deref hp e = Some he" using e(1) by (auto simp: members_def)
    have d2: "deref ?hp e = Some he" using append_same(1) [OF e(1)] he by simp
    have m2: "members s ?hp - {e} = insert (length hp) (?M - {e})" using m ne e(1) by auto
    have nk: "hkey ?hp (length hp) \<notin> hkey ?hp ` (?M - {e} - {length hp})" using uniq append_same(4) [of _ s hp "Some h"] kn by auto
    have "inj_on (hkey ?hp) (insert (length hp) (?M - {e}))" unfolding inj_on_insert using inj_on_subset [OF injk, of "?M - {e}"] nk by blast
    then have in2: "inj_on (hkey ?hp) (members s ?hp - {e})" by (simp only: m2)
    have ht2: "ht_inv ?hp (lc_table (?c\<lparr>lc_table := t\<rparr>)) (members s ?hp - {e})" using e(3) by (simp add: m2)
    have em: "e \<in> members s ?hp" using e(1) by (simp add: m)
    from FinishErase_inv [OF lt ht2 in2 okh em d2] obtain c1 where
      fe: "FinishErase (Some e) ?hp (?c\<lparr>lc_table := t\<rparr>) = Some (True, ?hp[e := erase_handle he], c1)" "lru_inv s (?hp[e := erase_handle he]) c1"
      "lc_capacity c1 = lc_capacity (?c\<lparr>lc_table := t\<rparr>)" by (elim exE conjE) (rule that)
    show ?thesis
    proof (intro exI conjI)
      show "HandleTable_Insert ?hp (length hp) (lc_table c) = Some (old, t)" by (rule ins(1))
      show "FinishErase old ?hp (c\<lparr>lc_in_use := lc_in_use c @ [length hp], lc_usage := lc_usage c + lh_charge h, lc_table := t\<rparr>) =
        Some (True, ?hp[e := erase_handle he], c1)" using fe(1) unfolding Some by simp
      show "lru_inv s (?hp[e := erase_handle he]) c1" by (rule fe(2))
      show "lc_capacity c1 = lc_capacity c" using fe(3) by simp
      show "\<forall>e' \<in> ?M. hkey hp e' = lh_key h \<longrightarrow> old = Some e'" using uniq unfolding Some by blast
      show "case old of None \<Rightarrow> ?hp[e := erase_handle he] = ?hp
        | Some e' \<Rightarrow> e' \<in> ?M \<and> ?hp[e := erase_handle he] = ?hp[e' := erase_handle (the (deref hp e'))]" using e(1) he unfolding Some by simp
    qed
  qed
qed

text \<open>What an operation may do to the handles of clients: nothing but what it is for.\<close>

definition ext_refs :: "'v LRUHandle option \<Rightarrow> nat" where
  "ext_refs ho = (case ho of None \<Rightarrow> 0 | Some h \<Rightarrow> lh_refs h - (if lh_in_cache h then 1 else 0))"

definition quiet :: "'v LRUHandle option \<Rightarrow> 'v LRUHandle option \<Rightarrow> bool" where
  "quiet a b \<longleftrightarrow> ext_refs b = ext_refs a \<and> (0 < ext_refs a \<longrightarrow> map_option lh_value b = map_option lh_value a) \<and>
     (\<forall>h. b = Some h \<and> lh_in_cache h \<longrightarrow> a = Some h)"

lemma quiet_refl [simp]: "quiet a a"
  by (simp add: quiet_def)

lemma quiet_trans: "quiet a b \<Longrightarrow> quiet b c \<Longrightarrow> quiet a c"
  by (auto simp: quiet_def)

lemma quiet_erase: "lh_in_cache h \<Longrightarrow> quiet (Some h) (erase_handle h)"
  by (auto simp: quiet_def erase_handle_def ext_refs_def)

lemma evicted_quiet: "evicted s hp hp' es \<Longrightarrow> quiet (deref hp e) (deref hp' e)"
  by (auto simp: evicted_def quiet_def ext_refs_def members_def hrefs_def split: option.splits if_splits)

lemma evicted_frame: "evicted s hp hp' es \<Longrightarrow> heap_ok hp \<Longrightarrow> only_shard s hp hp' \<and> heap_ok hp'"
  by (auto simp: evicted_def only_shard_def heap_ok_def members_def split: if_splits)

definition inserted :: "nat \<Rightarrow> slice \<Rightarrow> 'v \<Rightarrow> bool \<Rightarrow> 'v heap \<Rightarrow> 'v heap \<Rightarrow> bool" where
  "inserted s key v into hp hp' \<longleftrightarrow> (\<forall>e. e \<noteq> length hp \<longrightarrow> quiet (deref hp e) (deref hp' e)) \<and>
     (\<forall>e \<in> members s hp'. hkey hp' e = key \<longrightarrow> e = length hp) \<and>
     (\<exists>h. deref hp' (length hp) = Some h \<and> lh_value h = v \<and> lh_key h = key \<and> ext_refs (Some h) = 1 \<and> lh_in_cache h = into)"

lemma insert_entry_inv:
  assumes inv: "lru_inv s hp c" and hp: "heap_ok hp" and key: "hash = HashSlice key" "Shard hash = s"
  shows "\<exists>hp1 c1. insert_entry key hash v n hp c = Some (hp1, c1) \<and> lru_inv s hp1 c1 \<and> heap_ok hp1 \<and> only_shard s hp hp1 \<and>
    lc_capacity c1 = lc_capacity c \<and> inserted s key v (0 < lc_capacity c) hp hp1"
proof (cases "0 < lc_capacity c")
  case False
  let ?h = "\<lparr>lh_value = v, lh_charge = n, lh_in_cache = False, lh_refs = 1, lh_hash = hash, lh_key = key\<rparr>"
  have m: "members s hp = {}" using inv False by (simp add: lru_inv_def lists_inv_def)
  have "members s (hp @ [Some ?h]) = {}" by (simp add: members_append m)
  then have "inserted s key v False hp (hp @ [Some ?h])" by (simp add: inserted_def deref_append ext_refs_def)
  moreover have "heap_ok (hp @ [Some ?h])" using hp key by (simp add: heap_ok_def deref_append)
  moreover have "only_shard s hp (hp @ [Some ?h])" using key by (simp add: only_shard_append)
  ultimately show ?thesis using False lru_inv_append_out [OF inv, of ?h] by (simp add: insert_entry_def)
next
  case True
  let ?h = "\<lparr>lh_value = v, lh_charge = n, lh_in_cache = True, lh_refs = 2, lh_hash = hash, lh_key = key\<rparr>"
  let ?hp = "hp @ [Some ?h]"
  from insert_cached_inv [OF inv hp True, of ?h] key obtain old t b hp1 c1 where
    i: "HandleTable_Insert ?hp (length hp) (lc_table c) = Some (old, t)"
    "FinishErase old ?hp (c\<lparr>lc_in_use := lc_in_use c @ [length hp], lc_usage := lc_usage c + n, lc_table := t\<rparr>) = Some (b, hp1, c1)"
    "lru_inv s hp1 c1" "lc_capacity c1 = lc_capacity c" "\<forall>e \<in> members s hp. hkey hp e = key \<longrightarrow> old = Some e"
    "case old of None \<Rightarrow> hp1 = ?hp | Some e \<Rightarrow> e \<in> members s hp \<and> hp1 = ?hp[e := erase_handle (the (deref hp e))]" by auto
  have run: "insert_entry key hash v n hp c = Some (hp1, c1)" using True i(1,2) by (simp add: insert_entry_def)
  have d: "deref hp1 e = (if e = length hp then Some ?h else if old = Some e then erase_handle (the (deref hp e)) else deref hp e)" for e
  proof (cases old)
    case (Some o')
    then have o: "o' \<in> members s hp" "hp1 = ?hp[o' := erase_handle (the (deref hp o'))]" using i(6) by simp_all
    then obtain ho where "deref ?hp o' = Some ho" using append_same(1) [OF o(1)] by (auto simp: members_def)
    then show ?thesis using Some o members_less [OF o(1)] by (auto simp: deref_update deref_append)
  qed (use i(6) in \<open>simp add: deref_append\<close>)
  have old: "\<exists>h. deref hp e = Some h \<and> lh_in_cache h \<and> Shard (lh_hash h) = s" if "old = Some e" for e
    using i(6) that by (auto simp: members_def)
  have q: "quiet (deref hp e) (deref hp1 e)" if "e \<noteq> length hp" for e
    using that old [of e] quiet_erase by (auto simp: d)
  have ok1: "heap_ok hp1" using hp key old by (fastforce simp: heap_ok_def d erase_handle_def split: if_splits)
  have only: "only_shard s hp hp1" using key old by (fastforce simp: only_shard_def d erase_handle_def split: if_splits)
  have "e = length hp" if "e \<in> members s hp1" "hkey hp1 e = key" for e
  proof (rule ccontr)
    assume ne: "e \<noteq> length hp"
    obtain h where h: "deref hp1 e = Some h" "lh_in_cache h" "Shard (lh_hash h) = s" using \<open>e \<in> members s hp1\<close> by (auto simp: members_def)
    then have h0: "deref hp e = Some h" using q [OF ne] by (auto simp: quiet_def)
    then have "e \<in> members s hp" "hkey hp e = key" using h \<open>hkey hp1 e = key\<close> by (auto simp: members_def)
    then have "old = Some e" using i(5) by blast
    then have "erase_handle h = Some h" using d [of e] h(1) ne h0 by simp
    then show False using h(2) by (cases h) (auto simp: erase_handle_def split: if_splits)
  qed
  moreover have "deref hp1 (length hp) = Some ?h" by (simp add: d)
  ultimately have "inserted s key v True hp hp1" using q unfolding inserted_def by (simp add: ext_refs_def)
  then show ?thesis using run i(3,4) True ok1 only by (intro exI [of _ hp1] exI [of _ c1]) simp
qed

lemma LRU_Insert_inv:
  assumes inv: "lru_inv s hp c" and hp: "heap_ok hp" and key: "hash = HashSlice key" "Shard hash = s"
  shows "\<exists>hp' c'. LRU_Insert key hash v n hp c = Some (length hp, hp', c') \<and> lru_inv s hp' c' \<and> heap_ok hp' \<and> only_shard s hp hp' \<and>
    lc_capacity c' = lc_capacity c \<and> (lc_usage c' \<le> lc_capacity c \<or> lc_lru c' = []) \<and> inserted s key v (0 < lc_capacity c) hp hp'"
proof -
  from insert_entry_inv [OF inv hp key] obtain hp1 c1 where i: "insert_entry key hash v n hp c = Some (hp1, c1)" "lru_inv s hp1 c1" "heap_ok hp1"
    "only_shard s hp hp1" "lc_capacity c1 = lc_capacity c" "inserted s key v (0 < lc_capacity c) hp hp1" by blast
  from evict_loop_inv [OF i(2,3), of "lc_capacity c1"] obtain hp' c' es where ev: "evict_loop (lc_capacity c1) hp1 c1 = Some (hp', c')" "lru_inv s hp' c'"
    "lc_capacity c' = lc_capacity c1" "evicted s hp1 hp' es" "lc_usage c' \<le> lc_capacity c1 \<or> lc_lru c' = []" by blast
  have f: "only_shard s hp1 hp'" "heap_ok hp'" using evicted_frame [OF ev(4) i(3)] by auto
  obtain h where h: "deref hp1 (length hp) = Some h" "lh_value h = v" "lh_key h = key" "ext_refs (Some h) = 1" "lh_in_cache h = (0 < lc_capacity c)"
    using i(6) by (auto simp: inserted_def)
  then have "length hp \<notin> set es" using ev(4) by (auto simp: evicted_def members_def ext_refs_def)
  then have h': "deref hp' (length hp) = Some h" using ev(4) h(1) by (simp add: evicted_def)
  have "quiet (deref hp e) (deref hp' e)" if "e \<noteq> length hp" for e
    using quiet_trans [OF _ evicted_quiet [OF ev(4)]] i(6) that by (auto simp: inserted_def)
  moreover have "e = length hp" if "e \<in> members s hp'" "hkey hp' e = key" for e
  proof -
    have "deref hp1 e = deref hp' e" using that(1) ev(4) by (auto simp: members_def evicted_def split: if_splits)
    then show ?thesis using i(6) that by (auto simp: inserted_def members_def hkey_def)
  qed
  ultimately have "inserted s key v (0 < lc_capacity c) hp hp'" using h h' by (auto simp: inserted_def)
  then show ?thesis using i(1,5) ev f only_shard_trans [OF i(4) f(1)] by (simp add: LRU_Insert_def)
qed

end
