(* ===== verification/Ldb_CacheSharded.thy ===== *)
theory Ldb_CacheSharded
  imports Ldb_CacheInv
begin

text \<open>
  The remaining operations of a shard keep its invariant, and the sixteen shards together are a cache in the
  sense of \<open>lookup_cache\<close>: the operations of one shard leave the handles of the others alone.
\<close>

subsection \<open>Lookup, release, erase and prune in a shard\<close>

lemma heap_okD: "heap_ok hp \<Longrightarrow> deref hp e = Some h \<Longrightarrow> 1 \<le> lh_refs h \<and> lh_hash h = HashSlice (lh_key h)"
  by (simp add: heap_ok_def)

lemma heap_ok_update: "heap_ok hp \<Longrightarrow> deref hp e = Some h \<Longrightarrow> (\<And>h'. x = Some h' \<Longrightarrow> 1 \<le> lh_refs h' \<and> lh_hash h' = HashSlice (lh_key h')) \<Longrightarrow>
    heap_ok (hp[e := x])"
  unfolding heap_ok_def by (auto simp: deref_update)

lemma in_members: "heap_ok hp \<Longrightarrow> e \<in> members (Shard (HashSlice key)) hp \<and> hkey hp e = key \<longleftrightarrow>
    (\<exists>h. deref hp e = Some h \<and> lh_in_cache h \<and> lh_key h = key)"
  by (auto simp: members_def heap_ok_def)

lemma key_absent:
  assumes "heap_ok hp" and no: "\<forall>e \<in> members (Shard (HashSlice key)) hp. \<not> key_is hp key (HashSlice key) e" and d: "deref hp e = Some h" "lh_in_cache h"
  shows "lh_key h \<noteq> key"
proof
  assume k: "lh_key h = key"
  then have "e \<in> members (Shard (HashSlice key)) hp" "key_is hp key (HashSlice key) e"
    using heap_okD [OF assms(1) d(1)] d by (auto simp: members_def key_is_def)
  then show False using no by blast
qed

lemma LRU_Lookup_inv:
  assumes inv: "lru_inv s hp c" and hp: "heap_ok hp" and key: "hash = HashSlice key" "Shard hash = s"
  shows "\<exists>r hp' c'. LRU_Lookup key hash hp c = Some (r, hp', c') \<and> lru_inv s hp' c' \<and> heap_ok hp' \<and> only_shard s hp hp' \<and>
    (case r of None \<Rightarrow> hp' = hp \<and> (\<forall>e h. deref hp e = Some h \<and> lh_in_cache h \<longrightarrow> lh_key h \<noteq> key)
     | Some e \<Rightarrow> \<exists>h. deref hp e = Some h \<and> lh_in_cache h \<and> lh_key h = key \<and> hp' = hp[e := Some (h\<lparr>lh_refs := Suc (lh_refs h)\<rparr>)])"
proof -
  have "ht_inv hp (lc_table c) (members s hp)" using inv by (simp add: lru_inv_def)
  from HandleTable_Lookup_spec [OF this, of key hash] obtain r where r: "HandleTable_Lookup hp key hash (lc_table c) = Some r"
    "case r of None \<Rightarrow> \<forall>e \<in> members s hp. \<not> key_is hp key hash e | Some e \<Rightarrow> e \<in> members s hp \<and> key_is hp key hash e" by blast
  show ?thesis
  proof (cases r)
    case None
    then have "\<forall>e h. deref hp e = Some h \<and> lh_in_cache h \<longrightarrow> lh_key h \<noteq> key"
      using key_absent [OF hp, of key] r(2) key by fastforce
    then show ?thesis using r(1) None inv hp by (simp add: LRU_Lookup_def)
  next
    case (Some e)
    then obtain h where e: "e \<in> members s hp" "deref hp e = Some h" "lh_key h = key" using r(2) by (auto simp: key_is_def)
    then have h: "lh_in_cache h" "Shard (lh_hash h) = s" by (auto simp: members_def)
    let ?hp = "hp[e := Some (h\<lparr>lh_refs := Suc (lh_refs h)\<rparr>)]"
    from Ref_inv [OF inv hp e(1,2)] obtain c' where c': "LRU_Ref e hp c = Some (?hp, c')" "lru_inv s ?hp c'" by blast
    have "heap_ok ?hp" using heap_okD [OF hp e(2)] by (intro heap_ok_update [OF hp e(2)]) auto
    moreover have "only_shard s hp ?hp" using h by (intro only_shard_update [OF e(2)]) auto
    ultimately show ?thesis using r(1) Some c' e h by (simp add: LRU_Lookup_def)
  qed
qed

lemma LRU_Release_inv:
  assumes inv: "lru_inv s hp c" and hp: "heap_ok hp" and e: "deref hp e = Some h" "Shard (lh_hash h) = s" and ext: "0 < ext_refs (Some h)"
  shows "\<exists>c'. LRU_Release e hp c = Some (hp[e := unref_handle h], c') \<and> lru_inv s (hp[e := unref_handle h]) c' \<and>
    heap_ok (hp[e := unref_handle h]) \<and> only_shard s hp (hp[e := unref_handle h])"
proof -
  have x: "lh_in_cache h \<Longrightarrow> 2 \<le> lh_refs h" using ext by (simp add: ext_refs_def)
  have "heap_ok (hp[e := unref_handle h])" using heap_okD [OF hp e(1)] by (intro heap_ok_update [OF hp e(1)]) (auto simp: unref_handle_def split: if_splits)
  moreover have "only_shard s hp (hp[e := unref_handle h])" using e by (intro only_shard_update [OF e(1)]) (auto simp: unref_handle_def)
  ultimately show ?thesis using Unref_inv [OF inv hp e x] by (auto simp: LRU_Release_def)
qed

definition erased :: "slice \<Rightarrow> 'v heap \<Rightarrow> 'v heap \<Rightarrow> bool" where
  "erased key hp hp' \<longleftrightarrow> (\<forall>e. quiet (deref hp e) (deref hp' e)) \<and> (\<forall>e h. deref hp' e = Some h \<and> lh_in_cache h \<longrightarrow> lh_key h \<noteq> key) \<and>
     (\<forall>e h. deref hp e = Some h \<and> lh_key h \<noteq> key \<longrightarrow> deref hp' e = Some h)"

lemma heap_ok_erase:
  assumes "heap_ok hp" and "deref hp e = Some h" and "lh_in_cache h"
  shows "heap_ok (hp[e := erase_handle h])" "only_shard (Shard (lh_hash h)) hp (hp[e := erase_handle h])"
    "quiet (deref hp e') (deref (hp[e := erase_handle h]) e')"
proof -
  show "heap_ok (hp[e := erase_handle h])"
    using heap_okD [OF assms(1,2)] by (intro heap_ok_update [OF assms(1,2)]) (auto simp: erase_handle_def split: if_splits)
  show "only_shard (Shard (lh_hash h)) hp (hp[e := erase_handle h])" by (intro only_shard_update [OF assms(2)]) (auto simp: erase_handle_def split: if_splits)
  show "quiet (deref hp e') (deref (hp[e := erase_handle h]) e')" using quiet_erase [OF assms(3)] assms(2) by (simp add: deref_update [OF assms(2)])
qed

lemma LRU_Erase_inv:
  assumes inv: "lru_inv s hp c" and hp: "heap_ok hp" and key: "hash = HashSlice key" "Shard hash = s"
  shows "\<exists>hp' c'. LRU_Erase key hash hp c = Some (hp', c') \<and> lru_inv s hp' c' \<and> heap_ok hp' \<and> only_shard s hp hp' \<and> erased key hp hp'"
proof -
  have li: "lists_inv s hp c" "ht_inv hp (lc_table c) (members s hp)" "inj_on (hkey hp) (members s hp)" using inv by (auto simp: lru_inv_def)
  from HandleTable_Remove_spec [OF li(2), of key hash] obtain r t where r: "HandleTable_Remove hp key hash (lc_table c) = Some (r, t)"
    "case r of None \<Rightarrow> t = lc_table c \<and> (\<forall>e \<in> members s hp. \<not> key_is hp key hash e)
     | Some e \<Rightarrow> e \<in> members s hp \<and> key_is hp key hash e \<and> ht_inv hp t (members s hp - {e})" by blast
  show ?thesis
  proof (cases r)
    case None
    then have "\<forall>e h. deref hp e = Some h \<and> lh_in_cache h \<longrightarrow> lh_key h \<noteq> key"
      using key_absent [OF hp, of key] r(2) key by fastforce
    then have "erased key hp hp" by (simp add: erased_def)
    moreover have "lru_inv s hp (c\<lparr>lc_table := t\<rparr>)" using inv None r(2) by simp
    ultimately show ?thesis using r None hp by (simp add: LRU_Erase_def FinishErase_def)
  next
    case (Some e)
    then obtain h where e: "e \<in> members s hp" "deref hp e = Some h" "lh_key h = key" "ht_inv hp t (members s hp - {e})" using r(2) by (auto simp: key_is_def)
    then have h: "lh_in_cache h" "Shard (lh_hash h) = s" by (auto simp: members_def)
    let ?hp = "hp[e := erase_handle h]"
    have lt: "lists_inv s hp (c\<lparr>lc_table := t\<rparr>)" using li(1) by (simp add: lists_inv_def)
    from FinishErase_inv [OF lt _ inj_on_subset [OF li(3)] hp e(1,2)] e(4) obtain c' where
      c': "FinishErase (Some e) hp (c\<lparr>lc_table := t\<rparr>) = Some (True, ?hp, c')" "lru_inv s ?hp c'" by auto
    have "lh_key h' \<noteq> key" if "deref ?hp e' = Some h'" "lh_in_cache h'" for e' h'
    proof
      assume k: "lh_key h' = key"
      have ne: "e' \<noteq> e" using that by (auto simp: deref_update [OF e(2)] erase_handle_def split: if_splits)
      then have "e' \<in> members s hp \<and> hkey hp e' = key" using that k key in_members [OF hp, of e' key] by (auto simp: deref_update [OF e(2)])
      then show False using inj_onD [OF li(3), of e' e] e(1-3) ne by simp
    qed
    moreover have "deref ?hp e' = Some h'" if "deref hp e' = Some h'" "lh_key h' \<noteq> key" for e' h'
      using that e(2,3) by (auto simp: deref_update [OF e(2)])
    ultimately have "erased key hp ?hp" using heap_ok_erase(3) [OF hp e(2) h(1)] unfolding erased_def by blast
    then show ?thesis using r(1) Some c' heap_ok_erase [OF hp e(2) h(1)] h(2) by (simp add: LRU_Erase_def)
  qed
qed

lemma LRU_Prune_inv:
  assumes "lru_inv s hp c" and "heap_ok hp"
  shows "\<exists>hp' c'. LRU_Prune hp c = Some (hp', c') \<and> lru_inv s hp' c' \<and> lc_lru c' = [] \<and> evicted s hp hp' (lc_lru c)"
  using assms
proof (induction "lc_lru c" arbitrary: hp c)
  case Nil
  then show ?case unfolding LRU_Prune_def by (subst prune_loop.simps) (simp add: evicted_def)
next
  case (Cons e es)
  from evict_oldest_inv [OF Cons.prems(1,2) Cons.hyps(2) [symmetric]] obtain c1 h where
    ev: "deref hp e = Some h" "e \<in> members s hp" "lh_refs h = 1" "evict_oldest hp c = Some (hp[e := None], c1)" "lru_inv s (hp[e := None]) c1"
    "lc_lru c1 = es" by blast
  have ok1: "heap_ok (hp[e := None])" using Cons.prems(2) ev(1) by (auto simp: heap_ok_def deref_update split: if_splits)
  from Cons.hyps(1) [OF ev(6) [symmetric] ev(5) ok1] obtain hp' c' where
    r: "prune_loop (hp[e := None]) c1 = Some (hp', c')" "lru_inv s hp' c'" "lc_lru c' = []" "evicted s (hp[e := None]) hp' es"
    unfolding ev(6) LRU_Prune_def by blast
  have "LRU_Prune hp c = Some (hp', c')" unfolding LRU_Prune_def using Cons.hyps(2) ev(4) r(1) by (subst prune_loop.simps) auto
  moreover have "evicted s hp hp' (lc_lru c)" using evicted_Cons [OF ev(1-3) r(4)] Cons.hyps(2) by simp
  ultimately show ?case using r(2,3) by blast
qed

text \<open>The destructor of a shard frees its entries when no client holds one.\<close>

lemma free_entries_inv:
  assumes "distinct es" and "\<forall>e \<in> set es. \<exists>h. deref hp e = Some h \<and> lh_in_cache h \<and> lh_refs h = 1"
  shows "\<exists>hp'. free_entries es hp c = Some hp' \<and> (\<forall>e. deref hp' e = (if e \<in> set es then None else deref hp e))"
  using assms
proof (induction es arbitrary: hp)
  case (Cons e es)
  then obtain h where h: "deref hp e = Some h" "lh_in_cache h" "lh_refs h = 1" by auto
  have d: "deref (hp[e := None]) x = (if x = e then None else deref hp x)" for x by (rule deref_update [OF h(1)])
  have "\<exists>hp'. free_entries es (hp[e := None]) c = Some hp' \<and> (\<forall>x. deref hp' x = (if x \<in> set es then None else deref (hp[e := None]) x))"
    by (rule Cons.IH) (use Cons.prems in \<open>auto simp: d\<close>)
  moreover have "LRU_Unref e (hp[e := Some (h\<lparr>lh_in_cache := False\<rparr>)]) c = Some (hp[e := None], c)"
    using h by (simp add: LRU_Unref_def Let_def deref_update [OF h(1)])
  ultimately show ?case using h by (auto simp: d)
qed simp

lemma LRUCache_delete_inv:
  assumes inv: "lru_inv s hp c" and free: "lc_in_use c = []"
  shows "\<exists>hp'. LRUCache_delete hp c = Some hp' \<and> (\<forall>e. deref hp' e = (if e \<in> members s hp then None else deref hp e))"
proof -
  have l: "distinct (lc_lru c)" "set (lc_lru c) = {e \<in> members s hp. hrefs hp e = 1}" "{e \<in> members s hp. hrefs hp e \<noteq> 1} = {}"
    using inv free by (auto simp: lru_inv_def lists_inv_def)
  then have m: "set (lc_lru c) = members s hp" by auto
  have "\<forall>e \<in> set (lc_lru c). \<exists>h. deref hp e = Some h \<and> lh_in_cache h \<and> lh_refs h = 1" using l(2) by (auto simp: members_def)
  from free_entries_inv [OF l(1) this] show ?thesis using free m by (simp add: LRUCache_delete_def)
qed

subsection \<open>The sharded cache\<close>

definition sc_inv :: "'v ShardedLRUCache \<Rightarrow> bool" where
  "sc_inv sc \<longleftrightarrow> length (sc_shard sc) = kNumShards \<and> heap_ok (sc_heap sc) \<and> (\<forall>s < kNumShards. lru_inv s (sc_heap sc) (sc_shard sc ! s))"

definition sc_cached :: "'v ShardedLRUCache \<Rightarrow> slice \<Rightarrow> 'v \<Rightarrow> bool" where
  "sc_cached sc k v \<longleftrightarrow> (\<exists>e h. deref (sc_heap sc) e = Some h \<and> lh_in_cache h \<and> lh_key h = k \<and> lh_value h = v)"

text \<open>The references that clients hold.\<close>

definition sc_pins :: "'v ShardedLRUCache \<Rightarrow> nat multiset" where
  "sc_pins sc = (\<Sum>e < length (sc_heap sc). replicate_mset (ext_refs (deref (sc_heap sc) e)) e)"

lemma count_pins: "count (sc_pins sc) e = ext_refs (deref (sc_heap sc) e)"
proof -
  have "count (sc_pins sc) e = (\<Sum>x < length (sc_heap sc). if x = e then ext_refs (deref (sc_heap sc) e) else 0)"
    unfolding sc_pins_def count_sum by (rule sum.cong) auto
  then show ?thesis by (auto simp: deref_def ext_refs_def)
qed

lemma in_pins: "e \<in># sc_pins sc \<longleftrightarrow> 0 < ext_refs (deref (sc_heap sc) e)"
  by (simp flip: count_greater_zero_iff add: count_pins)

lemma pins_Some: "e \<in># sc_pins sc \<Longrightarrow> \<exists>h. deref (sc_heap sc) e = Some h"
  by (auto simp: in_pins ext_refs_def split: option.splits)

lemma Shard_less: "Shard hash < kNumShards"
proof -
  have "unat (drop_bit 28 hash) = unat hash div 2 ^ 28" unfolding unat_drop_bit_eq by (simp add: drop_bit_eq_div)
  moreover have "unat hash < 2 ^ 32" using unsigned_less [of hash] by simp
  ultimately show ?thesis by (simp add: Shard_def kNumShards_def kNumShardBits_def less_mult_imp_div_less)
qed

text \<open>An operation of one shard in the whole cache.\<close>

lemma on_shard_inv:
  assumes inv: "sc_inv sc" and s: "s < kNumShards"
    and f: "f (sc_heap sc) (sc_shard sc ! s) = Some (r, hp', c')" "lru_inv s hp' c'" "heap_ok hp'" "only_shard s (sc_heap sc) hp'"
  shows "\<exists>sc'. on_shard s f sc = Some (r, sc') \<and> sc_inv sc' \<and> sc_heap sc' = hp' \<and> sc_shard sc' = (sc_shard sc)[s := c']"
proof -
  let ?sc = "sc\<lparr>sc_heap := hp', sc_shard := (sc_shard sc)[s := c']\<rparr>"
  have l: "length (sc_shard sc) = kNumShards" using inv by (simp add: sc_inv_def)
  have "lru_inv t hp' ((sc_shard sc)[s := c'] ! t)" if "t < kNumShards" for t
    using f(2) lru_inv_frame [OF _ f(4), of t] inv that l by (cases "t = s") (auto simp: sc_inv_def)
  then have "sc_inv ?sc" using f(3) l by (simp add: sc_inv_def)
  then show ?thesis using f(1) s l by (simp add: on_shard_def)
qed

lemmas sc_invD = sc_inv_def [THEN iffD1]

lemma shard_inv: "sc_inv sc \<Longrightarrow> lru_inv (Shard hash) (sc_heap sc) (sc_shard sc ! Shard hash)" "sc_inv sc \<Longrightarrow> heap_ok (sc_heap sc)"
  using Shard_less by (auto simp: sc_inv_def)

text \<open>What clients see of a quiet change.\<close>

lemma quiet_pins: "(\<And>e. quiet (deref (sc_heap sc) e) (deref (sc_heap sc') e)) \<Longrightarrow> sc_pins sc' = sc_pins sc"
  by (rule multiset_eqI) (simp add: count_pins quiet_def)

lemma quiet_value: "quiet (deref (sc_heap sc) e) (deref (sc_heap sc') e) \<Longrightarrow> e \<in># sc_pins sc \<Longrightarrow> Sharded_Value e sc' = Sharded_Value e sc"
  by (simp add: in_pins quiet_def Sharded_Value_def)

lemma quiet_cached: "(\<And>e. quiet (deref (sc_heap sc) e) (deref (sc_heap sc') e)) \<Longrightarrow> sc_cached sc' k v \<Longrightarrow> sc_cached sc k v"
  unfolding sc_cached_def quiet_def by metis

definition shown :: "'v LRUHandle option \<Rightarrow> (slice \<times> 'v) option" where
  "shown ho = (case ho of None \<Rightarrow> None | Some h \<Rightarrow> if lh_in_cache h then Some (lh_key h, lh_value h) else None)"

lemma sc_cached_shown: "sc_cached sc k v \<longleftrightarrow> (\<exists>e. shown (deref (sc_heap sc) e) = Some (k, v))"
  by (auto simp: sc_cached_def shown_def split: option.splits if_splits)

lemma cached_eq: "(\<And>e. shown (deref (sc_heap sc') e) = shown (deref (sc_heap sc) e)) \<Longrightarrow> sc_cached sc' = sc_cached sc"
  by (simp add: fun_eq_iff sc_cached_shown)

lemma Sharded_Lookup_inv:
  assumes inv: "sc_inv sc"
  shows "\<exists>r sc'. Sharded_Lookup k sc = Some (r, sc') \<and> sc_inv sc' \<and> sc_cached sc' = sc_cached sc \<and>
    (\<forall>h \<in># sc_pins sc. Sharded_Value h sc' = Sharded_Value h sc) \<and>
    (case r of None \<Rightarrow> sc_pins sc' = sc_pins sc \<and> (\<forall>v. \<not> sc_cached sc k v)
     | Some h \<Rightarrow> sc_pins sc' = add_mset h (sc_pins sc) \<and> (\<exists>v. sc_cached sc k v \<and> Sharded_Value h sc' = Some v))"
proof -
  let ?s = "Shard (HashSlice k)"
  from LRU_Lookup_inv [OF shard_inv [OF inv] refl refl] obtain r hp' c' where
    l: "LRU_Lookup k (HashSlice k) (sc_heap sc) (sc_shard sc ! ?s) = Some (r, hp', c')" "lru_inv ?s hp' c'" "heap_ok hp'" "only_shard ?s (sc_heap sc) hp'"
    "case r of None \<Rightarrow> hp' = sc_heap sc \<and> (\<forall>e h. deref (sc_heap sc) e = Some h \<and> lh_in_cache h \<longrightarrow> lh_key h \<noteq> k)
     | Some e \<Rightarrow> \<exists>h. deref (sc_heap sc) e = Some h \<and> lh_in_cache h \<and> lh_key h = k \<and> hp' = (sc_heap sc)[e := Some (h\<lparr>lh_refs := Suc (lh_refs h)\<rparr>)]"
    by blast
  from on_shard_inv [where f = "LRU_Lookup k (HashSlice k)", OF inv Shard_less l(1-4)] obtain sc' where
    o: "Sharded_Lookup k sc = Some (r, sc')" "sc_inv sc'" "sc_heap sc' = hp'" by (auto simp: Sharded_Lookup_def Let_def)
  show ?thesis
  proof (cases r)
    case None
    then have h: "sc_heap sc' = sc_heap sc" "\<forall>v. \<not> sc_cached sc k v" using l(5) o(3) by (auto simp: sc_cached_def)
    then have "sc_cached sc' = sc_cached sc" "sc_pins sc' = sc_pins sc" "\<forall>h. Sharded_Value h sc' = Sharded_Value h sc"
      by (auto simp: sc_cached_def sc_pins_def Sharded_Value_def fun_eq_iff)
    then show ?thesis using o None h by simp
  next
    case (Some e)
    then obtain h where h: "deref (sc_heap sc) e = Some h" "lh_in_cache h" "lh_key h = k"
      "sc_heap sc' = (sc_heap sc)[e := Some (h\<lparr>lh_refs := Suc (lh_refs h)\<rparr>)]" using l(5) o(3) by auto
    have d: "deref (sc_heap sc') x = (if x = e then Some (h\<lparr>lh_refs := Suc (lh_refs h)\<rparr>) else deref (sc_heap sc) x)" for x
      by (simp add: h(4) deref_update [OF h(1)])
    have "1 \<le> lh_refs h" using heap_okD [OF shard_inv(2) [OF inv] h(1)] by simp
    then have p: "sc_pins sc' = add_mset e (sc_pins sc)" using h(1,2) by (intro multiset_eqI) (auto simp: count_pins d ext_refs_def)
    have v: "Sharded_Value x sc' = Sharded_Value x sc" for x using h(1) by (simp add: Sharded_Value_def d)
    have c: "sc_cached sc k (lh_value h)" using h by (auto simp: sc_cached_def)
    have "sc_cached sc' = sc_cached sc" by (rule cached_eq) (use h(1) in \<open>auto simp: d shown_def\<close>)
    then show ?thesis using o Some p c v h(1) by (simp add: Sharded_Value_def)
  qed
qed

lemma Sharded_Insert_inv:
  assumes inv: "sc_inv sc"
  shows "\<exists>h sc'. Sharded_Insert k v n sc = Some (h, sc') \<and> sc_inv sc' \<and> sc_pins sc' = add_mset h (sc_pins sc) \<and>
    Sharded_Value h sc' = Some v \<and> (\<forall>h \<in># sc_pins sc. Sharded_Value h sc' = Sharded_Value h sc) \<and>
    (\<forall>k' v'. sc_cached sc' k' v' \<longrightarrow> (if k' = k then v' = v else sc_cached sc k' v')) \<and>
    (0 < lc_capacity (sc_shard sc ! Shard (HashSlice k)) \<longrightarrow> sc_cached sc' k v) \<and>
    (\<exists>c'. sc_shard sc' = (sc_shard sc)[Shard (HashSlice k) := c'] \<and> lc_capacity c' = lc_capacity (sc_shard sc ! Shard (HashSlice k)) \<and>
      (lc_usage c' \<le> lc_capacity c' \<or> lc_lru c' = []))"
proof -
  let ?s = "Shard (HashSlice k)" and ?hp = "sc_heap sc"
  from LRU_Insert_inv [OF shard_inv [OF inv] refl refl, of k v n] obtain hp' c' where
    l: "LRU_Insert k (HashSlice k) v n ?hp (sc_shard sc ! ?s) = Some (length ?hp, hp', c')" "lru_inv ?s hp' c'" "heap_ok hp'" "only_shard ?s ?hp hp'"
    "lc_capacity c' = lc_capacity (sc_shard sc ! ?s)" "lc_usage c' \<le> lc_capacity (sc_shard sc ! ?s) \<or> lc_lru c' = []"
    "inserted ?s k v (0 < lc_capacity (sc_shard sc ! ?s)) ?hp hp'" by blast
  from on_shard_inv [where f = "LRU_Insert k (HashSlice k) v n", OF inv Shard_less l(1-4)] obtain sc' where
    o: "Sharded_Insert k v n sc = Some (length ?hp, sc')" "sc_inv sc'" "sc_heap sc' = hp'" "sc_shard sc' = (sc_shard sc)[?s := c']"
    by (auto simp: Sharded_Insert_def Let_def)
  obtain h where h: "deref hp' (length ?hp) = Some h" "lh_value h = v" "lh_key h = k" "ext_refs (Some h) = 1"
    "lh_in_cache h = (0 < lc_capacity (sc_shard sc ! ?s))" using l(7) by (auto simp: inserted_def)
  have q: "quiet (deref ?hp e) (deref hp' e)" if "e \<noteq> length ?hp" for e using l(7) that by (simp add: inserted_def)
  have p: "sc_pins sc' = add_mset (length ?hp) (sc_pins sc)"
  proof (rule multiset_eqI)
    fix x
    show "count (sc_pins sc') x = count (add_mset (length ?hp) (sc_pins sc)) x"
      using q [of x] h(1,4) by (cases "x = length ?hp") (simp_all add: count_pins o(3) quiet_def, simp add: ext_refs_def)
  qed
  have val: "Sharded_Value x sc' = Sharded_Value x sc" if "x \<in># sc_pins sc" for x
  proof -
    have "x \<noteq> length ?hp" using pins_Some [OF that] by auto
    then have "quiet (deref ?hp x) (deref (sc_heap sc') x)" unfolding o(3) by (rule q)
    then show ?thesis by (rule quiet_value [OF _ that])
  qed
  have "if k' = k then v' = v else sc_cached sc k' v'" if c: "sc_cached sc' k' v'" for k' v'
  proof -
    obtain e h' where e: "deref hp' e = Some h'" "lh_in_cache h'" "lh_key h' = k'" "lh_value h' = v'" using c o(3) by (auto simp: sc_cached_def)
    show ?thesis
    proof (cases "e = length ?hp")
      case False
      then have "deref ?hp e = Some h'" using q e(1,2) by (auto simp: quiet_def)
      moreover have "k' \<noteq> k" using l(7) False e in_members [OF l(3), of e k] by (auto simp: inserted_def)
      ultimately show ?thesis using e by (auto simp: sc_cached_def)
    qed (use e h in simp)
  qed
  moreover have "sc_cached sc' k v" if "0 < lc_capacity (sc_shard sc ! ?s)" using that h o(3) by (auto simp: sc_cached_def)
  moreover have "Sharded_Value (length ?hp) sc' = Some v" using h(1,2) o(3) by (simp add: Sharded_Value_def)
  ultimately show ?thesis using o p val l(5,6) by (intro exI [of _ "length ?hp"] exI [of _ sc'] conjI) auto
qed

lemma Sharded_Release_inv:
  assumes inv: "sc_inv sc" and e: "e \<in># sc_pins sc"
  shows "\<exists>sc'. Sharded_Release e sc = Some sc' \<and> sc_inv sc' \<and> sc_pins sc' = sc_pins sc - {#e#} \<and>
    (\<forall>h \<in># sc_pins sc'. Sharded_Value h sc' = Sharded_Value h sc) \<and> sc_cached sc' = sc_cached sc"
proof -
  obtain h where h: "deref (sc_heap sc) e = Some h" using pins_Some [OF e] by blast
  have ex: "0 < ext_refs (Some h)" using e h by (simp add: in_pins)
  let ?s = "Shard (lh_hash h)" and ?hp = "(sc_heap sc)[e := unref_handle h]"
  from LRU_Release_inv [OF shard_inv(1) [OF inv] shard_inv(2) [OF inv] h refl ex] obtain c' where
    l: "LRU_Release e (sc_heap sc) (sc_shard sc ! ?s) = Some (?hp, c')" "lru_inv ?s ?hp c'" "heap_ok ?hp" "only_shard ?s (sc_heap sc) ?hp" by blast
  let ?f = "\<lambda>hp c. map_option (Pair ()) (LRU_Release e hp c)"
  have "?f (sc_heap sc) (sc_shard sc ! ?s) = Some ((), ?hp, c')" using l(1) by simp
  from on_shard_inv [where f = ?f, OF inv Shard_less this l(2-4)] obtain sc' where
    o: "Sharded_Release e sc = Some sc'" "sc_inv sc'" "sc_heap sc' = ?hp" using h by (auto simp: Sharded_Release_def)
  have d: "deref (sc_heap sc') x = (if x = e then unref_handle h else deref (sc_heap sc) x)" for x by (simp add: o(3) deref_update [OF h])
  have r: "lh_in_cache h \<Longrightarrow> 2 \<le> lh_refs h" using ex by (simp add: ext_refs_def)
  have p: "sc_pins sc' = sc_pins sc - {#e#}" using h r by (intro multiset_eqI) (auto simp: count_pins d ext_refs_def unref_handle_def)
  have v: "Sharded_Value x sc' = Sharded_Value x sc" if "x \<in># sc_pins sc'" for x
    using pins_Some [OF that] h by (auto simp: Sharded_Value_def d unref_handle_def split: if_splits)
  have "sc_cached sc' = sc_cached sc" by (rule cached_eq) (use h r in \<open>auto simp: d shown_def unref_handle_def\<close>)
  then show ?thesis using o p v by blast
qed

lemma Sharded_Erase_inv:
  assumes inv: "sc_inv sc"
  shows "\<exists>sc'. Sharded_Erase k sc = Some sc' \<and> sc_inv sc' \<and> sc_pins sc' = sc_pins sc \<and>
    (\<forall>h \<in># sc_pins sc. Sharded_Value h sc' = Sharded_Value h sc) \<and> (\<forall>k' v'. sc_cached sc' k' v' \<longleftrightarrow> k' \<noteq> k \<and> sc_cached sc k' v')"
proof -
  let ?s = "Shard (HashSlice k)" and ?hp = "sc_heap sc"
  from LRU_Erase_inv [OF shard_inv [OF inv] refl refl, of k] obtain hp' c' where
    l: "LRU_Erase k (HashSlice k) ?hp (sc_shard sc ! ?s) = Some (hp', c')" "lru_inv ?s hp' c'" "heap_ok hp'" "only_shard ?s ?hp hp'" "erased k ?hp hp'" by blast
  let ?f = "\<lambda>hp c. map_option (Pair ()) (LRU_Erase k (HashSlice k) hp c)"
  have "?f ?hp (sc_shard sc ! ?s) = Some ((), hp', c')" using l(1) by simp
  from on_shard_inv [where f = ?f, OF inv Shard_less this l(2-4)] obtain sc' where
    o: "Sharded_Erase k sc = Some sc'" "sc_inv sc'" "sc_heap sc' = hp'" by (auto simp: Sharded_Erase_def Let_def)
  have q: "quiet (deref (sc_heap sc) e) (deref (sc_heap sc') e)" for e using l(5) unfolding o(3) erased_def by blast
  have "sc_cached sc' k' v' \<longleftrightarrow> k' \<noteq> k \<and> sc_cached sc k' v'" for k' v'
  proof
    assume c: "sc_cached sc' k' v'"
    then have "k' \<noteq> k" using l(5) unfolding sc_cached_def o(3) erased_def by blast
    then show "k' \<noteq> k \<and> sc_cached sc k' v'" using quiet_cached [OF q c] by blast
  next
    assume "k' \<noteq> k \<and> sc_cached sc k' v'"
    then show "sc_cached sc' k' v'" using l(5) unfolding sc_cached_def o(3) erased_def by blast
  qed
  then show ?thesis using o(1,2) quiet_pins [OF q] quiet_value [OF q] by blast
qed

lemma prune_shards_inv:
  assumes "sc_inv sc" and "set ss \<subseteq> {..<kNumShards}"
  shows "\<exists>sc'. prune_shards ss sc = Some sc' \<and> sc_inv sc' \<and> (\<forall>e. quiet (deref (sc_heap sc) e) (deref (sc_heap sc') e)) \<and>
    (\<forall>s < kNumShards. if s \<in> set ss then lc_lru (sc_shard sc' ! s) = [] else sc_shard sc' ! s = sc_shard sc ! s)"
  using assms
proof (induction ss arbitrary: sc)
  case (Cons s ss)
  have s: "s < kNumShards" and inv: "lru_inv s (sc_heap sc) (sc_shard sc ! s)" and hp: "heap_ok (sc_heap sc)"
    using Cons.prems by (auto simp: sc_inv_def)
  from LRU_Prune_inv [OF inv hp] obtain hp' c' where
    l: "LRU_Prune (sc_heap sc) (sc_shard sc ! s) = Some (hp', c')" "lru_inv s hp' c'" "lc_lru c' = []" "evicted s (sc_heap sc) hp' (lc_lru (sc_shard sc ! s))" by blast
  let ?f = "\<lambda>hp c. map_option (Pair ()) (LRU_Prune hp c)"
  have f: "?f (sc_heap sc) (sc_shard sc ! s) = Some ((), hp', c')" using l(1) by simp
  have fr: "heap_ok hp'" "only_shard s (sc_heap sc) hp'" using evicted_frame [OF l(4) hp] by auto
  from on_shard_inv [where f = ?f, OF Cons.prems(1) s f l(2) fr] obtain sc1 where
    o: "on_shard s ?f sc = Some ((), sc1)" "sc_inv sc1" "sc_heap sc1 = hp'" "sc_shard sc1 = (sc_shard sc)[s := c']" by blast
  from Cons.IH [OF o(2)] Cons.prems(2) obtain sc' where
    r: "prune_shards ss sc1 = Some sc'" "sc_inv sc'" "\<And>e. quiet (deref hp' e) (deref (sc_heap sc') e)"
    "\<And>t. t < kNumShards \<Longrightarrow> if t \<in> set ss then lc_lru (sc_shard sc' ! t) = [] else sc_shard sc' ! t = sc_shard sc1 ! t" unfolding o(3) by auto
  have len: "length (sc_shard sc) = kNumShards" using Cons.prems(1) by (simp add: sc_inv_def)
  have "if t \<in> set (s # ss) then lc_lru (sc_shard sc' ! t) = [] else sc_shard sc' ! t = sc_shard sc ! t" if t: "t < kNumShards" for t
    using r(4) [OF t] l(3) len s by (auto simp: o(4) nth_list_update split: if_splits)
  moreover have "quiet (deref (sc_heap sc) e) (deref (sc_heap sc') e)" for e by (rule quiet_trans [OF evicted_quiet [OF l(4)] r(3)])
  ultimately show ?case using o(1) r(1,2) by simp
qed simp

lemma Sharded_Prune_inv:
  assumes inv: "sc_inv sc"
  shows "\<exists>sc'. Sharded_Prune sc = Some sc' \<and> sc_inv sc' \<and> sc_pins sc' = sc_pins sc \<and>
    (\<forall>h \<in># sc_pins sc. Sharded_Value h sc' = Sharded_Value h sc) \<and> (\<forall>k v. sc_cached sc' k v \<longrightarrow> sc_cached sc k v) \<and>
    (\<forall>c \<in> set (sc_shard sc'). lc_lru c = [])"
proof -
  from prune_shards_inv [OF inv, of "[0..<kNumShards]"] obtain sc' where
    r: "Sharded_Prune sc = Some sc'" "sc_inv sc'" "\<And>e. quiet (deref (sc_heap sc) e) (deref (sc_heap sc') e)"
    "\<And>s. s < kNumShards \<Longrightarrow> lc_lru (sc_shard sc' ! s) = []" by (auto simp: Sharded_Prune_def atLeast0LessThan)
  have "\<forall>c \<in> set (sc_shard sc'). lc_lru c = []" using r(2,4) by (auto simp: sc_inv_def in_set_conv_nth)
  then show ?thesis using r(1,2) quiet_pins [OF r(3)] quiet_value [OF r(3)] quiet_cached [OF r(3)] by blast
qed

lemma Sharded_NewId_inv:
  assumes "sc_inv sc" and "Sharded_NewId sc = (i, sc')"
  shows "sc_inv sc' \<and> sc_cached sc' = sc_cached sc \<and> sc_pins sc' = sc_pins sc \<and> Sharded_Value h sc' = Sharded_Value h sc"
proof -
  have h: "sc_heap sc' = sc_heap sc" "sc_shard sc' = sc_shard sc" using assms(2) by (auto simp: Sharded_NewId_def)
  have "sc_cached sc' = sc_cached sc" by (rule cached_eq) (simp add: h)
  then show ?thesis using assms(1) by (simp add: sc_inv_def sc_pins_def Sharded_Value_def h)
qed

lemma ShardedLRUCache_new_inv: "\<exists>sc. ShardedLRUCache_new capacity = Some sc \<and> sc_inv sc \<and> sc_pins sc = {#} \<and> (\<forall>k v. \<not> sc_cached sc k v)"
proof -
  have "\<exists>t. HandleTable_new = Some t \<and> ht_inv ([] :: unit heap) t {}" unfolding HandleTable_new_def by (rule Resize_spec) auto
  then obtain t where t: "HandleTable_new = Some t" "ht_inv ([] :: unit heap) t {}" by blast
  have t': "ht_inv ([] :: 'a heap) t {}" using t(2) by (auto simp: ht_inv_def in_bucket_def deref_def)
  let ?c = "\<lparr>lc_capacity = (capacity + (kNumShards - 1)) div kNumShards, lc_usage = 0, lc_lru = [], lc_in_use = [], lc_table = t\<rparr>"
  have m: "members s ([] :: 'a heap) = {}" for s by (auto simp: members_def deref_def)
  then have "lru_inv s ([] :: 'a heap) ?c" for s using t' by (auto simp: lru_inv_def lists_inv_def)
  then show ?thesis using t(1)
    by (auto simp: ShardedLRUCache_new_def sc_inv_def heap_ok_def deref_def sc_pins_def sc_cached_def)
qed

text \<open>The LRU cache is a cache.\<close>

lemma NewLRUCache_sel:
  "c_Insert NewLRUCache = Sharded_Insert" "c_Lookup NewLRUCache = Sharded_Lookup" "c_Release NewLRUCache = Sharded_Release"
  "c_Value NewLRUCache = Sharded_Value" "c_NewId NewLRUCache = Sharded_NewId"
  by (simp_all add: NewLRUCache_def)

interpretation lru: lookup_cache NewLRUCache sc_inv sc_cached sc_pins
proof (unfold_locales, unfold NewLRUCache_sel)
  fix c c' :: "'a ShardedLRUCache" and k v n i h
  assume inv: "sc_inv c"
  show "\<exists>r c'. Sharded_Lookup k c = Some (r, c') \<and> sc_inv c' \<and> sc_cached c' = sc_cached c \<and>
      (\<forall>h \<in># sc_pins c. Sharded_Value h c' = Sharded_Value h c) \<and>
      (case r of None \<Rightarrow> sc_pins c' = sc_pins c \<and> (\<forall>v. \<not> sc_cached c k v)
       | Some h \<Rightarrow> sc_pins c' = add_mset h (sc_pins c) \<and> (\<exists>v. sc_cached c k v \<and> Sharded_Value h c' = Some v))"
    by (rule Sharded_Lookup_inv [OF inv])
  show "\<exists>h c'. Sharded_Insert k v n c = Some (h, c') \<and> sc_inv c' \<and> sc_pins c' = add_mset h (sc_pins c) \<and>
      Sharded_Value h c' = Some v \<and> (\<forall>h \<in># sc_pins c. Sharded_Value h c' = Sharded_Value h c) \<and>
      (\<forall>k' v'. sc_cached c' k' v' \<longrightarrow> (if k' = k then v' = v else sc_cached c k' v'))"
    using Sharded_Insert_inv [OF inv, of k v n] by blast
  show "sc_inv c' \<and> sc_cached c' = sc_cached c \<and> sc_pins c' = sc_pins c \<and> (\<forall>h \<in># sc_pins c. Sharded_Value h c' = Sharded_Value h c)"
    if "Sharded_NewId c = (i, c')" using Sharded_NewId_inv [OF inv that] by blast
  show "\<exists>c'. Sharded_Release h c = Some c' \<and> sc_inv c' \<and> sc_pins c' = sc_pins c - {#h#} \<and>
      (\<forall>h' \<in># sc_pins c'. Sharded_Value h' c' = Sharded_Value h' c) \<and> sc_cached c' = sc_cached c"
    if "h \<in># sc_pins c" by (rule Sharded_Release_inv [OF inv that])
qed

subsection \<open>Clients\<close>

text \<open>The steps of the clients of a cache: any operation, but a handle is released only by one who holds it.\<close>

inductive sc_step :: "'v ShardedLRUCache \<Rightarrow> 'v ShardedLRUCache \<Rightarrow> bool" where
  step_Insert: "Sharded_Insert k v n sc = Some (h, sc') \<Longrightarrow> sc_step sc sc'"
| step_Lookup: "Sharded_Lookup k sc = Some (r, sc') \<Longrightarrow> sc_step sc sc'"
| step_Release: "h \<in># sc_pins sc \<Longrightarrow> Sharded_Release h sc = Some sc' \<Longrightarrow> sc_step sc sc'"
| step_Erase: "Sharded_Erase k sc = Some sc' \<Longrightarrow> sc_step sc sc'"
| step_NewId: "Sharded_NewId sc = (i, sc') \<Longrightarrow> sc_step sc sc'"
| step_Prune: "Sharded_Prune sc = Some sc' \<Longrightarrow> sc_step sc sc'"

inductive lru_reach :: "nat \<Rightarrow> 'v ShardedLRUCache \<Rightarrow> bool" for capacity where
  reach_new: "ShardedLRUCache_new capacity = Some sc \<Longrightarrow> lru_reach capacity sc"
| reach_step: "lru_reach capacity sc \<Longrightarrow> sc_step sc sc' \<Longrightarrow> lru_reach capacity sc'"

text \<open>A step keeps the invariant and the values of the handles that stay held.\<close>

lemma sc_step_inv:
  assumes "sc_step sc sc'" and inv: "sc_inv sc"
  shows "sc_inv sc' \<and> (\<forall>h. h \<in># sc_pins sc \<and> h \<in># sc_pins sc' \<longrightarrow> Sharded_Value h sc' = Sharded_Value h sc)"
  using assms(1)
proof cases
  case (step_Insert k v n h)
  then show ?thesis using Sharded_Insert_inv [OF inv, of k v n] by auto
next
  case (step_Lookup k r)
  then show ?thesis using Sharded_Lookup_inv [OF inv, of k] by auto
next
  case (step_Release h)
  then show ?thesis using Sharded_Release_inv [OF inv step_Release(1)] by auto
next
  case (step_Erase k)
  then show ?thesis using Sharded_Erase_inv [OF inv, of k] by auto
next
  case (step_NewId i)
  then show ?thesis using Sharded_NewId_inv [OF inv step_NewId] by auto
next
  case step_Prune
  then show ?thesis using Sharded_Prune_inv [OF inv] by auto
qed

lemma lru_reach_inv: "lru_reach capacity sc \<Longrightarrow> sc_inv sc"
proof (induction rule: lru_reach.induct)
  case (reach_new sc)
  then show ?case using ShardedLRUCache_new_inv [where 'a = 'a and capacity = capacity] by auto
next
  case (reach_step sc sc')
  then show ?case using sc_step_inv by blast
qed

lemma lru_reach_start: "\<exists>sc. lru_reach capacity sc"
  using ShardedLRUCache_new_inv [of capacity] reach_new by blast

lemma lookup_value: "sc_inv sc \<Longrightarrow> Sharded_Lookup k sc = Some (r, sc') \<Longrightarrow>
    (case r of None \<Rightarrow> \<forall>v. \<not> sc_cached sc k v | Some h \<Rightarrow> \<exists>v. sc_cached sc k v \<and> Sharded_Value h sc' = Some v)"
  using Sharded_Lookup_inv [of sc k] by (auto split: option.splits)

text \<open>A key has at most one value.\<close>

lemma sc_cached_unique:
  assumes inv: "sc_inv sc" and "sc_cached sc k v" and "sc_cached sc k v'"
  shows "v' = v"
proof -
  obtain e h e' h' where e: "deref (sc_heap sc) e = Some h" "lh_in_cache h" "lh_key h = k" "lh_value h = v"
    "deref (sc_heap sc) e' = Some h'" "lh_in_cache h'" "lh_key h' = k" "lh_value h' = v'" using assms by (auto simp: sc_cached_def)
  then have "e \<in> members (Shard (HashSlice k)) (sc_heap sc)" "e' \<in> members (Shard (HashSlice k)) (sc_heap sc)"
    using in_members [OF shard_inv(2) [OF inv]] by blast+
  moreover have "inj_on (hkey (sc_heap sc)) (members (Shard (HashSlice k)) (sc_heap sc))" using shard_inv(1) [OF inv] by (simp add: lru_inv_def)
  ultimately have "e = e'" using e by (intro inj_onD [of "hkey (sc_heap sc)"]) simp_all
  then show ?thesis using e by simp
qed

lemma lookup_cached:
  assumes inv: "sc_inv sc" and c: "sc_cached sc k v"
  shows "\<exists>h sc'. Sharded_Lookup k sc = Some (Some h, sc') \<and> Sharded_Value h sc' = Some v"
proof -
  obtain r sc' where l: "Sharded_Lookup k sc = Some (r, sc')" using Sharded_Lookup_inv [OF inv, of k] by blast
  obtain h v' where "r = Some h" "sc_cached sc k v'" "Sharded_Value h sc' = Some v'" using lookup_value [OF inv l] c by (cases r) auto
  then show ?thesis using l sc_cached_unique [OF inv c, of v'] by simp
qed

lemma no_capacity:
  assumes inv: "sc_inv sc" and cap: "lc_capacity (sc_shard sc ! Shard (HashSlice k)) = 0"
  shows "\<not> sc_cached sc k v"
proof
  assume "sc_cached sc k v"
  then obtain e where "e \<in> members (Shard (HashSlice k)) (sc_heap sc)"
    using in_members [OF shard_inv(2) [OF inv]] by (auto simp: sc_cached_def)
  then show False using shard_inv(1) [OF inv, of "HashSlice k"] cap by (auto simp: lru_inv_def lists_inv_def)
qed







end
