(* ===== verification/Ldb_TableStore.thy ===== *)
theory Ldb_TableStore
  imports Ldb_TableGet Ldb_CacheSharded
begin

text \<open>
  The pieces of the table put together: the builder on \<open>PosixWritableFile\<close>, the reader on the random-access
  files of \<open>env_posix.cc\<close> and on the LRU cache, with the options that the store passes. What was added to a
  table is what lookups find in it.
\<close>

subsection \<open>A sequence of lookups\<close>

primrec table_gets ::
  "'f RandomAccessFile \<Rightarrow> Snappy \<Rightarrow> (Block, 'h, 'c) Cache option \<Rightarrow> 'f Table \<Rightarrow> (ReadOptions \<times> slice) list \<Rightarrow> 'c \<Rightarrow>
    ((Status \<times> (slice \<times> slice) option) list \<times> 'c) option" where
  "table_gets rops snappy co t [] c = Some ([], c)"
| "table_gets rops snappy co t (q # qs) c = do {
     (s, saved, c1) \<leftarrow> InternalGet rops snappy co t (fst q) (snd q) c;
     (rs, c2) \<leftarrow> table_gets rops snappy co t qs c1;
     Some ((s, saved) # rs, c2) }"

text \<open>The answer that a table with the entries \<open>kvs\<close> owes to a lookup of \<open>k\<close>.\<close>

definition table_answer :: "Options \<Rightarrow> (slice \<times> slice) list \<Rightarrow> slice \<Rightarrow> Status \<times> (slice \<times> slice) option \<Rightarrow> bool" where
  "table_answer opt kvs k r \<longleftrightarrow> (let first = find (\<lambda>kv. \<not> cmp_lt (o_cmp opt) (fst kv) k) kvs in
     fst r = Status_OK \<and> (snd r = None \<or> snd r = first) \<and>
     (\<forall>kv. first = Some kv \<and> ExtractUserKey (fst kv) = ExtractUserKey k \<longrightarrow> snd r = Some kv))"

context table_reader begin

lemma gets_answers:
  assumes t: "table_of opt (bytes (t_file t)) dn t" "healthy (t_file t)" and same: "same = same_user_key"
    and oks: "\<forall>kv \<in> set (concat (map snd dn)). ok (fst kv)" and sorted: "sorted_wrt less_kv (concat (map snd dn))"
    and c: "cstate co dn t c" and k: "\<forall>q \<in> set qs. ok (snd q)"
  shows "\<exists>rs c'. table_gets rops port_snappy co t qs c = Some (rs, c') \<and> length rs = length qs \<and>
    (\<forall>i < length qs. table_answer opt (concat (map snd dn)) (snd (qs ! i)) (rs ! i)) \<and> cstate co dn t c' \<and> (co \<noteq> None \<longrightarrow> pins c' = pins c)"
  using c k
proof (induction qs arbitrary: c)
  case (Cons q qs)
  have okq: "ok (snd q)" using Cons.prems(2) by simp
  from InternalGet_answers [OF t Cons.prems(1) okq oks sorted, of "fst q"] obtain saved c1 where
    g: "InternalGet rops port_snappy co t (fst q) (snd q) c = Some (Status_OK, saved, c1)"
    "answers (concat (map snd dn)) (snd q) saved" "cstate co dn t c1" "co \<noteq> None \<longrightarrow> pins c1 = pins c" by blast
  have a: "table_answer opt (concat (map snd dn)) (snd q) (Status_OK, saved)"
    using g(2) [unfolded answers_def] unfolding same by (auto simp: table_answer_def same_user_key_def Let_def)
  from Cons.IH [OF g(3)] Cons.prems(2) obtain rs c2 where
    r: "table_gets rops port_snappy co t qs c1 = Some (rs, c2)" "length rs = length qs"
    "\<forall>i < length qs. table_answer opt (concat (map snd dn)) (snd (qs ! i)) (rs ! i)" "cstate co dn t c2" "co \<noteq> None \<longrightarrow> pins c2 = pins c1" by auto
  have "table_answer opt (concat (map snd dn)) (snd ((q # qs) ! i)) (((Status_OK, saved) # rs) ! i)" if "i < length (q # qs)" for i
    using that a r(3) by (cases i) auto
  then show ?case using g(1,4) r(1,2,4,5) by (intro exI [of _ "(Status_OK, saved) # rs"] exI [of _ c2]) auto
qed simp

lemma open_and_get:
  assumes rep: "table_rep opt (bytes f) kvs" and f: "healthy f" and same: "same = same_user_key"
    and kvs: "\<forall>kv \<in> set kvs. ok (fst kv)" "sorted_wrt less_kv kvs" and k: "\<forall>q \<in> set qs. ok (snd q)"
    and c: "co = None \<or> co = Some cops \<and> cinv c \<and> (\<forall>k b. \<not> cached c k b)"
  shows "\<exists>t c1 rs c2. Table_Open rops port_snappy co opt f (word_of_nat (length (bytes f))) c = Some (Status_OK, Some t, c1) \<and>
    table_gets rops port_snappy co t qs c1 = Some (rs, c2) \<and> length rs = length qs \<and>
    (\<forall>i < length qs. table_answer opt kvs (snd (qs ! i)) (rs ! i)) \<and> (co \<noteq> None \<longrightarrow> pins c2 = pins c)"
proof -
  have c': "co = None \<or> co = Some cops \<and> cinv c \<and> (\<forall>off b. \<not> cached c (EncodeFixed64 (fst (c_NewId cops c)) @ EncodeFixed64 off) b)"
    using c by blast
  from Open_table [OF rep f c'] obtain t c1 dn where
    o: "Table_Open rops port_snappy co opt f (word_of_nat (length (bytes f))) c = Some (Status_OK, Some t, c1)" "t_file t = f"
    "table_of opt (bytes f) dn t" "concat (map snd dn) = kvs" "cstate co dn t c1" "co \<noteq> None \<longrightarrow> pins c1 = pins c" by blast
  from gets_answers [OF _ _ same _ _ o(5) k] o(2-4) f kvs show ?thesis using o(1,6) by fastforce
qed

end

subsection \<open>The interfaces on the code\<close>

interpretation lo: lookup_options "SanitizeOptions (user_options bloom_bits block_size interval compression paranoid)" "ik_ok (\<lambda>_. True)" same_user_key
proof (rule lookup_options_Sanitize)
  show "separating_comparator (o_cmp (user_options bloom_bits block_size interval compression paranoid)) (\<lambda>_. True)
      (o_sep (user_options bloom_bits block_size interval compression paranoid))
      (o_succ (user_options bloom_bits block_size interval compression paranoid))"
    using bw.separating_comparator_axioms by (simp add: user_options_def Options_new_def)
qed (auto simp: user_options_def bloom.filter_policy_axioms)

interpretation tw: table_writer "SanitizeOptions (user_options bloom_bits block_size interval compression paranoid)" "ik_ok (\<lambda>_. True)"
  "PosixWritableFile filename" file_contents file_good
  by (intro table_writer.intro tbl.table_options_axioms pa.appending_file_axioms)

interpretation tr: table_reader "SanitizeOptions (user_options bloom_bits block_size interval compression paranoid)" "ik_ok (\<lambda>_. True)" same_user_key
  "PosixRandomAccessFile filename" pf_data pf_healthy NewLRUCache sc_inv sc_cached sc_pins
  by (intro table_reader.intro lo.lookup_options_axioms pread.random_access_file_axioms lru.lookup_cache_axioms)

interpretation tm: table_reader "SanitizeOptions (user_options bloom_bits block_size interval compression paranoid)" "ik_ok (\<lambda>_. True)" same_user_key
  "PosixMmapReadableFile filename" pf_data pf_healthy NewLRUCache sc_inv sc_cached sc_pins
  by (intro table_reader.intro lo.lookup_options_axioms mmap.random_access_file_axioms lru.lookup_cache_axioms)

subsection \<open>Tables on POSIX files\<close>

lemma Close_data: "PosixWritableFile_Close filename f = (Status_OK, f') \<Longrightarrow> f_data f' = file_contents f"
  by (auto simp: PosixWritableFile_Close_def Let_def fclose_def fflush_def write_out_def file_contents_def env_IOError_def split: if_splits)

lemma ik_ok_True: "ik_ok (\<lambda>_. True) k \<longleftrightarrow> 8 \<le> length k"
  by (simp add: ik_ok_def)

text \<open>What a reader finds in a table file, with either of the two kinds of files and with or without a new cache.\<close>

lemma posix_open_and_get:
  fixes bloom_bits block_size interval compression paranoid
  defines "opt \<equiv> SanitizeOptions (user_options bloom_bits block_size interval compression paranoid)"
  assumes rep: "table_rep opt (pf_data rf) kvs" and rf: "pf_healthy rf" and rops: "rops = PosixRandomAccessFile filename \<or> rops = PosixMmapReadableFile filename"
    and kvs: "\<forall>kv \<in> set kvs. 8 \<le> length (fst kv)" "sorted_wrt (\<lambda>a b. cmp_lt (o_cmp opt) (fst a) (fst b)) kvs" and k: "\<forall>q \<in> set qs. 8 \<le> length (snd q)"
    and c: "ShardedLRUCache_new capacity = Some c" and co: "co = None \<or> co = Some NewLRUCache"
  shows "\<exists>t c1 rs c2. Table_Open rops port_snappy co opt rf (word_of_nat (length (pf_data rf))) c = Some (Status_OK, Some t, c1) \<and>
    table_gets rops port_snappy co t qs c1 = Some (rs, c2) \<and> length rs = length qs \<and>
    (\<forall>i < length qs. table_answer opt kvs (snd (qs ! i)) (rs ! i)) \<and> (co \<noteq> None \<longrightarrow> sc_pins c2 = {#})"
proof -
  have "sc_inv c" "sc_pins c = {#}" "\<And>k v. \<not> sc_cached c k v" using ShardedLRUCache_new_inv [where 'a = Block and capacity = capacity] c by auto
  then have c': "co = None \<or> co = Some NewLRUCache \<and> sc_inv c \<and> (\<forall>k b. \<not> sc_cached c k b)" "sc_pins c = {#}" using co by auto
  have k': "\<forall>q \<in> set qs. ik_ok (\<lambda>_. True) (snd q)" "\<forall>kv \<in> set kvs. ik_ok (\<lambda>_. True) (fst kv)" using k kvs(1) by (simp_all add: ik_ok_True)
  show ?thesis using rops
  proof
    assume r: "rops = PosixRandomAccessFile filename"
    show ?thesis using tr.open_and_get [OF rep [unfolded opt_def] rf refl k'(2) kvs(2) [unfolded opt_def] k'(1) c'(1)] c'(2) unfolding r opt_def by simp
  next
    assume r: "rops = PosixMmapReadableFile filename"
    show ?thesis using tm.open_and_get [OF rep [unfolded opt_def] rf refl k'(2) kvs(2) [unfolded opt_def] k'(1) c'(1)] c'(2) unfolding r opt_def by simp
  qed
qed

subsection \<open>A table of one entry\<close>

context writable_file begin

lemma WriteRawBlock_fits:
  assumes "fits (tb_file tb) n" and "length c + 5 \<le> n"
  shows "\<exists>f'. WriteRawBlock ops c t tb = Some (tb\<lparr>tb_status := Status_OK, tb_file := f', tb_offset := tb_offset tb + word_of_nat (length c + 5)\<rparr>,
      \<lparr>bh_offset = tb_offset tb, bh_size = word_of_nat (length c)\<rparr>) \<and> fits f' (n - (length c + 5))"
proof -
  obtain f1 where f1: "wf_Append ops c (tb_file tb) = (Status_OK, f1)" "fits f1 (n - length c)" using append [OF assms(1), of c] assms(2) by auto
  let ?d = "t # EncodeFixed32 (crc_Mask (crc_spec (crc_spec 0 c) [t]))"
  have "length ?d \<le> n - length c" using assms(2) by simp
  from append [OF f1(2) this] obtain f2 where f2: "wf_Append ops ?d f1 = (Status_OK, f2)" "fits f2 (n - (length c + 5))" by auto
  show ?thesis using f1 f2 by (intro exI [of _ f2]) (simp add: WriteRawBlock_def crc32c_Value_def Extend_eq kBlockTrailerSize_def)
qed

lemma WriteBlock_fits:
  assumes "fits (tb_file tb) n" and "TableBuilder_ok tb" and "o_compression opt = kNoCompression" and "length (fst (BlockBuilder_Finish b)) = m" and "m + 5 \<le> n"
  shows "\<exists>f'. WriteBlock ops snappy opt b tb = Some (tb\<lparr>tb_status := Status_OK, tb_file := f', tb_offset := tb_offset tb + word_of_nat (m + 5)\<rparr>,
      \<lparr>bh_offset = tb_offset tb, bh_size = word_of_nat m\<rparr>, BlockBuilder_Reset) \<and> fits f' (n - (m + 5))"
  using WriteRawBlock_fits [OF assms(1), of "fst (BlockBuilder_Finish b)" 0] assms(2-5) by (auto simp: WriteBlock_def kNoCompression_def kSnappyCompression_def)

end

definition demo_opt :: Options where
  "demo_opt = SanitizeOptions (user_options None 4096 16 kNoCompression False)"

definition demo_key :: slice where
  "demo_key = [97, 1, 5, 0, 0, 0, 0, 0, 0]"

lemma demo_opt_simps: "o_restart_interval demo_opt = 16" "o_filter demo_opt = None" "o_compression demo_opt = kNoCompression" "o_block_size demo_opt = 4096"
  "o_succ demo_opt = InternalKey_FindShortSuccessor Bytewise_Compare Bytewise_FindShortSuccessor"
  by (simp_all add: demo_opt_def user_options_def SanitizeOptions_def Options_new_def ClipToRange_def Let_def)

definition demo_b1 :: BlockBuilder where
  "demo_b1 = \<lparr>bb_buffer = [0, 9, 1, 97, 1, 5, 0, 0, 0, 0, 0, 0, 7], bb_restarts = [0], bb_counter = 1, bb_finished = False, bb_last_key = demo_key\<rparr>"

definition demo_b2 :: BlockBuilder where
  "demo_b2 = \<lparr>bb_buffer = [0, 9, 2, 97, 1, 5, 0, 0, 0, 0, 0, 0, 0, 21], bb_restarts = [0], bb_counter = 1, bb_finished = False, bb_last_key = demo_key\<rparr>"

lemma demo_Add: "BlockBuilder_Add cmp 16 demo_key [7] BlockBuilder_Reset = Some demo_b1" "BlockBuilder_Add cmp (Suc 0) demo_key [0, 21] BlockBuilder_Reset = Some demo_b2"
  by code_simp+

lemma demo_values: "InternalKey_FindShortSuccessor Bytewise_Compare Bytewise_FindShortSuccessor demo_key = Some demo_key"
  "BlockHandle_EncodeTo \<lparr>bh_offset = 0, bh_size = 21\<rparr> [] = Some [0, 21]" "length (fst (BlockBuilder_Finish BlockBuilder_Reset)) = 8"
  "length (fst (BlockBuilder_Finish demo_b1)) = 21" "length (fst (BlockBuilder_Finish demo_b2)) = 22" "CurrentSizeEstimate demo_b1 = 21" "\<not> BlockBuilder_empty demo_b1"
  by code_simp+

definition posix_opened :: "byte list \<Rightarrow> posix_file" where
  "posix_opened bs = \<lparr>pf_data = bs, pf_temporary_fd = False, pf_open_ok = True, pf_read_ok = True, pf_strerror = []\<rparr>"

lemma demo_build: "\<exists>tb f'. build_table (PosixWritableFile []) port_snappy demo_opt [(demo_key, [7])] (created 1000) = Some (Status_OK, tb) \<and>
    PosixWritableFile_Close [] (tb_file tb) = (Status_OK, f')"
proof -
  let ?ops = "PosixWritableFile []"
  let ?tb1 = "\<lparr>tb_file = created 1000, tb_offset = 0, tb_status = Status_OK, tb_data_block = demo_b1, tb_index_block = BlockBuilder_Reset,
           tb_last_key = demo_key, tb_num_entries = 1, tb_closed = False, tb_filter_block = None,
           tb_pending_index_entry = False, tb_pending_handle = BlockHandle_new\<rparr>"
  have add: "Option.bind (TableBuilder_new demo_opt (created 1000)) (add_all ?ops port_snappy demo_opt [(demo_key, [7])]) = Some ?tb1"
    by (simp add: TableBuilder_new_def demo_opt_simps BlockBuilder_new_def TableBuilder_Add_def TableBuilder_ok_def demo_Add demo_values)
  have f0: "file_fits (tb_file ?tb1) 1000" by (simp add: opened_simps)
  from pw.WriteBlock_fits [OF f0 _ demo_opt_simps(3) demo_values(4), of "[]" port_snappy] obtain f1 where 
    w1: "WriteBlock ?ops port_snappy demo_opt demo_b1 ?tb1 = Some (?tb1\<lparr>tb_file := f1, tb_offset := 26\<rparr>, \<lparr>bh_offset = 0, bh_size = 21\<rparr>, BlockBuilder_Reset)" "file_fits f1 974"
    by (auto simp: TableBuilder_ok_def)
  obtain f2 where f2: "wf_Flush ?ops f1 = (Status_OK, f2)" "file_fits f2 974" using pw.flush [OF w1(2)] by blast
  let ?tb2 = "?tb1\<lparr>tb_file := f2, tb_offset := 26, tb_data_block := BlockBuilder_Reset, tb_pending_handle := \<lparr>bh_offset = 0, bh_size = 21\<rparr>,
    tb_pending_index_entry := True\<rparr>"
  have fl: "TableBuilder_Flush ?ops port_snappy demo_opt ?tb1 = Some ?tb2"
    using w1(1) f2(1) by (simp add: TableBuilder_Flush_def TableBuilder_ok_def demo_values demo_opt_simps)
  let ?tb3 = "?tb2\<lparr>tb_closed := True\<rparr>"
  have "file_fits (tb_file ?tb3) 974" using f2(2) by simp
  from pw.WriteBlock_fits [OF this _ demo_opt_simps(3) demo_values(3), of "[]" port_snappy] obtain f3 where
    w2: "WriteBlock ?ops port_snappy demo_opt BlockBuilder_Reset ?tb3 = Some (?tb3\<lparr>tb_file := f3, tb_offset := 39\<rparr>, \<lparr>bh_offset = 26, bh_size = 8\<rparr>, BlockBuilder_Reset)"
    "file_fits f3 961" by (auto simp: TableBuilder_ok_def)
  let ?tb4 = "?tb3\<lparr>tb_file := f3, tb_offset := 39, tb_last_key := demo_key, tb_index_block := demo_b2, tb_pending_index_entry := False\<rparr>"
  have "file_fits (tb_file ?tb4) 961" using w2(2) by simp
  from pw.WriteBlock_fits [OF this _ demo_opt_simps(3) demo_values(5), of "[]" port_snappy] obtain f4 where
    w3: "WriteBlock ?ops port_snappy demo_opt demo_b2 ?tb4 = Some (?tb4\<lparr>tb_file := f4, tb_offset := 66\<rparr>, \<lparr>bh_offset = 39, bh_size = 22\<rparr>, BlockBuilder_Reset)"
    "file_fits f4 934" by (auto simp: TableBuilder_ok_def)
  obtain bs where bs: "Footer_EncodeTo \<lparr>ft_metaindex_handle = \<lparr>bh_offset = 26, bh_size = 8\<rparr>, ft_index_handle = \<lparr>bh_offset = 39, bh_size = 22\<rparr>\<rparr> [] = Some bs" "length bs = 48"
    using Footer_roundtrip_aux [of "\<lparr>ft_metaindex_handle = \<lparr>bh_offset = 26, bh_size = 8\<rparr>, ft_index_handle = \<lparr>bh_offset = 39, bh_size = 22\<rparr>\<rparr>"]
    by (auto simp: handle_ok_def Footer_kEncodedLength_def kMaxEncodedLength_def)
  obtain f5 where f5: "wf_Append ?ops bs f4 = (Status_OK, f5)" "file_fits f5 886" using pw.append [OF w3(2), of bs] bs(2) by auto
  let ?tb5 = "?tb4\<lparr>tb_file := f5, tb_offset := 114, tb_index_block := BlockBuilder_Reset\<rparr>"
  have "TableBuilder_Finish ?ops port_snappy demo_opt ?tb1 = Some (Status_OK, ?tb5)"
    using fl w2(1) w3(1) bs f5(1)
    by (simp add: TableBuilder_Finish_def finish_filter_def finish_metaindex_def finish_index_def finish_footer_def add_index_entry_def
        TableBuilder_ok_def demo_opt_simps demo_values demo_Add BlockBuilder_new_def)
  then have "build_table ?ops port_snappy demo_opt [(demo_key, [7])] (created 1000) = Some (Status_OK, ?tb5)"
    using add by (auto simp: build_table_def bind_eq_Some_conv)
  moreover obtain f6 where "PosixWritableFile_Close [] f5 = (Status_OK, f6)"
    using f5(2) by (simp add: PosixWritableFile_Close_def fclose_def fflush_def file_fits_def)
  ultimately show ?thesis by auto
qed

lemma demo_find: "\<not> cmp_lt (o_cmp demo_opt) demo_key [97, 1, 6, 0, 0, 0, 0, 0, 0]"
  "ExtractUserKey demo_key = ExtractUserKey [97, 1, 6, 0, 0, 0, 0, 0, 0]"
proof -
  have "o_cmp demo_opt = InternalKey_Compare Bytewise_Compare" by (simp add: demo_opt_def user_options_def SanitizeOptions_def Options_new_def)
  moreover have "\<not> cmp_lt (InternalKey_Compare Bytewise_Compare) demo_key [97, 1, 6, 0, 0, 0, 0, 0, 0]" by code_simp
  ultimately show "\<not> cmp_lt (o_cmp demo_opt) demo_key [97, 1, 6, 0, 0, 0, 0, 0, 0]" by simp
  show "ExtractUserKey demo_key = ExtractUserKey [97, 1, 6, 0, 0, 0, 0, 0, 0]" by code_simp
qed

subsection \<open>What lookups find\<close>



end
