(* ===== verification/Spec2Isabelle.thy ===== *)
theory Spec2Isabelle
  imports Pb_Roundtrip Base64 Ldb_Db Ldb_TableStore
begin

text \<open>
  \<^bold>\<open>The program.\<close> ForDream is an iOS app written in Swift over Firebase. The C and C++ code it is built
  with is under \<open>src/ForDream/ForDreamApp/Pods\<close>: \<open>nanopb\<close> (protocol buffers in C, the wire format of
  the analytics and Firestore clients), the base-64 codec of the database client's web socket
  (\<open>fbase64.c\<close>), and \<open>leveldb-library\<close> (the key-value store behind the offline cache of the database
  client). This development models that code and proves it correct; the app itself is user interface
  glue without algorithms of its own.

  \<^bold>\<open>nanopb\<close> (theories \<open>Pb_*\<close>). A message is a C struct described by a table of \<open>pb_field_t\<close>. \<open>Pb_Memory\<close> is a
  byte-addressed memory with allocated regions, \<open>Pb_Types\<close> the descriptors and the macros of \<open>pb.h\<close>
  that build them, \<open>Pb_Common\<close> the field iterator of \<open>pb_common.c\<close>. \<open>Pb_Ostream\<close> and \<open>Pb_Encode\<close> follow
  \<open>pb_encode.c\<close> (streams and primitive encoders, then fields, arrays, oneofs, callbacks, extensions
  and messages); \<open>Pb_Istream\<close>, \<open>Pb_Init\<close> and \<open>Pb_Decode\<close> follow \<open>pb_decode.c\<close> (streams and primitive
  decoders, defaults and release, then fields and messages). \<open>Pb_Wire\<close> is the reference wire format and
  \<open>Pb_Serial\<close> the reference serialisation of a message: encoding refines it, byte for byte, in the
  direct, sizing, delimited and null-terminated variants. \<open>Pb_Roundtrip\<close> connects encoder and decoder
  of varints, zigzag values and tags. \<open>Pb_Demo\<close> is a concrete descriptor for the witnesses. The model is
  the configuration of the pod: 32-bit field descriptors, dynamic allocation enabled, a 64-bit
  little-endian machine. Nested messages recurse with fuel, one unit per level of nesting; the
  serialisation relation holds exactly when the fuel covers the nesting of the message, so the theorems
  say that the encoder succeeds.

  \<^bold>\<open>Base-64\<close> (theory \<open>Base64\<close>): \<open>f_b64_ntop\<close> and \<open>f_b64_pton\<close> over the same memory: what is written,
  the round trip, error results and bounds.

  \<^bold>\<open>leveldb\<close> (theories \<open>Ldb_*\<close>), bottom up. \<open>Ldb_Coding\<close>: \<open>util/coding\<close>. \<open>Ldb_Slice\<close>: slices and statuses.
  \<open>Ldb_Logging\<close>: decimal numbers and escapes. \<open>Ldb_Comparator\<close>: the bytewise comparator; the contract of
  \<open>Comparator\<close> is the locale \<open>comparator\<close> and its extensions, interpreted on it. \<open>Ldb_Dbformat\<close>: internal
  keys; the internal key comparator satisfies the contract whenever the user comparator does (a
  sublocale). \<open>Ldb_Random\<close> and \<open>Ldb_Skiplist\<close>: the skip list as nodes in a store, proved once for every
  comparator that satisfies the contract; searches are \<open>partial_function\<close>s and are proved to return.
  \<open>Ldb_Memtable\<close> and \<open>Ldb_WriteBatch\<close>: entries, insertion, lookup, batches. \<open>Ldb_Crc32c\<close>: the checksum.
  \<open>Ldb_Env\<close>: files as interfaces (records of operations) with the contracts \<open>writable_file\<close> and
  \<open>sequential_file\<close>, interpreted on the POSIX implementations over a model of C streams with a finite
  device. \<open>Ldb_LogWriter\<close>, \<open>Ldb_LogReader\<close> and \<open>Ldb_LogRoundtrip\<close>: the write-ahead log, its reader with
  resynchronisation and reporting, and what survives a crash; \<open>Ldb_LogSpace\<close>: the writer on a device that
  fills up. \<open>Ldb_Db\<close>: the write path of \<open>db_impl.cc\<close>, a queue of writers whose front writes a group; its
  runs are the inductive relation \<open>db_run\<close>, in which writers enqueue at any time, and the replay of the
  log rebuilds the table. In all of them a failed assertion is \<open>None\<close>.

  \<^bold>\<open>Tables of leveldb.\<close> \<open>Ldb_Options\<close>: the options and \<open>SanitizeOptions\<close>. \<open>Ldb_Bloom\<close> and \<open>Ldb_FilterBlock\<close>: the hash,
  the Bloom filter behind the contract \<open>filter_policy\<close>, and filter blocks for any policy. \<open>Ldb_Block\<close>, \<open>Ldb_BlockLayout\<close>
  and \<open>Ldb_BlockIter\<close>: blocks with prefix compression and their iterator, a cursor into the entries.
  \<open>Ldb_Format\<close>: handles, the footer and \<open>ReadBlock\<close> over the contract \<open>random_access_file\<close>, interpreted on pread and
  mmap files. \<open>Ldb_TableBuilder\<close>: \<open>table_builder.cc\<close>; \<open>Ldb_TableInv\<close> its invariant in the locale \<open>table_writer\<close>
  (the options with their laws and a file that keeps \<open>appending_file\<close>) and \<open>Ldb_TableRep\<close> what \<open>Finish\<close> leaves in
  the file. \<open>Ldb_Cache\<close>: \<open>util/cache.cc\<close>; \<open>Ldb_CacheInv\<close> and \<open>Ldb_CacheSharded\<close>: its invariant, the steps of its clients
  (\<open>sc_step\<close>, \<open>lru_reach\<close>) and that it keeps the contract \<open>lookup_cache\<close>. \<open>Ldb_Table\<close>: \<open>table.cc\<close>, over any
  random-access file and any cache; \<open>Ldb_TableGet\<close> proves its lookups in the locale \<open>table_reader\<close>, and
  \<open>Ldb_TableStore\<close> interprets all of it on the POSIX files, the LRU cache and the store's options.

  \<^bold>\<open>What the theorems show.\<close> Refinement: encoding, the skip list (a sorted sequence), the memtable (the
  last write of a key at a snapshot), the log (a sequence of records, any prefix of its bytes), the write path with
  its recovery (acknowledged groups survive a crash), block iterators (cursors), tables (the entries they were built
  from, looked up through index, filter and cache). Safety: the cache under any interleaving of its clients, filters
  without false negatives. Invariant and liveness: the state of the write path
  agrees with the acknowledged groups, and every queued write is answered. Round
  trips: varints, zigzag, tags, base-64, length-prefixed strings, internal keys, batches, decimal
  numbers, masked checksums. Equivalence: the table-driven CRC with its bit-serial definition.
  Termination: searches, log reading on arbitrary files. Errors and bounds: buffers that are too small,
  duplicate keys, malformed batches, numeric overflow.

  \<^bold>\<open>Not modelled.\<close> The Swift app and the Objective-C frameworks (their headers declare interfaces only);
  of leveldb the mutex and condition variables of \<open>db_impl.cc\<close>, compaction, versions and the table cache (they are
  driven by background threads and the directory of the store), the two-level iterator, and the locks, directories and
  scheduling of the environment; of nanopb the anonymous-oneof macros and the portability macros of the compiler.
\<close>

end
